(* ===== verification/Prelude.thy ===== *)
theory Prelude
  imports Main "HOL-Library.Word"
begin

text \<open>
  Shared vocabulary of the development: names for the fixed-width integer types of
  \<^verbatim>\<open>src/src/common/glob_data_types.h\<close>, the collections of simplification rules the component
  theories fill, and the generic facts on words and lists the components use: masks and power-of-two
  moduli, block copies into a buffer (\<^verbatim>\<open>memcpy\<close>), element-wise exclusive or of bit vectors, and
  first-match search in a vector.
\<close>

unbundle bit_operations_syntax

section \<open>Integer types\<close>

type_synonym u8 = "8 word"
type_synonym u16 = "16 word"
type_synonym u32 = "32 word"
type_synonym u64 = "64 word"

text \<open>
  A pointer into an array of bits (one bit per byte, as the Viterbi decoder delivers them) is the
  memory seen from that pointer: the byte at every non-negative offset.  Reads are therefore total,
  and a statement that a routine stays inside its buffer is a statement about which offsets its
  result depends on.
\<close>

type_synonym bit_ptr = "nat \<Rightarrow> u8"

section \<open>Collections of simplification rules\<close>

named_theorems mask_simps \<open>masks and power-of-two moduli on words\<close>
named_theorems blit_simps \<open>block copies into a list\<close>
named_theorems frame_simps \<open>components an operation leaves unchanged\<close>

section \<open>Words and masks\<close>

lemma unat_and_mask [mask_simps]:
  fixes w :: "'a::len word"
  shows "unat (w AND mask n) = unat w mod 2 ^ n"
  by (simp only: take_bit_eq_mask [symmetric] unsigned_take_bit_eq) (simp add: take_bit_eq_mod)

lemma unat_drop_bit [mask_simps]:
  fixes w :: "'a::len word"
  shows "unat (drop_bit n w) = unat w div 2 ^ n"
  by (simp only: unsigned_drop_bit_eq unsigned_take_bit_eq [symmetric] take_bit_word_eq_self order.refl)
    (simp add: drop_bit_eq_div)

lemma unat_power_of_two [mask_simps]:
  assumes "n < LENGTH('a)"
  shows "unat (2 ^ n :: 'a::len word) = 2 ^ n"
proof -
  have "unat (of_nat (2 ^ n) :: 'a word) = 2 ^ n"
    using assms by (simp only: unat_of_nat) simp
  then show ?thesis by simp
qed

lemma unat_minus_mod_power:
  fixes a b :: u32
  assumes "n \<le> 32" and "unat a < 2 ^ n" and "unat b < 2 ^ n"
  shows "unat (a - b) mod 2 ^ n = (unat a + 2 ^ n - unat b) mod 2 ^ n"
proof -
  have "int (unat (a - b)) = (int (unat a) - int (unat b)) mod 2 ^ 32"
    by (simp add: uint_word_ariths unsigned_of_nat flip: uint_nat)
  then have "int (unat (a - b)) mod 2 ^ n = (int (unat a) - int (unat b)) mod 2 ^ n"
    using le_imp_power_dvd [OF assms(1), of "2 :: int"] by (simp add: mod_mod_cancel)
  also have "\<dots> = (int (unat a) - int (unat b) + 2 ^ n) mod 2 ^ n"
    by simp
  also have "\<dots> = int ((unat a + 2 ^ n - unat b) mod 2 ^ n)"
    using assms(3) by (simp add: of_nat_diff of_nat_mod algebra_simps)
  finally have "int (unat (a - b) mod 2 ^ n) = int ((unat a + 2 ^ n - unat b) mod 2 ^ n)"
    by (simp add: of_nat_mod)
  then show ?thesis by simp
qed

lemma unat_plus_mod_power:
  fixes a b :: u32
  assumes "n \<le> 32"
  shows "unat (a + b) mod 2 ^ n = (unat a + unat b) mod 2 ^ n"
proof -
  have "(2::nat) ^ n dvd 2 ^ 32" using assms by (rule le_imp_power_dvd)
  then show ?thesis by (simp add: unat_word_ariths mod_mod_cancel)
qed

lemma mod_add_cancel_nat:
  fixes x y a m :: nat
  shows "(x + a) mod m = (y + a) mod m \<Longrightarrow> x mod m = y mod m"
  by (simp add: nat_mod_eq_iff add.assoc add.left_commute [of _ a])

text \<open>Values below \<open>2 ^ 31\<close> keep their value when a 32-bit word is read as signed.\<close>

lemma sint_small:
  fixes w :: u32
  assumes "unat w < 2 ^ 31"
  shows "sint w = int (unat w)"
proof -
  have up: "uint w < 2 ^ 31" 
    unfolding uint_nat using of_nat_less_iff [where 'a = int, THEN iffD2, OF assms] by simp
  have lo: "- (2 ^ 31) \<le> uint w" by (rule order.trans [of _ 0]) simp_all
  have "signed_take_bit 31 (uint w) = uint w"
    using lo up by (rule signed_take_bit_int_eq_self)
  moreover have "sint w = signed_take_bit (LENGTH(32) - Suc 0) (uint w)" by (rule sint_uint)
  moreover have "LENGTH(32) - Suc 0 = 31" by simp
  ultimately show ?thesis by (simp only: uint_nat)
qed

lemma sless_small:
  fixes v w :: u32
  assumes "unat v < 2 ^ 31" and "unat w < 2 ^ 31"
  shows "v <s w \<longleftrightarrow> unat v < unat w"
  using assms by (simp only: word_sless_alt sint_small of_nat_less_iff)

section \<open>Block copies\<close>

definition blit :: "nat \<Rightarrow> 'a list \<Rightarrow> 'a list \<Rightarrow> 'a list" where
  "blit i ys xs = take i xs @ ys @ drop (i + length ys) xs"

lemma length_blit [blit_simps]: "i + length ys \<le> length xs \<Longrightarrow> length (blit i ys xs) = length xs"
  by (simp add: blit_def)

lemma nth_blit [blit_simps]:
  assumes "i + length ys \<le> length xs" and "j < length xs"
  shows "blit i ys xs ! j = (if i \<le> j \<and> j < i + length ys then ys ! (j - i) else xs ! j)"
  using assms by (auto simp: blit_def nth_append min_def)

lemma blit_Nil [simp]: "i \<le> length xs \<Longrightarrow> blit i [] xs = xs"
  by (simp add: blit_def)

lemma upt_split: "i \<le> j \<Longrightarrow> j \<le> k \<Longrightarrow> [i..<k] = [i..<j] @ [j..<k]"
  using upt_add_eq_append [of i j "k - j"] by simp

section \<open>Bit vectors\<close>

definition xor_list :: "'a::semiring_bit_operations list \<Rightarrow> 'a list \<Rightarrow> 'a list" where
  "xor_list = map2 (XOR)"

lemma length_xor_list [simp]: "length (xor_list xs ys) = min (length xs) (length ys)"
  by (simp add: xor_list_def)

lemma nth_xor_list [simp]:
  "i < length xs \<Longrightarrow> i < length ys \<Longrightarrow> xor_list xs ys ! i = xs ! i XOR ys ! i"
  by (simp add: xor_list_def)

lemma xor_list_cancel:
  fixes xs :: "'a::len word list"
  assumes "length xs = length ys"
  shows "xor_list (xor_list xs ys) ys = xs"
  using assms by (simp add: list_eq_iff_nth_eq xor.assoc)

section \<open>First match in a vector\<close>

text \<open>
  The collections of the FIB decoder are vectors searched from the front; a successful search
  updates the first match in place, an unsuccessful one appends.
\<close>

fun update_first :: "('a \<Rightarrow> bool) \<Rightarrow> ('a \<Rightarrow> 'a) \<Rightarrow> 'a list \<Rightarrow> 'a list" where
  "update_first P f [] = []"
| "update_first P f (x # xs) = (if P x then f x # xs else x # update_first P f xs)"

lemma length_update_first [simp]: "length (update_first P f xs) = length xs"
  by (induction xs) auto

lemma map_update_first [simp]: "(\<And>x. g (f x) = g x) \<Longrightarrow> map g (update_first P f xs) = map g xs"
  by (induction xs) auto

lemma set_update_first: "set (update_first P f xs) \<subseteq> set xs \<union> f ` set xs"
  by (induction xs) auto

end
