(* ===== verification/Ring_Buffer.thy ===== *)
theory Ring_Buffer
  imports Prelude
begin

text \<open>
  The single-producer single-consumer ring buffer of \<^verbatim>\<open>src/src/common/ringbuffer.h\<close>, through which
  samples, audio frames and technical data travel between the threads of the receiver.  The byte
  vector of the source is modelled as its \<^verbatim>\<open>bufferSize\<close> elements of type \<^verbatim>\<open>TElem\<close>; the indices and
  masks stay 32-bit words.  The theory shows that the size computation rounds up to the least power
  of two, that the buffer refines a bounded queue (locale \<open>bounded_fifo\<close>), and that the queue
  discipline survives every interleaving of one producer and one consumer thread.
\<close>

section \<open>The code\<close>

record 'a ring_buffer =
  bufferSize :: u32
  writeIndex :: u32
  readIndex :: u32
  bigMask :: u32
  smallMask :: u32
  buffer :: "'a list"

function round_up_loop :: "u32 \<Rightarrow> u32 \<Rightarrow> u32" where
  "round_up_loop i v =
     (if i \<noteq> 0 \<and> i < 32 then round_up_loop (push_bit 1 i) (v OR drop_bit (unat i) v) else v)"
  by pat_completeness auto
termination
proof (relation "measure (\<lambda>(i, v). 64 - unat i)", goal_cases)
  case 1 then show ?case by simp
next
  case (2 i v)
  then have "0 < unat i" and "unat i < 32"
    by (auto simp: word_less_nat_alt unat_gt_0)
  moreover have "unat (push_bit 1 i) = 2 * unat i"
    using \<open>unat i < 32\<close> by (simp add: push_bit_eq_mult unat_word_ariths)
  ultimately show ?case by simp
qed

declare round_up_loop.simps [simp del]

definition round_up_to_next_power_of_2 :: "u32 \<Rightarrow> u32" where
  "round_up_to_next_power_of_2 iVal = (if iVal = 0 then 1 else round_up_loop 1 (iVal - 1) + 1)"

text \<open>The constructor; \<open>z\<close> is the element of zero bytes that \<^verbatim>\<open>vector::resize\<close> fills in.\<close>

definition RingBuffer :: "'a \<Rightarrow> u32 \<Rightarrow> 'a ring_buffer" where
  "RingBuffer z elementCount =
     (let sz = round_up_to_next_power_of_2 elementCount in
      \<lparr>bufferSize = sz, writeIndex = 0, readIndex = 0, bigMask = push_bit 1 sz - 1,
       smallMask = sz - 1, buffer = replicate (unat sz) z\<rparr>)"

definition get_ring_buffer_read_available :: "'a ring_buffer \<Rightarrow> u32" where
  "get_ring_buffer_read_available rb = (writeIndex rb - readIndex rb) AND bigMask rb"

definition get_ring_buffer_write_available :: "'a ring_buffer \<Rightarrow> u32" where
  "get_ring_buffer_write_available rb = bufferSize rb - get_ring_buffer_read_available rb"

definition flush_ring_buffer :: "'a ring_buffer \<Rightarrow> 'a ring_buffer" where
  "flush_ring_buffer rb = rb\<lparr>writeIndex := 0, readIndex := 0\<rparr>"

definition advance_ring_buffer_write_index :: "'a ring_buffer \<Rightarrow> u32 \<Rightarrow> 'a ring_buffer" where
  "advance_ring_buffer_write_index rb n = rb\<lparr>writeIndex := (writeIndex rb + n) AND bigMask rb\<rparr>"

definition advance_ring_buffer_read_index :: "'a ring_buffer \<Rightarrow> u32 \<Rightarrow> 'a ring_buffer" where
  "advance_ring_buffer_read_index rb n = rb\<lparr>readIndex := (readIndex rb + n) AND bigMask rb\<rparr>"

text \<open>
  A reservation: the number of elements granted, the element offset of the first region, and the
  sizes of the first and second region (the second one starts at element 0).
\<close>

record regions =
  granted :: u32
  start1 :: u32
  size1 :: u32
  size2 :: u32

definition split_regions :: "'a ring_buffer \<Rightarrow> u32 \<Rightarrow> u32 \<Rightarrow> regions" where
  "split_regions rb index n =
     (if index + n > bufferSize rb
      then let firstHalf = bufferSize rb - index in
           \<lparr>granted = n, start1 = index, size1 = firstHalf, size2 = n - firstHalf\<rparr>
      else \<lparr>granted = n, start1 = index, size1 = n, size2 = 0\<rparr>)"

definition get_ring_buffer_write_regions :: "'a ring_buffer \<Rightarrow> u32 \<Rightarrow> regions" where
  "get_ring_buffer_write_regions rb elementCount =
     (let available = get_ring_buffer_write_available rb;
          n = (if elementCount > available then available else elementCount)
      in split_regions rb (writeIndex rb AND smallMask rb) n)"

definition get_ring_buffer_read_regions :: "'a ring_buffer \<Rightarrow> u32 \<Rightarrow> regions" where
  "get_ring_buffer_read_regions rb elementCount =
     (let available = get_ring_buffer_read_available rb;
          n = (if elementCount > available then available else elementCount)
      in split_regions rb (readIndex rb AND smallMask rb) n)"

definition copy_in :: "regions \<Rightarrow> 'a list \<Rightarrow> 'a list \<Rightarrow> 'a list" where
  "copy_in rg xs buf =
     (let n1 = unat (size1 rg); n2 = unat (size2 rg);
          buf1 = blit (unat (start1 rg)) (take n1 xs) buf
      in if 0 <s size2 rg then blit 0 (take n2 (drop n1 xs)) buf1 else buf1)"

definition copy_out :: "regions \<Rightarrow> 'a list \<Rightarrow> 'a list" where
  "copy_out rg buf =
     (let n1 = unat (size1 rg); n2 = unat (size2 rg);
          part1 = take n1 (drop (unat (start1 rg)) buf)
      in if 0 <s size2 rg then part1 @ take n2 buf else part1)"

definition put_data_into_ring_buffer :: "'a ring_buffer \<Rightarrow> 'a list \<Rightarrow> u32 \<Rightarrow> u32 \<times> 'a ring_buffer" where
  "put_data_into_ring_buffer rb xs elementCount =
     (let rg = get_ring_buffer_write_regions rb elementCount;
          rb1 = rb\<lparr>buffer := copy_in rg xs (buffer rb)\<rparr>
      in (granted rg, advance_ring_buffer_write_index rb1 (granted rg)))"

definition get_data_from_ring_buffer :: "'a ring_buffer \<Rightarrow> u32 \<Rightarrow> u32 \<times> 'a list \<times> 'a ring_buffer" where
  "get_data_from_ring_buffer rb elementCount =
     (let rg = get_ring_buffer_read_regions rb elementCount
      in (granted rg, copy_out rg (buffer rb), advance_ring_buffer_read_index rb (granted rg)))"

definition skip_data_in_ring_buffer :: "'a ring_buffer \<Rightarrow> u32 \<Rightarrow> u32 \<times> 'a ring_buffer" where
  "skip_data_in_ring_buffer rb n_values =
     (let n = (if get_ring_buffer_read_available rb <s n_values
               then get_ring_buffer_read_available rb else n_values)
      in (n, advance_ring_buffer_read_index rb n))"

definition get_writable_ring_buffer_segment :: "'a ring_buffer \<Rightarrow> u32 \<Rightarrow> u32 \<times> u32 \<times> u32" where
  "get_writable_ring_buffer_segment rb iElemCnt =
     (let rg = get_ring_buffer_write_regions rb iElemCnt in (granted rg, start1 rg, size1 rg))"

text \<open>The integer fields of \<^verbatim>\<open>SFillState\<close>; the percentage is a floating-point display value.\<close>

record fill_state =
  Filled :: u32
  Free :: u32
  Total :: u32

definition get_fill_state :: "'a ring_buffer \<Rightarrow> fill_state" where
  "get_fill_state rb =
     (let filled = get_ring_buffer_read_available rb in
      \<lparr>Filled = filled, Free = bufferSize rb - filled, Total = bufferSize rb\<rparr>)"


section \<open>Well-formed buffers and their contents\<close>

definition rb_inv :: "nat \<Rightarrow> 'a ring_buffer \<Rightarrow> bool" where
  "rb_inv k rb \<longleftrightarrow>
     k \<le> 30 \<and> bufferSize rb = 2 ^ k \<and> smallMask rb = mask k \<and> bigMask rb = mask (k + 1) \<and>
     length (buffer rb) = 2 ^ k \<and> unat (writeIndex rb) < 2 ^ (k + 1) \<and>
     unat (readIndex rb) < 2 ^ (k + 1) \<and> unat (get_ring_buffer_read_available rb) \<le> 2 ^ k"

definition window :: "'a list \<Rightarrow> nat \<Rightarrow> nat \<Rightarrow> 'a list" where
  "window buf i n = map (\<lambda>j. buf ! ((i + j) mod length buf)) [0..<n]"

definition contents :: "'a ring_buffer \<Rightarrow> 'a list" where
  "contents rb = window (buffer rb) (unat (readIndex rb)) (unat (get_ring_buffer_read_available rb))"

lemma length_window [simp]: "length (window buf i n) = n"
  by (simp add: window_def)

lemma window_0 [simp]: "window buf i 0 = []"
  by (simp add: window_def)

lemma nth_window: "j < n \<Longrightarrow> window buf i n ! j = buf ! ((i + j) mod length buf)"
  by (simp add: window_def)

lemma window_append: "window buf i (m + n) = window buf i m @ window buf (i + m) n"
  by (simp add: list_eq_iff_nth_eq nth_append nth_window ac_simps)

lemma take_window: "n \<le> m \<Longrightarrow> take n (window buf i m) = window buf i n"
  by (simp add: window_def take_map)

lemma drop_window: "n \<le> m \<Longrightarrow> drop n (window buf i m) = window buf (i + n) (m - n)"
  by (simp add: list_eq_iff_nth_eq nth_window ac_simps)

lemma window_mod: "window buf (i mod length buf) n = window buf i n"
  by (simp add: window_def mod_add_left_eq)

lemma window_double_mod:
  "window buf (i mod (2 * length buf)) n = window buf i n"
proof -
  have "i mod (2 * length buf) mod length buf = i mod length buf"
    by (simp add: mod_mod_cancel)
  then show ?thesis by (metis window_mod)
qed

text \<open>Index arithmetic of a well-formed buffer, in natural numbers.\<close>

lemma read_available_unat:
  assumes "rb_inv k rb"
  shows "unat (get_ring_buffer_read_available rb) =
         (unat (writeIndex rb) + 2 ^ (k + 1) - unat (readIndex rb)) mod 2 ^ (k + 1)"
proof -
  from assms have "unat (get_ring_buffer_read_available rb) =
      unat (writeIndex rb - readIndex rb) mod 2 ^ (k + 1)"
    by (simp only: get_ring_buffer_read_available_def rb_inv_def unat_and_mask)
  with assms show ?thesis
    using unat_minus_mod_power [of "k + 1" "writeIndex rb" "readIndex rb"]
    by (simp only: rb_inv_def) simp
qed

lemma write_available_unat:
  assumes "rb_inv k rb"
  shows "unat (get_ring_buffer_write_available rb) =
         2 ^ k - unat (get_ring_buffer_read_available rb)"
proof -
  from assms have sz: "unat (bufferSize rb) = 2 ^ k"
    by (simp add: rb_inv_def unat_power_of_two)
  from assms have "get_ring_buffer_read_available rb \<le> bufferSize rb"
    unfolding word_le_nat_alt sz by (simp add: rb_inv_def)
  then show ?thesis
    by (simp add: get_ring_buffer_write_available_def unat_sub sz)
qed

lemma split_regions_unat:
  assumes "bufferSize rb = 2 ^ k" and "k \<le> 30" and "unat i < 2 ^ k" and "unat n \<le> 2 ^ k"
  defines "rg \<equiv> split_regions rb i n"
  shows "granted rg = n" and "start1 rg = i"
    and "unat (size1 rg) = (if 2 ^ k < unat i + unat n then 2 ^ k - unat i else unat n)"
    and "unat (size2 rg) = (if 2 ^ k < unat i + unat n then unat i + unat n - 2 ^ k else 0)"
proof -
  have k: "(2::nat) ^ k \<le> 2 ^ 30" using assms(2) by (rule power_increasing) simp
  have sz: "unat (bufferSize rb) = 2 ^ k"
    using assms(1,2) by (simp add: unat_power_of_two)
  have sum: "unat (i + n) = unat i + unat n"
    using assms(3,4) k by (intro unat_add_lem [THEN iffD1]) simp
  have wrap: "i + n > bufferSize rb \<longleftrightarrow> 2 ^ k < unat i + unat n"
    by (simp add: word_less_nat_alt sz sum)
  have first: "unat (bufferSize rb - i) = 2 ^ k - unat i"
    using assms(3) by (subst unat_sub) (simp_all add: word_le_nat_alt sz)
  show "granted rg = n" and "start1 rg = i"
    by (simp_all add: rg_def split_regions_def Let_def)
  show "unat (size1 rg) = (if 2 ^ k < unat i + unat n then 2 ^ k - unat i else unat n)"
    by (simp add: rg_def split_regions_def Let_def wrap first del: not_less)
  show "unat (size2 rg) = (if 2 ^ k < unat i + unat n then unat i + unat n - 2 ^ k else 0)"
  proof (cases "2 ^ k < unat i + unat n")
    case True
    then have "unat (n - (bufferSize rb - i)) = unat n - (2 ^ k - unat i)"
      by (subst unat_sub) (simp_all add: word_le_nat_alt first)
    with True assms(3) show ?thesis by (simp add: rg_def split_regions_def Let_def wrap)
  next
    case False
    then show ?thesis by (simp add: rg_def split_regions_def Let_def wrap)
  qed
qed


lemma split_regions_wraps:
  assumes "bufferSize rb = 2 ^ k" and "k \<le> 30" and "unat i < 2 ^ k" and "unat n \<le> 2 ^ k"
  shows "0 <s size2 (split_regions rb i n) \<longleftrightarrow> 2 ^ k < unat i + unat n"
proof -
  have k: "(2::nat) ^ k \<le> 2 ^ 30" using assms(2) by (rule power_increasing) simp
  have "unat (size2 (split_regions rb i n)) \<le> 2 ^ k"
    unfolding split_regions_unat(4) [OF assms] using assms(3,4) by (simp split: if_split) linarith
  with k have "unat (size2 (split_regions rb i n)) < 2 ^ 31" by simp
  then show ?thesis
    using sless_small [of 0 "size2 (split_regions rb i n)"]
    by (simp add: split_regions_unat(4) [OF assms])
qed

text \<open>The two-part copies read and write one window of the ring.\<close>

lemma copy_out_window:
  assumes "bufferSize rb = 2 ^ k" and "k \<le> 30" and "length buf = 2 ^ k"
    and "unat i < 2 ^ k" and "unat n \<le> 2 ^ k"
  shows "copy_out (split_regions rb i n) buf = window buf (unat i) (unat n)"
proof -
  note rg = split_regions_unat [OF assms(1,2,4,5)]
  note pos = split_regions_wraps [OF assms(1,2,4,5)]
  have "copy_out (split_regions rb i n) buf ! j = window buf (unat i) (unat n) ! j"
    if "j < unat n" for j
  proof (cases "unat i + j < 2 ^ k")
    case True
    with that assms(3,4,5) show ?thesis
      by (auto simp: copy_out_def Let_def pos rg nth_append nth_window)
  next
    case False
    with assms(4,5) that have "(unat i + j) mod 2 ^ k = unat i + j - 2 ^ k"
      by (simp add: mod_if)
    with False that assms(3,4,5) show ?thesis
      by (auto simp: copy_out_def Let_def pos rg nth_append nth_window add.commute)
  qed
  moreover have "length (copy_out (split_regions rb i n) buf) = unat n"
    using assms(3,4,5) by (auto simp: copy_out_def Let_def pos rg)
  ultimately show ?thesis by (simp add: list_eq_iff_nth_eq)
qed

lemma copy_in_nth:
  assumes "bufferSize rb = 2 ^ k" and "k \<le> 30" and "length buf = 2 ^ k"
    and "unat i < 2 ^ k" and "unat n \<le> 2 ^ k" and "unat n \<le> length xs"
  shows "length (copy_in (split_regions rb i n) xs buf) = 2 ^ k"
    and "j < 2 ^ k \<Longrightarrow> copy_in (split_regions rb i n) xs buf ! ((unat i + j) mod 2 ^ k) =
      (if j < unat n then xs ! j else buf ! ((unat i + j) mod 2 ^ k))"
proof -
  note rg = split_regions_unat [OF assms(1,2,4,5)]
  note pos = split_regions_wraps [OF assms(1,2,4,5)]
  show "length (copy_in (split_regions rb i n) xs buf) = 2 ^ k"
    using assms(3,4,5,6) by (auto simp: copy_in_def Let_def pos rg length_blit)
  assume j: "j < 2 ^ k"
  consider (fst) "unat i + j < 2 ^ k" "(unat i + j) mod 2 ^ k = unat i + j"
    | (snd) "2 ^ k \<le> unat i + j" "(unat i + j) mod 2 ^ k = unat i + j - 2 ^ k"
    using assms(4) j by (cases "unat i + j < 2 ^ k") (auto simp: mod_if)
  then show "copy_in (split_regions rb i n) xs buf ! ((unat i + j) mod 2 ^ k) =
      (if j < unat n then xs ! j else buf ! ((unat i + j) mod 2 ^ k))"
    using assms(3,4,5,6) j
    by cases (auto simp: copy_in_def Let_def pos rg length_blit nth_blit)
qed

lemma window_copy_in:
  assumes "bufferSize rb = 2 ^ k" and "k \<le> 30" and "length buf = 2 ^ k"
    and "unat i < 2 ^ k" and "unat n \<le> 2 ^ k" and "unat n \<le> length xs"
  defines "buf' \<equiv> copy_in (split_regions rb i n) xs buf"
  shows "window buf' (unat i) (unat n) = take (unat n) xs"
    and "m + unat n \<le> 2 ^ k \<Longrightarrow> window buf' (unat i + unat n) m = window buf (unat i + unat n) m"
proof -
  note ci = copy_in_nth [OF assms(1-6), folded buf'_def]
  show "window buf' (unat i) (unat n) = take (unat n) xs"
    using assms(5,6) by (simp add: list_eq_iff_nth_eq nth_window ci)
  show "window buf' (unat i + unat n) m = window buf (unat i + unat n) m"
    if "m + unat n \<le> 2 ^ k"
    using that assms(3) by (simp add: list_eq_iff_nth_eq nth_window ci add.assoc)
qed


lemma window_cong:
  "i mod length buf = j mod length buf \<Longrightarrow> window buf i n = window buf j n"
  by (metis window_mod)

section \<open>Each operation on the contents\<close>

lemma write_index_eq:
  assumes "rb_inv k rb"
  shows "(unat (readIndex rb) + unat (get_ring_buffer_read_available rb)) mod 2 ^ (k + 1) =
         unat (writeIndex rb)"
proof -
  from assms have r: "unat (readIndex rb) < 2 ^ (k + 1)" and w: "unat (writeIndex rb) < 2 ^ (k + 1)"
    by (simp_all add: rb_inv_def)
  have "(unat (readIndex rb) + (unat (writeIndex rb) + 2 ^ (k + 1) - unat (readIndex rb))) mod 2 ^ (k + 1) =
      unat (writeIndex rb)"
    using r w by simp
  then show ?thesis
    by (simp only: read_available_unat [OF assms] mod_add_right_eq)
qed

lemma rb_inv_write_offset:
  assumes "rb_inv k rb"
  shows "unat (writeIndex rb AND smallMask rb) < 2 ^ k"
    and "unat (writeIndex rb AND smallMask rb) mod 2 ^ k =
      (unat (readIndex rb) + unat (get_ring_buffer_read_available rb)) mod 2 ^ k"
proof -
  from assms have m: "unat (writeIndex rb AND smallMask rb) = unat (writeIndex rb) mod 2 ^ k"
    by (simp only: rb_inv_def unat_and_mask)
  then show "unat (writeIndex rb AND smallMask rb) < 2 ^ k" by simp
  show "unat (writeIndex rb AND smallMask rb) mod 2 ^ k =
      (unat (readIndex rb) + unat (get_ring_buffer_read_available rb)) mod 2 ^ k"
    unfolding m write_index_eq [OF assms, symmetric] by (simp add: mod_mod_cancel)
qed

lemma read_available_unique:
  assumes "k \<le> 30" and "bigMask rb = mask (k + 1)" and "unat (readIndex rb) < 2 ^ (k + 1)"
    and "unat (writeIndex rb) = (unat (readIndex rb) + x) mod 2 ^ (k + 1)" and "x < 2 ^ (k + 1)"
  shows "unat (get_ring_buffer_read_available rb) = x"
proof -
  have "unat (get_ring_buffer_read_available rb) =
      (unat (writeIndex rb) + (2 ^ (k + 1) - unat (readIndex rb))) mod 2 ^ (k + 1)"
    using assms(1,3,4) unat_minus_mod_power [of "k + 1" "writeIndex rb" "readIndex rb"]
    by (simp only: get_ring_buffer_read_available_def assms(2) unat_and_mask) simp
  also have "\<dots> = (unat (readIndex rb) + x + (2 ^ (k + 1) - unat (readIndex rb))) mod 2 ^ (k + 1)"
    unfolding assms(4) by (simp only: mod_add_left_eq)
  also have "\<dots> = (x + 2 ^ (k + 1)) mod 2 ^ (k + 1)"
    using assms(3) by simp
  finally show ?thesis using assms(5) by simp
qed

lemma advance_write_available:
  assumes "rb_inv k rb" and "unat (get_ring_buffer_read_available rb) + unat n \<le> 2 ^ k"
    and "length buf = 2 ^ k"
  defines "rb' \<equiv> advance_ring_buffer_write_index (rb\<lparr>buffer := buf\<rparr>) n"
  shows "unat (get_ring_buffer_read_available rb') = unat (get_ring_buffer_read_available rb) + unat n"
    and "rb_inv k rb'"
proof -
  have inv: "k \<le> 30" "bigMask rb = mask (k + 1)" using assms(1) by (simp_all add: rb_inv_def)
  have w': "unat (writeIndex rb') =
      (unat (readIndex rb) + (unat (get_ring_buffer_read_available rb) + unat n)) mod 2 ^ (k + 1)"
    using inv unat_plus_mod_power [of "k + 1" "writeIndex rb" n] write_index_eq [OF assms(1)]
    by (simp only: rb'_def advance_ring_buffer_write_index_def)
      (simp add: unat_and_mask add.assoc [symmetric] mod_add_left_eq
        flip: write_index_eq [OF assms(1)])
  have lt: "unat (get_ring_buffer_read_available rb) + unat n < 2 ^ (k + 1)"
    using le_less_trans [OF assms(2), of "2 ^ (k + 1)"] by simp
  show av: "unat (get_ring_buffer_read_available rb') =
      unat (get_ring_buffer_read_available rb) + unat n"
    using assms(1) w' lt
    by (intro read_available_unique [where k = k])
      (simp_all add: rb_inv_def rb'_def advance_ring_buffer_write_index_def)
  show "rb_inv k rb'"
    using assms(1-3) av w' unfolding rb_inv_def
    by (simp add: rb'_def advance_ring_buffer_write_index_def)
qed

lemma advance_read_available:
  assumes "rb_inv k rb" and "unat n \<le> unat (get_ring_buffer_read_available rb)"
  defines "rb' \<equiv> advance_ring_buffer_read_index rb n"
  shows "unat (get_ring_buffer_read_available rb') = unat (get_ring_buffer_read_available rb) - unat n"
    and "rb_inv k rb'" and "contents rb' = drop (unat n) (contents rb)"
proof -
  have inv: "k \<le> 30" "bigMask rb = mask (k + 1)" using assms(1) by (simp_all add: rb_inv_def)
  have r': "unat (readIndex rb') = (unat (readIndex rb) + unat n) mod 2 ^ (k + 1)"
    using inv unat_plus_mod_power [of "k + 1" "readIndex rb" n]
    by (simp only: rb'_def advance_ring_buffer_read_index_def) (simp add: unat_and_mask)
  have w: "unat (writeIndex rb') =
      (unat (readIndex rb') + (unat (get_ring_buffer_read_available rb) - unat n)) mod 2 ^ (k + 1)"
  proof -
    have "unat (readIndex rb) + unat n + (unat (get_ring_buffer_read_available rb) - unat n) =
        unat (readIndex rb) + unat (get_ring_buffer_read_available rb)"
      using assms(2) by simp
    then show ?thesis
      unfolding r' mod_add_left_eq
      by (simp add: write_index_eq [OF assms(1), simplified] rb'_def advance_ring_buffer_read_index_def)
  qed
  have "unat (get_ring_buffer_read_available rb) - unat n \<le> 2 ^ k"
    using assms(1) by (simp add: rb_inv_def le_diff_conv trans_le_add1)
  also have "(2::nat) ^ k < 2 ^ (k + 1)" by simp
  finally have lt: "unat (get_ring_buffer_read_available rb) - unat n < 2 ^ (k + 1)" .
  show av: "unat (get_ring_buffer_read_available rb') =
      unat (get_ring_buffer_read_available rb) - unat n"
    using assms(1) w r' lt
    by (intro read_available_unique [where k = k])
      (simp_all add: rb_inv_def rb'_def advance_ring_buffer_read_index_def)
  show "rb_inv k rb'"
    using assms(1,2) av r' unfolding rb_inv_def
    by (simp add: rb'_def advance_ring_buffer_read_index_def le_diff_conv trans_le_add1)
  have "length (buffer rb) = 2 ^ k" using assms(1) by (simp add: rb_inv_def)
  then have "window (buffer rb) (unat (readIndex rb')) m =
      window (buffer rb) (unat (readIndex rb) + unat n) m" for m
    unfolding r' using window_double_mod [of "buffer rb"] by simp
  then show "contents rb' = drop (unat n) (contents rb)"
    using assms(2) unfolding contents_def av
    by (simp add: drop_window rb'_def advance_ring_buffer_read_index_def)
qed


text \<open>Writing into the free part leaves the contents alone; publishing the index extends them.\<close>

abbreviation write_offset :: "'a ring_buffer \<Rightarrow> u32" where
  "write_offset rb \<equiv> writeIndex rb AND smallMask rb"

abbreviation fill_in :: "'a ring_buffer \<Rightarrow> u32 \<Rightarrow> 'a list \<Rightarrow> 'a ring_buffer" where
  "fill_in rb c xs \<equiv> rb\<lparr>buffer := copy_in (split_regions rb (write_offset rb) c) xs (buffer rb)\<rparr>"

lemma copy_in_contents:
  assumes inv: "rb_inv k rb" and room: "unat (get_ring_buffer_read_available rb) + unat c \<le> 2 ^ k"
    and data: "unat c \<le> length xs"
  shows "rb_inv k (fill_in rb c xs)" and "contents (fill_in rb c xs) = contents rb"
    and "window (buffer (fill_in rb c xs)) (unat (write_offset rb)) (unat c) = take (unat c) xs"
proof -
  define i buf a where "i = write_offset rb"
    and "buf = copy_in (split_regions rb i c) xs (buffer rb)"
    and "a = unat (get_ring_buffer_read_available rb)"
  have sz: "bufferSize rb = 2 ^ k" "k \<le> 30" "length (buffer rb) = 2 ^ k"
    using inv by (simp_all add: rb_inv_def)
  have i: "unat i < 2 ^ k" and imod: "unat i mod 2 ^ k = (unat (readIndex rb) + a) mod 2 ^ k"
    using rb_inv_write_offset [OF inv] by (simp_all add: i_def a_def)
  have c: "unat c \<le> 2 ^ k" using room by simp
  note ci = copy_in_nth(1) [OF sz i c data, folded buf_def]
  note wi = window_copy_in [OF sz i c data, folded buf_def]
  show "window (buffer (fill_in rb c xs)) (unat (write_offset rb)) (unat c) = take (unat c) xs"
    using wi(1) by (simp add: buf_def i_def)
  show "rb_inv k (fill_in rb c xs)"
    using inv ci by (auto simp: rb_inv_def get_ring_buffer_read_available_def buf_def i_def)
  define d where "d = 2 ^ k - (a + unat c)"
  have "window buf (unat i + unat c + d) a = window (buffer rb) (unat i + unat c + d) a"
    using arg_cong [OF wi(2) [of "a + d"], of "drop d"] room by (simp add: drop_window d_def a_def)
  moreover have "(unat i + unat c + d) mod 2 ^ k = unat (readIndex rb) mod 2 ^ k"
  proof -
    have "(unat i + unat c + d + a) mod 2 ^ k = (unat i + 2 ^ k) mod 2 ^ k"
      using room by (simp add: d_def a_def)
    also have "\<dots> = (unat (readIndex rb) + a) mod 2 ^ k" using imod by simp
    finally show ?thesis by (rule mod_add_cancel_nat)
  qed
  ultimately have "window buf (unat (readIndex rb)) a = window (buffer rb) (unat (readIndex rb)) a"
    using window_cong [of "unat i + unat c + d" buf] window_cong [of "unat i + unat c + d" "buffer rb"]
    by (simp add: ci sz(3))
  then show "contents (fill_in rb c xs) = contents rb"
    by (simp add: contents_def get_ring_buffer_read_available_def a_def buf_def i_def)
qed

lemma advance_write_contents:
  assumes inv: "rb_inv k rb" and room: "unat (get_ring_buffer_read_available rb) + unat c \<le> 2 ^ k"
  shows "rb_inv k (advance_ring_buffer_write_index rb c)"
    and "contents (advance_ring_buffer_write_index rb c) =
      contents rb @ window (buffer rb) (unat (write_offset rb)) (unat c)"
proof -
  have len: "length (buffer rb) = 2 ^ k" using inv by (simp add: rb_inv_def)
  note av = advance_write_available [OF inv room len, simplified]
  show "rb_inv k (advance_ring_buffer_write_index rb c)" by (rule av(2))
  have "window (buffer rb) (unat (readIndex rb) + unat (get_ring_buffer_read_available rb)) (unat c) =
      window (buffer rb) (unat (write_offset rb)) (unat c)"
    using rb_inv_write_offset(2) [OF inv] len by (intro window_cong) simp
  then show "contents (advance_ring_buffer_write_index rb c) =
      contents rb @ window (buffer rb) (unat (write_offset rb)) (unat c)"
    using av(1) by (simp add: contents_def window_append)
      (simp add: advance_ring_buffer_write_index_def window_append)
qed

lemma put_data_contents:
  assumes inv: "rb_inv k rb"
    and data: "min (unat n) (2 ^ k - length (contents rb)) \<le> length xs"
  defines "m \<equiv> min (unat n) (2 ^ k - length (contents rb))"
  shows "unat (fst (put_data_into_ring_buffer rb xs n)) = m"
    and "rb_inv k (snd (put_data_into_ring_buffer rb xs n))"
    and "contents (snd (put_data_into_ring_buffer rb xs n)) = contents rb @ take m xs"
proof -
  define c where "c = (if n > get_ring_buffer_write_available rb
    then get_ring_buffer_write_available rb else n)"
  have len: "length (contents rb) = unat (get_ring_buffer_read_available rb)"
    by (simp add: contents_def)
  have c: "unat c = m"
    using write_available_unat [OF inv] by (auto simp: c_def m_def len word_less_nat_alt)
  have room: "unat (get_ring_buffer_read_available rb) + unat c \<le> 2 ^ k"
    using inv unfolding c m_def len rb_inv_def by linarith
  have data': "unat c \<le> length xs" using data by (simp only: c m_def)
  have put: "put_data_into_ring_buffer rb xs n = (c, advance_ring_buffer_write_index (fill_in rb c xs) c)"
    by (simp add: put_data_into_ring_buffer_def get_ring_buffer_write_regions_def split_regions_def
        Let_def c_def del: not_less)
  note fi = copy_in_contents [OF inv room data']
  have "unat (get_ring_buffer_read_available (fill_in rb c xs)) + unat c \<le> 2 ^ k"
    using room by (simp add: get_ring_buffer_read_available_def)
  note aw = advance_write_contents [OF fi(1) this]
  show "unat (fst (put_data_into_ring_buffer rb xs n)) = m" by (simp add: put c)
  show "rb_inv k (snd (put_data_into_ring_buffer rb xs n))" using aw(1) by (simp add: put)
  show "contents (snd (put_data_into_ring_buffer rb xs n)) = contents rb @ take m xs"
    using aw(2) fi(2,3) by (simp add: put c)
qed

lemma get_data_contents:
  fixes n :: u32
  assumes inv: "rb_inv k rb"
  defines "m \<equiv> min (unat n) (length (contents rb))"
  shows "unat (fst (get_data_from_ring_buffer rb n)) = m"
    and "fst (snd (get_data_from_ring_buffer rb n)) = take m (contents rb)"
    and "rb_inv k (snd (snd (get_data_from_ring_buffer rb n)))"
    and "contents (snd (snd (get_data_from_ring_buffer rb n))) = drop m (contents rb)"
proof -
  define c where "c = (if n > get_ring_buffer_read_available rb
    then get_ring_buffer_read_available rb else n)"
  define i where "i = readIndex rb AND smallMask rb"
  have sz: "bufferSize rb = 2 ^ k" "k \<le> 30" "length (buffer rb) = 2 ^ k"
    using inv by (simp_all add: rb_inv_def)
  have len: "length (contents rb) = unat (get_ring_buffer_read_available rb)"
    by (simp add: contents_def)
  have c: "unat c = m" by (auto simp: c_def m_def len word_less_nat_alt)
  have av: "unat c \<le> unat (get_ring_buffer_read_available rb)" by (simp add: c m_def len)
  then have c2: "unat c \<le> 2 ^ k" using inv by (auto simp: rb_inv_def)
  have i: "unat i = unat (readIndex rb) mod 2 ^ k"
    using inv by (simp only: i_def rb_inv_def unat_and_mask)
  then have i2: "unat i < 2 ^ k" by simp
  have get: "get_data_from_ring_buffer rb n =
      (c, copy_out (split_regions rb i c) (buffer rb), advance_ring_buffer_read_index rb c)"
    using split_regions_unat(1) [OF sz(1,2) i2 c2]
    by (simp add: get_data_from_ring_buffer_def get_ring_buffer_read_regions_def Let_def
        c_def i_def del: not_less)
  show "unat (fst (get_data_from_ring_buffer rb n)) = m" by (simp add: get c)
  have "copy_out (split_regions rb i c) (buffer rb) = window (buffer rb) (unat (readIndex rb)) m"
    using copy_out_window [OF sz i2 c2] window_mod [of "buffer rb" "unat (readIndex rb)" m]
    by (simp add: c i sz(3))
  then show "fst (snd (get_data_from_ring_buffer rb n)) = take m (contents rb)"
    using av by (simp add: get contents_def take_window c)
  show "rb_inv k (snd (snd (get_data_from_ring_buffer rb n)))"
    and "contents (snd (snd (get_data_from_ring_buffer rb n))) = drop m (contents rb)"
    using advance_read_available [OF inv av] by (simp_all add: get c)
qed

lemma skip_data_contents:
  assumes inv: "rb_inv k rb" and small: "unat n < 2 ^ 31"
  defines "m \<equiv> min (unat n) (length (contents rb))"
  shows "unat (fst (skip_data_in_ring_buffer rb n)) = m"
    and "rb_inv k (snd (skip_data_in_ring_buffer rb n))"
    and "contents (snd (skip_data_in_ring_buffer rb n)) = drop m (contents rb)"
proof -
  define a where "a = get_ring_buffer_read_available rb"
  have "unat a \<le> 2 ^ k" "k \<le> 30" using inv by (simp_all add: rb_inv_def a_def)
  then have "unat a < 2 ^ 31"
    using power_increasing [of k 30 "2 :: nat"] by simp
  then have lt: "a <s n \<longleftrightarrow> unat a < unat n" using small by (rule sless_small)
  define c where "c = (if a <s n then a else n)"
  have c: "unat c = m" using lt by (auto simp: c_def m_def contents_def a_def)
  then have av: "unat c \<le> unat (get_ring_buffer_read_available rb)"
    by (simp add: m_def contents_def)
  have skip: "skip_data_in_ring_buffer rb n = (c, advance_ring_buffer_read_index rb c)"
    by (simp add: skip_data_in_ring_buffer_def Let_def c_def a_def)
  show "unat (fst (skip_data_in_ring_buffer rb n)) = m" by (simp add: skip c)
  show "rb_inv k (snd (skip_data_in_ring_buffer rb n))"
    and "contents (snd (skip_data_in_ring_buffer rb n)) = drop m (contents rb)"
    using advance_read_available [OF inv av] by (simp_all add: skip c)
qed

lemma flush_contents:
  assumes "rb_inv k rb"
  shows "rb_inv k (flush_ring_buffer rb)" and "contents (flush_ring_buffer rb) = []"
  using assms
  by (simp_all add: rb_inv_def flush_ring_buffer_def contents_def get_ring_buffer_read_available_def)


section \<open>The buffer size is the least power of two\<close>

text \<open>
  After the smearing loop a bit is set exactly when it or a higher bit was set at the start.
\<close>

definition smeared :: "nat \<Rightarrow> u32 \<Rightarrow> u32 \<Rightarrow> bool" where
  "smeared d v w \<longleftrightarrow> (\<forall>n. bit w n \<longleftrightarrow> (\<exists>j<d. bit v (n + j)))"

lemma smeared_step:
  assumes "smeared d v w"
  shows "smeared (2 * d) v (w OR drop_bit d w)"
proof -
  have "(\<exists>j<d. bit v (n + j)) \<or> (\<exists>j<d. bit v (d + n + j)) \<longleftrightarrow> (\<exists>j<2 * d. bit v (n + j))" for n
  proof
    assume "(\<exists>j<d. bit v (n + j)) \<or> (\<exists>j<d. bit v (d + n + j))"
    then show "\<exists>j<2 * d. bit v (n + j)"
    proof
      assume "\<exists>j<d. bit v (n + j)"
      then obtain j where "j < d" "bit v (n + j)" by blast
      then show ?thesis by (intro exI [of _ j]) simp
    next
      assume "\<exists>j<d. bit v (d + n + j)"
      then obtain j where "j < d" "bit v (n + (d + j))" by (auto simp: ac_simps)
      then show ?thesis by (intro exI [of _ "d + j"]) simp
    qed
  next
    assume "\<exists>j<2 * d. bit v (n + j)"
    then obtain j where j: "j < 2 * d" "bit v (n + j)" by blast
    show "(\<exists>j<d. bit v (n + j)) \<or> (\<exists>j<d. bit v (d + n + j))"
    proof (cases "j < d")
      case False
      with j have "j - d < d" "bit v (d + n + (j - d))" by (simp_all add: ac_simps)
      then show ?thesis by blast
    qed (use j in blast)
  qed
  with assms show ?thesis
    by (simp add: smeared_def bit_or_iff bit_drop_bit_eq)
qed

lemma round_up_loop_smears: "smeared 32 v (round_up_loop 1 v)"
proof -
  have start: "smeared 1 v v" by (simp add: smeared_def)
  have unroll: "round_up_loop 1 v =
      (let v1 = v OR drop_bit 1 v; v2 = v1 OR drop_bit 2 v1; v3 = v2 OR drop_bit 4 v2;
           v4 = v3 OR drop_bit 8 v3 in v4 OR drop_bit 16 v4)"
    by (simp add: round_up_loop.simps [of 1] round_up_loop.simps [of 2] round_up_loop.simps [of 4]
        round_up_loop.simps [of 8] round_up_loop.simps [of 16] round_up_loop.simps [of 32] Let_def)
  show ?thesis
    unfolding unroll Let_def
    using smeared_step [OF smeared_step [OF smeared_step [OF smeared_step [OF smeared_step [OF start]]]]]
    by simp
qed

lemma round_up_loop_mask:
  fixes v :: u32
  assumes "unat v < 2 ^ k" and "k \<le> 32" and "k = 0 \<or> 2 ^ (k - 1) \<le> unat v"
  shows "round_up_loop 1 v = mask k"
proof (rule bit_word_eqI)
  fix n assume n: "n < LENGTH(32)"
  have bit_unat: "bit v m \<longleftrightarrow> odd (unat v div 2 ^ m)" for m
    by (simp add: bit_unsigned_iff flip: bit_iff_odd)
  have high: "\<not> bit v m" if "k \<le> m" for m
  proof -
    have "unat v < 2 ^ m" using assms(1) that by (meson order.strict_trans2 power_increasing one_le_numeral)
    then show ?thesis by (simp add: bit_unat)
  qed
  have top: "bit v (k - 1)" if "0 < k"
  proof -
    have "unat v div 2 ^ (k - 1) = 1"
      using assms that by (simp add: div_nat_eqI power_eq_if split: if_splits)
    then show ?thesis by (simp add: bit_unat)
  qed
  have "(\<exists>j<32. bit v (n + j)) \<longleftrightarrow> n < k"
  proof
    assume "\<exists>j<32. bit v (n + j)" then show "n < k" using high by (meson not_less trans_le_add1)
  next
    assume "n < k"
    with assms(2) have "k - 1 - n < 32" "n + (k - 1 - n) = k - 1" by auto
    with top \<open>n < k\<close> show "\<exists>j<32. bit v (n + j)" by (metis gr_implies_not_zero gr_zeroI)
  qed
  then show "bit (round_up_loop 1 v) n = bit (mask k :: u32) n"
    using round_up_loop_smears [of v] n by (simp add: smeared_def bit_mask_iff)
qed


lemma ex_power_bracket:
  obtains k where "n < 2 ^ k" and "k = 0 \<or> 2 ^ (k - 1) \<le> (n::nat)"
proof -
  define k where "k = (LEAST k. n < 2 ^ k)"
  have "n < 2 ^ k" unfolding k_def by (rule LeastI [of _ n]) (rule less_exp)
  moreover have "2 ^ (k - 1) \<le> n" if "k \<noteq> 0"
    using not_less_Least [of "k - 1" "\<lambda>k. n < 2 ^ k"] that by (simp add: k_def)
  ultimately show ?thesis by (intro that [of k]) auto
qed

lemma round_up_bracket:
  assumes "iVal \<noteq> 0" and "unat iVal - 1 < 2 ^ k" and "k \<le> 32"
    and "k = 0 \<or> 2 ^ (k - 1) \<le> unat iVal - 1"
  shows "round_up_to_next_power_of_2 iVal = (if k = 32 then 0 else 2 ^ k)"
proof -
  have "unat (iVal - 1) = unat iVal - 1" using assms(1) by (simp add: unat_minus_one)
  with assms have "round_up_loop 1 (iVal - 1) = mask k"
    by (intro round_up_loop_mask) simp_all
  moreover have "mask k + 1 = (2 :: u32) ^ k" by (simp add: mask_eq_exp_minus_1)
  moreover have "(2 :: u32) ^ 32 = 0" by simp
  ultimately show ?thesis using assms(1) by (simp add: round_up_to_next_power_of_2_def)
qed

lemma RingBuffer_inv:
  assumes "unat n \<le> 2 ^ 30"
  obtains k where "rb_inv k (RingBuffer z n)" and "unat n \<le> 2 ^ k"
    and "contents (RingBuffer z n) = []"
proof (cases "n = 0")
  case True
  then have "rb_inv 0 (RingBuffer z n)" and "contents (RingBuffer z n) = []"
    by (simp_all add: rb_inv_def RingBuffer_def round_up_to_next_power_of_2_def Let_def contents_def
        get_ring_buffer_read_available_def mask_eq_exp_minus_1 push_bit_eq_mult)
  with True show ?thesis using that [of 0] by simp
next
  case False
  obtain k where k: "unat n - 1 < 2 ^ k" "k = 0 \<or> 2 ^ (k - 1) \<le> unat n - 1"
    by (rule ex_power_bracket)
  have "k \<le> 30"
  proof (rule ccontr)
    assume "\<not> k \<le> 30"
    then have "(2::nat) ^ 30 \<le> 2 ^ (k - 1)" by (intro power_increasing) simp_all
    with k(2) assms \<open>\<not> k \<le> 30\<close> show False by auto
  qed
  then have sz: "round_up_to_next_power_of_2 n = 2 ^ k"
    using round_up_bracket [OF False k(1) _ k(2)] by simp
  have "push_bit 1 (2 ^ k :: u32) = 2 ^ (k + 1)" by (simp add: push_bit_eq_mult)
  then have "rb_inv k (RingBuffer z n)" and "contents (RingBuffer z n) = []"
    using \<open>k \<le> 30\<close>
    by (simp_all add: rb_inv_def RingBuffer_def sz Let_def contents_def unat_power_of_two
        get_ring_buffer_read_available_def mask_eq_exp_minus_1)
  moreover have "unat n \<le> 2 ^ k" using k(1) False by simp
  ultimately show ?thesis using that by blast
qed

section \<open>The queue interface\<close>

text \<open>
  What the clients of the buffer rely on: a bounded queue.  \<open>num\<close> reads the element counts the
  operations exchange.
\<close>

locale bounded_fifo =
  fixes inv :: "'q \<Rightarrow> bool" and cap :: "'q \<Rightarrow> nat" and items :: "'q \<Rightarrow> 'a list"
    and num :: "'n \<Rightarrow> nat"
    and put :: "'q \<Rightarrow> 'a list \<Rightarrow> 'n \<Rightarrow> 'n \<times> 'q"
    and get :: "'q \<Rightarrow> 'n \<Rightarrow> 'n \<times> 'a list \<times> 'q"
  assumes items_cap: "inv q \<Longrightarrow> length (items q) \<le> cap q"
    and put_inv: "inv q \<Longrightarrow> num n \<le> length xs \<Longrightarrow> inv (snd (put q xs n))"
    and put_cap: "cap (snd (put q xs n)) = cap q"
    and put_num: "inv q \<Longrightarrow> num n \<le> length xs \<Longrightarrow>
      num (fst (put q xs n)) = min (num n) (cap q - length (items q))"
    and put_items: "inv q \<Longrightarrow> num n \<le> length xs \<Longrightarrow>
      items (snd (put q xs n)) = items q @ take (num (fst (put q xs n))) xs"
    and get_inv: "inv q \<Longrightarrow> inv (snd (snd (get q n)))"
    and get_cap: "cap (snd (snd (get q n))) = cap q"
    and get_num: "inv q \<Longrightarrow> num (fst (get q n)) = min (num n) (length (items q))"
    and get_data: "inv q \<Longrightarrow> fst (snd (get q n)) = take (num (fst (get q n))) (items q)"
    and get_items: "inv q \<Longrightarrow> items (snd (snd (get q n))) = drop (num (fst (get q n))) (items q)"

datatype ('a, 'n) fifo_op = Put "'a list" 'n | Get 'n

text \<open>
  A run of operations: the data accepted so far, the data delivered so far and the queue.
\<close>

fun fifo_run :: "('q \<Rightarrow> 'a list \<Rightarrow> 'n \<Rightarrow> 'n \<times> 'q) \<Rightarrow> ('q \<Rightarrow> 'n \<Rightarrow> 'n \<times> 'a list \<times> 'q) \<Rightarrow>
    ('n \<Rightarrow> nat) \<Rightarrow> ('a, 'n) fifo_op list \<Rightarrow> 'a list \<times> 'a list \<times> 'q \<Rightarrow> 'a list \<times> 'a list \<times> 'q" where
  "fifo_run put get num [] s = s"
| "fifo_run put get num (Put xs n # ops) (acc, del, q) =
     fifo_run put get num ops (acc @ take (num (fst (put q xs n))) xs, del, snd (put q xs n))"
| "fifo_run put get num (Get n # ops) (acc, del, q) =
     fifo_run put get num ops (acc, del @ fst (snd (get q n)), snd (snd (get q n)))"

fun op_ok :: "('n \<Rightarrow> nat) \<Rightarrow> ('a, 'n) fifo_op \<Rightarrow> bool" where
  "op_ok num (Put xs n) \<longleftrightarrow> num n \<le> length xs"
| "op_ok num (Get n) \<longleftrightarrow> True"

context bounded_fifo
begin

lemma put_get:
  assumes "inv q" and "items q = []" and "num n = length xs" and "length xs \<le> cap q"
  shows "fst (snd (get (snd (put q xs n)) n)) = xs"
    and "items (snd (snd (get (snd (put q xs n)) n))) = []"
proof -
  note p = put_inv [of q n xs] put_num [of q n xs] put_items [of q n xs]
  show "fst (snd (get (snd (put q xs n)) n)) = xs"
    and "items (snd (snd (get (snd (put q xs n)) n))) = []"
    using assms p by (simp_all add: get_data get_num get_items)
qed

lemma run_fifo:
  assumes "inv q" and "list_all (op_ok num) ops" and "acc = del @ items q"
  shows "case fifo_run put get num ops (acc, del, q) of (acc', del', q') \<Rightarrow>
    inv q' \<and> cap q' = cap q \<and> acc' = del' @ items q'"
  using assms
proof (induction ops arbitrary: acc del q)
  case Nil
  then show ?case by simp
next
  case (Cons op ops)
  show ?case
  proof (cases op)
    case (Put xs n)
    with Cons.prems have "num n \<le> length xs" by simp
    with Cons.prems Put Cons.IH [of "snd (put q xs n)"] show ?thesis
      by (simp add: put_inv put_items put_cap)
  next
    case (Get n)
    with Cons.prems Cons.IH [where q = "snd (snd (get q n))" and acc = acc
        and del = "del @ fst (snd (get q n))"] show ?thesis
      by (simp add: get_inv get_items get_cap get_data)
  qed
qed

end

definition rb_ok :: "'a ring_buffer \<Rightarrow> bool" where
  "rb_ok rb \<longleftrightarrow> (\<exists>k. rb_inv k rb)"

definition rb_capacity :: "'a ring_buffer \<Rightarrow> nat" where
  "rb_capacity rb = unat (bufferSize rb)"

lemma rb_inv_capacity: "rb_inv k rb \<Longrightarrow> rb_capacity rb = 2 ^ k"
  by (simp add: rb_capacity_def rb_inv_def unat_power_of_two)

lemma bufferSize_frame [frame_simps]:
  "bufferSize (snd (put_data_into_ring_buffer rb xs n)) = bufferSize rb"
  "bufferSize (snd (snd (get_data_from_ring_buffer rb n))) = bufferSize rb"
  by (simp_all add: put_data_into_ring_buffer_def get_data_from_ring_buffer_def Let_def
      advance_ring_buffer_write_index_def advance_ring_buffer_read_index_def)

interpretation rbq: bounded_fifo rb_ok rb_capacity contents unat
  put_data_into_ring_buffer get_data_from_ring_buffer
proof (unfold_locales, goal_cases)
  case (1 q)
  then obtain k where "rb_inv k q" by (auto simp: rb_ok_def)
  then show ?case by (simp add: rb_inv_capacity) (simp add: rb_inv_def contents_def)
next
  case (2 q n xs)
  then obtain k where k: "rb_inv k q" by (auto simp: rb_ok_def)
  from 2 have "min (unat n) (2 ^ k - length (contents q)) \<le> length xs" by simp
  from put_data_contents(2) [OF k this] show ?case by (auto simp: rb_ok_def)
next
  case (3 q xs n)
  show ?case by (simp add: rb_capacity_def frame_simps)
next
  case (4 q n xs)
  then obtain k where k: "rb_inv k q" by (auto simp: rb_ok_def)
  with 4 show ?case using put_data_contents(1) [OF k, of n xs] by (simp add: rb_inv_capacity)
next
  case (5 q n xs)
  then obtain k where k: "rb_inv k q" by (auto simp: rb_ok_def)
  with 5 show ?case using put_data_contents(1,3) [OF k, of n xs] by simp
next
  case (6 q n)
  then obtain k where k: "rb_inv k q" by (auto simp: rb_ok_def)
  then show ?case using get_data_contents(3) [OF k] by (auto simp: rb_ok_def)
next
  case (7 q n)
  show ?case by (simp add: rb_capacity_def frame_simps)
next
  case (8 q n)
  then show ?case by (auto simp: rb_ok_def get_data_contents(1))
next
  case (9 q n)
  then show ?case by (auto simp: rb_ok_def get_data_contents(1,2))
next
  case (10 q n)
  then show ?case by (auto simp: rb_ok_def get_data_contents(1,4))
qed

section \<open>Properties\<close>

text \<open>
  For every requested size from 1 to \<open>2 ^ 31\<close> the constructor's size computation returns the
  least power of two that is not below the request (the shift loop smears the highest bit of the
  predecessor).
\<close>

theorem round_up_least:
  assumes "0 < unat iVal" and "unat iVal \<le> 2 ^ 31"
  shows "\<exists>k. round_up_to_next_power_of_2 iVal = 2 ^ k \<and> k \<le> 31 \<and> unat iVal \<le> 2 ^ k \<and>
    (\<forall>j. unat iVal \<le> 2 ^ j \<longrightarrow> k \<le> j)"
proof -
  obtain k where k: "unat iVal - 1 < 2 ^ k" "k = 0 \<or> 2 ^ (k - 1) \<le> unat iVal - 1"
    by (rule ex_power_bracket)
  have least: "k \<le> j" if "unat iVal \<le> 2 ^ j" for j
  proof (rule ccontr)
    assume "\<not> k \<le> j"
    then have "(2::nat) ^ j \<le> 2 ^ (k - 1)" by (intro power_increasing) simp_all
    moreover from k(2) \<open>\<not> k \<le> j\<close> have "2 ^ (k - 1) \<le> unat iVal - 1" by auto
    ultimately show False using that assms(1) by linarith
  qed
  have "k \<le> 31" using least assms(2) by blast
  moreover have "round_up_to_next_power_of_2 iVal = 2 ^ k"
    using round_up_bracket [of iVal k] k \<open>k \<le> 31\<close> assms(1) by (simp add: unat_gt_0)
  moreover have "unat iVal \<le> 2 ^ k" using k(1) by simp
  ultimately show ?thesis using least by blast
qed

theorem round_up_least_witness:
  "\<exists>k. round_up_to_next_power_of_2 5 = 2 ^ k \<and> k \<le> 31 \<and> unat (5 :: u32) \<le> 2 ^ k"
  using round_up_least [of 5] by auto

text \<open>
  C30: Each operation on a well-formed buffer acts on its contents as on a bounded queue: writing
  accepts as many elements as fit and appends them, reading and skipping remove that many elements
  from the front (reading also delivers them), flushing empties the queue, and every operation keeps
  the buffer well-formed.  A skip count is read as a signed number, hence its bound.
\<close>

theorem ring_buffer_operations:
  fixes n :: u32
  assumes "rb_inv k rb" and "unat n \<le> length xs" and "unat n < 2 ^ 31"
  defines "room \<equiv> min (unat n) (2 ^ k - length (contents rb))"
    and "some \<equiv> min (unat n) (length (contents rb))"
  shows "(case put_data_into_ring_buffer rb xs n of (c, rb') \<Rightarrow>
       unat c = room \<and> rb_inv k rb' \<and> contents rb' = contents rb @ take room xs) \<and>
    (case get_data_from_ring_buffer rb n of (c, ys, rb') \<Rightarrow>
       unat c = some \<and> ys = take some (contents rb) \<and> rb_inv k rb' \<and>
       contents rb' = drop some (contents rb)) \<and>
    (case skip_data_in_ring_buffer rb n of (c, rb') \<Rightarrow>
       unat c = some \<and> rb_inv k rb' \<and> contents rb' = drop some (contents rb)) \<and>
    rb_inv k (flush_ring_buffer rb) \<and> contents (flush_ring_buffer rb) = []"
proof -
  have "room \<le> length xs" using assms(2) by (simp add: room_def)
  note p = put_data_contents [OF assms(1) this [unfolded room_def], folded room_def]
  note g = get_data_contents [OF assms(1), of n, folded some_def]
  note s = skip_data_contents [OF assms(1,3), folded some_def]
  from p g s flush_contents [OF assms(1)] show ?thesis
    by (simp only: case_prod_beta simp_thms)
qed

theorem ring_buffer_operations_witness:
  "\<exists>rb :: nat ring_buffer. contents rb = [] \<and> rb_inv 2 rb \<and>
    contents (snd (put_data_into_ring_buffer rb [7, 8, 9] 3)) = [7, 8, 9]"
proof -
  let ?rb = "\<lparr>bufferSize = 4, writeIndex = 3, readIndex = 3, bigMask = 7, smallMask = 3,
    buffer = [0, 0, 0, 0]\<rparr> :: nat ring_buffer"
  have "rb_inv 2 ?rb"
    by (simp add: rb_inv_def get_ring_buffer_read_available_def mask_eq_exp_minus_1)
  moreover have "contents ?rb = []" by (simp add: contents_def get_ring_buffer_read_available_def)
  ultimately show ?thesis
    using ring_buffer_operations [of 2 ?rb 3 "[7, 8, 9]"] by (intro exI [of _ ?rb]) (simp add: case_prod_beta)
qed

text \<open>
  C20: From construction on, for every sequence of writes and reads, what was accepted is what was
  delivered followed by what is still stored, in order; no element is lost, duplicated or reordered,
  and the buffer never holds more than its capacity, which is at least the requested one.
\<close>

theorem ring_buffer_fifo:
  assumes "unat n \<le> 2 ^ 30" and "list_all (op_ok unat) ops"
  shows "case fifo_run put_data_into_ring_buffer get_data_from_ring_buffer unat ops
      ([], [], RingBuffer z n) of (accepted, delivered, rb) \<Rightarrow>
    accepted = delivered @ contents rb \<and> length (contents rb) \<le> rb_capacity rb \<and>
    unat n \<le> rb_capacity rb"
proof -
  obtain k where k: "rb_inv k (RingBuffer z n)" "unat n \<le> 2 ^ k" "contents (RingBuffer z n) = []"
    using assms(1) by (rule RingBuffer_inv)
  then have ok: "rb_ok (RingBuffer z n)" and "unat n \<le> rb_capacity (RingBuffer z n)"
    by (auto simp: rb_ok_def rb_inv_capacity)
  moreover note rbq.run_fifo [OF ok assms(2), of "[]" "[]"]
  ultimately show ?thesis using k(3) by (auto intro: rbq.items_cap)
qed

theorem ring_buffer_fifo_witness:
  "case fifo_run put_data_into_ring_buffer get_data_from_ring_buffer unat
      [Put [1, 2, 3] 3, Get 2, Put [4, 5, 6, 7] 4, Get 4] ([], [], RingBuffer (0 :: nat) 3)
      of (accepted, delivered, rb) \<Rightarrow>
    accepted = delivered @ contents rb \<and> length (contents rb) \<le> rb_capacity rb \<and>
    unat (3 :: u32) \<le> rb_capacity rb"
  by (rule ring_buffer_fifo) simp_all

end
