(* ===== verification/Ring_Buffer_Threads.thy ===== *)
theory Ring_Buffer_Threads
  imports Ring_Buffer
begin

text \<open>
  The ring buffer between two threads.  A call of \<^verbatim>\<open>put_data_into_ring_buffer\<close> is three actions of
  the producer: reserve regions from the two indices, copy into them, publish the write index; a call
  of \<^verbatim>\<open>get_data_from_ring_buffer\<close> is the three dual actions of the consumer.  The step relation
  interleaves them in any order; the memory barriers of the source make each action visible before
  the next one of the same thread.  Ghost lists record what was handed in and what came out.
\<close>

datatype 'a producer = P_Idle | P_Reserved regions "'a list" | P_Copied u32 "'a list"

datatype 'a consumer = C_Idle | C_Reserved regions | C_Copied u32 "'a list"

record 'a spsc =
  ring :: "'a ring_buffer"
  prod :: "'a producer"
  cons :: "'a consumer"
  produced :: "'a list"
  consumed :: "'a list"

inductive spsc_step :: "'a spsc \<Rightarrow> 'a spsc \<Rightarrow> bool" where
  reserve_write: "prod s = P_Idle \<Longrightarrow> unat n \<le> length xs \<Longrightarrow>
     spsc_step s (s\<lparr>prod := P_Reserved (get_ring_buffer_write_regions (ring s) n) xs\<rparr>)"
| copy_write: "prod s = P_Reserved rg xs \<Longrightarrow>
     spsc_step s (s\<lparr>ring := (ring s)\<lparr>buffer := copy_in rg xs (buffer (ring s))\<rparr>,
                    prod := P_Copied (granted rg) xs\<rparr>)"
| publish_write: "prod s = P_Copied c xs \<Longrightarrow>
     spsc_step s (s\<lparr>ring := advance_ring_buffer_write_index (ring s) c, prod := P_Idle,
                    produced := produced s @ take (unat c) xs\<rparr>)"
| reserve_read: "cons s = C_Idle \<Longrightarrow>
     spsc_step s (s\<lparr>cons := C_Reserved (get_ring_buffer_read_regions (ring s) n)\<rparr>)"
| copy_read: "cons s = C_Reserved rg \<Longrightarrow>
     spsc_step s (s\<lparr>cons := C_Copied (granted rg) (copy_out rg (buffer (ring s)))\<rparr>)"
| publish_read: "cons s = C_Copied c ys \<Longrightarrow>
     spsc_step s (s\<lparr>ring := advance_ring_buffer_read_index (ring s) c, cons := C_Idle,
                    consumed := consumed s @ ys\<rparr>)"

definition spsc_init :: "'a \<Rightarrow> u32 \<Rightarrow> 'a spsc" where
  "spsc_init z n = \<lparr>ring = RingBuffer z n, prod = P_Idle, cons = C_Idle, produced = [], consumed = []\<rparr>"

inductive spsc_reachable :: "'a \<Rightarrow> u32 \<Rightarrow> 'a spsc \<Rightarrow> bool" for z n where
  start: "spsc_reachable z n (spsc_init z n)"
| step: "spsc_reachable z n s \<Longrightarrow> spsc_step s t \<Longrightarrow> spsc_reachable z n t"

section \<open>The invariant\<close>

abbreviation avail :: "'a ring_buffer \<Rightarrow> nat" where
  "avail rb \<equiv> unat (get_ring_buffer_read_available rb)"

fun prod_ok :: "nat \<Rightarrow> 'a ring_buffer \<Rightarrow> 'a producer \<Rightarrow> bool" where
  "prod_ok k rb P_Idle \<longleftrightarrow> True"
| "prod_ok k rb (P_Reserved rg xs) \<longleftrightarrow>
     (\<exists>c. rg = split_regions rb (write_offset rb) c \<and> avail rb + unat c \<le> 2 ^ k \<and> unat c \<le> length xs)"
| "prod_ok k rb (P_Copied c xs) \<longleftrightarrow> avail rb + unat c \<le> 2 ^ k \<and>
     window (buffer rb) (unat (write_offset rb)) (unat c) = take (unat c) xs"

fun cons_ok :: "'a ring_buffer \<Rightarrow> 'a consumer \<Rightarrow> bool" where
  "cons_ok rb C_Idle \<longleftrightarrow> True"
| "cons_ok rb (C_Reserved rg) \<longleftrightarrow>
     (\<exists>c. rg = split_regions rb (readIndex rb AND smallMask rb) c \<and> unat c \<le> avail rb)"
| "cons_ok rb (C_Copied c ys) \<longleftrightarrow> unat c \<le> avail rb \<and> ys = take (unat c) (contents rb)"

definition spsc_inv :: "nat \<Rightarrow> 'a spsc \<Rightarrow> bool" where
  "spsc_inv k s \<longleftrightarrow> rb_inv k (ring s) \<and> prod_ok k (ring s) (prod s) \<and> cons_ok (ring s) (cons s) \<and>
     produced s = consumed s @ contents (ring s)"

lemma split_regions_granted [simp]: "granted (split_regions rb i c) = c"
  by (simp add: split_regions_def Let_def)

lemma split_regions_cong: "bufferSize rb = bufferSize rb' \<Longrightarrow> split_regions rb i c = split_regions rb' i c"
  by (simp add: split_regions_def)

lemma copy_out_read_window:
  assumes "rb_inv k rb" and "unat c \<le> avail rb"
  shows "copy_out (split_regions rb (readIndex rb AND smallMask rb) c) (buffer rb) =
    take (unat c) (contents rb)"
proof -
  have sz: "bufferSize rb = 2 ^ k" "k \<le> 30" "length (buffer rb) = 2 ^ k"
    using assms(1) by (simp_all add: rb_inv_def)
  have i: "unat (readIndex rb AND smallMask rb) = unat (readIndex rb) mod 2 ^ k"
    using assms(1) by (simp only: rb_inv_def unat_and_mask)
  have c: "unat c \<le> 2 ^ k" using assms by (auto simp: rb_inv_def)
  have "copy_out (split_regions rb (readIndex rb AND smallMask rb) c) (buffer rb) =
      window (buffer rb) (unat (readIndex rb)) (unat c)"
    using copy_out_window [OF sz _ c, of "readIndex rb AND smallMask rb"]
      window_mod [of "buffer rb" "unat (readIndex rb)"] by (simp add: i sz(3))
  then show ?thesis using assms(2) by (simp add: contents_def take_window)
qed


lemma length_contents [simp]: "length (contents rb) = avail rb"
  by (simp add: contents_def)

text \<open>Fields the index updates do not touch.\<close>

lemma advance_frames [frame_simps]:
  "buffer (advance_ring_buffer_write_index rb c) = buffer rb"
  "readIndex (advance_ring_buffer_write_index rb c) = readIndex rb"
  "smallMask (advance_ring_buffer_write_index rb c) = smallMask rb"
  "bufferSize (advance_ring_buffer_write_index rb c) = bufferSize rb"
  "buffer (advance_ring_buffer_read_index rb c) = buffer rb"
  "writeIndex (advance_ring_buffer_read_index rb c) = writeIndex rb"
  "smallMask (advance_ring_buffer_read_index rb c) = smallMask rb"
  "bufferSize (advance_ring_buffer_read_index rb c) = bufferSize rb"
  by (simp_all add: advance_ring_buffer_write_index_def advance_ring_buffer_read_index_def)

lemma avail_buffer_update [simp]: "avail (rb\<lparr>buffer := b\<rparr>) = avail rb"
  by (simp add: get_ring_buffer_read_available_def)

lemma write_regions_ok:
  assumes "rb_inv k rb" and "unat n \<le> length xs"
  shows "prod_ok k rb (P_Reserved (get_ring_buffer_write_regions rb n) xs)"
proof -
  define c where "c = (if n > get_ring_buffer_write_available rb
    then get_ring_buffer_write_available rb else n)"
  have "unat c \<le> 2 ^ k - avail rb" and "unat c \<le> unat n"
    using write_available_unat [OF assms(1)] by (auto simp: c_def word_less_nat_alt)
  moreover have "avail rb \<le> 2 ^ k" using assms(1) by (simp add: rb_inv_def)
  ultimately have "avail rb + unat c \<le> 2 ^ k" and "unat c \<le> length xs" using assms(2) by linarith+
  then show ?thesis
    by (auto simp: get_ring_buffer_write_regions_def Let_def c_def [symmetric])
qed

lemma read_regions_ok: "cons_ok rb (C_Reserved (get_ring_buffer_read_regions rb n))"
proof -
  define c where "c = (if n > get_ring_buffer_read_available rb
    then get_ring_buffer_read_available rb else n)"
  have "unat c \<le> avail rb" by (auto simp: c_def word_less_nat_alt)
  then show ?thesis
    by (auto simp: get_ring_buffer_read_regions_def Let_def c_def [symmetric])
qed

lemma cons_ok_mono:
  assumes "cons_ok rb c" and "readIndex rb' = readIndex rb" and "smallMask rb' = smallMask rb"
    and "bufferSize rb' = bufferSize rb" and "\<exists>zs. contents rb' = contents rb @ zs"
  shows "cons_ok rb' c"
proof -
  from assms(5) have "avail rb \<le> avail rb'" by (metis le_add1 length_append length_contents)
  moreover have "take m (contents rb') = take m (contents rb)" if "m \<le> avail rb" for m
    using assms(5) that by auto
  ultimately show ?thesis
    using assms(1-4) split_regions_cong [of rb' rb] by (cases c) (auto intro: order.trans)
qed

lemma prod_ok_mono:
  assumes "prod_ok k rb p" and "writeIndex rb' = writeIndex rb" and "smallMask rb' = smallMask rb"
    and "bufferSize rb' = bufferSize rb" and "buffer rb' = buffer rb" and "avail rb' \<le> avail rb"
  shows "prod_ok k rb' p"
proof -
  have sr: "split_regions rb' i c = split_regions rb i c" for i c
    using assms(4) by (rule split_regions_cong)
  have le: "avail rb + m \<le> 2 ^ k \<Longrightarrow> avail rb' + m \<le> 2 ^ k" for m
    using assms(6) by linarith
  show ?thesis
  proof (cases p)
    case P_Idle
    then show ?thesis by simp
  next
    case (P_Reserved rg xs)
    with assms(1) obtain c where "rg = split_regions rb (write_offset rb) c"
      and "avail rb + unat c \<le> 2 ^ k" and "unat c \<le> length xs" by auto
    with le show ?thesis unfolding P_Reserved prod_ok.simps sr assms(2,3) by blast
  next
    case (P_Copied c xs)
    have "avail rb + unat c \<le> 2 ^ k"
      and "window (buffer rb) (unat (write_offset rb)) (unat c) = take (unat c) xs"
      using assms(1) by (simp_all add: P_Copied)
    then show ?thesis by (simp only: P_Copied prod_ok.simps assms(2,3,5) le)
  qed
qed

lemma spsc_step_inv:
  assumes "spsc_step s t" and "spsc_inv k s"
  shows "spsc_inv k t"
  using assms
proof (induction rule: spsc_step.induct)
  case (reserve_write s n xs)
  then show ?case by (simp add: spsc_inv_def write_regions_ok del: prod_ok.simps)
next
  case (copy_write s rg xs)
  let ?rb = "ring s"
  from copy_write obtain c where rg: "rg = split_regions ?rb (write_offset ?rb) c"
    and room: "avail ?rb + unat c \<le> 2 ^ k" and len: "unat c \<le> length xs" and inv: "rb_inv k ?rb"
    by (auto simp: spsc_inv_def)
  note fi = copy_in_contents [OF inv room len]
  have "cons_ok ?rb (cons s)" using copy_write by (simp add: spsc_inv_def)
  then have "cons_ok (fill_in ?rb c xs) (cons s)"
    by (rule cons_ok_mono) (simp_all add: fi(2))
  with copy_write fi room show ?case by (simp add: spsc_inv_def rg)
next
  case (publish_write s c xs)
  let ?rb = "ring s"
  from publish_write have inv: "rb_inv k ?rb" and room: "avail ?rb + unat c \<le> 2 ^ k"
    and win: "window (buffer ?rb) (unat (write_offset ?rb)) (unat c) = take (unat c) xs"
    by (auto simp: spsc_inv_def)
  note aw = advance_write_contents [OF inv room, unfolded win]
  have "cons_ok ?rb (cons s)" using publish_write by (simp add: spsc_inv_def)
  then have "cons_ok (advance_ring_buffer_write_index ?rb c) (cons s)"
    by (rule cons_ok_mono) (simp_all add: aw(2) frame_simps)
  with publish_write aw show ?case by (simp add: spsc_inv_def)
next
  case (reserve_read s n)
  then show ?case by (simp add: spsc_inv_def read_regions_ok del: cons_ok.simps)
next
  case (copy_read s rg)
  then show ?case by (auto simp: spsc_inv_def copy_out_read_window)
next
  case (publish_read s c ys)
  let ?rb = "ring s"
  from publish_read have inv: "rb_inv k ?rb" and c: "unat c \<le> avail ?rb"
    and ys: "ys = take (unat c) (contents ?rb)" by (auto simp: spsc_inv_def)
  note ar = advance_read_available [OF inv c]
  have "prod_ok k ?rb (prod s)" using publish_read by (simp add: spsc_inv_def)
  then have "prod_ok k (advance_ring_buffer_read_index ?rb c) (prod s)"
    by (rule prod_ok_mono) (simp_all add: ar(1) frame_simps)
  with publish_read ar ys show ?case by (simp add: spsc_inv_def)
qed

lemma spsc_reachable_inv:
  assumes "unat n \<le> 2 ^ 30" and "spsc_reachable z n s"
  shows "\<exists>k. spsc_inv k s"
proof -
  obtain k where k: "rb_inv k (RingBuffer z n)" "contents (RingBuffer z n) = []"
    using assms(1) by (rule RingBuffer_inv)
  from assms(2) have "spsc_inv k s"
  proof (induction rule: spsc_reachable.induct)
    case start
    with k show ?case by (simp add: spsc_init_def spsc_inv_def)
  next
    case (step s t)
    then show ?case by (blast intro: spsc_step_inv)
  qed
  then show ?thesis ..
qed

section \<open>Properties\<close>

text \<open>
  C9: Under every interleaving of one writing and one reading thread, at the granularity of
  reserving, copying and publishing, what the reader has taken out followed by the buffer's contents
  is what the writer has published; in particular the reader never sees an element before it was
  written nor one that was overwritten.
\<close>

theorem spsc_no_loss:
  assumes "unat n \<le> 2 ^ 30" and "spsc_reachable z n s"
  shows "produced s = consumed s @ contents (ring s)"
  using spsc_reachable_inv [OF assms] by (auto simp: spsc_inv_def)

theorem spsc_no_loss_witness:
  "\<exists>s :: nat spsc. prod s \<noteq> P_Idle \<and> produced s = consumed s @ contents (ring s)"
proof -
  let ?s0 = "spsc_init (0 :: nat) 4"
  let ?s1 = "?s0\<lparr>prod := P_Reserved (get_ring_buffer_write_regions (ring ?s0) 2) [5, 6]\<rparr>"
  have "spsc_step ?s0 ?s1" by (rule reserve_write) (simp_all add: spsc_init_def)
  then have "spsc_reachable 0 4 ?s1" by (rule spsc_reachable.step [OF spsc_reachable.start])
  then have "produced ?s1 = consumed ?s1 @ contents (ring ?s1)"
    by (rule spsc_no_loss [rotated]) simp
  then show ?thesis by (intro exI [of _ ?s1]) simp
qed

end
