(* ===== verification/Viterbi.thy ===== *)
theory Viterbi
  imports Prelude
begin

text \<open>
  The Viterbi decoder for the rate 1/4 convolutional code of constraint length 7,
  \<^verbatim>\<open>src/src/base/support/viterbi_spiral/\<close>: branch table, clipping of the soft bits, the 32 butterflies
  of a step in their portable form (\<^verbatim>\<open>viterbi_scalar.h\<close>, 32-bit metrics), the chainback and the
  re-encoding that counts channel bit errors.  Metrics are integers: a frame has at most 9222 steps of
  cost at most 1020, so 32-bit metrics do not overflow.  A state holds the last six message bits, the
  newest one in the least significant place.  The theory shows that the decoder returns a message of
  least cost, and that it recovers every message from its noiseless code word.
\<close>

section \<open>The code\<close>

definition Branchtable :: "int list" where
  "Branchtable = [
   0, 0, 255, 255, 255, 255, 0, 0, 0, 0, 255, 255, 255, 255, 0, 0,
   255, 255, 0, 0, 0, 0, 255, 255, 255, 255, 0, 0, 0, 0, 255, 255,
   0, 255, 255, 0, 255, 0, 0, 255, 0, 255, 255, 0, 255, 0, 0, 255,
   0, 255, 255, 0, 255, 0, 0, 255, 0, 255, 255, 0, 255, 0, 0, 255,
   0, 255, 0, 255, 0, 255, 0, 255, 255, 0, 255, 0, 255, 0, 255, 0,
   0, 255, 0, 255, 0, 255, 0, 255, 255, 0, 255, 0, 255, 0, 255, 0,
   0, 0, 255, 255, 255, 255, 0, 0, 0, 0, 255, 255, 255, 255, 0, 0,
   255, 255, 0, 0, 0, 0, 255, 255, 255, 255, 0, 0, 0, 0, 255, 255]"

definition PARTAB :: "nat list" where
  "PARTAB = [
   0, 1, 1, 0, 1, 0, 0, 1, 1, 0, 0, 1, 0, 1, 1, 0, 1, 0, 0, 1, 0, 1, 1, 0, 0, 1, 1, 0, 1, 0, 0, 1,
   1, 0, 0, 1, 0, 1, 1, 0, 0, 1, 1, 0, 1, 0, 0, 1, 0, 1, 1, 0, 1, 0, 0, 1, 1, 0, 0, 1, 0, 1, 1, 0,
   1, 0, 0, 1, 0, 1, 1, 0, 0, 1, 1, 0, 1, 0, 0, 1, 0, 1, 1, 0, 1, 0, 0, 1, 1, 0, 0, 1, 0, 1, 1, 0,
   0, 1, 1, 0, 1, 0, 0, 1, 1, 0, 0, 1, 0, 1, 1, 0, 1, 0, 0, 1, 0, 1, 1, 0, 0, 1, 1, 0, 1, 0, 0, 1,
   1, 0, 0, 1, 0, 1, 1, 0, 0, 1, 1, 0, 1, 0, 0, 1, 0, 1, 1, 0, 1, 0, 0, 1, 1, 0, 0, 1, 0, 1, 1, 0,
   0, 1, 1, 0, 1, 0, 0, 1, 1, 0, 0, 1, 0, 1, 1, 0, 1, 0, 0, 1, 0, 1, 1, 0, 0, 1, 1, 0, 1, 0, 0, 1,
   0, 1, 1, 0, 1, 0, 0, 1, 1, 0, 0, 1, 0, 1, 1, 0, 1, 0, 0, 1, 0, 1, 1, 0, 0, 1, 1, 0, 1, 0, 0, 1,
   1, 0, 0, 1, 0, 1, 1, 0, 0, 1, 1, 0, 1, 0, 0, 1, 0, 1, 1, 0, 1, 0, 0, 1, 1, 0, 0, 1, 0, 1, 1, 0]"

definition parity :: "nat \<Rightarrow> nat" where
  "parity x = (let x = x XOR drop_bit 16 x; x = x XOR drop_bit 8 x in PARTAB ! x)"

text \<open>The soft bit is a signed 16-bit value; adding the offset wraps at that width.\<close>

definition limit_min_max :: "int \<Rightarrow> int" where
  "limit_min_max x =
     (let tmp = (x + 127 + 2 ^ 15) mod 2 ^ 16 - 2 ^ 15 in
      if tmp < 0 then 0 else if tmp > 255 then 255 else tmp)"

definition branch_metric :: "int list \<Rightarrow> nat \<Rightarrow> int" where
  "branch_metric ys i =
     (Branchtable ! i XOR ys ! 0) + (Branchtable ! (32 + i) XOR ys ! 1) +
     (Branchtable ! (64 + i) XOR ys ! 2) + (Branchtable ! (96 + i) XOR ys ! 3)"

text \<open>A butterfly: the surviving metrics and decisions of the states \<open>2 i\<close> and \<open>2 i + 1\<close>.\<close>

definition BFLY :: "int list \<Rightarrow> int list \<Rightarrow> nat \<Rightarrow> (int \<times> bool) \<times> (int \<times> bool)" where
  "BFLY old_metrics ys i =
     (let metric = branch_metric ys i;
          m_metric = 1020 - metric;
          m0 = old_metrics ! i + metric;
          m1 = old_metrics ! (i + 32) + m_metric;
          m2 = old_metrics ! i + m_metric;
          m3 = old_metrics ! (i + 32) + metric;
          decision0 = (m0 - m1 > 0);
          decision1 = (m2 - m3 > 0)
      in ((if decision0 then m1 else m0, decision0), (if decision1 then m3 else m2, decision1)))"

definition viterbi_step :: "int list \<Rightarrow> int list \<Rightarrow> int list \<times> bool list" where
  "viterbi_step old_metrics ys =
     (let flies = concat (map (\<lambda>i. let (a, b) = BFLY old_metrics ys i in [a, b]) [0..<32])
      in (map fst flies, map snd flies))"

definition step_symbols :: "int list \<Rightarrow> nat \<Rightarrow> int list" where
  "step_symbols syms t = map (\<lambda>j. limit_min_max (syms ! (4 * t + j))) [0..<4]"

text \<open>Metrics before step \<open>t\<close>, and the decisions of step \<open>t\<close>.\<close>

fun metrics :: "int list \<Rightarrow> nat \<Rightarrow> int list" where
  "metrics syms 0 = (replicate 64 1000)[0 := 0]"
| "metrics syms (Suc t) = fst (viterbi_step (metrics syms t) (step_symbols syms t))"

definition decisions :: "int list \<Rightarrow> nat \<Rightarrow> bool list" where
  "decisions syms t = snd (viterbi_step (metrics syms t) (step_symbols syms t))"

fun chainback :: "(nat \<Rightarrow> bool list) \<Rightarrow> nat \<Rightarrow> nat \<Rightarrow> bool list \<Rightarrow> bool list" where
  "chainback dec 0 endstate acc = acc"
| "chainback dec (Suc framebits) endstate acc =
     (let k = dec (framebits + 6) ! drop_bit 2 endstate;
          endstate = drop_bit 1 endstate OR (if k then push_bit 7 1 else 0)
      in chainback dec framebits endstate (k # acc))"

definition deconvolve :: "nat \<Rightarrow> int list \<Rightarrow> bool list" where
  "deconvolve frameBits syms = chainback (decisions syms) frameBits 0 []"

definition polys :: "nat list" where
  "polys = [109, 79, 83, 109]"

definition ber_symbol :: "nat \<Rightarrow> int list \<Rightarrow> bool list \<Rightarrow> nat \<Rightarrow> nat \<times> nat \<Rightarrow> nat \<Rightarrow> nat \<times> nat" where
  "ber_symbol sr syms punctureTable i = (\<lambda>(bits, errors) j.
     let b = parity (sr AND polys ! j) in
     if punctureTable ! (i * 4 + j)
     then (bits + 1, if (syms ! (i * 4 + j) > 0) \<noteq> (b = 1) then errors + 1 else errors)
     else (bits, errors))"

definition ber_step :: "int list \<Rightarrow> bool list \<Rightarrow> bool list \<Rightarrow> nat \<Rightarrow> nat \<times> nat \<times> nat \<Rightarrow> nat \<Rightarrow> nat \<times> nat \<times> nat" where
  "ber_step syms punctureTable out frameBits = (\<lambda>(sr, cnt) i.
     let sr = (if i < frameBits then (push_bit 1 sr OR (if out ! i then 1 else 0)) AND 255
               else push_bit 1 sr AND 255)
     in (sr, foldl (ber_symbol sr syms punctureTable i) cnt [0..<4]))"

definition calculate_BER :: "nat \<Rightarrow> int list \<Rightarrow> bool list \<Rightarrow> bool list \<Rightarrow> nat \<times> nat \<Rightarrow> nat \<times> nat" where
  "calculate_BER frameBits syms punctureTable out cnt =
     snd (foldl (ber_step syms punctureTable out frameBits) (0, cnt) [0..<frameBits + 6])"

section \<open>The code and its trellis\<close>

text \<open>
  The convolutional encoder: the register holds the six previous bits and the current one.  A branch
  leaves state \<open>s\<close> with bit \<open>b\<close>; its cost is the distance of the received symbols from its output.
\<close>

definition branch_out :: "nat \<Rightarrow> bool \<Rightarrow> nat \<Rightarrow> bool" where
  "branch_out s b j \<longleftrightarrow> parity ((2 * s + of_bool b) AND polys ! j) = 1"

definition next_state :: "nat \<Rightarrow> bool \<Rightarrow> nat" where
  "next_state s b = (2 * s + of_bool b) mod 64"

definition sym_cost :: "bool \<Rightarrow> int \<Rightarrow> int" where
  "sym_cost e x = (if e then 255 - x else x)"

definition branch_cost :: "int list \<Rightarrow> nat \<Rightarrow> bool \<Rightarrow> int" where
  "branch_cost ys s b =
     sym_cost (branch_out s b 0) (ys ! 0) + sym_cost (branch_out s b 1) (ys ! 1) +
     sym_cost (branch_out s b 2) (ys ! 2) + sym_cost (branch_out s b 3) (ys ! 3)"

lemma upt_32: "[0..<32] = [0, 1, 2, 3, 4, 5, 6, 7, 8, 9, 10, 11, 12, 13, 14, 15, 16, 17, 18, 19, 20,
    21, 22, 23, 24, 25, 26, 27, 28, 29, 30, 31 :: nat]"
  by (simp add: upt_rec)

lemma trellis_rows:
  "list_all (\<lambda>i. Branchtable ! i = (if branch_out i False 0 then 255 else 0)) [0..<32]"
  "list_all (\<lambda>i. Branchtable ! (32 + i) = (if branch_out i False 1 then 255 else 0)) [0..<32]"
  "list_all (\<lambda>i. Branchtable ! (64 + i) = (if branch_out i False 2 then 255 else 0)) [0..<32]"
  "list_all (\<lambda>i. Branchtable ! (96 + i) = (if branch_out i False 3 then 255 else 0)) [0..<32]"
  by (simp_all add: upt_32 Branchtable_def branch_out_def parity_def polys_def PARTAB_def Let_def)

lemma trellis_complements:
  "list_all (\<lambda>j. list_all (\<lambda>i. branch_out i True j \<noteq> branch_out i False j \<and>
     branch_out (i + 32) False j \<noteq> branch_out i False j \<and>
     branch_out (i + 32) True j = branch_out i False j) [0..<32]) [0, 1, 2, 3]"
  by (simp add: upt_32 branch_out_def parity_def polys_def PARTAB_def Let_def)

lemma branch_out_simps:
  assumes "i < 32" and "j < 4"
  shows "branch_out i True j \<longleftrightarrow> \<not> branch_out i False j"
    and "branch_out (i + 32) False j \<longleftrightarrow> \<not> branch_out i False j"
    and "branch_out (i + 32) True j \<longleftrightarrow> branch_out i False j"
proof -
  have "j \<in> set [0, 1, 2, 3]" using assms(2) by auto
  moreover have "i \<in> set [0..<32]" using assms(1) by simp
  ultimately have "branch_out i True j \<noteq> branch_out i False j \<and>
     branch_out (i + 32) False j \<noteq> branch_out i False j \<and>
     branch_out (i + 32) True j = branch_out i False j"
    using trellis_complements unfolding list_all_iff by blast
  then show "branch_out i True j \<longleftrightarrow> \<not> branch_out i False j"
    and "branch_out (i + 32) False j \<longleftrightarrow> \<not> branch_out i False j"
    and "branch_out (i + 32) True j \<longleftrightarrow> branch_out i False j" by blast+
qed

lemma xor_255:
  assumes "0 \<le> (x::int)" and "x \<le> 255"
  shows "255 XOR x = 255 - x"
proof -
  have x: "x = take_bit 8 x" using assms by (simp add: take_bit_int_eq_self)
  have m: "(255::int) = mask 8" by (simp add: mask_eq_exp_minus_1)
  have "(mask 8 XOR take_bit 8 x) AND take_bit 8 x = 0"
    by (rule bit_eqI) (auto simp: bit_simps)
  then have "(mask 8 XOR take_bit 8 x) + take_bit 8 x = (mask 8 XOR take_bit 8 x) XOR take_bit 8 x"
    by (rule disjunctive_add_eq_xor)
  also have "\<dots> = mask 8" by (simp add: xor.assoc)
  finally have "(255 XOR x) + x = 255" unfolding m using x by simp
  then show ?thesis by simp
qed

lemma table_cost: "0 \<le> x \<Longrightarrow> x \<le> 255 \<Longrightarrow> (if e then 255 else 0) XOR x = sym_cost e x"
  by (simp add: sym_cost_def xor_255)

definition sym_ok :: "int list \<Rightarrow> bool" where
  "sym_ok ys \<longleftrightarrow> (\<forall>j<4. 0 \<le> ys ! j \<and> ys ! j \<le> 255)"

lemma branch_metric_cost:
  assumes "sym_ok ys" and "i < 32"
  shows "branch_metric ys i = branch_cost ys i False"
proof -
  have i: "i \<in> set [0..<32]" using assms(2) by simp
  note rows = trellis_rows [unfolded list_all_iff, rule_format, OF i]
  have "\<And>j. j < 4 \<Longrightarrow> 0 \<le> ys ! j \<and> ys ! j \<le> 255" using assms(1) by (simp add: sym_ok_def)
  then show ?thesis by (simp add: branch_metric_def branch_cost_def rows table_cost)
qed

lemma branch_costs:
  assumes "i < 32"
  shows "branch_cost ys i True = 1020 - branch_cost ys i False"
    and "branch_cost ys (i + 32) False = 1020 - branch_cost ys i False"
    and "branch_cost ys (i + 32) True = branch_cost ys i False"
  using branch_out_simps [OF assms, of 0] branch_out_simps [OF assms, of 1]
    branch_out_simps [OF assms, of 2] branch_out_simps [OF assms, of 3]
  by (simp_all add: branch_cost_def sym_cost_def)

section \<open>A step selects the better predecessor\<close>

lemma length_pairs: "length (concat (map (\<lambda>i. [f i, g i]) xs)) = 2 * length xs"
  by (induction xs) simp_all

lemma concat_pairs_nth:
  "i < n \<Longrightarrow> concat (map (\<lambda>i. [f i, g i]) [0..<n]) ! (2 * i) = f i \<and>
    concat (map (\<lambda>i. [f i, g i]) [0..<n]) ! (2 * i + 1) = g i"
proof (induction n)
  case (Suc n)
  have len: "length (concat (map (\<lambda>i. [f i, g i]) [0..<n])) = 2 * n" by (simp add: length_pairs)
  show ?case
  proof (cases "i < n")
    case True
    then show ?thesis using Suc.IH by (simp add: nth_append len)
  next
    case False
    with Suc.prems have "i = n" by simp
    then show ?thesis by (simp add: nth_append len)
  qed
qed simp

definition pred_state :: "bool list \<Rightarrow> nat \<Rightarrow> nat" where
  "pred_state dec s = s div 2 + (if dec ! s then 32 else 0)"

lemma viterbi_step_nth:
  assumes "i < 32"
  shows "fst (viterbi_step old ys) ! (2 * i) = fst (fst (BFLY old ys i))"
    and "snd (viterbi_step old ys) ! (2 * i) = snd (fst (BFLY old ys i))"
    and "fst (viterbi_step old ys) ! (2 * i + 1) = fst (snd (BFLY old ys i))"
    and "snd (viterbi_step old ys) ! (2 * i + 1) = snd (snd (BFLY old ys i))"
proof -
  let ?fl = "concat (map (\<lambda>i. [fst (BFLY old ys i), snd (BFLY old ys i)]) [0..<32])"
  have step: "viterbi_step old ys = (map fst ?fl, map snd ?fl)"
    by (simp add: viterbi_step_def Let_def case_prod_beta)
  note n = concat_pairs_nth [OF assms, of "\<lambda>i. fst (BFLY old ys i)" "\<lambda>i. snd (BFLY old ys i)"]
  have lt: "2 * i < length ?fl" "2 * i + 1 < length ?fl" using assms by (simp_all add: length_pairs)
  show "fst (viterbi_step old ys) ! (2 * i) = fst (fst (BFLY old ys i))"
    and "snd (viterbi_step old ys) ! (2 * i) = snd (fst (BFLY old ys i))"
    and "fst (viterbi_step old ys) ! (2 * i + 1) = fst (snd (BFLY old ys i))"
    and "snd (viterbi_step old ys) ! (2 * i + 1) = snd (snd (BFLY old ys i))"
    using n lt by (simp_all only: step fst_conv snd_conv nth_map)
qed

lemma viterbi_step_select:
  fixes old :: "int list"
  assumes "sym_ok ys" and "s < 64"
  defines "p \<equiv> pred_state (snd (viterbi_step old ys)) s"
  shows "fst (viterbi_step old ys) ! s = old ! p + branch_cost ys p (odd s)"
    and "q \<in> {s div 2, s div 2 + 32} \<Longrightarrow> fst (viterbi_step old ys) ! s \<le> old ! q + branch_cost ys q (odd s)"
proof -
  define i where "i = s div 2"
  have i: "i < 32" using assms(2) by (simp add: i_def)
  note n = viterbi_step_nth [OF i, of old ys]
  note c = branch_costs [OF i, of ys]
  have f: "BFLY old ys i =
    (let a = branch_cost ys i False; m0 = old ! i + a; m1 = old ! (i + 32) + (1020 - a);
         m2 = old ! i + (1020 - a); m3 = old ! (i + 32) + a
     in ((if m0 - m1 > 0 then m1 else m0, m0 - m1 > 0), (if m2 - m3 > 0 then m3 else m2, m2 - m3 > 0)))"
    by (simp add: BFLY_def branch_metric_cost [OF assms(1) i] Let_def)
  show "fst (viterbi_step old ys) ! s = old ! p + branch_cost ys p (odd s)"
  proof (cases "odd s")
    case True
    then have s: "s = 2 * i + 1" by (simp add: i_def)
    show ?thesis using True n(3,4) by (simp add: p_def pred_state_def s f Let_def c)
  next
    case False
    then have s: "s = 2 * i" by (simp add: i_def)
    show ?thesis using False n(1,2) by (simp add: p_def pred_state_def s f Let_def c)
  qed
  show "fst (viterbi_step old ys) ! s \<le> old ! q + branch_cost ys q (odd s)"
    if q: "q \<in> {s div 2, s div 2 + 32}"
  proof (cases "odd s")
    case True
    then have s: "s = 2 * i + 1" by (simp add: i_def)
    show ?thesis using q n(3) by (auto simp: s f Let_def c)
  next
    case False
    then have s: "s = 2 * i" by (simp add: i_def)
    show ?thesis using q n(1) by (auto simp: s f Let_def c)
  qed
qed

section \<open>Paths and survivors\<close>

fun path_cost :: "int list \<Rightarrow> nat \<Rightarrow> nat \<Rightarrow> bool list \<Rightarrow> int" where
  "path_cost syms t s [] = 0"
| "path_cost syms t s (b # bs) =
     branch_cost (step_symbols syms t) s b + path_cost syms (Suc t) (next_state s b) bs"

definition run :: "nat \<Rightarrow> bool list \<Rightarrow> nat" where
  "run s bs = foldl next_state s bs"

definition start_bias :: "nat \<Rightarrow> int" where
  "start_bias s = (if s = 0 then 0 else 1000)"

lemma path_cost_snoc:
  "path_cost syms t s (bs @ [b]) =
    path_cost syms t s bs + branch_cost (step_symbols syms (t + length bs)) (run s bs) b"
  by (induction bs arbitrary: t s) (simp_all add: run_def)

lemma limit_range: "0 \<le> limit_min_max x" "limit_min_max x \<le> 255"
  by (simp_all add: limit_min_max_def Let_def)

lemma step_symbols_ok: "sym_ok (step_symbols syms t)"
  by (simp add: sym_ok_def step_symbols_def limit_range)

lemma next_state_less: "next_state s b < 64"
  by (simp add: next_state_def)

lemma run_less: "s < 64 \<Longrightarrow> run s bs < 64"
  by (induction bs rule: rev_induct) (simp_all add: run_def next_state_less)

lemma next_state_inv:
  assumes "s < 64" and "next_state s b = s'"
  shows "s \<in> {s' div 2, s' div 2 + 32}" and "odd s' = b"
proof -
  have 64: "(2 * s + of_bool b) mod 64 = s'" using assms(2) by (simp add: next_state_def)
  show "odd s' = b" unfolding 64 [symmetric] by (simp add: dvd_mod_iff)
  show "s \<in> {s' div 2, s' div 2 + 32}"
  proof (cases "s < 32")
    case True
    then have "2 * s + of_bool b < 64" by (cases b) simp_all
    then have "s' = 2 * s + of_bool b" using 64 by simp
    then show ?thesis by (cases b) simp_all
  next
    case False
    then have "2 * s + of_bool b = (2 * (s - 32) + of_bool b) + 64" by simp
    moreover have "2 * (s - 32) + of_bool b < 64" using assms(1) by (cases b) simp_all
    ultimately have "s' = 2 * (s - 32) + of_bool b" using 64 by (metis mod_add_self2 mod_less)
    then show ?thesis using False by (cases b) simp_all
  qed
qed

lemma metrics_lower_bound:
  assumes "s0 < 64"
  shows "metrics syms (length bs) ! run s0 bs \<le> start_bias s0 + path_cost syms 0 s0 bs"
proof (induction bs rule: rev_induct)
  case Nil
  then show ?case using assms by (simp add: run_def start_bias_def nth_list_update)
next
  case (snoc b bs)
  let ?s = "run s0 bs"
  have s: "?s < 64" using assms by (rule run_less)
  have run: "run s0 (bs @ [b]) = next_state ?s b" by (simp add: run_def)
  note inv = next_state_inv [OF s refl, of b]
  have "metrics syms (Suc (length bs)) ! next_state ?s b \<le>
      metrics syms (length bs) ! ?s + branch_cost (step_symbols syms (length bs)) ?s b"
    using viterbi_step_select(2) [OF step_symbols_ok next_state_less inv(1)] inv(2) by simp
  with snoc show ?case by (simp add: run path_cost_snoc)
qed

text \<open>The survivor of a state: its start state and its bits, following the decisions backwards.\<close>

abbreviation pred_at :: "int list \<Rightarrow> nat \<Rightarrow> nat \<Rightarrow> nat" where
  "pred_at syms t s \<equiv> pred_state (decisions syms t) s"

fun surv_start :: "int list \<Rightarrow> nat \<Rightarrow> nat \<Rightarrow> nat" where
  "surv_start syms 0 s = s"
| "surv_start syms (Suc t) s = surv_start syms t (pred_at syms t s)"

fun surv :: "int list \<Rightarrow> nat \<Rightarrow> nat \<Rightarrow> bool list" where
  "surv syms 0 s = []"
| "surv syms (Suc t) s = surv syms t (pred_at syms t s) @ [odd s]"

lemma length_surv [simp]: "length (surv syms t s) = t"
  by (induction t arbitrary: s) simp_all

lemma pred_less: "s < 64 \<Longrightarrow> pred_state dec s < 64"
  by (simp add: pred_state_def) linarith

lemma next_pred: "s < 64 \<Longrightarrow> next_state (pred_state dec s) (odd s) = s"
proof -
  assume "s < 64"
  have "2 * (s div 2 + x) + of_bool (odd s) = s + 2 * x" for x
    by (cases "odd s") simp_all
  then have "next_state (pred_state dec s) (odd s) = (s + 2 * (if dec ! s then 32 else 0)) mod 64"
    by (simp only: next_state_def pred_state_def)
  then show ?thesis using \<open>s < 64\<close> by simp
qed

lemma survivor:
  "s < 64 \<Longrightarrow> surv_start syms t s < 64 \<and> run (surv_start syms t s) (surv syms t s) = s \<and>
    metrics syms t ! s = start_bias (surv_start syms t s) +
      path_cost syms 0 (surv_start syms t s) (surv syms t s)"
proof (induction t arbitrary: s)
  case 0
  then show ?case by (simp add: run_def start_bias_def nth_list_update)
next
  case (Suc t)
  let ?p = "pred_at syms t s"
  have IH: "surv_start syms t ?p < 64" "run (surv_start syms t ?p) (surv syms t ?p) = ?p"
    "metrics syms t ! ?p = start_bias (surv_start syms t ?p) + path_cost syms 0 (surv_start syms t ?p) (surv syms t ?p)"
    using Suc.IH [of ?p] pred_less [OF Suc.prems] by simp_all
  have "metrics syms (Suc t) ! s = metrics syms t ! ?p + branch_cost (step_symbols syms t) ?p (odd s)"
    using viterbi_step_select(1) [OF step_symbols_ok Suc.prems] by (simp add: decisions_def)
  moreover have "run (surv_start syms t ?p) (surv syms t ?p @ [odd s]) = s"
    using IH(2) next_pred [OF Suc.prems] by (simp add: run_def)
  ultimately show ?case using IH by (simp add: path_cost_snoc)
qed

section \<open>Chainback\<close>

fun back_states :: "int list \<Rightarrow> nat \<Rightarrow> nat \<Rightarrow> nat list" where
  "back_states syms 0 s = [s]"
| "back_states syms (Suc t) s = back_states syms t (pred_at syms t s) @ [s]"

lemma length_back_states [simp]: "length (back_states syms t s) = Suc t"
  by (induction t arbitrary: s) simp_all

lemma back_states_last: "back_states syms t s ! t = s"
  by (cases t) (simp_all add: nth_append)

lemma surv_back_states: "i < t \<Longrightarrow> surv syms t s ! i = odd (back_states syms t s ! Suc i)"
  by (induction t arbitrary: s) (auto simp: nth_append less_Suc_eq)

lemma back_states_chain:
  "s < 64 \<Longrightarrow> i < t \<Longrightarrow> back_states syms t s ! i < 64 \<and>
    next_state (back_states syms t s ! i) (odd (back_states syms t s ! Suc i)) = back_states syms t s ! Suc i"
proof (induction t arbitrary: s)
  case (Suc t)
  let ?p = "pred_at syms t s"
  have p: "?p < 64" using Suc.prems by (simp add: pred_less)
  show ?case
  proof (cases "i < t")
    case True
    then show ?thesis using Suc.IH [OF p True] by (simp add: nth_append)
  next
    case False
    with Suc.prems have "i = t" by simp
    then show ?thesis using p next_pred [OF Suc.prems(1)] by (simp add: nth_append back_states_last)
  qed
qed simp

lemma bit_next_state: "j < 5 \<Longrightarrow> bit (next_state s b) (Suc j) = bit s j"
proof -
  assume "j < 5"
  have "next_state s b = take_bit 6 (2 * s + of_bool b)" by (simp add: next_state_def take_bit_eq_mod)
  then have "bit (next_state s b) (Suc j) = bit (2 * s + of_bool b) (Suc j)"
    using \<open>j < 5\<close> by (simp add: bit_take_bit_iff)
  also have "\<dots> = bit s j" by (cases b) (simp_all add: bit_Suc)
  finally show ?thesis .
qed

lemma back_states_bit:
  assumes "s < 64" and "i + d \<le> t" and "d \<le> 5"
  shows "bit (back_states syms t s ! (i + d)) d = bit (back_states syms t s ! i) 0"
  using assms(2,3)
proof (induction d)
  case (Suc d)
  then have lt: "i + d < t" by simp
  have "bit (back_states syms t s ! (i + Suc d)) (Suc d) = bit (back_states syms t s ! (i + d)) d"
    using back_states_chain [OF assms(1) lt] bit_next_state [of d] Suc.prems
    by (metis Suc_le_lessD add_Suc_right)
  with Suc show ?case by simp
qed simp

lemma chainback_states:
  assumes "drop_bit 2 e = s" and "s < 64"
  shows "chainback (decisions syms) n e acc =
    map (\<lambda>i. bit (back_states syms (n + 6) s ! (i + 6)) 5) [0..<n] @ acc"
  using assms
proof (induction n arbitrary: e s acc)
  case (Suc n)
  let ?dec = "decisions syms (n + 6)"
  let ?p = "pred_state ?dec s"
  let ?e = "drop_bit 1 e OR (if ?dec ! s then push_bit 7 1 else 0)"
  have p: "?p < 64" using Suc.prems by (simp add: pred_less)
  have "drop_bit 2 ?e = drop_bit 1 s OR (if ?dec ! s then push_bit 5 1 else 0)"
    using Suc.prems(1) by (auto simp: drop_bit_or drop_bit_drop_bit drop_bit_push_bit add.commute)
  also have "\<dots> = ?p"
  proof -
    have "drop_bit 1 s AND push_bit 5 1 = 0"
    proof -
      have "drop_bit 1 s < 2 ^ 5" using Suc.prems(2) by (simp add: drop_bit_eq_div)
      then have "drop_bit 1 s = take_bit 5 (drop_bit 1 s)" by (simp add: take_bit_nat_eq_self)
      moreover have "take_bit 5 x AND push_bit 5 1 = 0" for x :: nat
        by (rule bit_eqI) (simp only: bit_and_iff bit_take_bit_iff bit_push_bit_iff, auto)
      ultimately show ?thesis by metis
    qed
    then have "drop_bit 1 s OR push_bit 5 1 = drop_bit 1 s + push_bit 5 1"
      by (rule disjunctive_add_eq_or [symmetric])
    then show ?thesis by (simp add: pred_state_def drop_bit_eq_div)
  qed
  finally have e: "drop_bit 2 ?e = ?p" .
  have k: "?dec ! s \<longleftrightarrow> bit ?p 5"
  proof -
    have "bit ?p 5 \<longleftrightarrow> odd (?p div 32)" by (simp add: bit_iff_odd)
    moreover have "?p div 32 = (if ?dec ! s then 1 else 0)"
      using Suc.prems(2) by (simp add: pred_state_def div_nat_eqI)
    ultimately show ?thesis by simp
  qed
  have "chainback (decisions syms) (Suc n) e acc =
      chainback (decisions syms) n ?e ((?dec ! s) # acc)"
    using Suc.prems(1) by (simp only: chainback.simps Let_def)
  also have "\<dots> = map (\<lambda>i. bit (back_states syms (n + 6) ?p ! (i + 6)) 5) [0..<n] @ ((?dec ! s) # acc)"
    by (rule Suc.IH [OF e p])
  also have "\<dots> = map (\<lambda>i. bit (back_states syms (Suc n + 6) s ! (i + 6)) 5) [0..<Suc n] @ acc"
  proof -
    have "back_states syms (Suc n + 6) s = back_states syms (n + 6) ?p @ [s]" by (simp only: add_Suc back_states.simps)
    then show ?thesis using k back_states_last [of syms "n + 6" ?p] by (simp add: nth_append)
  qed
  finally show ?case .
qed simp

lemma deconvolve_survivor: "surv syms (n + 6) 0 = deconvolve n syms @ replicate 6 False"
proof (rule nth_equalityI)
  let ?st = "back_states syms (n + 6) 0"
  have dc: "deconvolve n syms = map (\<lambda>i. bit (?st ! (i + 6)) 5) [0..<n]"
    using chainback_states [of 0 0] by (simp add: deconvolve_def)
  show "length (surv syms (n + 6) 0) = length (deconvolve n syms @ replicate 6 False)" by (simp add: dc)
  fix i assume "i < length (surv syms (n + 6) 0)"
  then have i: "i < n + 6" by simp
  have odd: "surv syms (n + 6) 0 ! i = bit (?st ! Suc i) 0" using surv_back_states [OF i] by (simp add: bit_0)
  show "surv syms (n + 6) 0 ! i = (deconvolve n syms @ replicate 6 False) ! i"
  proof (cases "i < n")
    case True
    then show ?thesis using back_states_bit [of 0 "Suc i" 5 "n + 6" syms] unfolding odd
      by (simp add: dc nth_append add.commute)
  next
    case False
    define d where "d = n + 6 - Suc i"
    have "bit (?st ! (Suc i + d)) d = bit (?st ! Suc i) 0"
      using False i by (intro back_states_bit) (simp_all add: d_def)
    moreover have "Suc i + d = n + 6" using i by (simp add: d_def)
    ultimately have "bit (?st ! (n + 6)) d = bit (?st ! Suc i) 0" by (simp only:)
    then have "\<not> bit (?st ! Suc i) 0" by (simp add: back_states_last)
    then show ?thesis using False i unfolding odd by (simp add: dc nth_append)
  qed
qed

lemma run_tail: "run s (bs @ replicate 6 False) = 0"
proof -
  have "run s (bs @ replicate k False) mod 2 ^ k = 0" if "k \<le> 6" for k
    using that
  proof (induction k)
    case (Suc k)
    let ?r = "run s (bs @ replicate k False)"
    have "run s (bs @ replicate (Suc k) False) = (2 * ?r) mod 64"
      by (simp add: run_def next_state_def replicate_append_same [symmetric] flip: append_assoc)
    moreover have "(2 * ?r) mod 64 mod 2 ^ Suc k = (2 * ?r) mod 2 ^ Suc k"
    proof -
      have "(64::nat) = 2 ^ 6" by simp
      then have "(2::nat) ^ Suc k dvd 64" using Suc.prems by (simp only: le_imp_power_dvd)
      then show ?thesis by (simp add: mod_mod_cancel)
    qed
    moreover have "(2 * ?r) mod 2 ^ Suc k = 0" using Suc by (simp add: mult_mod_right [symmetric])
    ultimately show ?case by simp
  qed simp
  from this [of 6] have "run s (bs @ replicate 6 False) mod 64 = 0" by simp
  moreover have "run s (bs @ replicate 6 False) < 64"
    using next_state_less by (simp add: run_def numeral_eq_Suc)
  ultimately show ?thesis by simp
qed

section \<open>Code words\<close>

fun encode :: "nat \<Rightarrow> bool list \<Rightarrow> bool list" where
  "encode s [] = []"
| "encode s (b # bs) = map (branch_out s b) [0..<4] @ encode (next_state s b) bs"

lemma length_encode [simp]: "length (encode s bs) = 4 * length bs"
  by (induction bs arbitrary: s) simp_all

lemma upt_4: "[0..<4] = [0, 1, 2, 3 :: nat]"
  by (simp add: upt_rec)

lemma branch_cost_sum:
  "branch_cost (step_symbols syms t) s b =
    (\<Sum>j<4. sym_cost (branch_out s b j) (limit_min_max (syms ! (4 * t + j))))"
  by (simp add: branch_cost_def step_symbols_def upt_4 eval_nat_numeral lessThan_Suc)

lemma sum_split_first:
  fixes m n :: nat and f :: "nat \<Rightarrow> int"
  shows "m \<le> n \<Longrightarrow> sum f {..<n} = sum f {..<m} + (\<Sum>k<n - m. f (m + k))"
proof (induction n)
  case (Suc n)
  then show ?case by (cases "m = Suc n") (simp_all add: Suc_diff_le)
qed simp

lemma path_cost_sum:
  "path_cost syms t s bs =
    (\<Sum>k<4 * length bs. sym_cost (encode s bs ! k) (limit_min_max (syms ! (4 * t + k))))"
proof (induction bs arbitrary: t s)
  case (Cons b bs)
  let ?f = "\<lambda>k. sym_cost (encode s (b # bs) ! k) (limit_min_max (syms ! (4 * t + k)))"
  have "(\<Sum>k<4 * length (b # bs). ?f k) = (\<Sum>k<4. ?f k) + (\<Sum>k<4 * length bs. ?f (4 + k))"
    by (subst sum_split_first [of 4]) simp_all
  moreover have "(\<Sum>k<4. ?f k) = branch_cost (step_symbols syms t) s b"
    unfolding branch_cost_sum by (rule sum.cong) (simp_all add: nth_append)
  moreover have "(\<Sum>k<4 * length bs. ?f (4 + k)) = path_cost syms (Suc t) (next_state s b) bs"
    unfolding Cons.IH by (rule sum.cong) (simp_all add: nth_append ac_simps)
  ultimately show ?case by simp
qed simp

lemma branch_out_bit_inj: "s < 64 \<Longrightarrow> branch_out s b 0 = branch_out s c 0 \<Longrightarrow> b = c"
proof -
  assume s: "s < 64" and eq: "branch_out s b 0 = branch_out s c 0"
  have "branch_out s True 0 \<longleftrightarrow> \<not> branch_out s False 0"
  proof (cases "s < 32")
    case True
    then show ?thesis using branch_out_simps(1) [of s 0] by simp
  next
    case False
    then have "s - 32 < 32" "s - 32 + 32 = s" using s by simp_all
    then show ?thesis using branch_out_simps(2,3) [of "s - 32" 0] by simp
  qed
  with eq show ?thesis by (cases b; cases c) simp_all
qed

lemma encode_inj: "s < 64 \<Longrightarrow> length bs = length cs \<Longrightarrow> encode s bs = encode s cs \<Longrightarrow> bs = cs"
proof (induction bs arbitrary: s cs)
  case (Cons b bs)
  then obtain c cs' where cs: "cs = c # cs'" by (cases cs) auto
  from Cons.prems(3) have "map (branch_out s b) [0..<4] @ encode (next_state s b) bs =
      map (branch_out s c) [0..<4] @ encode (next_state s c) cs'" by (simp only: cs encode.simps)
  then have "map (branch_out s b) [0..<4] = map (branch_out s c) [0..<4]"
    and rest: "encode (next_state s b) bs = encode (next_state s c) cs'"
    by (simp_all only: append_eq_append_conv length_map simp_thms)
  then have "branch_out s b 0 = branch_out s c 0" by (simp add: upt_4)
  then have "b = c" by (rule branch_out_bit_inj [OF Cons.prems(1)])
  with rest Cons.IH [OF next_state_less] Cons.prems(2) show ?case by (simp add: cs)
qed simp

text \<open>A soft bit with the right sign favours the bit that was sent.\<close>

lemma sign_cost:
  assumes "x \<noteq> 0" and "\<bar>x\<bar> \<le> 32640" and "(x > 0) = c"
  shows "sym_cost c (limit_min_max x) < sym_cost (\<not> c) (limit_min_max x)"
proof -
  have "(x + 127 + 2 ^ 15) mod 2 ^ 16 = x + 127 + 2 ^ 15" using assms(2) by (intro mod_pos_pos_trivial) auto
  then have "limit_min_max x = (if x + 127 < 0 then 0 else if x + 127 > 255 then 255 else x + 127)"
    by (simp add: limit_min_max_def Let_def)
  then show ?thesis using assms by (auto simp: sym_cost_def)
qed

lemma length_deconvolve: "length (deconvolve n syms) = n"
  using arg_cong [OF deconvolve_survivor [of syms n], of length] by simp

lemma viterbi_least_any_start:
  "\<exists>s0<64. \<forall>s<64. \<forall>msg. length msg = n \<longrightarrow>
    start_bias s0 + path_cost syms 0 s0 (deconvolve n syms @ replicate 6 False) \<le>
    start_bias s + path_cost syms 0 s (msg @ replicate 6 False)"
proof -
  define s0 where "s0 = surv_start syms (n + 6) 0"
  have s0: "s0 < 64" and m: "metrics syms (n + 6) ! 0 =
      start_bias s0 + path_cost syms 0 s0 (deconvolve n syms @ replicate 6 False)"
    using survivor [of 0 syms "n + 6"] by (simp_all add: s0_def deconvolve_survivor)
  have "metrics syms (n + 6) ! 0 \<le> start_bias s + path_cost syms 0 s (msg @ replicate 6 False)"
    if "length msg = n" "s < 64" for s msg
    using metrics_lower_bound [of s syms "msg @ replicate 6 False"] that by (simp add: run_tail)
  with s0 m show ?thesis by auto
qed

lemma viterbi_least:
  "\<exists>s0<64. \<forall>msg. length msg = n \<longrightarrow>
    start_bias s0 + path_cost syms 0 s0 (deconvolve n syms @ replicate 6 False) \<le>
    path_cost syms 0 0 (msg @ replicate 6 False)"
proof -
  have "0 < (64 :: nat)" "start_bias 0 = 0" by (simp_all add: start_bias_def)
  with viterbi_least_any_start [of n syms] show ?thesis by (metis add_0)
qed

text \<open>
  What the symbols of \<open>m\<close> steps cost at least, on any path: each received symbol counts with its distance
  from the nearer of the two code bits. An erased symbol costs about 127 on every path.
\<close>

definition least_cost :: "int list \<Rightarrow> nat \<Rightarrow> int" where
  "least_cost syms m = sum_list (map (\<lambda>k. min (limit_min_max (syms ! k)) (255 - limit_min_max (syms ! k))) [0..<4 * m])"

lemma least_cost_path: "least_cost syms (length bs) \<le> path_cost syms 0 s bs"
proof -
  have "least_cost syms (length bs) =
      (\<Sum>k<4 * length bs. min (limit_min_max (syms ! k)) (255 - limit_min_max (syms ! k)))"
    by (simp add: least_cost_def interv_sum_list_conv_sum_set_nat atLeast0LessThan)
  also have "\<dots> \<le> path_cost syms 0 s bs"
    unfolding path_cost_sum by (intro sum_mono) (simp add: sym_cost_def)
  finally show ?thesis .
qed

section \<open>Properties\<close>

text \<open>
  C11: Maximum likelihood. The decoder prefers the start state zero by a bias of 1000 and does not force it.
  So for every sequence of soft bits, the decoded message has the length asked for and, followed by the six tail bits and started
  in some state, a total cost (branch distances plus the bias of 1000 unless that state is zero) that no
  message of the same length undercuts from any start state, with the same bias. The encoder starts in state zero: when
  some message has, from state zero, a cost less than 1000 above the cost that the received symbols have
  on every path (three inverted symbols of full strength, say), then the decoded message is of least
  cost among all messages from state zero.
\<close>

theorem viterbi_optimal:
  "length (deconvolve n syms) = n \<and>
   (\<exists>s0<64. \<forall>s<64. \<forall>msg. length msg = n \<longrightarrow>
      start_bias s0 + path_cost syms 0 s0 (deconvolve n syms @ replicate 6 False) \<le>
      start_bias s + path_cost syms 0 s (msg @ replicate 6 False)) \<and>
   ((\<exists>sent. length sent = n \<and> path_cost syms 0 0 (sent @ replicate 6 False) < 1000 + least_cost syms (n + 6)) \<longrightarrow>
    (\<forall>msg. length msg = n \<longrightarrow>
      path_cost syms 0 0 (deconvolve n syms @ replicate 6 False) \<le> path_cost syms 0 0 (msg @ replicate 6 False)))"
proof (intro conjI impI)
  show "length (deconvolve n syms) = n" by (rule length_deconvolve)
  show "\<exists>s0<64. \<forall>s<64. \<forall>msg. length msg = n \<longrightarrow>
      start_bias s0 + path_cost syms 0 s0 (deconvolve n syms @ replicate 6 False) \<le>
      start_bias s + path_cost syms 0 s (msg @ replicate 6 False)" by (rule viterbi_least_any_start)
  assume "\<exists>sent. length sent = n \<and> path_cost syms 0 0 (sent @ replicate 6 False) < 1000 + least_cost syms (n + 6)"
  then obtain sent where sent: "length sent = n" "path_cost syms 0 0 (sent @ replicate 6 False) < 1000 + least_cost syms (n + 6)"
    by blast
  obtain s0 where s0: "\<And>msg. length msg = n \<Longrightarrow>
      start_bias s0 + path_cost syms 0 s0 (deconvolve n syms @ replicate 6 False) \<le> path_cost syms 0 0 (msg @ replicate 6 False)"
    using viterbi_least [of n syms] by blast
  have "least_cost syms (n + 6) \<le> path_cost syms 0 s0 (deconvolve n syms @ replicate 6 False)"
    using least_cost_path [of syms "deconvolve n syms @ replicate 6 False" s0] by (simp add: length_deconvolve)
  with s0 [OF sent(1)] sent(2) have "s0 = 0" by (simp add: start_bias_def split: if_splits)
  with s0 show "\<forall>msg. length msg = n \<longrightarrow>
      path_cost syms 0 0 (deconvolve n syms @ replicate 6 False) \<le> path_cost syms 0 0 (msg @ replicate 6 False)"
    by (simp add: start_bias_def)
qed

text \<open>The code word of the message 10 and its tail, with two symbols inverted and one erased.\<close>

definition noisy_symbols :: "int list" where
  "noisy_symbols =
     [90, - 40, 90, 90, - 90, 90, 90, - 90, 90, 0, - 90, 90, 90, 90, - 90, 90, - 90, 60, 90, -
      90, 90, - 90, - 90, 90, 90, 90, 90, 90, - 90, - 90, - 90, - 90]"

lemmas noisy_costs_simps = noisy_symbols_def branch_cost_def step_symbols_def upt_4 branch_out_def parity_def polys_def
  PARTAB_def next_state_def sym_cost_def limit_min_max_def Let_def

lemma tail_bits: "replicate 6 False = [False, False, False, False, False, False]"
  by (simp add: eval_nat_numeral)

lemma noisy_costs:
  "path_cost noisy_symbols 0 0 ([True, False] @ replicate 6 False) = 1573"
  "path_cost noisy_symbols 0 0 ([False, False] @ replicate 6 False) = 4534"
  "path_cost noisy_symbols 0 0 ([False, True] @ replicate 6 False) = 4973"
  "path_cost noisy_symbols 0 0 ([True, True] @ replicate 6 False) = 4516"
  by (simp_all add: tail_bits noisy_costs_simps numeral_3_eq_3 [symmetric])

lemma noisy_least: "least_cost noisy_symbols 8 = 1372"
  by (simp add: least_cost_def upt_32 noisy_symbols_def limit_min_max_def)

theorem viterbi_optimal_witness:
  "deconvolve 2 noisy_symbols = [True, False] \<and>
   list_all (\<lambda>msg. path_cost noisy_symbols 0 0 (deconvolve 2 noisy_symbols @ replicate 6 False) \<le>
     path_cost noisy_symbols 0 0 (msg @ replicate 6 False)) [[False, False], [False, True], [True, False], [True, True]]"
proof -
  have ex: "\<exists>sent. length sent = 2 \<and> path_cost noisy_symbols 0 0 (sent @ replicate 6 False) < 1000 + least_cost noisy_symbols (2 + 6)"
    using noisy_costs(1) noisy_least by (intro exI [of _ "[True, False]"]) simp
  note opt = viterbi_optimal [of 2 noisy_symbols]
  from opt have len: "length (deconvolve 2 noisy_symbols) = 2" by (rule conjunct1)
  from opt ex have le: "path_cost noisy_symbols 0 0 (deconvolve 2 noisy_symbols @ replicate 6 False) \<le>
      path_cost noisy_symbols 0 0 (msg @ replicate 6 False)" if "length msg = 2" for msg
    using that by blast
  obtain a b where ab: "deconvolve 2 noisy_symbols = [a, b]" using len by (auto simp: numeral_2_eq_2 length_Suc_conv)
  have "\<not> path_cost noisy_symbols 0 0 ([a, b] @ replicate 6 False) \<le> path_cost noisy_symbols 0 0 ([True, False] @ replicate 6 False)"
    if "[a, b] \<in> {[False, False], [False, True], [True, True]}"
    using noisy_costs that by auto
  moreover have "path_cost noisy_symbols 0 0 ([a, b] @ replicate 6 False) \<le> path_cost noisy_symbols 0 0 ([True, False] @ replicate 6 False)"
    using le [of "[True, False]"] unfolding ab by simp
  ultimately have "[a, b] = [True, False]" by (cases a; cases b) blast+
  moreover have "list_all (\<lambda>msg. path_cost noisy_symbols 0 0 (deconvolve 2 noisy_symbols @ replicate 6 False) \<le>
     path_cost noisy_symbols 0 0 (msg @ replicate 6 False)) [[False, False], [False, True], [True, False], [True, True]]"
    by (simp only: list_all_iff list.set ball_simps simp_thms) (intro conjI le; simp)
  ultimately show ?thesis unfolding ab by simp
qed

text \<open>
  If every received soft bit has the sign of the code bit that was sent, whatever its strength up to
  32640, the decoder returns exactly the message that was encoded.
\<close>

theorem viterbi_recovers:
  assumes "\<forall>k<4 * (length msg + 6). syms ! k \<noteq> 0 \<and> \<bar>syms ! k\<bar> \<le> 32640 \<and>
      (syms ! k > 0) = encode 0 (msg @ replicate 6 False) ! k"
  shows "deconvolve (length msg) syms = msg"
proof -
  let ?out = "deconvolve (length msg) syms @ replicate 6 False"
  let ?msg = "msg @ replicate 6 False"
  let ?N = "4 * (length msg + 6)"
  let ?c = "\<lambda>s bs k. sym_cost (encode s bs ! k) (limit_min_max (syms ! k))"
  have len: "length ?out = length msg + 6"
    using arg_cong [OF deconvolve_survivor [of syms "length msg"], of length] by simp
  obtain s0 where s0: "s0 < 64" and "start_bias s0 + path_cost syms 0 s0 ?out \<le> path_cost syms 0 0 ?msg"
    using viterbi_least [of "length msg" syms] by blast
  then have le: "start_bias s0 + (\<Sum>k<?N. ?c s0 ?out k) \<le> (\<Sum>k<?N. ?c 0 ?msg k)"
    using len by (simp add: path_cost_sum)
  have strict: "?c 0 ?msg k < ?c s0 ?out k" if "k < ?N" "encode s0 ?out ! k \<noteq> encode 0 ?msg ! k" for k
    using sign_cost [of "syms ! k" "encode 0 ?msg ! k"] assms that by auto
  then have each: "?c 0 ?msg k \<le> ?c s0 ?out k" if "k < ?N" for k
    using that by (cases "encode s0 ?out ! k = encode 0 ?msg ! k") force+
  then have ge: "(\<Sum>k<?N. ?c 0 ?msg k) \<le> (\<Sum>k<?N. ?c s0 ?out k)" by (intro sum_mono) simp
  then have "start_bias s0 \<le> 0" using le by linarith
  then have z: "s0 = 0" by (simp add: start_bias_def split: if_splits)
  have "encode 0 ?out ! k = encode 0 ?msg ! k" if k: "k < ?N" for k
  proof (rule ccontr)
    assume ne: "encode 0 ?out ! k \<noteq> encode 0 ?msg ! k"
    have "\<exists>k\<in>{..<?N}. ?c 0 ?msg k < ?c s0 ?out k"
      using strict [OF k] ne k unfolding z by blast
    moreover have "\<forall>k\<in>{..<?N}. ?c 0 ?msg k \<le> ?c s0 ?out k" using each by blast
    ultimately have "(\<Sum>k<?N. ?c 0 ?msg k) < (\<Sum>k<?N. ?c s0 ?out k)"
      by (intro sum_strict_mono_ex1) simp_all
    with le show False by (simp add: z start_bias_def)
  qed
  then have "encode 0 ?out = encode 0 ?msg" using len by (intro nth_equalityI) simp_all
  then have "?out = ?msg" by (rule encode_inj [of 0, rotated 2]) (use len in simp_all)
  then show ?thesis by simp
qed

theorem viterbi_recovers_witness:
  "deconvolve 4 (map (\<lambda>b. if b then 90 else - 3) (encode 0 ([True, False, True, True] @ replicate 6 False))) =
    [True, False, True, True]"
proof -
  let ?syms = "map (\<lambda>b. if b then 90 else - 3 :: int) (encode 0 ([True, False, True, True] @ replicate 6 False))"
  have "\<forall>k<4 * (length [True, False, True, True] + 6). ?syms ! k \<noteq> 0 \<and> \<bar>?syms ! k\<bar> \<le> 32640 \<and>
      (?syms ! k > 0) = encode 0 ([True, False, True, True] @ replicate 6 False) ! k"
    by (auto simp del: encode.simps)
  note rec = viterbi_recovers [OF this]
  have "length [True, False, True, True] = 4" by simp
  with rec show ?thesis by (simp only:)
qed

end
