(* ===== verification/Protection.thy ===== *)
theory Protection
  imports Viterbi
begin

text \<open>
  De-puncturing, \<^verbatim>\<open>src/src/base/protection/\<close>: the puncturing vectors, the equal and unequal error
  protection profiles, the address tables their constructors build, and the de-puncturing step in
  front of the Viterbi decoder.  An address is an index into the Viterbi input block.  The assertions
  of the source on the arguments are the value None; that no address leaves the block, which the
  source asserts at every step, is proved.
\<close>

section \<open>The code\<close>

definition cPI_Codes :: "nat list list" where
  "cPI_Codes = [
   [1, 1, 0, 0, 1, 0, 0, 0, 1, 0, 0, 0, 1, 0, 0, 0, 1, 0, 0, 0, 1, 0, 0, 0, 1, 0, 0, 0, 1, 0, 0, 0],
   [1, 1, 0, 0, 1, 0, 0, 0, 1, 0, 0, 0, 1, 0, 0, 0, 1, 1, 0, 0, 1, 0, 0, 0, 1, 0, 0, 0, 1, 0, 0, 0],
   [1, 1, 0, 0, 1, 0, 0, 0, 1, 1, 0, 0, 1, 0, 0, 0, 1, 1, 0, 0, 1, 0, 0, 0, 1, 0, 0, 0, 1, 0, 0, 0],
   [1, 1, 0, 0, 1, 0, 0, 0, 1, 1, 0, 0, 1, 0, 0, 0, 1, 1, 0, 0, 1, 0, 0, 0, 1, 1, 0, 0, 1, 0, 0, 0],
   [1, 1, 0, 0, 1, 1, 0, 0, 1, 1, 0, 0, 1, 0, 0, 0, 1, 1, 0, 0, 1, 0, 0, 0, 1, 1, 0, 0, 1, 0, 0, 0],
   [1, 1, 0, 0, 1, 1, 0, 0, 1, 1, 0, 0, 1, 0, 0, 0, 1, 1, 0, 0, 1, 1, 0, 0, 1, 1, 0, 0, 1, 0, 0, 0],
   [1, 1, 0, 0, 1, 1, 0, 0, 1, 1, 0, 0, 1, 1, 0, 0, 1, 1, 0, 0, 1, 1, 0, 0, 1, 1, 0, 0, 1, 0, 0, 0],
   [1, 1, 0, 0, 1, 1, 0, 0, 1, 1, 0, 0, 1, 1, 0, 0, 1, 1, 0, 0, 1, 1, 0, 0, 1, 1, 0, 0, 1, 1, 0, 0],
   [1, 1, 1, 0, 1, 1, 0, 0, 1, 1, 0, 0, 1, 1, 0, 0, 1, 1, 0, 0, 1, 1, 0, 0, 1, 1, 0, 0, 1, 1, 0, 0],
   [1, 1, 1, 0, 1, 1, 0, 0, 1, 1, 0, 0, 1, 1, 0, 0, 1, 1, 1, 0, 1, 1, 0, 0, 1, 1, 0, 0, 1, 1, 0, 0],
   [1, 1, 1, 0, 1, 1, 0, 0, 1, 1, 1, 0, 1, 1, 0, 0, 1, 1, 1, 0, 1, 1, 0, 0, 1, 1, 0, 0, 1, 1, 0, 0],
   [1, 1, 1, 0, 1, 1, 0, 0, 1, 1, 1, 0, 1, 1, 0, 0, 1, 1, 1, 0, 1, 1, 0, 0, 1, 1, 1, 0, 1, 1, 0, 0],
   [1, 1, 1, 0, 1, 1, 1, 0, 1, 1, 1, 0, 1, 1, 0, 0, 1, 1, 1, 0, 1, 1, 0, 0, 1, 1, 1, 0, 1, 1, 0, 0],
   [1, 1, 1, 0, 1, 1, 1, 0, 1, 1, 1, 0, 1, 1, 0, 0, 1, 1, 1, 0, 1, 1, 1, 0, 1, 1, 1, 0, 1, 1, 0, 0],
   [1, 1, 1, 0, 1, 1, 1, 0, 1, 1, 1, 0, 1, 1, 1, 0, 1, 1, 1, 0, 1, 1, 1, 0, 1, 1, 1, 0, 1, 1, 0, 0],
   [1, 1, 1, 0, 1, 1, 1, 0, 1, 1, 1, 0, 1, 1, 1, 0, 1, 1, 1, 0, 1, 1, 1, 0, 1, 1, 1, 0, 1, 1, 1, 0],
   [1, 1, 1, 1, 1, 1, 1, 0, 1, 1, 1, 0, 1, 1, 1, 0, 1, 1, 1, 0, 1, 1, 1, 0, 1, 1, 1, 0, 1, 1, 1, 0],
   [1, 1, 1, 1, 1, 1, 1, 0, 1, 1, 1, 0, 1, 1, 1, 0, 1, 1, 1, 1, 1, 1, 1, 0, 1, 1, 1, 0, 1, 1, 1, 0],
   [1, 1, 1, 1, 1, 1, 1, 0, 1, 1, 1, 1, 1, 1, 1, 0, 1, 1, 1, 1, 1, 1, 1, 0, 1, 1, 1, 0, 1, 1, 1, 0],
   [1, 1, 1, 1, 1, 1, 1, 0, 1, 1, 1, 1, 1, 1, 1, 0, 1, 1, 1, 1, 1, 1, 1, 0, 1, 1, 1, 1, 1, 1, 1, 0],
   [1, 1, 1, 1, 1, 1, 1, 1, 1, 1, 1, 1, 1, 1, 1, 0, 1, 1, 1, 1, 1, 1, 1, 0, 1, 1, 1, 1, 1, 1, 1, 0],
   [1, 1, 1, 1, 1, 1, 1, 1, 1, 1, 1, 1, 1, 1, 1, 0, 1, 1, 1, 1, 1, 1, 1, 1, 1, 1, 1, 1, 1, 1, 1, 0],
   [1, 1, 1, 1, 1, 1, 1, 1, 1, 1, 1, 1, 1, 1, 1, 1, 1, 1, 1, 1, 1, 1, 1, 1, 1, 1, 1, 1, 1, 1, 1, 0],
   [1, 1, 1, 1, 1, 1, 1, 1, 1, 1, 1, 1, 1, 1, 1, 1, 1, 1, 1, 1, 1, 1, 1, 1, 1, 1, 1, 1, 1, 1, 1, 1]]"

definition get_PI_codes :: "nat \<Rightarrow> nat list" where
  "get_PI_codes iPiCode = cPI_Codes ! (iPiCode - 1)"

record protection =
  bitRate :: nat
  outSize :: nat
  viterbiBlock :: "int list"
  viterbiBlockAddresses :: "nat list"

text \<open>The base class constructor.\<close>

definition Protection :: "nat \<Rightarrow> protection" where
  "Protection iBitRate =
     \<lparr>bitRate = iBitRate, outSize = 24 * iBitRate, viterbiBlock = replicate (24 * iBitRate * 4 + 24) 0,
      viterbiBlockAddresses = []\<rparr>"

text \<open>One code bit: note its address unless it is punctured, and count it.\<close>

definition note_address :: "nat list \<Rightarrow> nat \<times> nat list \<Rightarrow> nat \<Rightarrow> nat \<times> nat list" where
  "note_address PIx = (\<lambda>(viterbiCounter, addrs) j.
     (viterbiCounter + 1, if PIx ! (j mod 32) \<noteq> 0 then addrs @ [viterbiCounter] else addrs))"

definition extract_viterbi_block_addresses :: "int \<Rightarrow> nat list \<Rightarrow> nat \<times> nat list \<Rightarrow> nat \<times> nat list" where
  "extract_viterbi_block_addresses iLx PIx s =
     foldl (\<lambda>s i. foldl (note_address PIx) s [0..<128]) s [0..<nat iLx]"

definition extract_tail :: "nat \<times> nat list \<Rightarrow> nat \<times> nat list" where
  "extract_tail s = foldl (note_address (get_PI_codes 8)) s [0..<24]"

definition eep_profile :: "nat \<Rightarrow> nat \<Rightarrow> (int \<times> int \<times> nat \<times> nat) option" where
  "eep_profile rate iProtLevel =
     (let protLevel = iProtLevel AND 3;
          option = drop_bit 2 (iProtLevel AND push_bit 2 1)
      in if option = 0
         then let n = int (rate div 8) in
           if rate mod 8 \<noteq> 0 then None
           else if protLevel = 0 then Some (6 * n - 3, 3, 24, 23)
           else if protLevel = 1
             then if n = 1 then Some (5, 1, 13, 12) else Some (2 * n - 3, 4 * n + 3, 14, 13)
           else if protLevel = 2 then Some (6 * n - 3, 3, 8, 7)
           else if protLevel = 3 then Some (4 * n - 3, 2 * n + 3, 3, 2)
           else None
         else if option = 1
         then let n = int (rate div 32) in
           if rate mod 32 \<noteq> 0 then None
           else if protLevel = 0 then Some (24 * n - 3, 3, 10, 9)
           else if protLevel = 1 then Some (24 * n - 3, 3, 6, 5)
           else if protLevel = 2 then Some (24 * n - 3, 3, 4, 3)
           else if protLevel = 3 then Some (24 * n - 3, 3, 2, 1)
           else None
         else None)"

definition EepProtection :: "nat \<Rightarrow> nat \<Rightarrow> protection option" where
  "EepProtection iBitRate iProtLevel =
     (case eep_profile iBitRate iProtLevel of
        None \<Rightarrow> None
      | Some (L1, L2, PI1, PI2) \<Rightarrow>
          let s = extract_viterbi_block_addresses L1 (get_PI_codes PI1) (0, []);
              s = extract_viterbi_block_addresses L2 (get_PI_codes PI2) s;
              s = extract_tail s
          in Some ((Protection iBitRate)\<lparr>viterbiBlockAddresses := snd s\<rparr>))"

text \<open>Columns: bit rate, protection level, L1 to L4, PI1 to PI4.\<close>

type_synonym profile = "nat \<times> int \<times> int \<times> int \<times> int \<times> int \<times> int \<times> int \<times> int \<times> int"

definition cProfileTable :: "profile list" where
  "cProfileTable = [
   (32, 5, 3, 4, 17, 0, 5, 3, 2, - 1),
   (32, 4, 3, 3, 18, 0, 11, 6, 5, - 1),
   (32, 3, 3, 4, 14, 3, 15, 9, 6, 8),
   (32, 2, 3, 4, 14, 3, 22, 13, 8, 13),
   (32, 1, 3, 5, 13, 3, 24, 17, 12, 17),
   (48, 5, 4, 3, 26, 3, 5, 4, 2, 3),
   (48, 4, 3, 4, 26, 3, 9, 6, 4, 6),
   (48, 3, 3, 4, 26, 3, 15, 10, 6, 9),
   (48, 2, 3, 4, 26, 3, 24, 14, 8, 15),
   (48, 1, 3, 5, 25, 3, 24, 18, 13, 18),
   (56, 5, 6, 10, 23, 3, 5, 4, 2, 3),
   (56, 4, 6, 10, 23, 3, 9, 6, 4, 5),
   (56, 3, 6, 12, 21, 3, 16, 7, 6, 9),
   (56, 2, 6, 10, 23, 3, 23, 13, 8, 13),
   (64, 5, 6, 9, 31, 2, 5, 3, 2, 3),
   (64, 4, 6, 9, 33, 0, 11, 6, 5, - 1),
   (64, 3, 6, 12, 27, 3, 16, 8, 6, 9),
   (64, 2, 6, 10, 29, 3, 23, 13, 8, 13),
   (64, 1, 6, 11, 28, 3, 24, 18, 12, 18),
   (80, 5, 6, 10, 41, 3, 6, 3, 2, 3),
   (80, 4, 6, 10, 41, 3, 11, 6, 5, 6),
   (80, 3, 6, 11, 40, 3, 16, 8, 6, 7),
   (80, 2, 6, 10, 41, 3, 23, 13, 8, 13),
   (80, 1, 6, 10, 41, 3, 24, 7, 12, 18),
   (96, 5, 7, 9, 53, 3, 5, 4, 2, 4),
   (96, 4, 7, 10, 52, 3, 9, 6, 4, 6),
   (96, 3, 6, 12, 51, 3, 16, 9, 6, 10),
   (96, 2, 6, 10, 53, 3, 22, 12, 9, 12),
   (96, 1, 6, 13, 50, 3, 24, 18, 13, 19),
   (112, 5, 14, 17, 50, 3, 5, 4, 2, 5),
   (112, 4, 11, 21, 49, 3, 9, 6, 4, 8),
   (112, 3, 11, 23, 47, 3, 16, 8, 6, 9),
   (112, 2, 11, 21, 49, 3, 23, 12, 9, 14),
   (128, 5, 12, 19, 62, 3, 5, 3, 2, 4),
   (128, 4, 11, 21, 61, 3, 11, 6, 5, 7),
   (128, 3, 11, 22, 60, 3, 16, 9, 6, 10),
   (128, 2, 11, 21, 61, 3, 22, 12, 9, 14),
   (128, 1, 11, 20, 62, 3, 24, 17, 13, 19),
   (160, 5, 11, 19, 87, 3, 5, 4, 2, 4),
   (160, 4, 11, 23, 83, 3, 11, 6, 5, 9),
   (160, 3, 11, 24, 82, 3, 16, 8, 6, 11),
   (160, 2, 11, 21, 85, 3, 22, 11, 9, 13),
   (160, 1, 11, 22, 84, 3, 24, 18, 12, 19),
   (192, 5, 11, 20, 110, 3, 6, 4, 2, 5),
   (192, 4, 11, 22, 108, 3, 10, 6, 4, 9),
   (192, 3, 11, 24, 106, 3, 16, 10, 6, 11),
   (192, 2, 11, 20, 110, 3, 22, 13, 9, 13),
   (192, 1, 11, 21, 109, 3, 24, 20, 13, 24),
   (224, 5, 12, 22, 131, 3, 8, 6, 2, 6),
   (224, 4, 12, 26, 127, 3, 12, 8, 4, 11),
   (224, 3, 11, 20, 134, 3, 16, 10, 7, 9),
   (224, 2, 11, 22, 132, 3, 24, 16, 10, 15),
   (224, 1, 11, 24, 130, 3, 24, 20, 12, 20),
   (256, 5, 11, 24, 154, 3, 6, 5, 2, 5),
   (256, 4, 11, 24, 154, 3, 12, 9, 5, 10),
   (256, 3, 11, 27, 151, 3, 16, 10, 7, 10),
   (256, 2, 11, 22, 156, 3, 24, 14, 10, 13),
   (256, 1, 11, 26, 152, 3, 24, 19, 14, 18),
   (320, 5, 11, 26, 200, 3, 8, 5, 2, 6),
   (320, 4, 11, 25, 201, 3, 13, 9, 5, 10),
   (320, 2, 11, 26, 200, 3, 24, 17, 9, 17),
   (384, 5, 11, 27, 247, 3, 8, 6, 2, 7),
   (384, 3, 11, 24, 250, 3, 16, 9, 7, 10),
   (384, 1, 12, 28, 245, 3, 24, 20, 14, 23),
   (0, - 1, - 1, - 1, - 1, - 1, - 1, - 1, - 1, - 1)]"

fun find_index_from :: "profile list \<Rightarrow> nat \<Rightarrow> nat \<Rightarrow> int \<Rightarrow> nat option" where
  "find_index_from [] i rate level = None"
| "find_index_from ((b, p, _) # rows) i rate level =
     (if b = 0 then None
      else if b = rate \<and> p = level then Some i else find_index_from rows (i + 1) rate level)"

definition find_index :: "nat \<Rightarrow> int \<Rightarrow> nat option" where
  "find_index rate level = find_index_from cProfileTable 0 rate level"

definition uep_addresses :: "profile \<Rightarrow> nat \<times> nat list" where
  "uep_addresses = (\<lambda>(rate, level, L1, L2, L3, L4, PI1, PI2, PI3, PI4).
     let s = extract_viterbi_block_addresses L1 (get_PI_codes (nat PI1)) (0, []);
         s = extract_viterbi_block_addresses L2 (get_PI_codes (nat PI2)) s;
         s = extract_viterbi_block_addresses L3 (get_PI_codes (nat PI3)) s;
         s = extract_viterbi_block_addresses L4 (if PI4 \<noteq> - 1 then get_PI_codes (nat PI4) else []) s
     in extract_tail s)"

definition UepProtection :: "nat \<Rightarrow> int \<Rightarrow> protection" where
  "UepProtection rate level =
     (let index = (case find_index rate level of None \<Rightarrow> 1 | Some i \<Rightarrow> i)
      in (Protection rate)\<lparr>viterbiBlockAddresses := snd (uep_addresses (cProfileTable ! index))\<rparr>)"

definition depuncture :: "protection \<Rightarrow> int list \<Rightarrow> protection" where
  "depuncture pr iV =
     pr\<lparr>viterbiBlock := fold (\<lambda>k block. block[viterbiBlockAddresses pr ! k := iV ! k])
           [0..<length (viterbiBlockAddresses pr)] (viterbiBlock pr)\<rparr>"

definition protection_deconvolve :: "protection \<Rightarrow> int list \<Rightarrow> bool list \<times> protection" where
  "protection_deconvolve pr iV =
     (let pr = depuncture pr iV in (deconvolve (outSize pr) (viterbiBlock pr), pr))"

section \<open>What an extraction produces\<close>

definition kept :: "nat list \<Rightarrow> nat \<Rightarrow> nat list" where
  "kept PIx n = filter (\<lambda>j. PIx ! (j mod 32) \<noteq> 0) [0..<n]"

lemma note_addresses:
  "foldl (note_address PIx) (c, as) [0..<n] = (c + n, as @ map (\<lambda>j. c + j) (kept PIx n))"
  by (induction n) (simp_all add: note_address_def kept_def)

lemma length_kept_128:
  assumes "length v = 32"
  shows "length (kept v 128) = 4 * length (filter (\<lambda>x. x \<noteq> 0) v)"
proof -
  have seg: "length (filter (\<lambda>j. v ! (j mod 32) \<noteq> 0) [32 * k..<32 * k + 32]) = length (filter (\<lambda>x. x \<noteq> 0) v)" for k
  proof -
    have "[32 * k..<32 * k + 32] = map (\<lambda>i. 32 * k + i) [0..<32]"
      by (simp add: list_eq_iff_nth_eq)
    moreover have "v = map ((!) v) [0..<32]" using map_nth [of v] assms by simp
    ultimately have "filter (\<lambda>j. v ! (j mod 32) \<noteq> 0) [32 * k..<32 * k + 32] =
        map (\<lambda>i. 32 * k + i) (filter (\<lambda>i. v ! i \<noteq> 0) [0..<32])"
    proof -
      have "filter (\<lambda>i. v ! ((32 * k + i) mod 32) \<noteq> 0) [0..<32] = filter (\<lambda>i. v ! i \<noteq> 0) [0..<32]"
        by (rule filter_cong) simp_all
      then show ?thesis
        by (simp only: \<open>[32 * k..<32 * k + 32] = map (\<lambda>i. 32 * k + i) [0..<32]\<close> filter_map o_def)
    qed
    moreover have "filter (\<lambda>x. x \<noteq> 0) v = map ((!) v) (filter (\<lambda>i. v ! i \<noteq> 0) [0..<32])"
      by (subst \<open>v = map ((!) v) [0..<32]\<close>) (simp add: filter_map o_def)
    ultimately show ?thesis by (simp only: length_map)
  qed
  have "[0..<128] = [32 * 0..<32 * 0 + 32] @ [32 * 1..<32 * 1 + 32] @ [32 * 2..<32 * 2 + 32] @ [32 * 3..<32 * 3 + 32 :: nat]"
    using upt_split [of 0 32 128] upt_split [of 32 64 128] upt_split [of 64 96 128] by simp
  then show ?thesis by (simp only: kept_def filter_append length_append seg)
qed

text \<open>
  Addresses are increasing, start at the counter before and stay below the counter after, and their
  number is the number of bits the puncturing vector keeps.
\<close>

lemma extract_addresses:
  assumes "extract_viterbi_block_addresses L PIx (c, as) = (c', as')"
  shows "c' = c + 128 * nat L" and "\<exists>bs. as' = as @ bs \<and> sorted_wrt (<) bs \<and> (\<forall>b\<in>set bs. c \<le> b \<and> b < c') \<and>
    length bs = nat L * length (kept PIx 128)"
proof -
  have "\<exists>bs. foldl (\<lambda>s i. foldl (note_address PIx) s [0..<128]) (c, as) [0..<n] = (c + 128 * n, as @ bs) \<and>
      sorted_wrt (<) bs \<and> (\<forall>b\<in>set bs. c \<le> b \<and> b < c + 128 * n) \<and> length bs = n * length (kept PIx 128)" for n
  proof (induction n)
    case (Suc n)
    then obtain bs where bs: "foldl (\<lambda>s i. foldl (note_address PIx) s [0..<128]) (c, as) [0..<n] = (c + 128 * n, as @ bs)"
      "sorted_wrt (<) bs" "\<forall>b\<in>set bs. c \<le> b \<and> b < c + 128 * n" "length bs = n * length (kept PIx 128)" by blast
    define ds where "ds = map (\<lambda>j. c + 128 * n + j) (kept PIx 128)"
    have "sorted_wrt (<) (kept PIx 128)" by (simp add: kept_def sorted_wrt_filter)
    then have ds: "sorted_wrt (<) ds" "\<forall>b\<in>set ds. c + 128 * n \<le> b \<and> b < c + 128 * Suc n"
      by (auto simp: ds_def sorted_wrt_map kept_def)
    have "sorted_wrt (<) (bs @ ds)" using bs(2,3) ds by (force simp: sorted_wrt_append)
    moreover have "\<forall>b\<in>set (bs @ ds). c \<le> b \<and> b < c + 128 * Suc n" using bs(3) ds(2) by force
    moreover have "foldl (\<lambda>s i. foldl (note_address PIx) s [0..<128]) (c, as) [0..<Suc n] =
        (c + 128 * Suc n, as @ (bs @ ds))"
      using bs(1) by (simp add: note_addresses ds_def)
    ultimately show ?case using bs(4) by (intro exI [of _ "bs @ ds"]) (simp add: ds_def)
  qed simp
  from this [of "nat L"] assms show "c' = c + 128 * nat L" and "\<exists>bs. as' = as @ bs \<and> sorted_wrt (<) bs \<and>
    (\<forall>b\<in>set bs. c \<le> b \<and> b < c') \<and> length bs = nat L * length (kept PIx 128)"
    by (auto simp: extract_viterbi_block_addresses_def)
qed

text \<open>
  The state of an address table under construction: increasing addresses below the counter.
\<close>

definition table_state :: "nat \<Rightarrow> nat \<Rightarrow> nat \<times> nat list \<Rightarrow> bool" where
  "table_state c m = (\<lambda>(c', as). c' = c \<and> sorted_wrt (<) as \<and> (\<forall>a\<in>set as. a < c) \<and> length as = m)"

lemma table_state_start: "table_state 0 0 (0, [])"
  by (simp add: table_state_def)

lemma table_state_extract:
  assumes "table_state c m s"
  shows "table_state (c + 128 * nat L) (m + nat L * length (kept v 128)) (extract_viterbi_block_addresses L v s)"
proof -
  obtain as where s: "s = (c, as)" "sorted_wrt (<) as" "\<forall>a\<in>set as. a < c" "length as = m"
    using assms by (auto simp: table_state_def)
  obtain c' as' where e: "extract_viterbi_block_addresses L v (c, as) = (c', as')" by fastforce
  note x = extract_addresses [OF e]
  obtain bs where bs: "as' = as @ bs" "sorted_wrt (<) bs" "\<forall>b\<in>set bs. c \<le> b \<and> b < c'"
    "length bs = nat L * length (kept v 128)" using x(2) by blast
  have "sorted_wrt (<) (as @ bs)" using s(2,3) bs(2,3) by (force simp: sorted_wrt_append)
  moreover have "\<forall>a\<in>set (as @ bs). a < c'" using s(3) bs(3) x(1) by (auto simp: trans_less_add1)
  ultimately show ?thesis using x(1) bs(1,4) s(4) by (simp add: table_state_def s(1) e)
qed

lemma upt_24: "[0..<24] = [0, 1, 2, 3, 4, 5, 6, 7, 8, 9, 10, 11, 12, 13, 14, 15, 16, 17, 18, 19, 20, 21, 22, 23 :: nat]"
  by (simp add: upt_rec)

lemma table_state_tail:
  assumes "table_state c m s"
  shows "table_state (c + 24) (m + 12) (extract_tail s)"
proof -
  obtain as where s: "s = (c, as)" "sorted_wrt (<) as" "\<forall>a\<in>set as. a < c" "length as = m"
    using assms by (auto simp: table_state_def)
  define ks where "ks = kept (get_PI_codes 8) 24"
  have ks: "length ks = 12" by (simp add: ks_def kept_def upt_24 get_PI_codes_def cPI_Codes_def)
  have inc: "sorted_wrt (<) (map (\<lambda>j. c + j) ks)" "\<forall>a\<in>set (map (\<lambda>j. c + j) ks). c \<le> a \<and> a < c + 24"
    by (auto simp: ks_def kept_def sorted_wrt_map sorted_wrt_filter)
  have "sorted_wrt (<) (as @ map (\<lambda>j. c + j) ks)" using s(2,3) inc by (force simp: sorted_wrt_append)
  moreover have "\<forall>a\<in>set (as @ map (\<lambda>j. c + j) ks). a < c + 24" using s(3) inc(2) by (auto simp: trans_less_add1)
  ultimately show ?thesis
    by (simp add: table_state_def s(1,4) extract_tail_def note_addresses ks_def [symmetric] ks)
qed

lemma PI_weights:
  "\<forall>k\<in>set [1..<25]. length (get_PI_codes k) = 32 \<and> length (filter (\<lambda>x. x \<noteq> 0) (get_PI_codes k)) = 8 + k"
  by (simp add: upt_conv_Cons get_PI_codes_def cPI_Codes_def)

lemma kept_PI: "1 \<le> k \<Longrightarrow> k \<le> 24 \<Longrightarrow> length (kept (get_PI_codes k) 128) = 4 * (8 + k)"
  using PI_weights by (simp add: length_kept_128)

text \<open>Capacity units a sub-channel with equal error protection occupies.\<close>

definition eep_units :: "nat \<Rightarrow> nat \<Rightarrow> nat" where
  "eep_units rate level =
     (if level < 4 then rate div 8 * ([12, 8, 6, 4] ! level)
      else rate div 32 * ([27, 21, 18, 15] ! (level - 4)))"

lemma eep_sections:
  assumes "1 \<le> PI1" "PI1 \<le> 24" "1 \<le> PI2" "PI2 \<le> 24"
  shows "table_state (128 * (nat L1 + nat L2) + 24) (4 * (nat L1 * (8 + PI1) + nat L2 * (8 + PI2)) + 12)
    (extract_tail (extract_viterbi_block_addresses L2 (get_PI_codes PI2)
       (extract_viterbi_block_addresses L1 (get_PI_codes PI1) (0, []))))"
proof -
  note first = table_state_extract [OF table_state_start, of L1 "get_PI_codes PI1"]
  show ?thesis
    using table_state_tail [OF table_state_extract [OF first, of L2 "get_PI_codes PI2"]] assms
    by (simp add: kept_PI algebra_simps)
qed

lemma level_cases: "level < 8 \<Longrightarrow> level \<in> {0, 1, 2, 3, 4, 5, 6, 7 :: nat}"
  by auto

lemma eep_profile_ok:
  assumes "0 < rate" and "level < 8" and "if level < 4 then 8 dvd rate else 32 dvd rate"
  obtains L1 L2 PI1 PI2 where "eep_profile rate level = Some (L1, L2, PI1, PI2)"
    and "1 \<le> PI1" "PI1 \<le> 24" "1 \<le> PI2" "PI2 \<le> 24"
    and "128 * (nat L1 + nat L2) = 96 * rate"
    and "4 * (nat L1 * (8 + PI1) + nat L2 * (8 + PI2)) + 12 = 64 * eep_units rate level"
proof (cases "level < 4")
  case True
  with assms obtain n where n: "rate = 8 * n" "0 < n" by (auto elim: dvdE)
  then have r: "rate div 8 = n" "rate mod 8 = 0" by simp_all
  have "level \<in> {0, 1, 2, 3}" using True level_cases [OF assms(2)] by auto
  then consider "level = 0" | "level = 1" "n = 1" | "level = 1" "1 < n" | "level = 2" | "level = 3"
    using n(2) by fastforce
  then show ?thesis
  proof cases
    case 1
    with n r show ?thesis
      by (intro that [of "6 * int n - 3" 3 24 23]) (simp_all add: eep_profile_def eep_units_def Let_def nat_diff_distrib' nat_mult_distrib)
  next
    case 2
    with n r show ?thesis
      by (intro that [of 5 1 13 12]) (simp_all add: eep_profile_def eep_units_def Let_def)
  next
    case 3
    with n r show ?thesis
      by (intro that [of "2 * int n - 3" "4 * int n + 3" 14 13])
        (simp_all add: eep_profile_def eep_units_def Let_def nat_diff_distrib' nat_mult_distrib nat_add_distrib)
  next
    case 4
    with n r show ?thesis
      by (intro that [of "6 * int n - 3" 3 8 7]) (simp_all add: eep_profile_def eep_units_def Let_def nat_diff_distrib' nat_mult_distrib)
  next
    case 5
    with n r show ?thesis
      by (intro that [of "4 * int n - 3" "2 * int n + 3" 3 2])
        (simp_all add: eep_profile_def eep_units_def Let_def nat_diff_distrib' nat_mult_distrib nat_add_distrib)
  qed
next
  case False
  with assms obtain n where n: "rate = 32 * n" "0 < n" by (auto elim: dvdE)
  then have r: "rate div 32 = n" "rate mod 32 = 0" by simp_all
  have "level \<in> {4, 5, 6, 7}" using False level_cases [OF assms(2)] by auto
  then consider "level = 4" | "level = 5" | "level = 6" | "level = 7" by fastforce
  then show ?thesis
  proof cases
    case 1
    with n r show ?thesis
      by (intro that [of "24 * int n - 3" 3 10 9]) (simp_all add: eep_profile_def eep_units_def Let_def nat_diff_distrib' nat_mult_distrib)
  next
    case 2
    with n r show ?thesis
      by (intro that [of "24 * int n - 3" 3 6 5]) (simp_all add: eep_profile_def eep_units_def Let_def nat_diff_distrib' nat_mult_distrib)
  next
    case 3
    with n r show ?thesis
      by (intro that [of "24 * int n - 3" 3 4 3]) (simp_all add: eep_profile_def eep_units_def Let_def nat_diff_distrib' nat_mult_distrib)
  next
    case 4
    with n r show ?thesis
      by (intro that [of "24 * int n - 3" 3 2 1]) (simp_all add: eep_profile_def eep_units_def Let_def nat_diff_distrib' nat_mult_distrib)
  qed
qed

lemma eep_ok:
  assumes "0 < rate" and "level < 8" and "if level < 4 then 8 dvd rate else 32 dvd rate"
  shows "\<exists>pr. EepProtection rate level = Some pr \<and> sorted_wrt (<) (viterbiBlockAddresses pr) \<and>
    (\<forall>a\<in>set (viterbiBlockAddresses pr). a < length (viterbiBlock pr)) \<and>
    length (viterbiBlock pr) = 4 * outSize pr + 24 \<and> outSize pr = 24 * rate \<and>
    length (viterbiBlockAddresses pr) = 64 * eep_units rate level"
proof -
  obtain L1 L2 PI1 PI2 where p: "eep_profile rate level = Some (L1, L2, PI1, PI2)"
    "1 \<le> PI1" "PI1 \<le> 24" "1 \<le> PI2" "PI2 \<le> 24" "128 * (nat L1 + nat L2) = 96 * rate"
    "4 * (nat L1 * (8 + PI1) + nat L2 * (8 + PI2)) + 12 = 64 * eep_units rate level"
    using eep_profile_ok [OF assms] by blast
  show ?thesis
    using eep_sections [OF p(2-5), of L1 L2, unfolded p(6,7)]
    by (auto simp: EepProtection_def p(1) Protection_def Let_def table_state_def)
qed

lemma eep_none:
  assumes "level < 8" and "\<not> (if level < 4 then 8 dvd rate else 32 dvd rate)"
  shows "EepProtection rate level = None"
proof -
  have "eep_profile rate level = None"
    using level_cases [OF assms(1)] assms(2)
    by (elim insertE emptyE) (simp_all add: eep_profile_def Let_def dvd_eq_mod_eq_0)
  then show ?thesis by (simp add: EepProtection_def)
qed

section \<open>Unequal error protection\<close>

definition uep_blocks :: "profile \<Rightarrow> nat" where
  "uep_blocks = (\<lambda>(rate, level, L1, L2, L3, L4, _). nat L1 + nat L2 + nat L3 + nat L4)"

definition uep_bits :: "profile \<Rightarrow> nat" where
  "uep_bits = (\<lambda>(rate, level, L1, L2, L3, L4, PI1, PI2, PI3, PI4).
     4 * (nat L1 * (8 + nat PI1) + nat L2 * (8 + nat PI2) + nat L3 * (8 + nat PI3) +
          nat L4 * (8 + nat PI4)) + 12)"

definition uep_row_ok :: "profile \<Rightarrow> bool" where
  "uep_row_ok row = (case row of (rate, level, L1, L2, L3, L4, PI1, PI2, PI3, PI4) \<Rightarrow>
     1 \<le> PI1 \<and> PI1 \<le> 24 \<and> 1 \<le> PI2 \<and> PI2 \<le> 24 \<and> 1 \<le> PI3 \<and> PI3 \<le> 24 \<and>
     (1 \<le> PI4 \<and> PI4 \<le> 24 \<or> L4 = 0) \<and> 128 * uep_blocks row = 96 * rate)"

lemma uep_rows_ok: "list_all uep_row_ok (take 64 cProfileTable)"
  by (simp add: cProfileTable_def uep_row_ok_def uep_blocks_def)

lemma uep_sections:
  assumes "uep_row_ok row"
  shows "table_state (96 * fst row + 24) (uep_bits row) (uep_addresses row)"
proof -
  obtain rate level L1 L2 L3 L4 PI1 PI2 PI3 PI4
    where row: "row = (rate, level, L1, L2, L3, L4, PI1, PI2, PI3, PI4)" by (metis prod.exhaust)
  have b: "1 \<le> PI1" "PI1 \<le> 24" "1 \<le> PI2" "PI2 \<le> 24" "1 \<le> PI3" "PI3 \<le> 24"
    "1 \<le> PI4 \<and> PI4 \<le> 24 \<or> L4 = 0" "128 * (nat L1 + nat L2 + nat L3 + nat L4) = 96 * rate"
    using assms by (simp_all add: uep_row_ok_def uep_blocks_def row)
  let ?v4 = "if PI4 \<noteq> - 1 then get_PI_codes (nat PI4) else []"
  note s1 = table_state_extract [OF table_state_start, of L1 "get_PI_codes (nat PI1)"]
  note s2 = table_state_extract [OF s1, of L2 "get_PI_codes (nat PI2)"]
  note s3 = table_state_extract [OF s2, of L3 "get_PI_codes (nat PI3)"]
  note s5 = table_state_tail [OF table_state_extract [OF s3, of L4 ?v4]]
  have k: "length (kept (get_PI_codes (nat PI)) 128) = 4 * (8 + nat PI)" if "1 \<le> PI" "PI \<le> 24" for PI
    using that by (intro kept_PI) simp_all
  have "nat L4 * length (kept ?v4 128) = 4 * (nat L4 * (8 + nat PI4))"
    using b(7) k [of PI4] by auto
  moreover have "0 + 128 * nat L1 + 128 * nat L2 + 128 * nat L3 + 128 * nat L4 = 96 * rate"
    using b(8) by simp
  ultimately show ?thesis
    using s5 k [of PI1] k [of PI2] k [of PI3] b
    by (simp add: uep_addresses_def uep_bits_def row Let_def algebra_simps)
qed

lemma find_index_row:
  "find_index_from rows i rate level = Some j \<Longrightarrow>
    i \<le> j \<and> j - i < length rows \<and> fst (rows ! (j - i)) = rate \<and> rate \<noteq> 0"
proof (induction rows i rate level rule: find_index_from.induct)
  case (2 b p r rows i rate level)
  show ?case
  proof (cases "b = rate \<and> p = level")
    case True
    with 2 show ?thesis by (auto split: if_splits)
  next
    case False
    with 2 have "Suc i \<le> j \<and> j - Suc i < length rows \<and> fst (rows ! (j - Suc i)) = rate \<and> rate \<noteq> 0"
      by (auto split: if_splits)
    moreover from this have "j - i = Suc (j - Suc i)" by auto
    ultimately show ?thesis by simp
  qed
qed simp

section \<open>De-puncturing\<close>

lemma fold_writes:
  fixes v block :: "'a list"
  assumes "distinct as" and "\<forall>a\<in>set as. a < length block" and "n \<le> length as"
  defines "B \<equiv> fold (\<lambda>k block. block[as ! k := v ! k]) [0..<n] block"
  shows "length B = length block" and "\<And>k. k < n \<Longrightarrow> B ! (as ! k) = v ! k"
    and "\<And>p. p < length block \<Longrightarrow> p \<notin> set as \<Longrightarrow> B ! p = block ! p"
proof -
  have "length (fold (\<lambda>k block. block[as ! k := v ! k]) [0..<m] block) = length block \<and>
      (\<forall>k<m. fold (\<lambda>k block. block[as ! k := v ! k]) [0..<m] block ! (as ! k) = v ! k) \<and>
      (\<forall>p<length block. p \<notin> set as \<longrightarrow> fold (\<lambda>k block. block[as ! k := v ! k]) [0..<m] block ! p = block ! p)"
    if "m \<le> length as" for m
    using that
  proof (induction m)
    case (Suc m)
    let ?B = "fold (\<lambda>k block. block[as ! k := v ! k]) [0..<m] block"
    have IH: "length ?B = length block" "\<And>k. k < m \<Longrightarrow> ?B ! (as ! k) = v ! k"
      "\<And>p. p < length block \<Longrightarrow> p \<notin> set as \<Longrightarrow> ?B ! p = block ! p" using Suc by auto
    have am: "as ! m \<in> set as" "as ! m < length block" using Suc.prems assms(2) by simp_all
    have "?B[as ! m := v ! m] ! (as ! k) = v ! k" if "k < Suc m" for k
      using that IH(1,2) am(2) assms(1) Suc.prems
      by (cases "k = m") (auto simp: nth_eq_iff_index_eq)
    moreover have "?B[as ! m := v ! m] ! p = block ! p" if "p < length block" "p \<notin> set as" for p
    proof -
      have "as ! m \<noteq> p" using that(2) am(1) by blast
      then show ?thesis using IH(3) [OF that] by (simp add: nth_list_update_neq)
    qed
    ultimately show ?case using IH(1) by simp
  qed simp
  from this [OF assms(3)] show "length B = length block" and "\<And>k. k < n \<Longrightarrow> B ! (as ! k) = v ! k"
    and "\<And>p. p < length block \<Longrightarrow> p \<notin> set as \<Longrightarrow> B ! p = block ! p"
    by (auto simp: B_def)
qed

text \<open>
  A handler in use: increasing addresses inside a block of the Viterbi decoder's length whose
  punctured positions are zero (no information).
\<close>

definition prot_ok :: "protection \<Rightarrow> bool" where
  "prot_ok pr \<longleftrightarrow> sorted_wrt (<) (viterbiBlockAddresses pr) \<and>
     (\<forall>a\<in>set (viterbiBlockAddresses pr). a < length (viterbiBlock pr)) \<and>
     length (viterbiBlock pr) = 4 * outSize pr + 24 \<and>
     (\<forall>p<length (viterbiBlock pr). p \<notin> set (viterbiBlockAddresses pr) \<longrightarrow> viterbiBlock pr ! p = 0)"

lemma prot_ok_table:
  assumes "table_state (96 * rate + 24) m (c, as)"
  shows "prot_ok ((Protection rate)\<lparr>viterbiBlockAddresses := as\<rparr>)"
  using assms by (simp add: prot_ok_def Protection_def table_state_def)

lemma depuncture_fields [frame_simps]:
  "viterbiBlockAddresses (depuncture pr v) = viterbiBlockAddresses pr"
  "outSize (depuncture pr v) = outSize pr"
  by (simp_all add: depuncture_def)

lemma depuncture_ok:
  assumes "prot_ok pr"
  shows "prot_ok (depuncture pr v)"
    and "\<And>k. k < length (viterbiBlockAddresses pr) \<Longrightarrow>
      viterbiBlock (depuncture pr v) ! (viterbiBlockAddresses pr ! k) = v ! k"
proof -
  have d: "distinct (viterbiBlockAddresses pr)"
    using assms by (simp add: prot_ok_def strict_sorted_iff)
  have r: "\<forall>a\<in>set (viterbiBlockAddresses pr). a < length (viterbiBlock pr)"
    using assms unfolding prot_ok_def by blast
  note w = fold_writes [OF d r order.refl, where v = v]
  have z: "viterbiBlock (depuncture pr v) ! p = 0"
    if "p < length (viterbiBlock pr)" "p \<notin> set (viterbiBlockAddresses pr)" for p
    using w(3) [OF that] that assms unfolding prot_ok_def depuncture_def by simp
  have l: "length (viterbiBlock (depuncture pr v)) = length (viterbiBlock pr)"
    using w(1) by (simp add: depuncture_def)
  show "prot_ok (depuncture pr v)"
    using assms z unfolding prot_ok_def l frame_simps by blast
  show "\<And>k. k < length (viterbiBlockAddresses pr) \<Longrightarrow>
      viterbiBlock (depuncture pr v) ! (viterbiBlockAddresses pr ! k) = v ! k"
    using w(2) by (simp add: depuncture_def)
qed

lemma protection_frames_ok: "prot_ok pr \<Longrightarrow> prot_ok (fold (\<lambda>v pr. snd (protection_deconvolve pr v)) vs pr)"
  by (induction vs arbitrary: pr) (simp_all add: protection_deconvolve_def Let_def depuncture_ok(1))

lemma uep_handler_ok:
  assumes "find_index rate level = Some i"
  shows "prot_ok (UepProtection rate level) \<and>
    fst (uep_addresses (cProfileTable ! i)) = length (viterbiBlock (UepProtection rate level)) \<and>
    length (viterbiBlockAddresses (UepProtection rate level)) = uep_bits (cProfileTable ! i)"
proof -
  let ?row = "cProfileTable ! i"
  have f: "i < length cProfileTable" "fst ?row = rate" "rate \<noteq> 0"
    using find_index_row [OF assms [unfolded find_index_def]] by simp_all
  have "i \<noteq> 64" using f(2,3) by (auto simp: cProfileTable_def)
  then have "i < 64" using f(1) by (simp add: cProfileTable_def)
  then have "?row \<in> set (take 64 cProfileTable)" by (metis f(1) in_set_conv_nth length_take min_less_iff_conj nth_take)
  then have "uep_row_ok ?row" using uep_rows_ok by (simp add: list_all_iff)
  note t = uep_sections [OF this, unfolded f(2)]
  obtain c as where ca: "uep_addresses ?row = (c, as)" by fastforce
  have "UepProtection rate level = (Protection rate)\<lparr>viterbiBlockAddresses := as\<rparr>"
    by (simp add: UepProtection_def assms ca)
  then show ?thesis using prot_ok_table [OF t [unfolded ca]] t ca
    by (simp add: table_state_def Protection_def)
qed

lemma eep_prot_ok: "0 < rate \<Longrightarrow> level < 8 \<Longrightarrow> EepProtection rate level = Some pr \<Longrightarrow> prot_ok pr"
proof -
  assume a: "0 < rate" "level < 8" and pr: "EepProtection rate level = Some pr"
  then have "if level < 4 then 8 dvd rate else 32 dvd rate" using eep_none [of level rate] by fastforce
  from eep_ok [OF a this] obtain pr' where "EepProtection rate level = Some pr'"
    and *: "sorted_wrt (<) (viterbiBlockAddresses pr') \<and>
    (\<forall>a\<in>set (viterbiBlockAddresses pr'). a < length (viterbiBlock pr')) \<and>
    length (viterbiBlock pr') = 4 * outSize pr' + 24" by blast
  with pr have "pr' = pr" by simp
  moreover have "\<forall>p<length (viterbiBlock pr). viterbiBlock pr ! p = 0"
    using pr by (auto simp: EepProtection_def Protection_def Let_def split: option.splits)
  ultimately show ?thesis using * unfolding prot_ok_def by blast
qed

section \<open>Properties\<close>

text \<open>
  C34: Equal error protection: for every positive bit rate of the profile's granularity and each of the
  eight protection levels the constructor succeeds; its addresses are strictly increasing and lie
  inside the Viterbi block of four times the output size plus 24 tail bits, and it takes exactly 64
  soft bits per capacity unit.  For any other bit rate the constructor's assertion fails.
\<close>

theorem eep_addresses:
  assumes "0 < rate" and "level < 8"
  shows "if (if level < 4 then 8 dvd rate else 32 dvd rate)
    then \<exists>pr. EepProtection rate level = Some pr \<and> sorted_wrt (<) (viterbiBlockAddresses pr) \<and>
      (\<forall>a\<in>set (viterbiBlockAddresses pr). a < length (viterbiBlock pr)) \<and>
      length (viterbiBlock pr) = 4 * outSize pr + 24 \<and> outSize pr = 24 * rate \<and>
      length (viterbiBlockAddresses pr) = 64 * eep_units rate level
    else EepProtection rate level = None"
  using eep_ok [OF assms] eep_none [OF assms(2)] by simp

theorem eep_addresses_witness:
  "(\<exists>pr. EepProtection 64 2 = Some pr \<and> length (viterbiBlockAddresses pr) = 64 * 48) \<and>
   EepProtection 40 5 = None"
  using eep_addresses [of 64 2] eep_addresses [of 40 5] by (auto simp: eep_units_def)

text \<open>
  C35: Unequal error protection: for every bit rate and protection level with an entry in the profile
  table, the addresses are strictly increasing, lie inside the Viterbi block, and the four sections
  together with the tail cover that block exactly.
\<close>

theorem uep_addresses_ok:
  assumes "find_index rate level = Some i"
  shows "prot_ok (UepProtection rate level) \<and>
    fst (uep_addresses (cProfileTable ! i)) = length (viterbiBlock (UepProtection rate level)) \<and>
    length (viterbiBlockAddresses (UepProtection rate level)) = uep_bits (cProfileTable ! i)"
  by (rule uep_handler_ok [OF assms])

theorem uep_addresses_ok_witness:
  "prot_ok (UepProtection 128 3) \<and> length (viterbiBlockAddresses (UepProtection 128 3)) = 6140"
proof -
  have "find_index 128 3 = Some 35" by (simp add: find_index_def cProfileTable_def)
  from uep_addresses_ok [OF this] show ?thesis by (simp add: uep_bits_def cProfileTable_def)
qed

text \<open>
  De-puncturing over any sequence of frames: each received soft bit goes to its own position of the
  block, and the punctured positions are zero for every frame.
\<close>

theorem depuncture_frames:
  fixes v :: "int list" and vs :: "int list list"
  assumes "0 < rate" and "level < 8" and "EepProtection rate level = Some pr0"
  defines "pr \<equiv> depuncture (fold (\<lambda>v pr. snd (protection_deconvolve pr v)) vs pr0) v"
  shows "prot_ok pr \<and> (\<forall>k<length (viterbiBlockAddresses pr). viterbiBlock pr ! (viterbiBlockAddresses pr ! k) = v ! k)"
  using depuncture_ok [OF protection_frames_ok [OF eep_prot_ok [OF assms(1-3)]]]
  by (simp add: pr_def frame_simps)

theorem depuncture_frames_witness:
  "\<exists>pr0. EepProtection 8 2 = Some pr0 \<and> prot_ok (depuncture pr0 (replicate 384 5))"
proof -
  obtain pr0 where "EepProtection 8 2 = Some pr0" using eep_ok [of 8 2] by auto
  with depuncture_frames [where rate = 8 and level = 2 and v = "replicate 384 5" and vs = "[]"]
  show ?thesis by fastforce
qed

end
