(* ===== verification/Dab_Constants.thy ===== *)
theory Dab_Constants
  imports Prelude
begin

text \<open>
  The constants of \<^verbatim>\<open>src/src/common/glob_defs.h\<close> and the data types of
  \<^verbatim>\<open>src/src/common/dab_constants.h\<close> that the decoders share: the
  sizes of transmission mode I, the transport mechanisms and the service descriptors that the FIB
  decoder hands to the backend.  The descriptors of a packet and of an audio service extend the common
  one, as the classes of the source do.  Signed fields are integers, a string is the list of its
  UTF-16 code units.
\<close>

definition cK :: nat where "cK = 1536"
definition c2K :: nat where "c2K = 2 * cK"
definition cFicPerFrame :: nat where "cFicPerFrame = 4"
definition cFibPerFic :: nat where "cFibPerFic = 3"
definition cFicSizeVitIn :: nat where "cFicSizeVitIn = c2K * 3 div 4"
definition cFicSizeVitOut :: nat where "cFicSizeVitOut = 768"
definition cFibSizeVitOut :: nat where "cFibSizeVitOut = cFicSizeVitOut div cFibPerFic"

lemmas dab_sizes = cK_def c2K_def cFicPerFrame_def cFibPerFic_def cFicSizeVitIn_def cFicSizeVitOut_def
  cFibSizeVitOut_def

type_synonym qstring = "nat list"

datatype EProcessFlag = Primary | Secondary

datatype ETMId = StreamModeAudio | StreamModeData | TMIdReserved | PacketModeData

record SDescriptorType =
  sd_isDefined :: bool
  sd_TMId :: ETMId
  sd_SId :: u32
  sd_SubChId :: int
  sd_CuStartAddr :: int
  sd_CuSize :: int
  sd_shortForm :: bool
  sd_protLevel :: int
  sd_bitRate :: int
  sd_serviceLabel :: qstring
  sd_serviceLabelShort :: qstring

record SPacketData = SDescriptorType +
  pd_DSCTy :: int
  pd_FEC_scheme :: int
  pd_DGflag :: int
  pd_appTypeVec :: "int list"
  pd_PacketAddress :: int
  pd_SCIdS :: int
  pd_language :: "int option"

record SAudioData = SDescriptorType +
  ad_ASCTy :: int

record SXPadUserApp =
  xp_UserAppType :: int
  xp_XPadAppTy :: int
  xp_DSCTy :: int
  xp_DataGroupsUsed :: bool

record SAudioDataAddOns =
  aa_language :: "int option"
  aa_programType :: "int option"

end
