(* ===== verification/Backend.thy ===== *)
theory Backend
  imports Protection Dab_Constants
begin

text \<open>
  The decoder of one sub-channel, \<^verbatim>\<open>src/src/base/backend/backend.cpp\<close> with its deconvolver and
  driver: time de-interleaving over sixteen CIFs, de-puncturing and Viterbi decoding, energy
  dispersal, hand-over to the frame processor of the service.  The build without the threaded backend
  (the default) is modelled.  The frame processors themselves are not part of this component: the
  driver records which one was chosen and the frames it received.
\<close>

section \<open>The code\<close>

datatype frame_processor = Mp2Processor nat | Mp4Processor nat | DataProcessor | FrameProcessor

text \<open>The driver chooses by transport mechanism and audio type (077 octal is DAB+).\<close>

definition BackendDriver :: "ETMId \<Rightarrow> nat \<Rightarrow> nat \<Rightarrow> frame_processor" where
  "BackendDriver TMId rate ASCTy =
     (if TMId = StreamModeAudio
      then (if ASCTy \<noteq> 63 then Mp2Processor rate else Mp4Processor rate)
      else if TMId = PacketModeData then DataProcessor
      else FrameProcessor)"

definition BackendDeconvolver :: "bool \<Rightarrow> nat \<Rightarrow> nat \<Rightarrow> protection option" where
  "BackendDeconvolver shortForm rate protLevel =
     (if shortForm then Some (UepProtection rate (int protLevel)) else EepProtection rate protLevel)"

text \<open>The pseudo-random sequence of the energy dispersal: a nine stage shift register of ones.\<close>

definition shift_in :: "u8 list \<Rightarrow> u8 list" where
  "shift_in reg = (reg ! 8 XOR reg ! 4) # butlast reg"

fun disperse :: "nat \<Rightarrow> u8 list \<Rightarrow> u8 list" where
  "disperse 0 reg = []"
| "disperse (Suc n) reg = hd (shift_in reg) # disperse n (shift_in reg)"

definition disperseVector :: "nat \<Rightarrow> u8 list" where
  "disperseVector n = disperse n (replicate 9 1)"

definition interleaveMap :: "nat list" where
  "interleaveMap = [0, 8, 4, 12, 2, 10, 6, 14, 1, 9, 5, 13, 3, 11, 7, 15]"

record backend =
  bk_serviceId :: u32
  bk_CuStartAddr :: nat
  bk_CuSize :: nat
  bk_shortForm :: bool
  bk_protLevel :: nat
  bk_bitRate :: nat
  bk_subChId :: int
  bk_processFlag :: EProcessFlag
  bk_fragmentSize :: nat
  bk_deconvolver :: protection
  bk_driver :: frame_processor
  bk_frames :: "u8 list list"
  bk_interleaveData :: "int list list"
  bk_countforInterleaver :: nat
  bk_interleaverIndex :: nat
  bk_disperseVector :: "u8 list"

definition cCuSizeBits :: nat where
  "cCuSizeBits = 64"

text \<open>
  A negative bit rate or size is a vector length the standard library refuses with an exception.
\<close>

definition Backend :: "'a SDescriptorType_scheme \<Rightarrow> nat \<Rightarrow> EProcessFlag \<Rightarrow> backend option" where
  "Backend d ASCTy flag =
     (if sd_bitRate d < 0 \<or> sd_CuSize d < 0 then None else
      case BackendDeconvolver (sd_shortForm d) (nat (sd_bitRate d)) (nat (sd_protLevel d)) of
        None \<Rightarrow> None
      | Some pr \<Rightarrow> Some
          \<lparr>bk_serviceId = sd_SId d, bk_CuStartAddr = nat (sd_CuStartAddr d), bk_CuSize = nat (sd_CuSize d),
           bk_shortForm = sd_shortForm d, bk_protLevel = nat (sd_protLevel d), bk_bitRate = nat (sd_bitRate d),
           bk_subChId = sd_SubChId d, bk_processFlag = flag,
           bk_fragmentSize = nat (sd_CuSize d) * cCuSizeBits, bk_deconvolver = pr,
           bk_driver = BackendDriver (sd_TMId d) (nat (sd_bitRate d)) ASCTy, bk_frames = [],
           bk_interleaveData = replicate 16 (replicate (nat (sd_CuSize d) * cCuSizeBits) 0),
           bk_countforInterleaver = 0, bk_interleaverIndex = 0,
           bk_disperseVector = disperseVector (24 * nat (sd_bitRate d))\<rparr>)"

text \<open>The loop body of the de-interleaver: read the delayed soft bit, then store the new one.\<close>

definition interleave_bit :: "int list \<Rightarrow> nat \<Rightarrow> int list \<times> int list list \<Rightarrow> nat \<Rightarrow> int list \<times> int list list" where
  "interleave_bit iData idx = (\<lambda>(tempX, dat) i.
     (tempX[i := dat ! ((idx + interleaveMap ! (i AND 15)) AND 15) ! i],
      dat[idx := (dat ! idx)[i := iData ! i]]))"

definition deinterleave :: "nat \<Rightarrow> int list \<Rightarrow> nat \<Rightarrow> int list list \<Rightarrow> int list \<times> int list list" where
  "deinterleave fragmentSize iData idx dat =
     foldl (interleave_bit iData idx) (replicate fragmentSize 0, dat) [0..<fragmentSize]"

definition process_segment :: "backend \<Rightarrow> int list \<Rightarrow> backend" where
  "process_segment b iData =
     (let (tempX, dat) = deinterleave (bk_fragmentSize b) iData (bk_interleaverIndex b) (bk_interleaveData b);
          b = b\<lparr>bk_interleaveData := dat, bk_interleaverIndex := (bk_interleaverIndex b + 1) AND 15\<rparr>
      in if bk_countforInterleaver b \<le> 15
         then b\<lparr>bk_countforInterleaver := bk_countforInterleaver b + 1\<rparr>
         else
           let (outV, pr) = protection_deconvolve (bk_deconvolver b) tempX;
               outV = xor_list (map of_bool outV) (bk_disperseVector b)
           in b\<lparr>bk_deconvolver := pr, bk_frames := bk_frames b @ [outV]\<rparr>)"

section \<open>De-interleaving\<close>

lemma and_15: "(n :: nat) AND 15 = n mod 16"
  using take_bit_eq_mask [of 4 n] by (simp add: take_bit_eq_mod mask_eq_exp_minus_1)

lemma length_interleaveMap [simp]: "length interleaveMap = 16"
  by (simp add: interleaveMap_def)

lemma interleaveMap_less: "interleaveMap ! (i mod 16) < 16"
proof -
  have "\<forall>m\<in>set interleaveMap. m < 16" by (simp add: interleaveMap_def)
  then show ?thesis by (simp add: nth_mem)
qed

text \<open>The loop in closed form.\<close>

lemma deinterleave_eq:
  assumes "length dat = 16" and "\<forall>row\<in>set dat. length row = n" and "n \<le> length iData" and "idx < 16"
  shows "deinterleave n iData idx dat =
    (map (\<lambda>i. dat ! ((idx + interleaveMap ! (i mod 16)) mod 16) ! i) [0..<n], dat[idx := take n iData])"
proof -
  let ?f = "\<lambda>i. dat ! ((idx + interleaveMap ! (i mod 16)) mod 16) ! i"
  have row: "length (dat ! idx) = n" using assms by simp
  have "foldl (interleave_bit iData idx) (replicate n 0, dat) [0..<m] =
      (map ?f [0..<m] @ replicate (n - m) 0, dat[idx := take m iData @ drop m (dat ! idx)])" if "m \<le> n" for m
    using that
  proof (induction m)
    case (Suc m)
    have m: "m < n" "m < length iData" using Suc.prems assms(3) by simp_all
    let ?dat = "dat[idx := take m iData @ drop m (dat ! idx)]"
    have rd: "?dat ! k ! m = dat ! k ! m" if "k < 16" for k
      using that m assms(1) row by (cases "k = idx") (simp_all add: nth_append)
    have wr: "(take m iData @ drop m (dat ! idx))[m := iData ! m] = take (Suc m) iData @ drop (Suc m) (dat ! idx)"
      using m row by (simp add: list_update_append Cons_nth_drop_Suc [symmetric] take_Suc_conv_app_nth)
    have x: "(map ?f [0..<m] @ replicate (n - m) 0)[m := v] = map ?f [0..<m] @ v # replicate (n - Suc m) 0" for v
      using m by (simp add: list_update_append Suc_diff_Suc [symmetric])
    show ?case
      using Suc m assms(1,4) wr x rd [of "(idx + interleaveMap ! (m mod 16)) mod 16"]
      by (simp add: interleave_bit_def and_15)
  qed simp
  from this [of n] show ?thesis using row assms(3) by (simp add: deinterleave_def)
qed

text \<open>
  The state of the de-interleaver after \<open>t\<close> fragments \<open>xs\<close>: row \<open>s mod 16\<close> holds fragment \<open>s\<close> for each
  of the last sixteen.
\<close>

definition delay_line :: "nat \<Rightarrow> int list list \<Rightarrow> nat \<Rightarrow> int list list \<Rightarrow> bool" where
  "delay_line n xs idx dat \<longleftrightarrow> length dat = 16 \<and> (\<forall>row\<in>set dat. length row = n) \<and> idx = length xs mod 16 \<and>
     (\<forall>s<length xs. length xs \<le> s + 16 \<longrightarrow> dat ! (s mod 16) = take n (xs ! s))"

lemma delay_line_step:
  assumes d: "delay_line n xs idx dat" and x: "n \<le> length x"
  shows "delay_line n (xs @ [x]) ((idx + 1) AND 15) (snd (deinterleave n x idx dat))"
    and "\<And>i. i < n \<Longrightarrow> 16 \<le> length xs + interleaveMap ! (i mod 16) \<Longrightarrow>
      fst (deinterleave n x idx dat) ! i = xs ! (length xs + interleaveMap ! (i mod 16) - 16) ! i"
    and "length (fst (deinterleave n x idx dat)) = n"
proof -
  have l: "length dat = 16" "\<forall>row\<in>set dat. length row = n" and idx: "idx = length xs mod 16"
    and rows: "\<And>s. s < length xs \<Longrightarrow> length xs \<le> s + 16 \<Longrightarrow> dat ! (s mod 16) = take n (xs ! s)"
    using d by (simp_all add: delay_line_def)
  note eq = deinterleave_eq [OF l x, of idx]
  have e: "deinterleave n x idx dat =
    (map (\<lambda>i. dat ! ((idx + interleaveMap ! (i mod 16)) mod 16) ! i) [0..<n], dat[idx := take n x])"
    using eq idx by simp
  have row: "dat[idx := take n x] ! (s mod 16) = take n ((xs @ [x]) ! s)"
    if s: "s < Suc (length xs)" "Suc (length xs) \<le> s + 16" for s
  proof (cases "s = length xs")
    case True
    then show ?thesis using idx l by (simp add: nth_append)
  next
    case False
    then have "s < length xs" "length xs < s + 16" using s by simp_all
    moreover from this have "s mod 16 \<noteq> idx" unfolding idx
      using mod_eq_nat1E [of "length xs" 16 s] by (metis One_nat_def add_diff_cancel_left' dvd_minus_mod
          le_add_diff_inverse less_imp_le_nat mod_eq_dvd_iff_nat nat_dvd_not_less zero_less_diff nat_add_left_cancel_less)
    ultimately show ?thesis using rows [of s] by (simp add: nth_append)
  qed
  have "set (dat[idx := take n x]) \<subseteq> insert (take n x) (set dat)" by (rule set_update_subset_insert)
  then have "\<forall>r\<in>set (dat[idx := take n x]). length r = n" using l(2) x by auto
  then show "delay_line n (xs @ [x]) ((idx + 1) AND 15) (snd (deinterleave n x idx dat))"
    using row l(1) unfolding e snd_conv delay_line_def and_15 by (simp add: idx mod_Suc_eq)
  show "length (fst (deinterleave n x idx dat)) = n" by (simp add: e)
  fix i assume i: "i < n" and t: "16 \<le> length xs + interleaveMap ! (i mod 16)"
  let ?s = "length xs + interleaveMap ! (i mod 16) - 16"
  have "(idx + interleaveMap ! (i mod 16)) mod 16 = ?s mod 16"
    using t le_mod_geq [of 16 "length xs + interleaveMap ! (i mod 16)"] by (simp add: idx mod_add_left_eq)
  moreover have "?s < length xs" "length xs \<le> ?s + 16" using interleaveMap_less [of i] t by arith+
  ultimately show "fst (deinterleave n x idx dat) ! i = xs ! ?s ! i"
    using rows [of ?s] i by (simp add: e)
qed

section \<open>A sub-channel over many CIFs\<close>

text \<open>
  Decoding does not depend on the frames decoded before: every position of the block is either written
  or zero.
\<close>

lemma depuncture_unique:
  assumes p: "prot_ok p" and q: "prot_ok q"
    and eq: "viterbiBlockAddresses p = viterbiBlockAddresses q" "outSize p = outSize q"
    and v: "\<And>k. k < length (viterbiBlockAddresses p) \<Longrightarrow> v ! k = w ! k"
  shows "viterbiBlock (depuncture p v) = viterbiBlock (depuncture q w)"
proof (rule nth_equalityI)
  note pp = depuncture_ok [OF p, where v = v, unfolded prot_ok_def frame_simps]
    and qq = depuncture_ok [OF q, where v = w, unfolded prot_ok_def frame_simps]
  show l: "length (viterbiBlock (depuncture p v)) = length (viterbiBlock (depuncture q w))"
    using pp(1) qq(1) eq(2) by simp
  fix a assume a: "a < length (viterbiBlock (depuncture p v))"
  show "viterbiBlock (depuncture p v) ! a = viterbiBlock (depuncture q w) ! a"
  proof (cases "a \<in> set (viterbiBlockAddresses p)")
    case True
    then obtain k where "k < length (viterbiBlockAddresses p)" "a = viterbiBlockAddresses p ! k"
      by (auto simp: in_set_conv_nth)
    then show ?thesis using pp(2) [of k] qq(2) [of k] v eq(1) by simp
  next
    case False
    then have "viterbiBlock (depuncture p v) ! a = 0" using pp(1) a by blast
    moreover have "viterbiBlock (depuncture q w) ! a = 0"
      using qq(1) a l False unfolding eq(1) by metis
    ultimately show ?thesis by simp
  qed
qed

text \<open>
  The time interleaver of the transmitter: bit \<open>i\<close> of fragment \<open>r\<close> is bit \<open>i\<close> of the frame sent
  \<open>interleaveMap ! (i mod 16)\<close> CIFs before.  Bits of frames from before the first one are arbitrary.
\<close>

definition interleaved :: "nat \<Rightarrow> int list list \<Rightarrow> int list list \<Rightarrow> bool" where
  "interleaved n ms xs \<longleftrightarrow> (\<forall>r<length xs. n \<le> length (xs ! r) \<and>
     (\<forall>i<n. interleaveMap ! (i mod 16) \<le> r \<longrightarrow> xs ! r ! i = ms ! (r - interleaveMap ! (i mod 16)) ! i))"

definition decoded_frame :: "protection \<Rightarrow> u8 list \<Rightarrow> int list \<Rightarrow> u8 list" where
  "decoded_frame pr dv m = xor_list (map of_bool (fst (protection_deconvolve pr m))) dv"

definition backend_after :: "backend \<Rightarrow> int list list \<Rightarrow> int list list \<Rightarrow> backend \<Rightarrow> bool" where
  "backend_after b0 ms xs b \<longleftrightarrow>
     delay_line (bk_fragmentSize b0) xs (bk_interleaverIndex b) (bk_interleaveData b) \<and>
     bk_countforInterleaver b = min (length xs) 16 \<and>
     prot_ok (bk_deconvolver b) \<and>
     viterbiBlockAddresses (bk_deconvolver b) = viterbiBlockAddresses (bk_deconvolver b0) \<and>
     outSize (bk_deconvolver b) = outSize (bk_deconvolver b0) \<and>
     bk_fragmentSize b = bk_fragmentSize b0 \<and> bk_disperseVector b = bk_disperseVector b0 \<and>
     bk_frames b = map (\<lambda>k. decoded_frame (bk_deconvolver b0) (bk_disperseVector b0) (ms ! k)) [0..<length xs - 16]"

lemma interleaved_snoc:
  assumes "interleaved n ms (xs @ [x])"
  shows "interleaved n ms xs \<and> n \<le> length x"
proof
  have "(xs @ [x]) ! r = xs ! r" if "r < length xs" for r using that by (simp add: nth_append)
  then show "interleaved n ms xs" using assms unfolding interleaved_def
    by (metis length_append_singleton less_SucI)
  show "n \<le> length x" using assms unfolding interleaved_def by (auto dest: spec [of _ "length xs"])
qed

lemma deinterleaved_frame:
  assumes d: "delay_line n xs idx dat" and il: "interleaved n ms (xs @ [x])"
    and t: "16 \<le> length xs" and i: "i < n"
  shows "fst (deinterleave n x idx dat) ! i = ms ! (length xs - 16) ! i"
proof -
  let ?m = "interleaveMap ! (i mod 16)"
  have m: "?m < 16" by (rule interleaveMap_less)
  have "fst (deinterleave n x idx dat) ! i = xs ! (length xs + ?m - 16) ! i"
    using delay_line_step(2) [OF d _ i] interleaved_snoc [OF il] t by simp
  also have "\<dots> = ms ! (length xs + ?m - 16 - ?m) ! i"
    using interleaved_snoc [OF il] t m i by (simp add: interleaved_def)
  finally show ?thesis using t by (simp add: diff_commute)
qed

lemma process_segment_after:
  assumes a: "backend_after b0 ms xs b" and p0: "prot_ok (bk_deconvolver b0)"
    and il: "interleaved (bk_fragmentSize b0) ms (xs @ [x])"
    and n: "length (viterbiBlockAddresses (bk_deconvolver b0)) \<le> bk_fragmentSize b0"
  shows "backend_after b0 ms (xs @ [x]) (process_segment b x)"
proof -
  let ?n = "bk_fragmentSize b0"
  have d: "delay_line ?n xs (bk_interleaverIndex b) (bk_interleaveData b)"
    and p: "prot_ok (bk_deconvolver b)" and f: "bk_fragmentSize b = ?n"
    and c: "bk_countforInterleaver b = min (length xs) 16"
    and eq: "viterbiBlockAddresses (bk_deconvolver b) = viterbiBlockAddresses (bk_deconvolver b0)"
      "outSize (bk_deconvolver b) = outSize (bk_deconvolver b0)"
    and rest: "bk_disperseVector b = bk_disperseVector b0"
      "bk_frames b = map (\<lambda>k. decoded_frame (bk_deconvolver b0) (bk_disperseVector b0) (ms ! k)) [0..<length xs - 16]"
    using a by (simp_all add: backend_after_def)
  obtain tempX dat where dd: "deinterleave ?n x (bk_interleaverIndex b) (bk_interleaveData b) = (tempX, dat)"
    by fastforce
  have step: "delay_line ?n (xs @ [x]) ((bk_interleaverIndex b + 1) AND 15) dat"
    using delay_line_step(1) [OF d] interleaved_snoc [OF il] dd by force
  show ?thesis
  proof (cases "16 \<le> length xs")
    case False
    then show ?thesis using step c p eq rest f
      by (simp add: process_segment_def dd backend_after_def Let_def)
  next
    case True
    have "tempX ! i = ms ! (length xs - 16) ! i" if "i < ?n" for i
      using deinterleaved_frame [OF d il True that] by (simp add: dd)
    then have "viterbiBlock (depuncture (bk_deconvolver b) tempX) =
        viterbiBlock (depuncture (bk_deconvolver b0) (ms ! (length xs - 16)))"
      using depuncture_unique [OF p p0 eq, where v = tempX and w = "ms ! (length xs - 16)"] n eq(1) by simp
    then have "fst (protection_deconvolve (bk_deconvolver b) tempX) =
        fst (protection_deconvolve (bk_deconvolver b0) (ms ! (length xs - 16)))"
      by (simp add: protection_deconvolve_def Let_def frame_simps eq(2))
    moreover have "snd (protection_deconvolve (bk_deconvolver b) tempX) = depuncture (bk_deconvolver b) tempX"
      by (simp add: protection_deconvolve_def Let_def)
    moreover have "Suc (length xs) - 16 = Suc (length xs - 16)" using True by simp
    ultimately show ?thesis using step c p eq rest f True depuncture_ok(1) [OF p, where v = tempX]
      by (simp add: process_segment_def dd backend_after_def Let_def decoded_frame_def frame_simps
          case_prod_beta del: diff_Suc_numeral)
  qed
qed

lemma process_segments_after:
  assumes "backend_after b0 ms [] b0" and "prot_ok (bk_deconvolver b0)"
    and "interleaved (bk_fragmentSize b0) ms xs"
    and "length (viterbiBlockAddresses (bk_deconvolver b0)) \<le> bk_fragmentSize b0"
  shows "backend_after b0 ms xs (foldl process_segment b0 xs)"
  using assms(3)
proof (induction xs rule: rev_induct)
  case (snoc x xs)
  then show ?case using process_segment_after [OF _ assms(2) snoc.prems assms(4)] interleaved_snoc by simp
qed (simp add: assms(1))

text \<open>
  A descriptor the protection handlers can serve: a known profile whose soft bits fit into the
  sub-channel.
\<close>

definition descriptor_ok :: "'a SDescriptorType_scheme \<Rightarrow> bool" where
  "descriptor_ok d \<longleftrightarrow>
     0 < sd_bitRate d \<and> 0 \<le> sd_CuSize d \<and> 0 \<le> sd_protLevel d \<and>
     (let rate = nat (sd_bitRate d); level = nat (sd_protLevel d); units = nat (sd_CuSize d) in
      if sd_shortForm d
      then (case find_index rate (int level) of
              None \<Rightarrow> False | Some i \<Rightarrow> uep_bits (cProfileTable ! i) \<le> 64 * units)
      else level < 8 \<and> (if level < 4 then 8 dvd rate else 32 dvd rate) \<and> eep_units rate level \<le> units)"

lemma deconvolver_ok:
  assumes "descriptor_ok d"
  shows "\<exists>pr. BackendDeconvolver (sd_shortForm d) (nat (sd_bitRate d)) (nat (sd_protLevel d)) = Some pr \<and> prot_ok pr \<and>
    outSize pr = 24 * nat (sd_bitRate d) \<and> length (viterbiBlockAddresses pr) \<le> 64 * nat (sd_CuSize d)"
proof -
  define rate level units where "rate = nat (sd_bitRate d)" and "level = nat (sd_protLevel d)" and "units = nat (sd_CuSize d)"
  note defs = rate_def [symmetric] level_def [symmetric] units_def [symmetric]
  have "0 < rate" using assms by (simp add: rate_def descriptor_ok_def)
  show ?thesis
  proof (cases "sd_shortForm d")
    case True
    then obtain i where i: "find_index rate (int level) = Some i" "uep_bits (cProfileTable ! i) \<le> 64 * units"
      using assms unfolding descriptor_ok_def Let_def defs by (simp split: option.splits)
    then show ?thesis using uep_handler_ok [OF i(1)] True unfolding defs
      by (simp add: BackendDeconvolver_def UepProtection_def Protection_def)
  next
    case False
    then have a: "level < 8" "if level < 4 then 8 dvd rate else 32 dvd rate" "eep_units rate level \<le> units"
      using assms unfolding descriptor_ok_def Let_def defs by simp_all
    obtain pr where pr: "EepProtection rate level = Some pr" "outSize pr = 24 * rate"
      "length (viterbiBlockAddresses pr) = 64 * eep_units rate level"
      using eep_ok [OF \<open>0 < rate\<close> a(1,2)] by blast
    with eep_prot_ok [OF \<open>0 < rate\<close> a(1) pr(1)] a(3) False show ?thesis unfolding defs
      by (auto simp: BackendDeconvolver_def)
  qed
qed

lemma Backend_ok: "descriptor_ok d \<Longrightarrow> \<exists>b. Backend d ASCTy flag = Some b"
  using deconvolver_ok [of d] by (auto simp: Backend_def descriptor_ok_def)

lemma backend_start:
  assumes "descriptor_ok d" and "Backend d ASCTy flag = Some b0"
  shows "backend_after b0 ms [] b0" and "prot_ok (bk_deconvolver b0)"
    and "length (viterbiBlockAddresses (bk_deconvolver b0)) \<le> bk_fragmentSize b0"
    and "bk_fragmentSize b0 = 64 * nat (sd_CuSize d)"
  using deconvolver_ok [OF assms(1)] assms(2)
  by (auto simp: Backend_def backend_after_def delay_line_def cCuSizeBits_def split: if_splits)

lemmas backend_run = process_segments_after [OF backend_start(1,2) _ backend_start(3)]

section \<open>Properties\<close>

text \<open>
  C25: A sub-channel decoded from its first CIF on: whatever frames of soft bits the transmitter has time
  interleaved into the sub-channel, the frames handed to the frame processor are exactly the frames
  sent, each de-punctured, Viterbi decoded and freed from the energy dispersal on its own, in order,
  beginning with the first one after a delay of sixteen CIFs; nothing mixed from incomplete history
  is ever decoded.
\<close>

theorem backend_frames:
  assumes "descriptor_ok d" and "Backend d ASCTy flag = Some b0" and "interleaved (64 * nat (sd_CuSize d)) ms xs"
  shows "bk_frames (foldl process_segment b0 xs) =
    map (\<lambda>k. xor_list (map of_bool (fst (protection_deconvolve (bk_deconvolver b0) (ms ! k))))
           (bk_disperseVector b0)) [0..<length xs - 16]"
proof -
  have "interleaved (bk_fragmentSize b0) ms xs" using backend_start(4) [OF assms(1,2)] assms(3) by simp
  from backend_run [OF assms(1,2) assms(1,2) this assms(1,2)] show ?thesis
    by (simp add: backend_after_def decoded_frame_def)
qed

theorem backend_frames_witness:
  "\<exists>b0. Backend \<lparr>sd_isDefined = True, sd_TMId = PacketModeData, sd_SId = 1, sd_SubChId = 3,
      sd_CuStartAddr = 10, sd_CuSize = 6, sd_shortForm = False, sd_protLevel = 2, sd_bitRate = 8,
      sd_serviceLabel = [], sd_serviceLabelShort = []\<rparr> 0 Primary = Some b0 \<and>
    length (bk_frames (foldl process_segment b0 (replicate 17 (replicate 384 5)))) = 1"
proof -
  let ?d = "\<lparr>sd_isDefined = True, sd_TMId = PacketModeData, sd_SId = 1, sd_SubChId = 3,
      sd_CuStartAddr = 10, sd_CuSize = 6, sd_shortForm = False, sd_protLevel = 2, sd_bitRate = 8,
      sd_serviceLabel = [], sd_serviceLabelShort = []\<rparr>"
  have ok: "descriptor_ok ?d" by (simp add: descriptor_ok_def eep_units_def)
  then obtain b0 where b0: "Backend ?d 0 Primary = Some b0"
    using Backend_ok by blast
  have "interleaved (64 * nat (sd_CuSize ?d)) (replicate 17 (replicate 384 5)) (replicate 17 (replicate 384 5))"
    by (simp add: interleaved_def)
  from backend_frames [OF ok b0 this] b0 show ?thesis by simp
qed

end
