(* ===== verification/Msc_Handler.thy ===== *)
theory Msc_Handler
  imports Backend
begin

text \<open>
  The main service channel, \<^verbatim>\<open>src/src/base/backend/msc_handler.cpp\<close>: eighteen OFDM blocks make a CIF,
  and every running backend gets its capacity units of it.  Assertions of the source are the value
  None.  Stopping a backend is a no-op in the build without the threaded backend; the operations
  return the backends they stopped.
\<close>

section \<open>The code\<close>

definition cCifSizeBits :: nat where
  "cCifSizeBits = 55296"

definition cNumberOfBlocksPerCif :: nat where
  "cNumberOfBlocksPerCif = 18"

record msc_handler =
  mBackendList :: "backend list"
  mCifVector :: "int list"

definition MscHandler :: msc_handler where
  "MscHandler = \<lparr>mBackendList = [], mCifVector = replicate cCifSizeBits 0\<rparr>"

definition stop_all_services :: "msc_handler \<Rightarrow> msc_handler \<times> backend list" where
  "stop_all_services h = (h\<lparr>mBackendList := []\<rparr>, mBackendList h)"

definition reset_channel :: "msc_handler \<Rightarrow> msc_handler \<times> backend list" where
  "reset_channel h = (h\<lparr>mBackendList := []\<rparr>, mBackendList h)"

text \<open>The loop that removes matching backends from the list it runs over.\<close>

function stop_loop :: "int \<Rightarrow> EProcessFlag \<Rightarrow> nat \<Rightarrow> backend list \<Rightarrow> backend list \<Rightarrow> backend list \<times> backend list" where
  "stop_loop iSubChId iProcessFlag i bs stopped =
     (if i < length bs
      then if bk_subChId (bs ! i) = iSubChId \<and> bk_processFlag (bs ! i) = iProcessFlag
           then stop_loop iSubChId iProcessFlag i (take i bs @ drop (Suc i) bs) (stopped @ [bs ! i])
           else stop_loop iSubChId iProcessFlag (Suc i) bs stopped
      else (bs, stopped))"
  by pat_completeness auto
termination by (relation "measure (\<lambda>(_, _, i, bs, _). 2 * length bs - i)") auto

declare stop_loop.simps [simp del]

definition stop_service :: "int \<Rightarrow> EProcessFlag \<Rightarrow> msc_handler \<Rightarrow> msc_handler \<times> backend list" where
  "stop_service iSubChId iProcessFlag h =
     (let (bs, stopped) = stop_loop iSubChId iProcessFlag 0 (mBackendList h) []
      in (h\<lparr>mBackendList := bs\<rparr>, stopped))"

fun is_service_running :: "int \<Rightarrow> EProcessFlag \<Rightarrow> backend list \<Rightarrow> bool" where
  "is_service_running iSubChId iProcessFlag [] = False"
| "is_service_running iSubChId iProcessFlag (b # bs) =
     (if bk_subChId b = iSubChId \<and> bk_processFlag b = iProcessFlag then True
      else is_service_running iSubChId iProcessFlag bs)"

definition set_channel :: "'a SDescriptorType_scheme \<Rightarrow> nat \<Rightarrow> EProcessFlag \<Rightarrow> msc_handler \<Rightarrow> msc_handler option" where
  "set_channel d ASCTy iProcessFlag h =
     (case Backend d ASCTy iProcessFlag of
        None \<Rightarrow> None
      | Some b \<Rightarrow> Some (h\<lparr>mBackendList := mBackendList h @ [b]\<rparr>))"

definition msc_process_block :: "msc_handler \<Rightarrow> nat \<times> int list \<Rightarrow> msc_handler option" where
  "msc_process_block h = (\<lambda>(iBlockNr, iSoftBits).
     if iBlockNr < 4 \<or> length iSoftBits \<noteq> c2K then None
     else
       let curBlockIdx = (iBlockNr - 4) mod cNumberOfBlocksPerCif;
           h = h\<lparr>mCifVector := blit (curBlockIdx * c2K) iSoftBits (mCifVector h)\<rparr>
       in if curBlockIdx < cNumberOfBlocksPerCif - 1 then Some h
          else Some (h\<lparr>mBackendList := map (\<lambda>b. process_segment b
                  (drop (bk_CuStartAddr b * cCuSizeBits) (mCifVector h))) (mBackendList h)\<rparr>))"

fun msc_process_blocks :: "msc_handler \<Rightarrow> (nat \<times> int list) list \<Rightarrow> msc_handler option" where
  "msc_process_blocks h [] = Some h"
| "msc_process_blocks h (x # xs) =
     (case msc_process_block h x of None \<Rightarrow> None | Some h \<Rightarrow> msc_process_blocks h xs)"

section \<open>Starting and stopping\<close>

lemma stop_loop_filter:
  "stop_loop sc flag i bs stopped =
    (take i bs @ filter (\<lambda>b. \<not> (bk_subChId b = sc \<and> bk_processFlag b = flag)) (drop i bs),
     stopped @ filter (\<lambda>b. bk_subChId b = sc \<and> bk_processFlag b = flag) (drop i bs))"
proof (induction sc flag i bs stopped rule: stop_loop.induct)
  case (1 sc flag i bs stopped)
  show ?case
  proof (cases "i < length bs")
    case True
    then have d: "drop i bs = bs ! i # drop (Suc i) bs" by (simp add: Cons_nth_drop_Suc)
    show ?thesis
    proof (cases "bk_subChId (bs ! i) = sc \<and> bk_processFlag (bs ! i) = flag")
      case match: True
      then show ?thesis using True "1.IH"(1) by (simp add: stop_loop.simps [of sc flag i] d)
    next
      case no: False
      then have "stop_loop sc flag i bs stopped = stop_loop sc flag (Suc i) bs stopped"
        using True by (subst stop_loop.simps) auto
      also have "\<dots> = (take (Suc i) bs @ filter (\<lambda>b. \<not> (bk_subChId b = sc \<and> bk_processFlag b = flag)) (drop (Suc i) bs),
          stopped @ filter (\<lambda>b. bk_subChId b = sc \<and> bk_processFlag b = flag) (drop (Suc i) bs))"
        using "1.IH"(2) [OF True no] .
      finally show ?thesis using True no by (simp add: d take_Suc_conv_app_nth)
    qed
  qed (simp add: stop_loop.simps [of sc flag i])
qed

lemma running_iff:
  "is_service_running sc flag bs \<longleftrightarrow> (\<exists>b\<in>set bs. bk_subChId b = sc \<and> bk_processFlag b = flag)"
  by (induction bs) auto

lemma Backend_key: "Backend d a flag = Some b \<Longrightarrow> bk_subChId b = sd_SubChId d \<and> bk_processFlag b = flag"
  by (auto simp: Backend_def split: option.splits if_splits)

section \<open>Assembling a CIF\<close>

lemma concat_replicate_replicate: "concat (replicate m (replicate n x)) = replicate (m * n) x"
  by (induction m) (simp_all add: replicate_add)

text \<open>A backend reads no more than its own capacity units.\<close>

lemma foldl_cong_on:
  "(\<And>s x. x \<in> set xs \<Longrightarrow> f s x = g s x) \<Longrightarrow> foldl f s xs = foldl g s xs"
  by (induction xs arbitrary: s) simp_all

lemma process_segment_take: "process_segment b (take (bk_fragmentSize b) x) = process_segment b x"
proof -
  have "deinterleave n (take n x) idx dat = deinterleave n x idx dat" for n idx dat
    unfolding deinterleave_def by (rule foldl_cong_on) (simp add: interleave_bit_def case_prod_beta)
  then show ?thesis by (simp add: process_segment_def)
qed

definition cif_blocks :: "nat \<Rightarrow> int list list \<Rightarrow> (nat \<times> int list) list" where
  "cif_blocks c blocks = zip [4 + 18 * c..<4 + 18 * c + length blocks] blocks"

lemma concat_blit:
  assumes "\<forall>b\<in>set bs. length b = n" and "length v = N" and "length bs * n + length x \<le> N"
  shows "blit (length bs * n) x (concat bs @ drop (length bs * n) v) =
    concat (bs @ [x]) @ drop (length bs * n + length x) v"
proof -
  have "length (concat bs) = length bs * n"
    using assms(1) by (induction bs) simp_all
  then show ?thesis by (simp add: blit_def add.commute)
qed

lemma cif_blocks_snoc: "cif_blocks c (xs @ [x]) = cif_blocks c xs @ [(4 + 18 * c + length xs, x)]"
proof -
  have "[4 + 18 * c..<4 + 18 * c + length (xs @ [x])] = [4 + 18 * c..<4 + 18 * c + length xs] @ [4 + 18 * c + length xs]"
    unfolding length_append_singleton add_Suc_right by (rule upt_Suc_append) simp
  then show ?thesis unfolding cif_blocks_def by (simp only: zip_append length_upt diff_add_inverse) simp
qed

lemma msc_process_blocks_append:
  "msc_process_blocks h (as @ bs) =
    (case msc_process_blocks h as of None \<Rightarrow> None | Some h \<Rightarrow> msc_process_blocks h bs)"
  by (induction as arbitrary: h) (auto split: option.splits)

lemma process_partial_cif:
  assumes "\<forall>b\<in>set blocks. length b = c2K" and "length blocks \<le> 17" and "length (mCifVector h) = cCifSizeBits"
  shows "msc_process_blocks h (cif_blocks c blocks) =
    Some (h\<lparr>mCifVector := concat blocks @ drop (length blocks * c2K) (mCifVector h)\<rparr>)"
  using assms(1,2)
proof (induction blocks rule: rev_induct)
  case (snoc x xs)
  have "(4 + 18 * c + length xs - 4) mod 18 = length xs" using snoc.prems(2) by simp
  moreover have "blit (length xs * c2K) x (concat xs @ drop (length xs * c2K) (mCifVector h)) =
      concat (xs @ [x]) @ drop (length xs * c2K + length x) (mCifVector h)"
    by (rule concat_blit [where N = cCifSizeBits]) (use snoc.prems assms(3) in \<open>auto simp: cCifSizeBits_def dab_sizes\<close>)
  ultimately show ?case using snoc
    by (simp add: cif_blocks_snoc msc_process_blocks_append msc_process_block_def cNumberOfBlocksPerCif_def Let_def algebra_simps)
qed (simp add: cif_blocks_def)

lemma process_cif:
  assumes "\<forall>b\<in>set blocks. length b = c2K" and "length blocks = 18" and "length (mCifVector h) = cCifSizeBits"
  shows "msc_process_blocks h (cif_blocks c blocks) =
    Some \<lparr>mBackendList = map (\<lambda>b. process_segment b (drop (64 * bk_CuStartAddr b) (concat blocks))) (mBackendList h),
          mCifVector = concat blocks\<rparr>"
proof -
  define xs x where "xs = butlast blocks" and "x = last blocks"
  have b: "blocks = xs @ [x]" using assms(2) by (simp add: xs_def x_def) (metis append_butlast_last_id list.size(3) numeral_eq_iff zero_neq_numeral)
  have l: "length xs = 17" "length x = c2K" "\<forall>b\<in>set xs. length b = c2K" using assms(1,2) b by auto
  have "cif_blocks c blocks = cif_blocks c xs @ [(4 + 18 * c + 17, x)]"
    using l(1) by (simp add: cif_blocks_snoc b)
  moreover have "blit (length xs * c2K) x (concat xs @ drop (length xs * c2K) (mCifVector h)) =
      concat (xs @ [x]) @ drop (length xs * c2K + length x) (mCifVector h)"
    by (rule concat_blit [where N = cCifSizeBits]) (use l assms(3) in \<open>auto simp: cCifSizeBits_def dab_sizes\<close>)
  then have "blit (17 * c2K) x (concat xs @ drop (17 * c2K) (mCifVector h)) = concat blocks"
    using l(1,2) assms(3) by (simp add: b cCifSizeBits_def dab_sizes)
  moreover have "(4 + 18 * c + 17 - 4) mod 18 = (17::nat)" by simp
  ultimately show ?thesis using process_partial_cif [OF l(3) _ assms(3), of c] l
    by (simp add: msc_process_blocks_append msc_process_block_def cNumberOfBlocksPerCif_def Let_def cCuSizeBits_def mult.commute)
qed

text \<open>Many CIFs: each backend sees its slices in order.\<close>

definition slice :: "backend \<Rightarrow> int list list \<Rightarrow> int list" where
  "slice b blocks = drop (64 * bk_CuStartAddr b) (concat blocks)"

lemma slice_process: "bk_CuStartAddr (process_segment b x) = bk_CuStartAddr b"
  by (simp add: process_segment_def case_prod_beta Let_def)

lemma slice_processed: "slice (process_segment b x) = slice b"
  by (rule ext) (simp add: slice_def slice_process)

lemma length_cif:
  "\<forall>b\<in>set blocks. length b = c2K \<Longrightarrow> length blocks = 18 \<Longrightarrow> length (concat blocks) = cCifSizeBits"
  by (simp add: length_concat sum_list_triv map_idI cong: map_cong) (simp add: cCifSizeBits_def dab_sizes)

lemma process_cifs:
  assumes "\<forall>blocks\<in>set cifs. length blocks = 18 \<and> (\<forall>b\<in>set blocks. length b = c2K)"
    and "length (mCifVector h) = cCifSizeBits" and "length cs = length cifs"
  shows "\<exists>h'. msc_process_blocks h (concat (map2 cif_blocks cs cifs)) = Some h' \<and>
    mBackendList h' = map (\<lambda>b. foldl process_segment b (map (slice b) cifs)) (mBackendList h)"
  using assms
proof (induction cifs arbitrary: h cs)
  case (Cons blocks cifs)
  then obtain c cs' where cs: "cs = c # cs'" "length cs' = length cifs" by (cases cs) auto
  have blk: "length blocks = 18" "\<forall>b\<in>set blocks. length b = c2K" using Cons.prems(1) by simp_all
  let ?h = "\<lparr>mBackendList = map (\<lambda>b. process_segment b (drop (64 * bk_CuStartAddr b) (concat blocks))) (mBackendList h),
          mCifVector = concat blocks\<rparr>"
  have "msc_process_blocks h (cif_blocks c blocks) = Some ?h"
    by (rule process_cif) (use blk Cons.prems(2) in simp_all)
  moreover obtain h' where "msc_process_blocks ?h (concat (map2 cif_blocks cs' cifs)) = Some h'"
    "mBackendList h' = map (\<lambda>b. foldl process_segment b (map (slice b) cifs)) (mBackendList ?h)"
    using Cons.IH [of ?h cs'] Cons.prems(1) cs(2) length_cif [OF blk(2,1)] by auto
  ultimately show ?case
    by (simp add: cs msc_process_blocks_append slice_processed o_def) (simp add: slice_def)
qed simp

section \<open>Properties\<close>

text \<open>
  C24: Eighteen consecutive blocks of any CIF, whatever was in the buffer before, make every running
  backend process exactly once, with exactly its own capacity units of that CIF, and the buffer holds
  that CIF; blocks numbered below four or of the wrong size are refused.
\<close>

theorem msc_cif:
  assumes "length (mCifVector h) = cCifSizeBits"
  shows "(\<forall>blocks c. length blocks = 18 \<and> (\<forall>b\<in>set blocks. length b = c2K) \<longrightarrow>
      msc_process_blocks h (zip [4 + 18 * c..<4 + 18 * c + 18] blocks) =
      Some \<lparr>mBackendList = map (\<lambda>b. process_segment b
                (take (bk_fragmentSize b) (drop (64 * bk_CuStartAddr b) (concat blocks)))) (mBackendList h),
            mCifVector = concat blocks\<rparr>) \<and>
    (\<forall>n v. n < 4 \<or> length v \<noteq> c2K \<longrightarrow> msc_process_block h (n, v) = None)"
proof (intro conjI allI impI)
  fix blocks :: "int list list" and c
  assume a: "length blocks = 18 \<and> (\<forall>b\<in>set blocks. length b = c2K)"
  then have "zip [4 + 18 * c..<4 + 18 * c + 18] blocks = cif_blocks c blocks" by (simp add: cif_blocks_def)
  with process_cif [of blocks h c] a assms
  show "msc_process_blocks h (zip [4 + 18 * c..<4 + 18 * c + 18] blocks) =
      Some \<lparr>mBackendList = map (\<lambda>b. process_segment b
                (take (bk_fragmentSize b) (drop (64 * bk_CuStartAddr b) (concat blocks)))) (mBackendList h),
            mCifVector = concat blocks\<rparr>"
    by (simp add: process_segment_take)
qed (simp add: msc_process_block_def)

theorem msc_cif_witness:
  "msc_process_blocks MscHandler (zip [4 + 18 * 2..<4 + 18 * 2 + 18] (replicate 18 (replicate c2K 7))) =
    Some \<lparr>mBackendList = [], mCifVector = concat (replicate 18 (replicate c2K 7))\<rparr>"
proof -
  have l: "length (mCifVector MscHandler) = cCifSizeBits" by (simp add: MscHandler_def)
  have "length (replicate 18 (replicate c2K (7 :: int))) = 18 \<and>
      (\<forall>b\<in>set (replicate 18 (replicate c2K (7 :: int))). length b = c2K)"
    by (simp only: set_replicate_conv_if length_replicate) simp
  from mp [OF spec [OF spec [OF conjunct1 [OF msc_cif [OF l]]]] this] have "msc_process_blocks MscHandler (zip [4 + 18 * 2..<4 + 18 * 2 + 18] (replicate 18 (replicate c2K 7))) =
      Some \<lparr>mBackendList = map (\<lambda>b. process_segment b
                (take (bk_fragmentSize b) (drop (64 * bk_CuStartAddr b) (concat (replicate 18 (replicate c2K 7)))))) (mBackendList MscHandler),
            mCifVector = concat (replicate 18 (replicate c2K 7))\<rparr>" .
  then show ?thesis by (simp add: MscHandler_def)
qed

text \<open>
  C23: Starting and stopping: a channel that was set is running; stopping a service removes exactly the
  backends of that sub-channel and process flag, returns exactly those, keeps the order of the others,
  and no such service is running afterwards; stopping all leaves none.
\<close>

theorem msc_services:
  "(\<forall>h'. set_channel d a flag h = Some h' \<longrightarrow> is_service_running (sd_SubChId d) flag (mBackendList h')) \<and>
   mBackendList (fst (stop_service sc f h)) =
     filter (\<lambda>b. \<not> (bk_subChId b = sc \<and> bk_processFlag b = f)) (mBackendList h) \<and>
   snd (stop_service sc f h) = filter (\<lambda>b. bk_subChId b = sc \<and> bk_processFlag b = f) (mBackendList h) \<and>
   \<not> is_service_running sc f (mBackendList (fst (stop_service sc f h))) \<and>
   \<not> is_service_running sc f (mBackendList (fst (stop_all_services h)))"
proof -
  have "is_service_running (sd_SubChId d) flag (mBackendList h')" if "set_channel d a flag h = Some h'" for h'
    using that Backend_key [of d a flag] by (auto simp: set_channel_def running_iff split: option.splits)
  then show ?thesis
    by (auto simp: stop_service_def stop_loop_filter running_iff stop_all_services_def)
qed

text \<open>Two services of six capacity units each, one of them for the primary and one for the secondary audio; the first is stopped.\<close>

definition six_units :: "int \<Rightarrow> int \<Rightarrow> SDescriptorType" where
  "six_units sc start = \<lparr>sd_isDefined = True, sd_TMId = StreamModeAudio, sd_SId = 1, sd_SubChId = sc,
     sd_CuStartAddr = start, sd_CuSize = 6, sd_shortForm = False, sd_protLevel = 2, sd_bitRate = 8,
     sd_serviceLabel = [], sd_serviceLabelShort = []\<rparr>"

theorem msc_services_witness:
  "\<exists>h1 h2. set_channel (six_units 3 0) 63 Primary MscHandler = Some h1 \<and> set_channel (six_units 4 6) 63 Secondary h1 = Some h2 \<and>
     is_service_running 4 Secondary (mBackendList h2) \<and>
     map bk_subChId (mBackendList h2) = [3, 4] \<and> map bk_subChId (snd (stop_service 3 Primary h2)) = [3] \<and>
     map bk_subChId (mBackendList (fst (stop_service 3 Primary h2))) = [4] \<and>
     \<not> is_service_running 3 Primary (mBackendList (fst (stop_service 3 Primary h2))) \<and>
     is_service_running 4 Secondary (mBackendList (fst (stop_service 3 Primary h2)))"
proof -
  have ok: "descriptor_ok (six_units sc start)" for sc start by (simp add: six_units_def descriptor_ok_def eep_units_def)
  obtain b c where b: "Backend (six_units 3 0) 63 Primary = Some b" and c: "Backend (six_units 4 6) 63 Secondary = Some c"
    using Backend_ok [OF ok] by blast
  then have k: "bk_subChId b = 3" "bk_processFlag b = Primary" "bk_subChId c = 4" "bk_processFlag c = Secondary"
    using Backend_key by (force simp: six_units_def)+
  let ?h1 = "MscHandler\<lparr>mBackendList := [b]\<rparr>" and ?h2 = "MscHandler\<lparr>mBackendList := [b, c]\<rparr>"
  have h: "set_channel (six_units 3 0) 63 Primary MscHandler = Some ?h1" "set_channel (six_units 4 6) 63 Secondary ?h1 = Some ?h2"
    using b c by (simp_all add: set_channel_def MscHandler_def)
  note m = msc_services [of "six_units 4 6" 63 Secondary ?h1 3 Primary] msc_services [of "six_units 4 6" 63 Secondary ?h2 3 Primary]
  have "is_service_running (sd_SubChId (six_units 4 6)) Secondary (mBackendList ?h2)" using m(1) h(2) by blast
  then have "is_service_running 4 Secondary (mBackendList ?h2)" by (simp only: six_units_def SDescriptorType.simps)
  moreover have s: "mBackendList (fst (stop_service 3 Primary ?h2)) = [c]" "snd (stop_service 3 Primary ?h2) = [b]"
    "\<not> is_service_running 3 Primary (mBackendList (fst (stop_service 3 Primary ?h2)))" using m(2) k by simp_all
  moreover have "is_service_running 4 Secondary [c]" using k by (simp add: running_iff)
  ultimately show ?thesis using h k by (intro exI [of _ ?h1] exI [of _ ?h2]) simp
qed

text \<open>
  C10: From CIF to frames: a channel set on a running receiver, for a sub-channel whose profile fits its
  capacity units, delivers exactly the frames the transmitter interleaved into these units, decoded one
  by one and in order, whatever other services run and whatever the other units carry.
\<close>

theorem msc_delivers:
  assumes ok: "descriptor_ok d" and set: "set_channel d a flag h = Some h1"
    and cif: "length (mCifVector h) = cCifSizeBits" and num: "length cs = length cifs"
    and cifs: "\<forall>blocks\<in>set cifs. length blocks = 18 \<and> (\<forall>b\<in>set blocks. length b = c2K)"
    and il: "interleaved (64 * nat (sd_CuSize d)) ms (map (\<lambda>blocks. drop (64 * nat (sd_CuStartAddr d)) (concat blocks)) cifs)"
  shows "\<exists>h2. msc_process_blocks h1 (concat (map2 cif_blocks cs cifs)) = Some h2 \<and>
    length (mBackendList h2) = Suc (length (mBackendList h)) \<and>
    bk_frames (last (mBackendList h2)) =
      map (\<lambda>k. decoded_frame (bk_deconvolver (last (mBackendList h1)))
             (disperseVector (24 * nat (sd_bitRate d))) (ms ! k)) [0..<length cifs - 16]"
proof -
  obtain b0 where b0: "Backend d a flag = Some b0" "h1 = h\<lparr>mBackendList := mBackendList h @ [b0]\<rparr>"
    using set by (auto simp: set_channel_def split: option.splits)
  have dv: "bk_disperseVector b0 = disperseVector (24 * nat (sd_bitRate d))" "bk_CuStartAddr b0 = nat (sd_CuStartAddr d)"
    using b0(1) by (auto simp: Backend_def split: option.splits if_splits)
  obtain h2 where h2: "msc_process_blocks h1 (concat (map2 cif_blocks cs cifs)) = Some h2"
    "mBackendList h2 = map (\<lambda>b. foldl process_segment b (map (slice b) cifs)) (mBackendList h1)"
    using process_cifs [OF cifs _ num, of h1] cif b0(2) by auto
  have "last (mBackendList h2) = foldl process_segment b0 (map (\<lambda>blocks. drop (64 * nat (sd_CuStartAddr d)) (concat blocks)) cifs)"
    using h2(2) b0(2) dv(2) by (simp add: slice_def [abs_def])
  moreover have "interleaved (bk_fragmentSize b0) ms (map (\<lambda>blocks. drop (64 * nat (sd_CuStartAddr d)) (concat blocks)) cifs)"
    using il backend_start(4) [OF ok b0(1)] by simp
  ultimately have "bk_frames (last (mBackendList h2)) =
      map (\<lambda>k. decoded_frame (bk_deconvolver b0) (bk_disperseVector b0) (ms ! k)) [0..<length cifs - 16]"
    using backend_run [OF ok b0(1) ok b0(1) _ ok b0(1)] by (fastforce simp: backend_after_def)
  then show ?thesis using h2 b0(2) dv(1) by auto
qed

theorem msc_delivers_witness:
  "\<exists>h1 h2. set_channel \<lparr>sd_isDefined = True, sd_TMId = StreamModeAudio, sd_SId = 1, sd_SubChId = 3,
      sd_CuStartAddr = 858, sd_CuSize = 6, sd_shortForm = False, sd_protLevel = 2, sd_bitRate = 8,
      sd_serviceLabel = [], sd_serviceLabelShort = []\<rparr> 63 Primary MscHandler = Some h1 \<and>
    msc_process_blocks h1 (concat (map2 cif_blocks (replicate 17 1) (replicate 17 (replicate 18 (replicate c2K 5))))) = Some h2 \<and>
    length (bk_frames (last (mBackendList h2))) = 1"
proof -
  let ?d = "\<lparr>sd_isDefined = True, sd_TMId = StreamModeAudio, sd_SId = 1, sd_SubChId = 3,
      sd_CuStartAddr = 858, sd_CuSize = 6, sd_shortForm = False, sd_protLevel = 2, sd_bitRate = 8,
      sd_serviceLabel = [], sd_serviceLabelShort = []\<rparr>"
  let ?cifs = "replicate 17 (replicate 18 (replicate c2K 5)) :: int list list list"
  have ok: "descriptor_ok ?d" by (simp add: descriptor_ok_def eep_units_def)
  then obtain h1 where h1: "set_channel ?d 63 Primary MscHandler = Some h1"
    using Backend_ok [of ?d 63 Primary] by (auto simp: set_channel_def)
  have c: "concat (replicate 18 (replicate c2K 5)) = replicate cCifSizeBits (5 :: int)"
    by (simp add: concat_replicate_replicate cCifSizeBits_def dab_sizes)
  have l: "length (mCifVector MscHandler) = cCifSizeBits" by (simp add: MscHandler_def)
  have n: "length (replicate 17 (1::nat)) = length ?cifs" by simp
  have b: "\<forall>blocks\<in>set ?cifs. length blocks = 18 \<and> (\<forall>b\<in>set blocks. length b = c2K)"
    by (simp only: set_replicate_conv_if) (simp add: dab_sizes)
  have i: "interleaved (64 * nat (sd_CuSize ?d)) (replicate 17 (replicate 384 5))
      (map (\<lambda>blocks. drop (64 * nat (sd_CuStartAddr ?d)) (concat blocks)) ?cifs)"
    using interleaveMap_less by (auto simp: interleaved_def c cCifSizeBits_def map_replicate less_imp_diff_less)
  from msc_delivers [OF ok h1 l n b i] h1 show ?thesis by auto
qed

end
