(* ===== verification/Viterbi_Erasures.thy ===== *)
theory Viterbi_Erasures
  imports Viterbi
begin

text \<open>
  The Viterbi decoder behind the de-puncturing: code bits that were not transmitted arrive as the soft
  bit 0.  Every puncturing vector of the program keeps the first code bit of every step and the second
  one of every eighth step.  The theory shows that this is enough: with soft bits of a strength of at
  least 56 at the kept positions the decoder returns the message.  It also shows what the bit error
  count of the decoder counts.
\<close>

section \<open>Code bits as sums of message bits\<close>

text \<open>The sequence of the six bits of the start state, oldest first, followed by the message.\<close>

definition history :: "nat \<Rightarrow> bool list \<Rightarrow> nat \<Rightarrow> bool" where
  "history s bs i = (if i < 6 then bit s (5 - i) else bs ! (i - 6))"

text \<open>The first code bit (and the fourth) of step \<open>t\<close>, and the second one.\<close>

definition tap0 :: "(nat \<Rightarrow> bool) \<Rightarrow> nat \<Rightarrow> bool" where
  "tap0 x t \<longleftrightarrow> (x (t + 6) \<noteq> (x (t + 4) \<noteq> (x (t + 3) \<noteq> (x (t + 1) \<noteq> x t))))"

definition tap1 :: "(nat \<Rightarrow> bool) \<Rightarrow> nat \<Rightarrow> bool" where
  "tap1 x t \<longleftrightarrow> (x (t + 6) \<noteq> (x (t + 5) \<noteq> (x (t + 4) \<noteq> (x (t + 3) \<noteq> x t))))"

definition tap2 :: "(nat \<Rightarrow> bool) \<Rightarrow> nat \<Rightarrow> bool" where
  "tap2 x t \<longleftrightarrow> (x (t + 6) \<noteq> (x (t + 5) \<noteq> (x (t + 2) \<noteq> x t)))"

lemma half_rows:
  "list_all (\<lambda>i. branch_out i False 0 = (bit i 1 \<noteq> (bit i 2 \<noteq> bit i 4))) [0..<32]"
  "list_all (\<lambda>i. branch_out i False 1 = (bit i 0 \<noteq> (bit i 1 \<noteq> bit i 2))) [0..<32]"
  "list_all (\<lambda>i. branch_out i False 2 = (bit i 0 \<noteq> bit i 3)) [0..<32]"
  "list_all (\<lambda>i. branch_out i False 3 = (bit i 1 \<noteq> (bit i 2 \<noteq> bit i 4))) [0..<32]"
  by (simp_all add: upt_32 branch_out_def parity_def polys_def PARTAB_def Let_def bit_0)

lemma bit_32: "i < 32 \<Longrightarrow> \<not> bit i 5" "i < 32 \<Longrightarrow> bit (i + 32) 5" "i < 32 \<Longrightarrow> n < 5 \<Longrightarrow> bit (i + 32) n = bit i n"
  for i n :: nat
proof -
  show "i < 32 \<Longrightarrow> \<not> bit i 5" by (simp add: bit_iff_odd)
  show "i < 32 \<Longrightarrow> bit (i + 32) 5" by (simp add: bit_iff_odd div_add_self2)
  assume "n < 5"
  then have "(32 :: nat) = 2 ^ n * (2 * 2 ^ (4 - n))"
    by (auto simp: less_Suc_eq numeral_eq_Suc)
  then have "(i + 32) div 2 ^ n = i div 2 ^ n + 2 * 2 ^ (4 - n)"
    by (metis add.commute div_mult_self2 power_not_zero zero_neq_numeral)
  then show "bit (i + 32) n = bit i n" by (simp add: bit_iff_odd)
qed

lemma branch_bits:
  assumes "s < 64"
  shows "branch_out s b 0 = (b \<noteq> (bit s 1 \<noteq> (bit s 2 \<noteq> (bit s 4 \<noteq> bit s 5))))"
    and "branch_out s b 1 = (b \<noteq> (bit s 0 \<noteq> (bit s 1 \<noteq> (bit s 2 \<noteq> bit s 5))))"
    and "branch_out s b 2 = (b \<noteq> (bit s 0 \<noteq> (bit s 3 \<noteq> bit s 5)))"
    and "branch_out s b 3 = (b \<noteq> (bit s 1 \<noteq> (bit s 2 \<noteq> (bit s 4 \<noteq> bit s 5))))"
proof -
  define i where "i = s mod 32"
  have i: "i < 32" by (simp add: i_def)
  have s: "s = i \<or> s = i + 32" using assms by (auto simp: i_def mod_if)
  have mem: "i \<in> set [0..<32]" using i by simp
  note r = half_rows [unfolded list_all_iff, THEN bspec, OF mem]
  note c = branch_out_simps [OF i]
  have b: "\<not> bit i 5" "bit (i + 32) 5" "bit (i + 32) 0 = bit i 0" "bit (i + 32) 1 = bit i 1" "bit (i + 32) 2 = bit i 2"
    "bit (i + 32) 3 = bit i 3" "bit (i + 32) 4 = bit i 4" using i by (simp_all only: bit_32) simp_all
  show "branch_out s b 0 = (b \<noteq> (bit s 1 \<noteq> (bit s 2 \<noteq> (bit s 4 \<noteq> bit s 5))))"
    using s by (elim disjE; cases b) (simp_all only: c [of 0] r b, simp_all)
  show "branch_out s b 1 = (b \<noteq> (bit s 0 \<noteq> (bit s 1 \<noteq> (bit s 2 \<noteq> bit s 5))))"
    using s by (elim disjE; cases b) (simp_all only: c [of 1] r b, simp_all)
  show "branch_out s b 2 = (b \<noteq> (bit s 0 \<noteq> (bit s 3 \<noteq> bit s 5)))"
    using s by (elim disjE; cases b) (simp_all only: c [of 2] r b, simp_all)
  show "branch_out s b 3 = (b \<noteq> (bit s 1 \<noteq> (bit s 2 \<noteq> (bit s 4 \<noteq> bit s 5))))"
    using s by (elim disjE; cases b) (simp_all only: c [of 3] r b, simp_all)
qed

lemma branch_taps:
  assumes "s < 64"
  shows "branch_out s b 0 = tap0 (history s (b # bs)) 0" and "branch_out s b 1 = tap1 (history s (b # bs)) 0"
    and "branch_out s b 2 = tap2 (history s (b # bs)) 0" and "branch_out s b 3 = tap0 (history s (b # bs)) 0"
  unfolding branch_bits [OF assms] tap0_def tap1_def tap2_def history_def by simp_all

lemma history_step: "s < 64 \<Longrightarrow> history (next_state s b) bs i = history s (b # bs) (Suc i)"
proof -
  have "bit (next_state s b) 0 = b" by (simp add: next_state_def bit_0 dvd_mod_iff)
  then show ?thesis
    using bit_next_state [of "4 - i" s b]
    by (cases "i = 5") (auto simp: history_def Suc_diff_Suc less_Suc_eq_le nth_Cons' numeral_eq_Suc Suc_diff_le)
qed

lemma tap_cong: "(\<And>i. x i = y (Suc i)) \<Longrightarrow> tap0 x t = tap0 y (Suc t) \<and> tap1 x t = tap1 y (Suc t) \<and> tap2 x t = tap2 y (Suc t)"
  by (simp add: tap0_def tap1_def tap2_def)

lemma encode_taps:
  assumes "s < 64" and "t < length bs"
  shows "encode s bs ! (4 * t) = tap0 (history s bs) t" and "encode s bs ! (4 * t + 1) = tap1 (history s bs) t"
    and "encode s bs ! (4 * t + 2) = tap2 (history s bs) t" and "encode s bs ! (4 * t + 3) = tap0 (history s bs) t"
proof -
  have "encode s bs ! (4 * t) = tap0 (history s bs) t \<and> encode s bs ! (4 * t + 1) = tap1 (history s bs) t \<and>
    encode s bs ! (4 * t + 2) = tap2 (history s bs) t \<and> encode s bs ! (4 * t + 3) = tap0 (history s bs) t"
    using assms
  proof (induction bs arbitrary: s t)
    case (Cons b bs)
    show ?case
    proof (cases t)
      case 0
      then show ?thesis using branch_taps [OF Cons.prems(1), of b bs] by (simp add: upt_4)
    next
      case (Suc u)
      note c = tap_cong [where x = "history (next_state s b) bs" and y = "history s (b # bs)" and t = u,
          OF history_step [OF Cons.prems(1)]]
      have "encode s (b # bs) ! (4 * t + j) = encode (next_state s b) bs ! (4 * u + j)" for j
        by (simp add: Suc nth_append)
      from this [of 0] this [of 1] this [of 2] this [of 3] Cons.IH [OF next_state_less, of u s b] Cons.prems(2) c show ?thesis
        by (simp add: Suc)
    qed
  qed simp
  then show "encode s bs ! (4 * t) = tap0 (history s bs) t" and "encode s bs ! (4 * t + 1) = tap1 (history s bs) t"
    and "encode s bs ! (4 * t + 2) = tap2 (history s bs) t" and "encode s bs ! (4 * t + 3) = tap0 (history s bs) t"
    by blast+
qed

section \<open>Windows of 48 steps\<close>

text \<open>
  The difference of two paths is again a sequence of bits, and the code bits in which they differ are
  the taps of that sequence.
\<close>

lemma tap_xor:
  "tap0 (\<lambda>i. x i \<noteq> y i) t = (tap0 x t \<noteq> tap0 y t)"
  "tap1 (\<lambda>i. x i \<noteq> y i) t = (tap1 x t \<noteq> tap1 y t)"
  "tap2 (\<lambda>i. x i \<noteq> y i) t = (tap2 x t \<noteq> tap2 y t)"
  by (auto simp: tap0_def tap1_def tap2_def)

fun next6 :: "bool \<times> bool \<times> bool \<times> bool \<times> bool \<times> bool \<Rightarrow> bool \<times> bool \<times> bool \<times> bool \<times> bool \<times> bool" where
  "next6 (a, b, c, d, e, f) = (b, c, d, e, f, (e \<noteq> (d \<noteq> (b \<noteq> a))))"

fun second6 :: "bool \<times> bool \<times> bool \<times> bool \<times> bool \<times> bool \<Rightarrow> bool" where
  "second6 (a, b, c, d, e, f) = ((e \<noteq> (d \<noteq> (b \<noteq> a))) \<noteq> (f \<noteq> (e \<noteq> (d \<noteq> a))))"

definition six :: "(nat \<Rightarrow> bool) \<Rightarrow> nat \<Rightarrow> bool \<times> bool \<times> bool \<times> bool \<times> bool \<times> bool" where
  "six x t = (x t, x (t + 1), x (t + 2), x (t + 3), x (t + 4), x (t + 5))"

lemma six_step:
  assumes "\<not> tap0 x t"
  shows "six x (Suc t) = next6 (six x t)" and "second6 (six x t) = tap1 x t"
proof -
  have "x (t + 6) = (x (t + 4) \<noteq> (x (t + 3) \<noteq> (x (t + 1) \<noteq> x t)))" using assms by (auto simp: tap0_def)
  then show "six x (Suc t) = next6 (six x t)" and "second6 (six x t) = tap1 x t"
    by (simp_all add: six_def tap1_def numeral_eq_Suc)
qed

lemma six_steps: "(\<And>k. k < n \<Longrightarrow> \<not> tap0 x (T + k)) \<Longrightarrow> six x (T + n) = (next6 ^^ n) (six x T)"
  by (induction n) (simp_all add: six_step)

text \<open>Six second bits, eight steps apart, determine the six bits of the state.\<close>

definition bools :: "bool list" where "bools = [False, True]"

lemma six_rows:
  "list_all (\<lambda>s. list_all (\<lambda>k. \<not> second6 ((next6 ^^ k) s)) [0, 8, 16, 24, 32, 40] \<longrightarrow>
      s = (False, False, False, False, False, False))
    (List.product bools (List.product bools (List.product bools (List.product bools (List.product bools bools)))))"
  by code_simp

lemma in_bools: "b \<in> set bools"
  by (cases b) (simp_all add: bools_def)

lemma six_cover: "(a, b, c, d, e, f) \<in>
    set (List.product bools (List.product bools (List.product bools (List.product bools (List.product bools bools)))))"
  by (simp add: in_bools)

lemma window_zero:
  assumes first: "\<And>k. k < 48 \<Longrightarrow> \<not> tap0 x (T + k)" and second: "\<And>k. k < 48 \<Longrightarrow> k mod 8 = 0 \<Longrightarrow> \<not> tap1 x (T + k)"
  shows "i < 54 \<Longrightarrow> \<not> x (T + i)"
proof -
  let ?z = "(False, False, False, False, False, False)"
  have st: "six x (T + n) = (next6 ^^ n) (six x T)" if "n \<le> 48" for n
    by (rule six_steps) (use first that in auto)
  have obs: "\<not> second6 ((next6 ^^ k) (six x T))" if "k < 48" "k mod 8 = 0" for k
    using second [OF that] six_step(2) [OF first [OF that(1)]] st [of k] that by simp
  have "list_all (\<lambda>k. \<not> second6 ((next6 ^^ k) (six x T))) [0, 8, 16, 24, 32, 40]"
    unfolding list_all_iff by (rule ballI, rule obs) auto
  moreover have "six x T \<in> set (List.product bools (List.product bools (List.product bools (List.product bools (List.product bools bools)))))"
    unfolding six_def by (rule six_cover)
  ultimately have z: "six x T = ?z" using six_rows unfolding list_all_iff by blast
  have "(next6 ^^ n) ?z = ?z" for n by (induction n) simp_all
  then have six: "six x (T + n) = ?z" if "n \<le> 48" for n using st [OF that] z by simp
  show "\<not> x (T + i)" if "i < 54"
  proof (cases "i \<le> 48")
    case True
    then show ?thesis using six [of i] by (simp add: six_def)
  next
    case False
    then have "i \<in> {49, 50, 51, 52, 53}" using that by auto
    then show ?thesis using six [of 48] by (auto simp: six_def ac_simps)
  qed
qed

section \<open>Costs\<close>

text \<open>A kept soft bit of strength 56 outweighs 111 units of cost, an erased one counts for one.\<close>

lemma limit_small: "\<bar>x\<bar> \<le> 32640 \<Longrightarrow>
  limit_min_max x = (if x + 127 < 0 then 0 else if x + 127 > 255 then 255 else x + 127)"
proof -
  assume "\<bar>x\<bar> \<le> 32640"
  then have "(x + 127 + 2 ^ 15) mod 2 ^ 16 = x + 127 + 2 ^ 15" by (intro mod_pos_pos_trivial) auto
  then show ?thesis by (simp add: limit_min_max_def Let_def)
qed

lemma strong_cost:
  assumes "56 \<le> \<bar>x\<bar>" and "\<bar>x\<bar> \<le> 32640" and "(x > 0) = c" and "c' \<noteq> c"
  shows "111 \<le> sym_cost c' (limit_min_max x) - sym_cost c (limit_min_max x)"
  using assms by (auto simp: limit_small sym_cost_def)

lemma erased_cost: "- 1 \<le> sym_cost c' (limit_min_max 0) - sym_cost c (limit_min_max 0)"
  by (simp add: limit_small sym_cost_def)

text \<open>
  Received soft bits \<open>syms\<close> of the code word \<open>code\<close>: the positions in \<open>A\<close> were transmitted, the others are
  zero.
\<close>

definition received :: "nat set \<Rightarrow> bool list \<Rightarrow> int list \<Rightarrow> bool" where
  "received A code syms \<longleftrightarrow> (\<forall>p<length code. if p \<in> A
     then 56 \<le> \<bar>syms ! p\<bar> \<and> \<bar>syms ! p\<bar> \<le> 32640 \<and> (syms ! p > 0) = code ! p else syms ! p = 0)"

text \<open>Puncturing that keeps the first bit of each step and the second bit of each eighth step.\<close>

definition keeps :: "nat \<Rightarrow> nat set \<Rightarrow> bool" where
  "keeps n A \<longleftrightarrow> (\<forall>p<4 * n + 24. p mod 4 = 0 \<longrightarrow> p \<in> A) \<and> (\<forall>p<4 * n. p mod 32 = 1 \<longrightarrow> p \<in> A)"

definition excess :: "int list \<Rightarrow> bool list \<Rightarrow> bool list \<Rightarrow> nat \<Rightarrow> int" where
  "excess syms code' code p = sym_cost (code' ! p) (limit_min_max (syms ! p)) - sym_cost (code ! p) (limit_min_max (syms ! p))"

lemma excess_cases:
  assumes "received A code syms" and "p < length code"
  shows "code' ! p = code ! p \<Longrightarrow> excess syms code' code p = 0"
    and "code' ! p \<noteq> code ! p \<Longrightarrow> p \<in> A \<Longrightarrow> 111 \<le> excess syms code' code p"
    and "- 1 \<le> excess syms code' code p"
proof -
  have r: "if p \<in> A then 56 \<le> \<bar>syms ! p\<bar> \<and> \<bar>syms ! p\<bar> \<le> 32640 \<and> (syms ! p > 0) = code ! p else syms ! p = 0"
    using assms by (simp add: received_def)
  show eq: "code' ! p = code ! p \<Longrightarrow> excess syms code' code p = 0" by (simp add: excess_def)
  show hot: "code' ! p \<noteq> code ! p \<Longrightarrow> p \<in> A \<Longrightarrow> 111 \<le> excess syms code' code p"
    using r strong_cost [of "syms ! p" "code ! p" "code' ! p"] by (simp add: excess_def)
  show "- 1 \<le> excess syms code' code p"
  proof (cases "p \<in> A")
    case True
    then show ?thesis using eq hot by (cases "code' ! p = code ! p") auto
  next
    case False
    then show ?thesis using r erased_cost by (simp add: excess_def)
  qed
qed

definition step_excess :: "int list \<Rightarrow> bool list \<Rightarrow> bool list \<Rightarrow> nat \<Rightarrow> int" where
  "step_excess syms code' code t = (\<Sum>j<4. excess syms code' code (4 * t + j))"

lemma step_excess_sum:
  "step_excess syms code' code t = excess syms code' code (4 * t) + excess syms code' code (4 * t + 1) +
    excess syms code' code (4 * t + 2) + excess syms code' code (4 * t + 3)"
  by (simp add: step_excess_def eval_nat_numeral lessThan_Suc)

text \<open>
  Two paths with the difference \<open>x\<close>: a step in which a kept bit differs costs the wrong path at least
  108, any other step gains it at most 2.
\<close>

lemma step_excess_cases:
  assumes r: "received A code syms" and t: "4 * t + 3 < length code" and A: "4 * t \<in> A"
    and d0: "(code' ! (4 * t) \<noteq> code ! (4 * t)) = tap0 x t" and d1: "(code' ! (4 * t + 1) \<noteq> code ! (4 * t + 1)) = tap1 x t"
    and d2: "(code' ! (4 * t + 2) \<noteq> code ! (4 * t + 2)) = tap2 x t" and d3: "(code' ! (4 * t + 3) \<noteq> code ! (4 * t + 3)) = tap0 x t"
  shows "- 2 \<le> step_excess syms code' code t"
    and "tap0 x t \<or> tap1 x t \<and> 4 * t + 1 \<in> A \<Longrightarrow> 108 \<le> step_excess syms code' code t"
    and "\<not> tap0 x t \<Longrightarrow> \<not> tap1 x t \<Longrightarrow> \<not> tap2 x t \<Longrightarrow> step_excess syms code' code t = 0"
proof -
  note e = excess_cases [OF r, where code' = code']
  have e0: "\<not> tap0 x t \<Longrightarrow> excess syms code' code (4 * t) = 0" "tap0 x t \<Longrightarrow> 111 \<le> excess syms code' code (4 * t)"
    using e(1,2) [of "4 * t"] A t d0 by auto
  have e1: "- 1 \<le> excess syms code' code (4 * t + 1)" "\<not> tap1 x t \<Longrightarrow> excess syms code' code (4 * t + 1) = 0"
    "tap1 x t \<Longrightarrow> 4 * t + 1 \<in> A \<Longrightarrow> 111 \<le> excess syms code' code (4 * t + 1)"
    using e [of "4 * t + 1"] t d1 by auto
  have e2: "- 1 \<le> excess syms code' code (4 * t + 2)" "\<not> tap2 x t \<Longrightarrow> excess syms code' code (4 * t + 2) = 0"
    using e [of "4 * t + 2"] t d2 by auto
  have e3: "- 1 \<le> excess syms code' code (4 * t + 3)" "\<not> tap0 x t \<Longrightarrow> excess syms code' code (4 * t + 3) = 0"
    using e [of "4 * t + 3"] t d3 by auto
  show "- 2 \<le> step_excess syms code' code t"
    unfolding step_excess_sum using e0 e1 e2 e3 by (cases "tap0 x t") auto
  show "tap0 x t \<or> tap1 x t \<and> 4 * t + 1 \<in> A \<Longrightarrow> 108 \<le> step_excess syms code' code t"
    unfolding step_excess_sum using e0 e1 e2 e3 by (cases "tap0 x t") auto
  show "\<not> tap0 x t \<Longrightarrow> \<not> tap1 x t \<Longrightarrow> \<not> tap2 x t \<Longrightarrow> step_excess syms code' code t = 0"
    unfolding step_excess_sum using e0 e1 e2 e3 by auto
qed

lemma sum_one_hot:
  fixes f :: "nat \<Rightarrow> int"
  assumes "\<And>k. k < n \<Longrightarrow> - 2 \<le> f k" and "h < n" and "108 \<le> f h"
  shows "110 - 2 * int n \<le> (\<Sum>k<n. f k)"
proof -
  have "(\<Sum>k<n. f k) = f h + (\<Sum>k\<in>{..<n} - {h}. f k)" using assms(2) by (simp add: sum.remove)
  moreover have "(\<Sum>k\<in>{..<n} - {h}. - 2) \<le> (\<Sum>k\<in>{..<n} - {h}. f k)" by (rule sum_mono) (use assms(1) in auto)
  moreover have "(\<Sum>k\<in>{..<n} - {h}. - 2 :: int) = - 2 * (int n - 1)" using assms(2) by (simp add: of_nat_diff)
  ultimately show ?thesis using assms(3) by simp
qed

text \<open>A window in which no kept bit differs is one in which the paths agree.\<close>

lemma window_excess:
  fixes \<sigma> :: "nat \<Rightarrow> int"
  assumes A: "\<And>k. k < 48 \<Longrightarrow> k mod 8 = 0 \<Longrightarrow> 4 * (48 * w + k) + 1 \<in> A"
    and low: "\<And>k. k < 48 \<Longrightarrow> - 2 \<le> \<sigma> (48 * w + k)"
    and hot: "\<And>k. k < 48 \<Longrightarrow> tap0 x (48 * w + k) \<or> tap1 x (48 * w + k) \<and> 4 * (48 * w + k) + 1 \<in> A \<Longrightarrow> 108 \<le> \<sigma> (48 * w + k)"
    and cold: "\<And>k. k < 48 \<Longrightarrow> \<not> tap0 x (48 * w + k) \<Longrightarrow> \<not> tap1 x (48 * w + k) \<Longrightarrow> \<not> tap2 x (48 * w + k) \<Longrightarrow> \<sigma> (48 * w + k) = 0"
  shows "14 \<le> (\<Sum>k<48. \<sigma> (48 * w + k)) \<or> (\<forall>i<54. \<not> x (48 * w + i)) \<and> (\<Sum>k<48. \<sigma> (48 * w + k)) = 0"
proof -
  define differs where "differs k \<longleftrightarrow> tap0 x (48 * w + k) \<or> tap1 x (48 * w + k) \<and> 4 * (48 * w + k) + 1 \<in> A" for k
  show ?thesis
  proof (cases "\<exists>k<48. differs k")
  case True
  then obtain h where "h < 48" "differs h" by blast
  then have "h < 48" "108 \<le> \<sigma> (48 * w + h)" using hot [of h] by (simp_all add: differs_def)
  from sum_one_hot [where f = "\<lambda>k. \<sigma> (48 * w + k)", OF low this] show ?thesis by simp
next
  case False
  then have nd: "\<not> differs k" if "k < 48" for k using that by blast
  then have n0: "\<not> tap0 x (48 * w + k)" and n1: "k mod 8 = 0 \<Longrightarrow> \<not> tap1 x (48 * w + k)" if "k < 48" for k
    using A [OF that] nd [OF that] by (simp_all add: differs_def)
  have z: "\<not> x (48 * w + i)" if "i < 54" for i
    by (rule window_zero [OF n0 n1 that])
  have "tap0 x (48 * w + k) = False \<and> tap1 x (48 * w + k) = False \<and> tap2 x (48 * w + k) = False" if "k < 48" for k
    using z [of "k + 6"] z [of "k + 5"] z [of "k + 4"] z [of "k + 3"] z [of "k + 2"] z [of "k + 1"] z [of k] that
    by (simp add: tap0_def tap1_def tap2_def add.assoc)
  then have "(\<Sum>k<48. \<sigma> (48 * w + k)) = 0" using cold by simp
  with z show ?thesis by blast
  qed
qed

lemma sum_blocks: "(\<Sum>p<k * n. f p) = (\<Sum>t<n. \<Sum>j<k. f (k * t + j))" for f :: "nat \<Rightarrow> int"
proof -
  have "(\<Sum>j<k. f (k * t + j)) = sum f {t * k..<t * k + k}" for t
    using sum.shift_bounds_nat_ivl [of f 0 "t * k" k] by (simp add: atLeast0LessThan ac_simps)
  then show ?thesis using sum.nat_group [of f k n] by (simp add: mult.commute)
qed

lemma path_excess:
  assumes "length bs = N" and "length cs = N"
  shows "path_cost syms 0 s bs - path_cost syms 0 0 cs = (\<Sum>t<N. step_excess syms (encode s bs) (encode 0 cs) t)"
  using assms sum_blocks [of "excess syms (encode s bs) (encode 0 cs)" 4 N]
  by (simp add: path_cost_sum step_excess_def excess_def sum_subtractf)

lemma second_index: "k mod 8 = 0 \<Longrightarrow> (4 * (48 * w + k) + 1) mod 32 = (1 :: nat)"
proof -
  assume "k mod 8 = 0"
  then obtain j where "k = 8 * j" by (auto elim: dvdE simp: mod_eq_0_iff_dvd)
  then have "4 * (48 * w + k) + 1 = 1 + (6 * w + j) * 32" by simp
  then show ?thesis by (simp only: mod_mult_self1) simp
qed

lemma recovers_erased:
  assumes len: "length msg = 48 * W" and A: "keeps (48 * W) A"
    and r: "received A (encode 0 (msg @ replicate 6 False)) syms"
  shows "deconvolve (length msg) syms = msg"
proof -
  define out where "out = deconvolve (length msg) syms @ replicate 6 False"
  define sent where "sent = msg @ replicate 6 False"
  obtain s0 where s0: "s0 < 64" and least: "start_bias s0 + path_cost syms 0 s0 out \<le> path_cost syms 0 0 sent"
    using viterbi_least [of "length msg" syms] by (auto simp: out_def sent_def)
  have lo: "length out = 48 * W + 6" "length sent = 48 * W + 6"
    using arg_cong [OF deconvolve_survivor [of syms "length msg"], of length] len by (simp_all add: out_def sent_def)
  define x where "x i \<longleftrightarrow> history s0 out i \<noteq> history 0 sent i" for i
  define \<sigma> where "\<sigma> = step_excess syms (encode s0 out) (encode 0 sent)"
  have r': "received A (encode 0 sent) syms" using r by (simp add: sent_def)
  have c: "- 2 \<le> \<sigma> t" "tap0 x t \<or> tap1 x t \<and> 4 * t + 1 \<in> A \<Longrightarrow> 108 \<le> \<sigma> t"
    "\<not> tap0 x t \<Longrightarrow> \<not> tap1 x t \<Longrightarrow> \<not> tap2 x t \<Longrightarrow> \<sigma> t = 0" if t: "t < 48 * W + 6" for t
  proof -
    have "4 * t \<in> A" using A t by (simp add: keeps_def)
    note sc = step_excess_cases [OF r' _ this, where x = x and code' = "encode s0 out", folded \<sigma>_def]
    have taps: "(encode s0 out ! (4 * t) \<noteq> encode 0 sent ! (4 * t)) = tap0 x t"
      "(encode s0 out ! (4 * t + 1) \<noteq> encode 0 sent ! (4 * t + 1)) = tap1 x t"
      "(encode s0 out ! (4 * t + 2) \<noteq> encode 0 sent ! (4 * t + 2)) = tap2 x t"
      "(encode s0 out ! (4 * t + 3) \<noteq> encode 0 sent ! (4 * t + 3)) = tap0 x t"
      using encode_taps [OF s0, of t out] encode_taps [of 0 t sent] t lo
      unfolding x_def tap_xor by simp_all
    have "4 * t + 3 < length (encode 0 sent)" using t lo by simp
    from sc [OF this taps] show "- 2 \<le> \<sigma> t" "tap0 x t \<or> tap1 x t \<and> 4 * t + 1 \<in> A \<Longrightarrow> 108 \<le> \<sigma> t"
      "\<not> tap0 x t \<Longrightarrow> \<not> tap1 x t \<Longrightarrow> \<not> tap2 x t \<Longrightarrow> \<sigma> t = 0" by blast+
  qed
  define win where "win w = (\<Sum>k<48. \<sigma> (48 * w + k))" for w
  have w: "14 \<le> win w \<or> (\<forall>i<54. \<not> x (48 * w + i)) \<and> win w = 0" if "w < W" for w
    unfolding win_def
  proof (rule window_excess [where A = A])
    fix k :: nat assume k: "k < 48"
    have b: "48 * w + k < 48 * W" using k that by linarith
    then have t: "48 * w + k < 48 * W + 6" by simp
    show "- 2 \<le> \<sigma> (48 * w + k)"
      "tap0 x (48 * w + k) \<or> tap1 x (48 * w + k) \<and> 4 * (48 * w + k) + 1 \<in> A \<Longrightarrow> 108 \<le> \<sigma> (48 * w + k)"
      "\<not> tap0 x (48 * w + k) \<Longrightarrow> \<not> tap1 x (48 * w + k) \<Longrightarrow> \<not> tap2 x (48 * w + k) \<Longrightarrow> \<sigma> (48 * w + k) = 0"
      using c [OF t] by blast+
    assume "k mod 8 = 0"
    then have "(4 * (48 * w + k) + 1) mod 32 = 1" by (rule second_index)
    then show "4 * (48 * w + k) + 1 \<in> A" using A b by (simp add: keeps_def)
  qed
  have tail: "- 12 \<le> (\<Sum>t<6. \<sigma> (48 * W + t))"
    using sum_mono [of "{..<6}" "\<lambda>_. - 2" "\<lambda>t. \<sigma> (48 * W + t)"] c(1) by simp
  have "(\<Sum>t<48 * W + 6. \<sigma> t) = (\<Sum>w<W. win w) + (\<Sum>t<6. \<sigma> (48 * W + t))"
    using sum_split_first [of "48 * W" "48 * W + 6" \<sigma>] sum_blocks [of \<sigma> 48 W] by (simp add: win_def)
  then have sum: "(\<Sum>w<W. win w) \<le> 12"
    using least path_excess [OF lo, of syms s0] tail by (simp add: \<sigma>_def start_bias_def split: if_splits)
  have nonneg: "0 \<le> win w" if "w < W" for w using w [OF that] by auto
  have z: "\<not> x (48 * w + i)" if "w < W" "i < 54" for w i
  proof -
    have "win w \<le> (\<Sum>w<W. win w)" using nonneg that by (intro member_le_sum) auto
    then show ?thesis using w [OF that(1)] sum that(2) by auto
  qed
  have "out ! i = sent ! i" if "i < 48 * W" for i
  proof -
    have "\<not> x (48 * (i div 48) + (i mod 48 + 6))" by (rule z) (use that in \<open>auto simp: less_mult_imp_div_less\<close>)
    moreover have "48 * (i div 48) + (i mod 48 + 6) = i + 6" by simp
    ultimately show ?thesis by (simp add: x_def history_def)
  qed
  then show ?thesis using len lo by (intro nth_equalityI) (auto simp: out_def sent_def nth_append)
qed

section \<open>The bit error count\<close>

lemma encode_nth:
  "i < length bs \<Longrightarrow> j < 4 \<Longrightarrow> encode s bs ! (4 * i + j) = branch_out (run s (take i bs)) (bs ! i) j"
proof (induction bs arbitrary: s i)
  case (Cons b bs)
  then show ?case by (cases i) (simp_all add: nth_append run_def)
qed simp

lemma power_seven: "(2 :: nat) ^ 7 = 128"
  by simp

lemma and_poly: "j < 4 \<Longrightarrow> sr AND polys ! j = (sr mod 128) AND polys ! j"
proof -
  assume "j < 4"
  then have "j \<in> {0, 1, 2, 3}" by auto
  then have "polys ! j = take_bit 7 (polys ! j)" by (auto simp: polys_def take_bit_eq_mod)
  then show ?thesis 
    by (metis (no_types) take_bit_and take_bit_eq_mod take_bit_eq_mask and.assoc and.commute power_seven)
qed

definition hits :: "(nat \<Rightarrow> bool) \<Rightarrow> nat \<Rightarrow> nat" where
  "hits P n = length (filter P [0..<n])"

lemma hits_4: "hits P (4 * Suc i) = hits P (4 * i) + length (filter (\<lambda>j. P (4 * i + j)) [0..<4])"
proof -
  have "[0..<4 * Suc i] = [0..<4 * i] @ map (\<lambda>j. j + 4 * i) [0..<4]"
    using upt_add_eq_append [of 0 "4 * i" 4] map_add_upt [of "4 * i" 4] by (simp add: add.commute)
  then show ?thesis
    by (simp only: hits_def filter_append filter_map length_append length_map comp_def add.commute [of _ "4 * i"])
qed

lemma ber_symbols:
  assumes "\<And>j. j < 4 \<Longrightarrow> (parity (sr AND polys ! j) = 1) = code (4 * i + j)"
  shows "foldl (ber_symbol sr syms pt i) (bits, errors) [0..<4] =
    (bits + length (filter (\<lambda>j. pt ! (4 * i + j)) [0..<4]),
     errors + length (filter (\<lambda>j. pt ! (4 * i + j) \<and> (syms ! (4 * i + j) > 0) \<noteq> code (4 * i + j)) [0..<4]))"
  using assms [of 0] assms [of 1] assms [of 2] assms [of 3]
  by (simp add: ber_symbol_def upt_4 Let_def mult.commute [of _ 4])

lemma double_mod: "(2 * sr + of_bool q) mod 128 = 2 * (sr mod 64) + of_bool q" for sr :: nat
proof -
  have "2 * sr + of_bool q = (2 * (sr mod 64) + of_bool q) + sr div 64 * 128"
    using div_mult_mod_eq [of sr 64] by linarith
  moreover have "2 * (sr mod 64) + of_bool q < 128" using mod_less_divisor [of 64 sr] by (cases q; simp)
  ultimately show ?thesis by (simp only: mod_mult_self1 mod_less)
qed

lemma ber_loop:
  fixes pt :: "bool list" and syms :: "int list"
  assumes len: "length out = n" and "i \<le> n + 6"
  defines "bs \<equiv> out @ replicate 6 False"
  defines "P \<equiv> \<lambda>p. pt ! p" and "E \<equiv> \<lambda>p. pt ! p \<and> (syms ! p > 0) \<noteq> encode 0 (out @ replicate 6 False) ! p"
  shows "\<exists>sr. foldl (ber_step syms pt out n) (0, bits, errors) [0..<i] =
    (sr, bits + hits P (4 * i), errors + hits E (4 * i)) \<and> sr mod 64 = run 0 (take i bs)"
  using assms(2)
proof (induction i)
  case 0
  then show ?case by (simp add: hits_def run_def)
next
  case (Suc i)
  then obtain sr where IH: "foldl (ber_step syms pt out n) (0, bits, errors) [0..<i] =
      (sr, bits + hits P (4 * i), errors + hits E (4 * i))" and sr: "sr mod 64 = run 0 (take i bs)" by auto
  let ?b = "bs ! i"
  define sr' where "sr' = (if i < n then (push_bit 1 sr OR (if out ! i then 1 else 0)) AND 255 else push_bit 1 sr AND 255)"
  have i: "i < length bs" using Suc.prems len by (simp add: bs_def)
  have b: "(i < n \<and> out ! i) = ?b" using len Suc.prems by (auto simp: bs_def nth_append)
  have "(2 * sr + 1) AND 255 = (2 * sr + 1) mod 256" "(2 * sr) AND 255 = (2 * sr) mod 256"
    using take_bit_eq_mask [of 8 "2 * sr + 1"] take_bit_eq_mask [of 8 "2 * sr"]
    by (simp_all add: take_bit_eq_mod mask_eq_exp_minus_1)
  moreover have "push_bit 1 sr OR (if q then 1 else 0) = 2 * sr + of_bool q" for q
    by (cases q) (simp_all add: or_Suc_0_eq mult.commute)
  ultimately have sr': "sr' = (2 * sr + of_bool ?b) mod 256" using b
    by (auto simp: sr'_def push_bit_eq_mult mult.commute split: if_splits)
  have m128: "sr' mod 128 = 2 * run 0 (take i bs) + of_bool ?b"
  proof -
    have "sr' mod 128 = (2 * sr + of_bool ?b) mod 128" unfolding sr' by (rule mod_mod_cancel) simp
    also have "\<dots> = 2 * (sr mod 64) + of_bool ?b" by (rule double_mod)
    finally show ?thesis using sr by simp
  qed
  have code: "(parity (sr' AND polys ! j) = 1) = encode 0 bs ! (4 * i + j)" if "j < 4" for j
    using encode_nth [OF i that, of 0] and_poly [OF that, of sr'] by (simp only: m128 branch_out_def)
  have one: "ber_step syms pt out n (sr, cnt) i = (sr', foldl (ber_symbol sr' syms pt i) cnt [0..<4])" for cnt
    by (simp add: ber_step_def sr'_def Let_def)
  have four: "foldl (ber_symbol sr' syms pt i) (b, e) [0..<4] =
      (b + length (filter (\<lambda>j. pt ! (4 * i + j)) [0..<4]),
       e + length (filter (\<lambda>j. pt ! (4 * i + j) \<and> (syms ! (4 * i + j) > 0) \<noteq> encode 0 bs ! (4 * i + j)) [0..<4]))" for b e
    by (rule ber_symbols [OF code])
  have step: "foldl (ber_step syms pt out n) (0, bits, errors) [0..<Suc i] =
      (sr', bits + hits P (4 * Suc i), errors + hits E (4 * Suc i))"
    unfolding hits_4 upt_Suc_append [OF le0] foldl_append foldl.simps IH one four
    by (simp only: P_def E_def bs_def add.assoc)
  have "sr' mod 64 = (sr' mod 128) mod 64" by (rule mod_mod_cancel [symmetric]) simp
  also have "\<dots> = next_state (run 0 (take i bs)) ?b" by (simp only: m128 next_state_def)
  also have "\<dots> = run 0 (take (Suc i) bs)" using i by (simp add: run_def take_Suc_conv_app_nth)
  finally show ?case using step by blast
qed

section \<open>Properties\<close>

text \<open>
  C39: The bit error count: the decoder counts the transmitted code bits, and as errors exactly those
  whose sign differs from the code word of the decoded message (with its six tail bits).
\<close>

theorem ber_counts:
  assumes "length out = n"
  shows "calculate_BER n syms punctureTable out (bits, errors) =
    (bits + length (filter (\<lambda>p. punctureTable ! p) [0..<4 * (n + 6)]),
     errors + length (filter (\<lambda>p. punctureTable ! p \<and>
       (syms ! p > 0) \<noteq> encode 0 (out @ replicate 6 False) ! p) [0..<4 * (n + 6)]))"
  using ber_loop [OF assms order.refl, of syms punctureTable bits errors]
  by (auto simp: calculate_BER_def hits_def)

theorem ber_counts_witness:
  "calculate_BER 0 (replicate 24 1) (replicate 24 True) [] (10, 3) = (34, 27)"
proof -
  have four: "replicate (4 + m) False = False # False # False # False # replicate m False" for m
    by (simp add: eval_nat_numeral)
  have "encode 0 (replicate n False) = replicate (4 * n) False" for n
    by (induction n) (simp_all add: upt_4 branch_out_def parity_def PARTAB_def next_state_def four)
  from this [of 6] have code: "encode 0 ([] @ replicate 6 False) = replicate 24 False" by simp
  have "filter (\<lambda>p. replicate 24 True ! p) [0..<24] = [0..<24]"
    "filter (\<lambda>p. replicate 24 True ! p \<and> (replicate 24 (1 :: int) ! p > 0) \<noteq> replicate 24 False ! p) [0..<24] = [0..<24]"
    by (auto intro: filter_True)
  then show ?thesis
    using ber_counts [of "[]" 0 "replicate 24 1" "replicate 24 True" 10 3] unfolding code by simp
qed

end
