(* ===== verification/Punctured_Codes.thy ===== *)
theory Punctured_Codes
  imports Viterbi_Erasures Backend
begin

text \<open>
  De-puncturing and Viterbi decoding together.  The interface \<open>deconvolver\<close> states what an address table
  must guarantee: increasing addresses inside the block, a frame of whole windows of the decoder, and
  that the bits the decoder needs are transmitted.  Whatever table satisfies it recovers every frame
  that arrives with a sufficient strength.  The tables of both protection handlers satisfy it, for all
  their profiles.
\<close>

section \<open>The interface\<close>

text \<open>Soft bits \<open>v\<close> that carry the transmitted code bits of a message, each of a strength of at least 56.\<close>

definition carries :: "nat list \<Rightarrow> bool list \<Rightarrow> int list \<Rightarrow> bool" where
  "carries addresses msg v \<longleftrightarrow> (\<forall>k<length addresses. 56 \<le> \<bar>v ! k\<bar> \<and> \<bar>v ! k\<bar> \<le> 32640 \<and>
     (v ! k > 0) = encode 0 (msg @ replicate 6 False) ! (addresses ! k))"

locale deconvolver =
  fixes addresses :: "nat list" and n :: nat
  assumes increasing: "sorted_wrt (<) addresses"
    and inside: "\<forall>a\<in>set addresses. a < 4 * n + 24"
    and windows: "48 dvd n"
    and kept_bits: "keeps n (set addresses)"
begin

lemma received_block:
  fixes v :: "int list"
  assumes "length block = 4 * n + 24" and "\<forall>p<4 * n + 24. p \<notin> set addresses \<longrightarrow> block ! p = 0"
    and "length msg = n" and "carries addresses msg v"
  shows "received (set addresses) (encode 0 (msg @ replicate 6 False))
    (fold (\<lambda>k block. block[addresses ! k := v ! k]) [0..<length addresses] block)"
proof -
  let ?B = "fold (\<lambda>k block. block[addresses ! k := v ! k]) [0..<length addresses] block"
  have "distinct addresses" using increasing by (simp add: strict_sorted_iff)
  moreover have "\<forall>a\<in>set addresses. a < length block" using inside assms(1) by simp
  ultimately have w: "\<And>k. k < length addresses \<Longrightarrow> ?B ! (addresses ! k) = v ! k"
      "\<And>p. p < length block \<Longrightarrow> p \<notin> set addresses \<Longrightarrow> ?B ! p = block ! p"
    using fold_writes [of addresses block "length addresses", where v = v] by blast+
  have "if p \<in> set addresses
      then 56 \<le> \<bar>?B ! p\<bar> \<and> \<bar>?B ! p\<bar> \<le> 32640 \<and> (?B ! p > 0) = encode 0 (msg @ replicate 6 False) ! p
      else ?B ! p = 0" if p: "p < 4 * n + 24" for p
  proof (cases "p \<in> set addresses")
    case True
    then obtain k where "k < length addresses" "p = addresses ! k" by (auto simp: in_set_conv_nth)
    then show ?thesis using w(1) [of k] assms(4) True by (simp add: carries_def)
  next
    case False
    then show ?thesis using w(2) [of p] p assms(1,2) by simp
  qed
  then show ?thesis using assms(3) by (simp add: received_def)
qed

lemma recovers:
  fixes v :: "int list"
  assumes "length block = 4 * n + 24" and "\<forall>p<4 * n + 24. p \<notin> set addresses \<longrightarrow> block ! p = 0"
    and "length msg = n" and "carries addresses msg v"
  shows "deconvolve n (fold (\<lambda>k block. block[addresses ! k := v ! k]) [0..<length addresses] block) = msg"
proof -
  obtain W where W: "n = 48 * W" using windows by blast
  show ?thesis
    using recovers_erased [of msg W "set addresses", OF _ _ received_block [OF assms]] assms(3) kept_bits W by simp
qed

lemma protection_recovers:
  assumes "viterbiBlockAddresses pr = addresses" and "outSize pr = n" and "prot_ok pr"
    and "length msg = n" and "carries addresses msg v"
  shows "fst (protection_deconvolve pr v) = msg"
proof -
  have "\<forall>p<4 * n + 24. p \<notin> set addresses \<longrightarrow> viterbiBlock pr ! p = 0"
    using assms(1-3) unfolding prot_ok_def by metis
  moreover have "length (viterbiBlock pr) = 4 * n + 24" using assms(2,3) by (simp add: prot_ok_def)
  ultimately show ?thesis using recovers [of "viterbiBlock pr" msg v] assms
    by (simp add: protection_deconvolve_def depuncture_def)
qed

end

section \<open>The tables of the protection handlers\<close>

text \<open>A table under construction transmits the bits the decoder needs.\<close>

definition covers :: "nat \<times> nat list \<Rightarrow> bool" where
  "covers = (\<lambda>(c, as). \<forall>p<c. p mod 4 = 0 \<or> p mod 32 = 1 \<longrightarrow> p \<in> set as)"

definition useful :: "nat list \<Rightarrow> bool" where
  "useful v \<longleftrightarrow> (\<forall>j<32. j mod 4 = 0 \<or> j = 1 \<longrightarrow> v ! j \<noteq> 0)"

lemma PI_useful:
  assumes "1 \<le> k" and "k \<le> 24"
  shows "useful (get_PI_codes k)"
proof -
  have "\<forall>v\<in>set cPI_Codes. list_all (\<lambda>j. v ! j \<noteq> 0) [0, 1, 4, 8, 12, 16, 20, 24, 28]"
    by (simp add: cPI_Codes_def)
  moreover have "get_PI_codes k \<in> set cPI_Codes" using assms unfolding get_PI_codes_def
    by (intro nth_mem) (simp add: cPI_Codes_def)
  ultimately have PI: "\<forall>j\<in>set [0, 1, 4, 8, 12, 16, 20, 24, 28]. get_PI_codes k ! j \<noteq> 0"
    unfolding list_all_iff by (rule bspec)
  have mem: "j \<in> set [0, 1, 4, 8, 12, 16, 20, 24, 28]" if "j < 32" "j mod 4 = 0 \<or> j = 1" for j :: nat
  proof -
    have "j = 4 * (j div 4) + j mod 4" "j div 4 < 8" using that by simp_all
    moreover from this(2) have "j div 4 \<in> {0, 1, 2, 3, 4, 5, 6, 7}" by auto
    ultimately show ?thesis using that(2) by auto
  qed
  show ?thesis unfolding useful_def by (intro allI impI, rule bspec [OF PI], rule mem)
qed

lemma covers_section:
  assumes c: "covers (c, as)" and v: "useful v" and d: "32 dvd c" and n: "32 dvd n \<or> n \<le> 32"
  shows "covers (foldl (note_address v) (c, as) [0..<n])"
proof -
  have "p \<in> set (as @ map (\<lambda>j. c + j) (kept v n))" if p: "p < c + n" "p mod 4 = 0 \<or> p mod 32 = 1" for p
  proof (cases "p < c")
    case True
    then show ?thesis using c p(2) by (auto simp: covers_def)
  next
    case False
    define j where "j = p - c"
    have j: "p = c + j" "j < n" using False p(1) by (simp_all add: j_def)
    have "4 dvd c" using d by (rule dvd_trans [rotated]) simp
    then have "j mod 4 = 0 \<or> j mod 32 = 1" using p(2) d unfolding j(1)
      by (metis mod_add_left_eq add_0 mod_eq_0_iff_dvd)
    moreover have "(j mod 32) mod 4 = j mod 4" by (rule mod_mod_cancel) simp
    ultimately have "v ! (j mod 32) \<noteq> 0" by (intro v [unfolded useful_def, rule_format]) auto
    then show ?thesis using j by (simp add: kept_def)
  qed
  then show ?thesis by (auto simp: note_addresses covers_def)
qed

lemma covers_extract:
  assumes "covers s" and "0 < nat L \<Longrightarrow> useful v" and "32 dvd fst s"
  shows "covers (extract_viterbi_block_addresses L v s) \<and> 32 dvd fst (extract_viterbi_block_addresses L v s)"
proof (cases "nat L = 0")
  case True
  then show ?thesis using assms by (simp add: extract_viterbi_block_addresses_def)
next
  case False
  then have v: "useful v" using assms(2) by simp
  have "covers (foldl (\<lambda>s i. foldl (note_address v) s [0..<128]) s [0..<n]) \<and>
      32 dvd fst (foldl (\<lambda>s i. foldl (note_address v) s [0..<128]) s [0..<n])" for n
  proof (induction n)
    case (Suc n)
    obtain c as where ca: "foldl (\<lambda>s i. foldl (note_address v) s [0..<128]) s [0..<n] = (c, as)" by fastforce
    have 1: "covers (c, as)" "32 dvd c" using Suc unfolding ca by simp_all
    have "covers (foldl (note_address v) (c, as) [0..<128])" by (rule covers_section [OF 1(1) v 1(2)]) simp
    moreover have "32 dvd c + 128" using 1(2) by (rule dvd_add) simp
    ultimately show ?case unfolding upt_Suc_append [OF le0] foldl_append foldl.simps ca by (simp add: note_addresses)
  qed (use assms in simp)
  then show ?thesis by (simp add: extract_viterbi_block_addresses_def)
qed

lemma covers_tail: "covers s \<Longrightarrow> 32 dvd fst s \<Longrightarrow> covers (extract_tail s)"
  using covers_section [of "fst s" "snd s" "get_PI_codes 8" 24] PI_useful [of 8] by (simp add: extract_tail_def)

lemma covers_start: "covers (0, [])"
  by (simp add: covers_def)

lemma covers_keeps: "covers (4 * n + 24, as) \<Longrightarrow> keeps n (set as)"
  by (auto simp: covers_def keeps_def)

lemma table_deconvolver:
  assumes "table_state (96 * rate + 24) m s" and "covers s" and "even rate"
  shows "deconvolver (snd s) (24 * rate)"
proof -
  obtain as where s: "s = (96 * rate + 24, as)" using assms(1) by (cases s) (simp add: table_state_def)
  have "keeps (24 * rate) (set as)" using assms(2) covers_keeps [of "24 * rate" as] s by simp
  moreover have "48 dvd 24 * rate" using assms(3) by (auto elim!: evenE)
  ultimately show ?thesis using assms(1) by (simp add: deconvolver_def s table_state_def)
qed

lemma eep_deconvolver:
  assumes "0 < rate" and "level < 8" and "EepProtection rate level = Some pr"
  shows "deconvolver (viterbiBlockAddresses pr) (24 * rate)"
proof -
  have g: "if level < 4 then 8 dvd rate else 32 dvd rate" using assms eep_none [of level rate] by fastforce
  obtain L1 L2 PI1 PI2 where p: "eep_profile rate level = Some (L1, L2, PI1, PI2)"
    "1 \<le> PI1" "PI1 \<le> 24" "1 \<le> PI2" "PI2 \<le> 24" "128 * (nat L1 + nat L2) = 96 * rate"
    by (rule eep_profile_ok [OF assms(1,2) g])
  let ?s = "extract_viterbi_block_addresses L2 (get_PI_codes PI2)
       (extract_viterbi_block_addresses L1 (get_PI_codes PI1) (0, []))"
  have "covers ?s \<and> 32 dvd fst ?s"
    using covers_extract [OF covers_start, of L1 "get_PI_codes PI1"] p(2-5)
    by (intro covers_extract) (simp_all add: PI_useful)
  moreover have "even rate"
    using g dvd_trans [of 2 8 rate] dvd_trans [of 2 32 rate] by (cases "level < 4") simp_all
  ultimately have "deconvolver (snd (extract_tail ?s)) (24 * rate)"
    using eep_sections [OF p(2-5), of L1 L2, unfolded p(6)] by (intro table_deconvolver covers_tail) simp_all
  moreover have "viterbiBlockAddresses pr = snd (extract_tail ?s)"
    using assms(3) p(1) by (auto simp: EepProtection_def Let_def)
  ultimately show ?thesis by simp
qed

lemma uep_rows_even: "list_all (\<lambda>row. even (fst row)) (take 64 cProfileTable)"
  by (simp add: cProfileTable_def)

lemma uep_row:
  assumes "find_index rate level = Some i"
  shows "fst (cProfileTable ! i) = rate" and "even rate" and "uep_row_ok (cProfileTable ! i)"
proof -
  have f: "i < length cProfileTable" "fst (cProfileTable ! i) = rate" "rate \<noteq> 0"
    using find_index_row [OF assms [unfolded find_index_def]] by simp_all
  have "i \<noteq> 64" using f(2,3) by (auto simp: cProfileTable_def)
  then have "i < 64" using f(1) by (simp add: cProfileTable_def)
  then have "cProfileTable ! i \<in> set (take 64 cProfileTable)"
    by (metis f(1) in_set_conv_nth length_take min_less_iff_conj nth_take)
  then show "fst (cProfileTable ! i) = rate" and "even rate" and "uep_row_ok (cProfileTable ! i)"
    using f(2) uep_rows_ok uep_rows_even by (auto simp: list_all_iff)
qed

lemma uep_deconvolver:
  assumes "find_index rate level = Some i"
  shows "deconvolver (viterbiBlockAddresses (UepProtection rate level)) (24 * rate)"
proof -
  let ?row = "cProfileTable ! i"
  note row = uep_row [OF assms]
  obtain L1 L2 L3 L4 PI1 PI2 PI3 PI4 lev
    where r: "?row = (rate, lev, L1, L2, L3, L4, PI1, PI2, PI3, PI4)" using row(1) by (metis prod.collapse)
  have b: "1 \<le> PI1" "PI1 \<le> 24" "1 \<le> PI2" "PI2 \<le> 24" "1 \<le> PI3" "PI3 \<le> 24" "1 \<le> PI4 \<and> PI4 \<le> 24 \<or> L4 = 0"
    using row(3) by (simp_all add: uep_row_ok_def r)
  let ?v4 = "if PI4 \<noteq> - 1 then get_PI_codes (nat PI4) else []"
  have u: "useful (get_PI_codes (nat PI))" if "1 \<le> PI" "PI \<le> 24" for PI using that by (intro PI_useful) simp_all
  have v4: "0 < nat L4 \<Longrightarrow> useful ?v4" using b(7) u [of PI4] by auto
  let ?s1 = "extract_viterbi_block_addresses L1 (get_PI_codes (nat PI1)) (0, [])"
  let ?s2 = "extract_viterbi_block_addresses L2 (get_PI_codes (nat PI2)) ?s1"
  let ?s3 = "extract_viterbi_block_addresses L3 (get_PI_codes (nat PI3)) ?s2"
  let ?s4 = "extract_viterbi_block_addresses L4 ?v4 ?s3"
  have "covers ?s1 \<and> 32 dvd fst ?s1" using u b by (intro covers_extract covers_start) simp_all
  then have "covers ?s2 \<and> 32 dvd fst ?s2" using u b by (intro covers_extract) simp_all
  then have "covers ?s3 \<and> 32 dvd fst ?s3" using u b by (intro covers_extract) simp_all
  then have "covers ?s4 \<and> 32 dvd fst ?s4" using v4 by (intro covers_extract) simp_all
  then have "covers (uep_addresses ?row)" using covers_tail by (simp add: uep_addresses_def r Let_def)
  from table_deconvolver [OF uep_sections [OF row(3), unfolded row(1)] this row(2)]
  show ?thesis by (simp add: UepProtection_def assms)
qed

section \<open>Frames with energy dispersal\<close>

definition is_bit_list :: "u8 list \<Rightarrow> bool" where
  "is_bit_list xs \<longleftrightarrow> (\<forall>x\<in>set xs. x = 0 \<or> x = 1)"

lemma xor_bit: "x = 0 \<or> x = 1 \<Longrightarrow> y = 0 \<or> y = 1 \<Longrightarrow> x XOR y = 0 \<or> x XOR y = 1" for x y :: u8
  by auto

lemma is_bit_xor:
  assumes "is_bit_list xs" and "is_bit_list ys"
  shows "is_bit_list (xor_list xs ys)"
  unfolding is_bit_list_def
proof
  fix z assume "z \<in> set (xor_list xs ys)"
  then obtain x y where "z = x XOR y" "(x, y) \<in> set (zip xs ys)" by (auto simp: xor_list_def)
  moreover from this(2) have "x \<in> set xs" "y \<in> set ys" by (auto dest: set_zip_leftD set_zip_rightD)
  ultimately show "z = 0 \<or> z = 1" using assms xor_bit [of x y] unfolding is_bit_list_def by blast
qed

lemma is_bit_of_bool: "is_bit_list (map of_bool bs)"
  by (auto simp: is_bit_list_def)

lemma disperse_bits: "is_bit_list reg \<Longrightarrow> length reg = 9 \<Longrightarrow> is_bit_list (disperse n reg) \<and> length (disperse n reg) = n"
proof (induction n arbitrary: reg)
  case (Suc n)
  have l: "length (shift_in reg) = 9" using Suc.prems by (simp add: shift_in_def)
  have "reg ! 8 = 0 \<or> reg ! 8 = 1" "reg ! 4 = 0 \<or> reg ! 4 = 1" using Suc.prems by (simp_all add: is_bit_list_def)
  then have h: "hd (shift_in reg) = 0 \<or> hd (shift_in reg) = 1" unfolding shift_in_def list.sel by (rule xor_bit)
  moreover have "set (butlast reg) \<subseteq> set reg" by (auto dest: in_set_butlastD)
  ultimately have "is_bit_list (shift_in reg)" using Suc.prems(1) by (auto simp: is_bit_list_def shift_in_def)
  with Suc.IH [OF this l] h show ?case by (auto simp: is_bit_list_def)
qed (simp add: is_bit_list_def)

lemma disperseVector_bits: "is_bit_list (disperseVector n)" "length (disperseVector n) = n"
  using disperse_bits [of "replicate 9 1" n] by (simp_all add: disperseVector_def is_bit_list_def)

text \<open>The bits a transmitter encodes for a frame.\<close>

definition scramble :: "u8 list \<Rightarrow> bool list" where
  "scramble msg = map (\<lambda>x. x = 1) (xor_list msg (disperseVector (length msg)))"

lemma length_scramble [simp]: "length (scramble msg) = length msg"
  by (simp add: scramble_def disperseVector_bits)

lemma unscramble:
  assumes "is_bit_list msg"
  shows "xor_list (map of_bool (scramble msg)) (disperseVector (length msg)) = msg"
proof -
  have "is_bit_list (xor_list msg (disperseVector (length msg)))"
    using assms disperseVector_bits(1) by (rule is_bit_xor)
  then have "map of_bool (scramble msg) = xor_list msg (disperseVector (length msg))"
    unfolding scramble_def map_map by (intro map_idI) (auto simp: is_bit_list_def)
  then show ?thesis by (simp add: xor_list_cancel disperseVector_bits)
qed

text \<open>A transmitter without noise.\<close>

definition transmit :: "nat list \<Rightarrow> bool list \<Rightarrow> int list" where
  "transmit addresses msg = map (\<lambda>a. if encode 0 (msg @ replicate 6 False) ! a then 100 else - 100) addresses"

lemma transmit_carries: "carries addresses msg (transmit addresses msg)"
  by (simp add: carries_def transmit_def)

lemma descriptor_deconvolver:
  assumes "descriptor_ok d" and "Backend d ASCTy flag = Some b0"
  shows "deconvolver (viterbiBlockAddresses (bk_deconvolver b0)) (24 * nat (sd_bitRate d)) \<and>
    outSize (bk_deconvolver b0) = 24 * nat (sd_bitRate d) \<and> bk_disperseVector b0 = disperseVector (24 * nat (sd_bitRate d))"
proof -
  obtain pr where pr: "BackendDeconvolver (sd_shortForm d) (nat (sd_bitRate d)) (nat (sd_protLevel d)) = Some pr"
    "outSize pr = 24 * nat (sd_bitRate d)" using deconvolver_ok [OF assms(1)] by blast
  have b0: "bk_deconvolver b0 = pr" "bk_disperseVector b0 = disperseVector (24 * nat (sd_bitRate d))"
    using assms(2) pr(1) by (auto simp: Backend_def split: if_splits)
  have "deconvolver (viterbiBlockAddresses pr) (24 * nat (sd_bitRate d))"
  proof (cases "sd_shortForm d")
    case True
    then obtain i where "find_index (nat (sd_bitRate d)) (int (nat (sd_protLevel d))) = Some i"
      using assms(1) by (auto simp: descriptor_ok_def Let_def split: option.splits)
    from uep_deconvolver [OF this] True pr(1) show ?thesis by (simp add: BackendDeconvolver_def)
  next
    case False
    then show ?thesis using assms(1) pr(1) eep_deconvolver [of "nat (sd_bitRate d)" "nat (sd_protLevel d)" pr]
      by (simp add: BackendDeconvolver_def descriptor_ok_def Let_def)
  qed
  then show ?thesis using b0 pr(2) by simp
qed

lemma decoded_frame_recovers:
  assumes d: "descriptor_ok d" and b0: "Backend d ASCTy flag = Some b0"
    and msg: "length msg = 24 * nat (sd_bitRate d)" "is_bit_list msg"
    and m: "carries (viterbiBlockAddresses (bk_deconvolver b0)) (scramble msg) m"
  shows "decoded_frame (bk_deconvolver b0) (bk_disperseVector b0) m = msg"
proof -
  note dd = descriptor_deconvolver [OF d b0]
  have "fst (protection_deconvolve (bk_deconvolver b0) m) = scramble msg"
    by (rule deconvolver.protection_recovers [OF dd [THEN conjunct1]])
      (use dd msg m backend_start(2) [OF d b0] in simp_all)
  then show ?thesis using unscramble [OF msg(2)] dd msg(1) by (simp add: decoded_frame_def)
qed

section \<open>Properties\<close>

text \<open>
  C4: Reception of a sub-channel, end to end: for every protection profile, whatever frames of bits a
  transmitter disperses, encodes, punctures and time interleaves, if the soft bits arrive with the right
  sign and a strength of at least 56, the frames handed over are exactly the frames sent, in order and
  beginning with the first.
\<close>

theorem subchannel_received:
  assumes "descriptor_ok d" and "Backend d ASCTy flag = Some b0" and "interleaved (64 * nat (sd_CuSize d)) ms xs"
    and "length msgs = length xs - 16"
    and "\<forall>k<length msgs. length (msgs ! k) = 24 * nat (sd_bitRate d) \<and> is_bit_list (msgs ! k) \<and>
      carries (viterbiBlockAddresses (bk_deconvolver b0)) (scramble (msgs ! k)) (ms ! k)"
  shows "bk_frames (foldl process_segment b0 xs) = msgs"
proof -
  have "interleaved (bk_fragmentSize b0) ms xs" using backend_start(4) [OF assms(1,2)] assms(3) by simp
  from backend_run [OF assms(1,2) assms(1,2) this assms(1,2)]
  have "bk_frames (foldl process_segment b0 xs) =
      map (\<lambda>k. decoded_frame (bk_deconvolver b0) (bk_disperseVector b0) (ms ! k)) [0..<length xs - 16]"
    by (simp add: backend_after_def)
  also have "\<dots> = map ((!) msgs) [0..<length msgs]"
    unfolding assms(4) [symmetric] by (rule map_cong) (use decoded_frame_recovers [OF assms(1,2)] assms(5) in auto)
  also have "\<dots> = msgs" by (rule map_nth)
  finally show ?thesis .
qed

theorem subchannel_received_witness:
  "\<exists>b0. Backend \<lparr>sd_isDefined = True, sd_TMId = StreamModeAudio, sd_SId = 1, sd_SubChId = 3,
      sd_CuStartAddr = 10, sd_CuSize = 6, sd_shortForm = False, sd_protLevel = 2, sd_bitRate = 8,
      sd_serviceLabel = [], sd_serviceLabelShort = []\<rparr> 63 Primary = Some b0 \<and>
    bk_frames (foldl process_segment b0 (replicate 17 (transmit (viterbiBlockAddresses (bk_deconvolver b0))
      (scramble (replicate 192 1))))) = [replicate 192 1]"
proof -
  let ?d = "\<lparr>sd_isDefined = True, sd_TMId = StreamModeAudio, sd_SId = 1, sd_SubChId = 3,
      sd_CuStartAddr = 10, sd_CuSize = 6, sd_shortForm = False, sd_protLevel = 2, sd_bitRate = 8,
      sd_serviceLabel = [], sd_serviceLabelShort = []\<rparr>"
  have ok: "descriptor_ok ?d" by (simp add: descriptor_ok_def eep_units_def)
  then obtain b0 where b0: "Backend ?d 63 Primary = Some b0" using Backend_ok by blast
  define m where "m = transmit (viterbiBlockAddresses (bk_deconvolver b0)) (scramble (replicate 192 1))"
  obtain pr where pr: "EepProtection 8 2 = Some pr" "length (viterbiBlockAddresses pr) = 384"
    using eep_ok [of 8 2] by (auto simp: eep_units_def)
  then have "length (viterbiBlockAddresses (bk_deconvolver b0)) = 384"
    using b0 by (auto simp: Backend_def BackendDeconvolver_def)
  then have "length m = 384" by (simp add: m_def transmit_def)
  then have "interleaved (64 * nat (sd_CuSize ?d)) (replicate 17 m) (replicate 17 m)" by (simp add: interleaved_def)
  from subchannel_received [OF ok b0 this, where msgs = "[replicate 192 1]"] b0
  show ?thesis by (simp add: m_def transmit_carries is_bit_list_def)
qed

end
