(* ===== verification/Charsets.thy ===== *)
theory Charsets
  imports Dab_Constants
begin

text \<open>
  Character sets of labels, \<^verbatim>\<open>src/src/base/backend/charsets.cpp\<close>.  The two conversions of the Qt
  library, from UTF-16 and from UTF-8, are a parameter: each gets the buffer and the length it is
  called with.
\<close>

record qt_codec =
  fromUtf16 :: "nat list \<Rightarrow> nat \<Rightarrow> qstring"
  fromUtf8 :: "nat list \<Rightarrow> nat \<Rightarrow> qstring"

definition ebuLatinToUcs2 :: "nat list" where
  "ebuLatinToUcs2 = [
   0, 280, 302, 370, 258, 278, 270, 536, 538, 266, 10, 11, 288, 313, 379, 323,
   261, 281, 303, 371, 259, 279, 271, 537, 539, 267, 327, 282, 289, 314, 380, 130,
   32, 33, 34, 35, 322, 37, 38, 39, 40, 41, 42, 43, 44, 45, 46, 47,
   48, 49, 50, 51, 52, 53, 54, 55, 56, 57, 58, 59, 60, 61, 62, 63,
   64, 65, 66, 67, 68, 69, 70, 71, 72, 73, 74, 75, 76, 77, 78, 79,
   80, 81, 82, 83, 84, 85, 86, 87, 88, 89, 90, 91, 366, 93, 321, 95,
   260, 97, 98, 99, 100, 101, 102, 103, 104, 105, 106, 107, 108, 109, 110, 111,
   112, 113, 114, 115, 116, 117, 118, 119, 120, 121, 122, 171, 367, 187, 317, 294,
   225, 224, 233, 232, 237, 236, 243, 242, 250, 249, 209, 199, 350, 223, 161, 376,
   226, 228, 234, 235, 238, 239, 244, 246, 251, 252, 241, 231, 351, 287, 305, 255,
   310, 325, 169, 290, 286, 283, 328, 337, 336, 8364, 163, 36, 256, 274, 298, 362,
   311, 326, 315, 291, 316, 304, 324, 369, 368, 191, 318, 176, 257, 275, 299, 363,
   193, 192, 201, 200, 205, 204, 211, 210, 218, 217, 344, 268, 352, 381, 208, 319,
   194, 196, 202, 203, 206, 207, 212, 214, 219, 220, 345, 269, 353, 382, 273, 320,
   195, 197, 198, 338, 375, 221, 213, 216, 222, 330, 340, 262, 346, 377, 356, 240,
   227, 229, 230, 339, 373, 253, 245, 248, 254, 331, 341, 263, 347, 378, 357, 295]"

definition EbuLatin :: int where "EbuLatin = 0"
definition UnicodeUcs2 :: int where "UnicodeUcs2 = 6"
definition UnicodeUtf8 :: int where "UnicodeUtf8 = 15"

definition is_charset_valid :: "int \<Rightarrow> bool" where
  "is_charset_valid iCharset \<longleftrightarrow> iCharset = EbuLatin \<or> iCharset = UnicodeUcs2 \<or> iCharset = UnicodeUtf8"

definition strlen :: "nat list \<Rightarrow> nat" where
  "strlen buf = length (takeWhile (\<lambda>c. c \<noteq> 0) buf)"

text \<open>The size is None where the source passes -1.  The length is kept in 16 bits.\<close>

definition to_QString_using_charset :: "qt_codec \<Rightarrow> nat list \<Rightarrow> int \<Rightarrow> nat option \<Rightarrow> qstring" where
  "to_QString_using_charset qt ipBuffer iCharset s =
     (let n = (case s of None \<Rightarrow> strlen ipBuffer | Some n \<Rightarrow> n) mod 2 ^ 16
      in if iCharset = UnicodeUcs2 then fromUtf16 qt ipBuffer n
         else if iCharset = UnicodeUtf8 then fromUtf8 qt ipBuffer n
         else map (\<lambda>i. ebuLatinToUcs2 ! (ipBuffer ! i)) [0..<n])"

lemma length_ebuLatin [simp]: "length ebuLatinToUcs2 = 256"
  by (simp add: ebuLatinToUcs2_def)

lemma ebuLatin_ucs2: "list_all (\<lambda>c. c < 65536) ebuLatinToUcs2"
  by (simp add: ebuLatinToUcs2_def)

lemma ebuLatin_distinct: "distinct ebuLatinToUcs2"
  by (simp add: ebuLatinToUcs2_def)

lemma ebu_label:
  assumes "length buf < 2 ^ 16" and "0 \<notin> set buf"
  shows "to_QString_using_charset qt (buf @ [0]) EbuLatin None = map ((!) ebuLatinToUcs2) buf"
proof -
  have "takeWhile (\<lambda>c. c \<noteq> 0) (buf @ [0]) = buf"
    using assms(2) by (induction buf) auto
  moreover have "length buf mod 2 ^ 16 = length buf" using assms(1) by (rule mod_less)
  moreover have "map (\<lambda>i. ebuLatinToUcs2 ! ((buf @ [0]) ! i)) [0..<length buf] = map ((!) ebuLatinToUcs2) buf"
    by (rule nth_equalityI) (simp_all add: nth_append)
  ultimately show ?thesis
    unfolding to_QString_using_charset_def strlen_def Let_def option.case EbuLatin_def UnicodeUcs2_def UnicodeUtf8_def
    by (simp only: simp_thms if_False zero_neq_numeral)
qed

end
