(* ===== verification/Fib_Config.thy ===== *)
theory Fib_Config
  imports Charsets
begin

text \<open>
  The collected FIB content, \<^verbatim>\<open>src/src/base/decoder/fib_config_fig0.h\<close>, \<^verbatim>\<open>fib_config_fig1.h\<close> and their
  implementations, with the sub-channel table \<^verbatim>\<open>fib_table.h\<close>.  A vector is a list in insertion order; a
  getter that returns a pointer to the first match returns that element or None.  Signed fields are
  integers, where -1 is the value a field has until it is set; unsigned fields are natural numbers.
  Time points are milliseconds, zero is the epoch of the clock.
\<close>

section \<open>Time stamps\<close>

record SFigBase =
  TimePoint :: nat
  TimePoint2ndCall :: nat

definition set_current_time :: "nat \<Rightarrow> 'a SFigBase_scheme \<Rightarrow> 'a SFigBase_scheme" where
  "set_current_time now e = e\<lparr>TimePoint := now\<rparr>"

definition set_current_time_2nd_call :: "nat \<Rightarrow> 'a SFigBase_scheme \<Rightarrow> 'a SFigBase_scheme" where
  "set_current_time_2nd_call now e = (if TimePoint2ndCall e = 0 then e\<lparr>TimePoint2ndCall := now\<rparr> else e)"

record SStatistic =
  TimePointRef :: nat
  DurationMin :: int
  DurationMax :: int
  Duration2ndCallMin :: int
  Duration2ndCallMax :: int
  Count :: nat

definition get_statistics :: "'a SFigBase_scheme \<Rightarrow> SStatistic \<Rightarrow> SStatistic" where
  "get_statistics e st =
     (let duration1 = int (TimePoint e) - int (TimePointRef st);
          duration2 = int (TimePoint2ndCall e) - int (TimePoint e);
          st = st\<lparr>Count := Count st + 1\<rparr>;
          st = (if duration1 < DurationMin st then st\<lparr>DurationMin := duration1\<rparr> else st);
          st = (if duration1 > DurationMax st then st\<lparr>DurationMax := duration1\<rparr> else st);
          st = (if duration2 < Duration2ndCallMin st then st\<lparr>Duration2ndCallMin := duration2\<rparr> else st)
      in if duration2 > Duration2ndCallMax st then st\<lparr>Duration2ndCallMax := duration2\<rparr> else st)"

section \<open>FIG type 0\<close>

record SFig0s0_EnsembleInformation =
  s0_EId :: nat
  s0_ChangeFlags :: nat
  s0_AlarmFlag :: nat
  s0_CIFCountHi :: nat
  s0_CIFCountLo :: nat
  s0_OccurrenceChange :: nat

text \<open>
  An announcement cluster.  The count of repetitions has 32 bits in the source and is unbounded here: the two differ
  only after \<open>2 ^ 31\<close> repetitions.
\<close>

record Cluster =
  cl_flags :: nat
  cl_inUse :: bool
  cl_announcing :: int
  cl_clusterId :: int
  cl_servicesSIDs :: "nat list"

definition empty_cluster :: Cluster where
  "empty_cluster = \<lparr>cl_flags = 0, cl_inUse = False, cl_announcing = 0, cl_clusterId = - 1, cl_servicesSIDs = []\<rparr>"

record SFig0s1 = SFigBase +
  s1_SubChId :: int
  s1_StartAddr :: int
  s1_TableSwitch :: int
  s1_TableIndex :: int
  s1_Option :: int
  s1_ProtectionLevel :: int
  s1_SubChannelSize :: int
  s1_BitRate :: int
  s1_ShortForm :: bool

definition empty_Fig0s1 :: SFig0s1 where
  "empty_Fig0s1 = \<lparr>TimePoint = 0, TimePoint2ndCall = 0, s1_SubChId = - 1, s1_StartAddr = - 1,
     s1_TableSwitch = - 1, s1_TableIndex = - 1, s1_Option = - 1, s1_ProtectionLevel = - 1,
     s1_SubChannelSize = - 1, s1_BitRate = - 1, s1_ShortForm = False\<rparr>"

text \<open>
  The component definition holds one of three layouts, chosen by the transport mechanism; for the
  reserved mechanism none is written.
\<close>

datatype component_ref = NoRef | TMId00 (ref_SubChId: nat) (ref_ASCTy: nat) | TMId01 nat nat | TMId11 (ref_SCId: nat)

record SFig0s2_ServiceComponentDefinition =
  sc_TMId :: int
  sc_ref :: component_ref
  sc_PS_Flag :: int
  sc_CA_Flag :: int

record SFig0s2 = SFigBase +
  s2_PD_Flag :: int
  s2_SId :: nat
  s2_NumServiceComp :: int
  s2_ServiceComp_C_index :: int
  s2_ServiceComp_C :: SFig0s2_ServiceComponentDefinition

definition cNumServiceCompMax :: nat where
  "cNumServiceCompMax = 12"

definition empty_Fig0s2 :: SFig0s2 where
  "empty_Fig0s2 = \<lparr>TimePoint = 0, TimePoint2ndCall = 0, s2_PD_Flag = - 1, s2_SId = 0,
     s2_NumServiceComp = - 1, s2_ServiceComp_C_index = - 1,
     s2_ServiceComp_C = \<lparr>sc_TMId = - 1, sc_ref = NoRef, sc_PS_Flag = - 1, sc_CA_Flag = - 1\<rparr>\<rparr>"

record SFig0s3 = SFigBase +
  s3_SCId :: int
  s3_CAOrg_Flag :: int
  s3_DG_Flag :: int
  s3_DSCTy :: int
  s3_SubChId :: int
  s3_PacketAddress :: int
  s3_CAOrg :: nat

record SFig0s5 = SFigBase +
  s5_LS_Flag :: int
  s5_Language :: nat
  s5_SubChId :: int
  s5_SCId :: int

record SFig0s7 = SFigBase +
  s7_NumServices :: nat
  s7_Count :: nat

record SFig0s8 = SFigBase +
  s8_PD_Flag :: int
  s8_SId :: nat
  s8_Ext_Flag :: int
  s8_SCIdS :: int
  s8_LS_Flag :: int
  s8_SubChId :: int
  s8_SCId :: int

record SFig0s9 = SFigBase +
  s9_Ext_Flag :: int
  s9_Ensemble_LTO :: int
  s9_Ensemble_ECC :: nat
  s9_InterTableId :: nat
  s9_LTO_minutes :: int

record SFig0s10_DateAndTime =
  s10_MJD :: nat
  s10_LSI :: nat
  s10_UTC_Flag :: nat
  s10_UTC :: u32

record SXPadData =
  xd_CA_Flag :: int
  xd_CA_Org_Flag :: int
  xd_XPadAppTy :: int
  xd_DG_Flag :: int
  xd_DSCTy :: int

record SUserApp =
  ua_UserAppType :: int
  ua_UserAppDataLength :: int
  ua_XPadData :: "SXPadData option"

record SFig0s13 = SFigBase +
  s13_PD_Flag :: int
  s13_SId :: nat
  s13_SCIdS :: int
  s13_NumUserApps :: int
  s13_UserAppVec :: "SUserApp list"
  s13_SizeBits :: nat

record SFig0s14 = SFigBase +
  s14_SubChId :: int
  s14_FEC_scheme :: int

record SFig0s17 = SFigBase +
  s17_SId :: nat
  s17_SD_Flag :: int
  s17_IntCode :: int

text \<open>Protection levels of the short form: size in capacity units, level, bit rate.\<close>

definition cProtLevelTable :: "(int \<times> int \<times> int) list" where
  "cProtLevelTable = [
   (16, 5, 32), (21, 4, 32), (24, 3, 32), (29, 2, 32), (35, 1, 32), (24, 5, 48), (29, 4, 48), (35, 3, 48),
   (42, 2, 48), (52, 1, 48), (29, 5, 56), (35, 4, 56), (42, 3, 56), (52, 2, 56), (32, 5, 64), (42, 4, 64),
   (48, 3, 64), (58, 2, 64), (70, 1, 64), (40, 5, 80), (52, 4, 80), (58, 3, 80), (70, 2, 80), (84, 1, 80),
   (48, 5, 96), (58, 4, 96), (70, 3, 96), (84, 2, 96), (104, 1, 96), (58, 5, 112), (70, 4, 112), (84, 3, 112),
   (104, 2, 112), (64, 5, 128), (84, 4, 128), (96, 3, 128), (116, 2, 128), (140, 1, 128), (80, 5, 160), (104, 4, 160),
   (116, 3, 160), (140, 2, 160), (168, 1, 160), (96, 5, 192), (116, 4, 192), (140, 3, 192), (168, 2, 192), (208, 1, 192),
   (116, 5, 224), (140, 4, 224), (168, 3, 224), (208, 2, 224), (232, 1, 224), (128, 5, 256), (168, 4, 256), (192, 3, 256),
   (232, 2, 256), (280, 1, 256), (160, 5, 320), (208, 4, 320), (280, 2, 320), (192, 5, 384), (280, 3, 384), (416, 1, 384)]"

record FibConfigFig0 =
  Fig0s1Vec :: "SFig0s1 list"
  Fig0s2Vec :: "SFig0s2 list"
  Fig0s3Vec :: "SFig0s3 list"
  Fig0s5Vec :: "SFig0s5 list"
  Fig0s7Vec :: "SFig0s7 list"
  Fig0s8Vec :: "SFig0s8 list"
  Fig0s9Vec :: "SFig0s9 list"
  Fig0s13Vec :: "SFig0s13 list"
  Fig0s14Vec :: "SFig0s14 list"
  Fig0s17Vec :: "SFig0s17 list"
  mClusterTable :: "Cluster list"

definition new_FibConfigFig0 :: FibConfigFig0 where
  "new_FibConfigFig0 = \<lparr>Fig0s1Vec = [], Fig0s2Vec = [], Fig0s3Vec = [], Fig0s5Vec = [], Fig0s7Vec = [],
     Fig0s8Vec = [], Fig0s9Vec = [], Fig0s13Vec = [], Fig0s14Vec = [], Fig0s17Vec = [],
     mClusterTable = replicate 128 empty_cluster\<rparr>"

definition reset0 :: "FibConfigFig0 \<Rightarrow> FibConfigFig0" where
  "reset0 c = c\<lparr>Fig0s1Vec := [], Fig0s2Vec := [], Fig0s3Vec := [], Fig0s5Vec := [], Fig0s7Vec := [],
     Fig0s8Vec := [], Fig0s9Vec := [], Fig0s13Vec := [], Fig0s14Vec := [], Fig0s17Vec := []\<rparr>"

definition get_Fig0s1_of_SubChId :: "FibConfigFig0 \<Rightarrow> int \<Rightarrow> SFig0s1 option" where
  "get_Fig0s1_of_SubChId c iSubChId = find (\<lambda>e. s1_SubChId e = iSubChId) (Fig0s1Vec c)"

definition get_Fig0s2_of_SId :: "FibConfigFig0 \<Rightarrow> nat \<Rightarrow> SFig0s2 option" where
  "get_Fig0s2_of_SId c iSId = find (\<lambda>e. s2_SId e = iSId) (Fig0s2Vec c)"

definition get_Fig0s2_of_SId_ScIdx :: "FibConfigFig0 \<Rightarrow> nat \<Rightarrow> int \<Rightarrow> SFig0s2 option" where
  "get_Fig0s2_of_SId_ScIdx c iSId iScIdx =
     find (\<lambda>e. s2_SId e = iSId \<and> s2_ServiceComp_C_index e = iScIdx) (Fig0s2Vec c)"

definition get_Fig0s2_of_SCId :: "FibConfigFig0 \<Rightarrow> int \<Rightarrow> SFig0s2 option" where
  "get_Fig0s2_of_SCId c SCId =
     find (\<lambda>e. sc_TMId (s2_ServiceComp_C e) = 3 \<and>
       (case sc_ref (s2_ServiceComp_C e) of TMId11 n \<Rightarrow> int n = SCId | _ \<Rightarrow> False)) (Fig0s2Vec c)"

definition get_Fig0s2_of_SId_TMId :: "FibConfigFig0 \<Rightarrow> nat \<Rightarrow> int \<Rightarrow> SFig0s2 option" where
  "get_Fig0s2_of_SId_TMId c iSId iTMId =
     find (\<lambda>e. s2_SId e = iSId \<and> sc_TMId (s2_ServiceComp_C e) = iTMId) (Fig0s2Vec c)"

definition get_Fig0s3_of_SCId :: "FibConfigFig0 \<Rightarrow> int \<Rightarrow> SFig0s3 option" where
  "get_Fig0s3_of_SCId c iSCId = find (\<lambda>e. s3_SCId e = iSCId) (Fig0s3Vec c)"

text \<open>The two language getters take an unsigned byte.\<close>

definition get_Fig0s5_of_SubChId :: "FibConfigFig0 \<Rightarrow> int \<Rightarrow> SFig0s5 option" where
  "get_Fig0s5_of_SubChId c iSubChId =
     find (\<lambda>e. s5_LS_Flag e = 0 \<and> s5_SubChId e = iSubChId mod 256) (Fig0s5Vec c)"

definition get_Fig0s5_of_SCId :: "FibConfigFig0 \<Rightarrow> int \<Rightarrow> SFig0s5 option" where
  "get_Fig0s5_of_SCId c iSCId = find (\<lambda>e. s5_LS_Flag e = 1 \<and> s5_SCId e = iSCId mod 256) (Fig0s5Vec c)"

definition first_of :: "'a list \<Rightarrow> 'a option" where
  "first_of xs = (if xs \<noteq> [] then Some (xs ! 0) else None)"

definition get_Fig0s7 :: "FibConfigFig0 \<Rightarrow> SFig0s7 option" where
  "get_Fig0s7 c = first_of (Fig0s7Vec c)"

definition get_Fig0s8_of_SId_SCIdS :: "FibConfigFig0 \<Rightarrow> nat \<Rightarrow> int \<Rightarrow> SFig0s8 option" where
  "get_Fig0s8_of_SId_SCIdS c iSId iSCIdS = find (\<lambda>e. s8_SId e = iSId \<and> s8_SCIdS e = iSCIdS) (Fig0s8Vec c)"

definition get_Fig0s8_of_SId_with_SubChId :: "FibConfigFig0 \<Rightarrow> nat \<Rightarrow> SFig0s8 option" where
  "get_Fig0s8_of_SId_with_SubChId c iSId = find (\<lambda>e. s8_LS_Flag e = 0 \<and> s8_SId e = iSId) (Fig0s8Vec c)"

definition get_Fig0s8_of_SId_with_SCId :: "FibConfigFig0 \<Rightarrow> nat \<Rightarrow> SFig0s8 option" where
  "get_Fig0s8_of_SId_with_SCId c iSId = find (\<lambda>e. s8_LS_Flag e = 1 \<and> s8_SId e = iSId) (Fig0s8Vec c)"

definition get_Fig0s9 :: "FibConfigFig0 \<Rightarrow> SFig0s9 option" where
  "get_Fig0s9 c = first_of (Fig0s9Vec c)"

definition get_Fig0s13_of_SId_SCIdS :: "FibConfigFig0 \<Rightarrow> nat \<Rightarrow> int \<Rightarrow> SFig0s13 option" where
  "get_Fig0s13_of_SId_SCIdS c iSId iSCIdS = find (\<lambda>e. s13_SId e = iSId \<and> s13_SCIdS e = iSCIdS) (Fig0s13Vec c)"

definition get_Fig0s14_of_SubChId :: "FibConfigFig0 \<Rightarrow> int \<Rightarrow> SFig0s14 option" where
  "get_Fig0s14_of_SubChId c iSubChId = find (\<lambda>e. s14_SubChId e = iSubChId) (Fig0s14Vec c)"

definition get_Fig0s17_of_SId :: "FibConfigFig0 \<Rightarrow> nat \<Rightarrow> SFig0s17 option" where
  "get_Fig0s17_of_SId c iSId = find (\<lambda>e. s17_SId e = iSId mod 2 ^ 16) (Fig0s17Vec c)"

section \<open>FIG type 1\<close>

record SFig1_DataField = SFigBase +
  df_Charset :: int
  df_Name :: qstring
  df_NameShort :: qstring
  df_CharFlagField :: nat

record SFig1s0 = SFig1_DataField +
  g0_EId :: nat

record SFig1s1 = SFig1_DataField +
  g1_SId :: nat

record SFig1s4 = SFig1_DataField +
  g4_PD_Flag :: int
  g4_SCIdS :: int
  g4_SId :: nat

record SFig1s5 = SFig1_DataField +
  g5_SId :: nat

text \<open>The map from service labels is ordered by its key; it is a list of pairs here.\<close>

record FibConfigFig1 =
  Fig1s0Vec :: "SFig1s0 list"
  Fig1s1Vec :: "SFig1s1 list"
  Fig1s4Vec :: "SFig1s4 list"
  Fig1s5Vec :: "SFig1s5 list"
  serviceLabel_To_SId_SCIdS_Map :: "(qstring \<times> nat \<times> int) list"

definition reset1 :: FibConfigFig1 where
  "reset1 = \<lparr>Fig1s0Vec = [], Fig1s1Vec = [], Fig1s4Vec = [], Fig1s5Vec = [], serviceLabel_To_SId_SCIdS_Map = []\<rparr>"

text \<open>Insert at the place of the key unless the key is already there.\<close>

fun qstring_less :: "qstring \<Rightarrow> qstring \<Rightarrow> bool" where
  "qstring_less xs [] = False"
| "qstring_less [] (y # ys) = True"
| "qstring_less (x # xs) (y # ys) = (x < y \<or> x = y \<and> qstring_less xs ys)"

fun try_emplace :: "qstring \<Rightarrow> 'v \<Rightarrow> (qstring \<times> 'v) list \<Rightarrow> (qstring \<times> 'v) list" where
  "try_emplace k v [] = [(k, v)]"
| "try_emplace k v ((k', v') # m) =
     (if k = k' then (k', v') # m
      else if qstring_less k k' then (k, v) # (k', v') # m
      else (k', v') # try_emplace k v m)"

definition get_Fig1s1_of_SId :: "FibConfigFig1 \<Rightarrow> nat \<Rightarrow> SFig1s1 option" where
  "get_Fig1s1_of_SId c SId = find (\<lambda>e. g1_SId e = SId) (Fig1s1Vec c)"

definition get_Fig1s4_of_SId_SCIdS :: "FibConfigFig1 \<Rightarrow> nat \<Rightarrow> int \<Rightarrow> SFig1s4 option" where
  "get_Fig1s4_of_SId_SCIdS c SId SCIdS = find (\<lambda>e. g4_SId e = SId \<and> g4_SCIdS e = SCIdS) (Fig1s4Vec c)"

definition get_Fig1s5_of_SId :: "FibConfigFig1 \<Rightarrow> nat \<Rightarrow> SFig1s5 option" where
  "get_Fig1s5_of_SId c SId = find (\<lambda>e. g5_SId e = SId) (Fig1s5Vec c)"

definition get_service_label_of_SId_from_all_Fig1 :: "FibConfigFig1 \<Rightarrow> nat \<Rightarrow> qstring" where
  "get_service_label_of_SId_from_all_Fig1 c iSId =
     (case get_Fig1s1_of_SId c iSId of
        Some e \<Rightarrow> df_Name e
      | None \<Rightarrow> (case get_Fig1s5_of_SId c iSId of Some e \<Rightarrow> df_Name e | None \<Rightarrow> []))"

definition get_SId_SCIdS_of_label :: "FibConfigFig1 \<Rightarrow> qstring \<Rightarrow> (nat \<times> int) option" where
  "get_SId_SCIdS_of_label c s = map_of (serviceLabel_To_SId_SCIdS_Map c) s"

end
