(* ===== verification/Bit_Extractors.thy ===== *)
theory Bit_Extractors
  imports Prelude
begin

text \<open>
  The bit readers of \<^verbatim>\<open>src/src/base/main/bit_extractors.h\<close>.  The readers \<open>getBits_1\<close> to \<open>getBits_8\<close>,
  \<open>getBits\<close> and \<open>getLBits\<close> take an array with one bit per byte, \<open>extract_bits_from_byte_stream\<close> one
  with eight bits per byte, most significant first.  The theory relates all of them to one reference,
  the number \<open>bits_val d p n\<close> written in the bits \<open>p, \<dots>, p + n - 1\<close>; locale \<open>bit_reader\<close> holds what
  the table decoders use of a reader.
\<close>

section \<open>The code\<close>

definition getBits_1 :: "bit_ptr \<Rightarrow> nat \<Rightarrow> u8" where
  "getBits_1 d offset = d offset"

definition getBits_2 :: "bit_ptr \<Rightarrow> nat \<Rightarrow> u8" where
  "getBits_2 d offset =
     (let res = d offset;
          res = push_bit 1 res; res = res OR d (offset + 1)
      in res)"

definition getBits_3 :: "bit_ptr \<Rightarrow> nat \<Rightarrow> u8" where
  "getBits_3 d offset =
     (let res = d offset;
          res = push_bit 1 res; res = res OR d (offset + 1);
          res = push_bit 1 res; res = res OR d (offset + 2)
      in res)"

definition getBits_4 :: "bit_ptr \<Rightarrow> nat \<Rightarrow> u8" where
  "getBits_4 d offset =
     (let res = d offset;
          res = push_bit 1 res; res = res OR d (offset + 1);
          res = push_bit 1 res; res = res OR d (offset + 2);
          res = push_bit 1 res; res = res OR d (offset + 3)
      in res)"

definition getBits_5 :: "bit_ptr \<Rightarrow> nat \<Rightarrow> u8" where
  "getBits_5 d offset =
     (let res = d offset;
          res = push_bit 1 res; res = res OR d (offset + 1);
          res = push_bit 1 res; res = res OR d (offset + 2);
          res = push_bit 1 res; res = res OR d (offset + 3);
          res = push_bit 1 res; res = res OR d (offset + 4)
      in res)"

definition getBits_6 :: "bit_ptr \<Rightarrow> nat \<Rightarrow> u8" where
  "getBits_6 d offset =
     (let res = d offset;
          res = push_bit 1 res; res = res OR d (offset + 1);
          res = push_bit 1 res; res = res OR d (offset + 2);
          res = push_bit 1 res; res = res OR d (offset + 3);
          res = push_bit 1 res; res = res OR d (offset + 4);
          res = push_bit 1 res; res = res OR d (offset + 5)
      in res)"

definition getBits_7 :: "bit_ptr \<Rightarrow> nat \<Rightarrow> u8" where
  "getBits_7 d offset =
     (let res = d offset;
          res = push_bit 1 res; res = res OR d (offset + 1);
          res = push_bit 1 res; res = res OR d (offset + 2);
          res = push_bit 1 res; res = res OR d (offset + 3);
          res = push_bit 1 res; res = res OR d (offset + 4);
          res = push_bit 1 res; res = res OR d (offset + 5);
          res = push_bit 1 res; res = res OR d (offset + 6)
      in res)"

definition getBits_8 :: "bit_ptr \<Rightarrow> nat \<Rightarrow> u8" where
  "getBits_8 d offset =
     (let res = d offset;
          res = push_bit 1 res; res = res OR d (offset + 1);
          res = push_bit 1 res; res = res OR d (offset + 2);
          res = push_bit 1 res; res = res OR d (offset + 3);
          res = push_bit 1 res; res = res OR d (offset + 4);
          res = push_bit 1 res; res = res OR d (offset + 5);
          res = push_bit 1 res; res = res OR d (offset + 6);
          res = push_bit 1 res; res = res OR d (offset + 7)
      in res)"

definition getBits :: "bit_ptr \<Rightarrow> nat \<Rightarrow> nat \<Rightarrow> u16" where
  "getBits d offset nbits =
     foldl (\<lambda>res i. push_bit 1 res OR ucast (d (offset + i))) 0 [0..<nbits]"

definition getLBits :: "bit_ptr \<Rightarrow> nat \<Rightarrow> nat \<Rightarrow> u32" where
  "getLBits d offset amount =
     foldl (\<lambda>res i. push_bit 1 res OR ucast (d (offset + i))) 0 [0..<amount]"

text \<open>\<open>w\<close> is the value expected so far, of the unsigned type the caller stores it in.\<close>

definition check_get_bits :: "'a::len word \<Rightarrow> bit_ptr \<Rightarrow> nat \<Rightarrow> nat \<Rightarrow> bool \<times> 'a word" where
  "check_get_bits ioNewExpected ipData iOffset iNumBits =
     (let actual = getLBits ipData iOffset iNumBits in
      if actual \<noteq> ucast ioNewExpected then (True, ucast actual) else (False, ioNewExpected))"

definition extract_bits_from_byte_stream :: "(nat \<Rightarrow> u8) \<Rightarrow> nat \<Rightarrow> nat \<Rightarrow> u32" where
  "extract_bits_from_byte_stream ipData iBitOffset iNumBits =
     (let firstByte = iBitOffset div 8;
          lastByte = (iBitOffset + iNumBits - 1) div 8;
          accum = foldl (\<lambda>accum i. push_bit 8 accum OR ucast (ipData i)) (0 :: u64)
                    [firstByte..<Suc lastByte];
          shift = (lastByte + 1) * 8 - (iBitOffset + iNumBits)
      in ucast (drop_bit shift accum AND (push_bit iNumBits 1 - 1)))"

section \<open>The reference\<close>

fun bits_val :: "bit_ptr \<Rightarrow> nat \<Rightarrow> nat \<Rightarrow> nat" where
  "bits_val d p 0 = 0"
| "bits_val d p (Suc n) = 2 * bits_val d p n + unat (d (p + n))"

definition is_bits :: "bit_ptr \<Rightarrow> nat \<Rightarrow> nat \<Rightarrow> bool" where
  "is_bits d p n \<longleftrightarrow> (\<forall>i<n. d (p + i) \<le> 1)"

definition bits_of_bytes :: "(nat \<Rightarrow> u8) \<Rightarrow> bit_ptr" where
  "bits_of_bytes p i = drop_bit (7 - i mod 8) (p (i div 8)) AND 1"

section \<open>Facts on the reference\<close>

lemma is_bits_Suc: "is_bits d p (Suc n) \<longleftrightarrow> is_bits d p n \<and> d (p + n) \<le> 1"
  by (auto simp: is_bits_def less_Suc_eq)

lemma is_bits_mono: "is_bits d p n \<Longrightarrow> p \<le> q \<Longrightarrow> q + m \<le> p + n \<Longrightarrow> is_bits d q m"
proof (unfold is_bits_def, intro allI impI)
  fix i assume "\<forall>i<n. d (p + i) \<le> 1" and "p \<le> q" and "q + m \<le> p + n" and "i < m"
  then show "d (q + i) \<le> 1" by (elim allE [of _ "q + i - p"]) simp
qed

lemma bit_le_1: "(b :: u8) \<le> 1 \<longleftrightarrow> unat b \<le> 1"
  by (simp add: word_le_nat_alt)

lemma bit_cases: "(b :: u8) \<le> 1 \<longleftrightarrow> b = 0 \<or> b = 1"
proof -
  have "unat b \<le> 1 \<longleftrightarrow> unat b = 0 \<or> unat b = 1" by linarith
  then show ?thesis by (simp only: bit_le_1 word_unat_eq_iff unsigned_0 unsigned_1)
qed

lemma bits_val_less: "is_bits d p n \<Longrightarrow> bits_val d p n < 2 ^ n"
  by (induction n) (auto simp: is_bits_Suc bit_le_1)

lemma bits_val_add: "bits_val d p (m + n) = bits_val d p m * 2 ^ n + bits_val d (p + m) n"
  by (induction n) (simp_all add: add.assoc)

lemma bits_val_cong: "(\<And>i. i < n \<Longrightarrow> d (p + i) = e (q + i)) \<Longrightarrow> bits_val d p n = bits_val e q n"
  by (induction n) simp_all

lemma bits_val_eqD:
  assumes "is_bits d p n" and "is_bits e q n" and "bits_val d p n = bits_val e q n" and "i < n"
  shows "d (p + i) = e (q + i)"
  using assms
proof (induction n)
  case (Suc n)
  from Suc.prems have bits: "unat (d (p + n)) \<le> 1" "unat (e (q + n)) \<le> 1"
    and rest: "is_bits d p n" "is_bits e q n" by (simp_all add: is_bits_Suc bit_le_1)
  from Suc.prems(3) have eq: "2 * bits_val d p n + unat (d (p + n)) = 2 * bits_val e q n + unat (e (q + n))"
    by simp
  from eq bits have hi: "bits_val d p n = bits_val e q n" by presburger
  with eq have "unat (d (p + n)) = unat (e (q + n))" by simp
  with Suc.IH [OF rest hi] Suc.prems(4) show ?case by (auto simp: less_Suc_eq unat_arith_simps)
qed simp

text \<open>One iteration of a reader: shift left, insert the next bits.\<close>

lemma shift_in:
  fixes r :: "'a::len word" and b :: "'b::len word"
  assumes "unat b < 2 ^ k" and "unat r * 2 ^ k + unat b < 2 ^ LENGTH('a)"
  shows "unat (push_bit k r OR ucast b) = unat r * 2 ^ k + unat b"
proof -
  have hi: "unat (push_bit k r) = push_bit k (unat r)"
    using assms(2) by (simp only: unsigned_push_bit_eq) (simp add: take_bit_nat_eq_self push_bit_eq_mult)
  have lo: "unat (ucast b :: 'a word) = take_bit k (unat b)"
    using assms by (simp add: unsigned_ucast_eq take_bit_nat_eq_self)
  have "push_bit k (unat r) AND take_bit k (unat b) = 0"
    by (auto simp: bit_eq_iff bit_simps)
  then have "push_bit k (unat r) OR take_bit k (unat b) = push_bit k (unat r) + take_bit k (unat b)"
    by (rule disjunctive_add_eq_or [symmetric])
  with assms(1) show ?thesis
    by (simp only: unsigned_or_eq hi lo) (simp add: push_bit_eq_mult take_bit_nat_eq_self)
qed

lemma shift_in_foldl:
  fixes d :: bit_ptr
  assumes "n \<le> LENGTH('a::len)" and "is_bits d p n"
  shows "unat (foldl (\<lambda>res i. push_bit 1 res OR ucast (d (p + i))) (0 :: 'a word) [0..<n]) = bits_val d p n"
  using assms
proof (induction n)
  case (Suc n)
  let ?r = "foldl (\<lambda>res i. push_bit 1 res OR ucast (d (p + i))) (0 :: 'a word) [0..<n]"
  from Suc have r: "unat ?r = bits_val d p n" and b: "is_bits d p n" "d (p + n) \<le> 1"
    by (simp_all add: is_bits_Suc)
  have "unat ?r * 2 ^ 1 + unat (d (p + n)) < 2 ^ Suc n"
    using bits_val_less [OF b(1)] b(2) by (simp only: r bit_le_1) simp
  also have "\<dots> \<le> 2 ^ LENGTH('a)" using Suc.prems(1) by (intro power_increasing) simp_all
  finally have "unat (push_bit 1 ?r OR ucast (d (p + n))) = unat ?r * 2 ^ 1 + unat (d (p + n))"
    by (rule shift_in [rotated]) (use b(2) in \<open>simp add: bit_le_1\<close>)
  then have "unat (push_bit 1 ?r OR ucast (d (p + n))) = bits_val d p (Suc n)"
    by (simp only: r bits_val.simps power_one_right mult.commute)
  then show ?case by (simp only: upt_Suc_append le0 foldl_append foldl.simps)
qed simp

section \<open>The reader interface\<close>

text \<open>
  What a table decoder relies on: a reader of up to \<open>maxb\<close> bits returns the number written in them.
\<close>

locale bit_reader =
  fixes rd :: "bit_ptr \<Rightarrow> nat \<Rightarrow> nat \<Rightarrow> 'a::len word" and maxb :: nat
  assumes rd_val: "n \<le> maxb \<Longrightarrow> is_bits d p n \<Longrightarrow> unat (rd d p n) = bits_val d p n"
begin

lemma rd_bound: "n \<le> maxb \<Longrightarrow> is_bits d p n \<Longrightarrow> unat (rd d p n) < 2 ^ n"
  by (simp add: rd_val bits_val_less)

lemma rd_split:
  assumes "m + n \<le> maxb" and "is_bits d p (m + n)"
  shows "unat (rd d p (m + n)) = unat (rd d p m) * 2 ^ n + unat (rd d (p + m) n)"
proof -
  have "is_bits d p m" and "is_bits d (p + m) n"
    using assms(2) by (auto intro: is_bits_mono)
  with assms show ?thesis by (simp add: rd_val bits_val_add)
qed

lemma rd_inject:
  assumes "n \<le> maxb" and "is_bits d p n" and "is_bits e q n"
  shows "rd d p n = rd e q n \<longleftrightarrow> (\<forall>i<n. d (p + i) = e (q + i))"
proof
  assume "rd d p n = rd e q n"
  then have "bits_val d p n = bits_val e q n" using assms by (simp flip: rd_val)
  with assms(2,3) show "\<forall>i<n. d (p + i) = e (q + i)" by (blast intro: bits_val_eqD)
next
  assume "\<forall>i<n. d (p + i) = e (q + i)"
  then have "bits_val d p n = bits_val e q n" by (intro bits_val_cong) blast
  then show "rd d p n = rd e q n" using assms by (simp add: rd_val word_unat_eq_iff)
qed

end

interpretation short_reader: bit_reader getBits 16
  by unfold_locales (unfold getBits_def, rule shift_in_foldl, simp_all)

interpretation long_reader: bit_reader getLBits 32
  by unfold_locales (unfold getLBits_def, rule shift_in_foldl, simp_all)

definition getBits_byte :: "bit_ptr \<Rightarrow> nat \<Rightarrow> nat \<Rightarrow> u8" where
  "getBits_byte d p n = foldl (\<lambda>res i. push_bit 1 res OR ucast (d (p + i))) 0 [0..<n]"

interpretation byte_reader: bit_reader getBits_byte 8
  by unfold_locales (unfold getBits_byte_def, rule shift_in_foldl, simp_all)

lemma getBits_byte_Suc: "getBits_byte d p (Suc n) = push_bit 1 (getBits_byte d p n) OR d (p + n)"
  by (simp add: getBits_byte_def)

lemma getBits_byte_1: "getBits_byte d p 1 = d p"
  by (simp add: getBits_byte_def)

lemma unrolled_readers:
  "getBits_1 d p = getBits_byte d p 1" "getBits_2 d p = getBits_byte d p 2"
  "getBits_3 d p = getBits_byte d p 3" "getBits_4 d p = getBits_byte d p 4"
  "getBits_5 d p = getBits_byte d p 5" "getBits_6 d p = getBits_byte d p 6"
  "getBits_7 d p = getBits_byte d p 7" "getBits_8 d p = getBits_byte d p 8"
proof -
  have n: "(2::nat) = Suc 1" "(3::nat) = Suc 2" "(4::nat) = Suc 3" "(5::nat) = Suc 4"
    "(6::nat) = Suc 5" "(7::nat) = Suc 6" "(8::nat) = Suc 7" by simp_all
  show 1: "getBits_1 d p = getBits_byte d p 1" by (simp only: getBits_1_def getBits_byte_1)
  show 2: "getBits_2 d p = getBits_byte d p 2"
    by (simp only: getBits_2_def Let_def n(1) getBits_byte_Suc 1 [symmetric] getBits_1_def)
  show 3: "getBits_3 d p = getBits_byte d p 3"
    by (simp only: getBits_3_def Let_def n(2) getBits_byte_Suc 2 [symmetric] getBits_2_def)
  show 4: "getBits_4 d p = getBits_byte d p 4"
    by (simp only: getBits_4_def Let_def n(3) getBits_byte_Suc 3 [symmetric] getBits_3_def)
  show 5: "getBits_5 d p = getBits_byte d p 5"
    by (simp only: getBits_5_def Let_def n(4) getBits_byte_Suc 4 [symmetric] getBits_4_def)
  show 6: "getBits_6 d p = getBits_byte d p 6"
    by (simp only: getBits_6_def Let_def n(5) getBits_byte_Suc 5 [symmetric] getBits_5_def)
  show 7: "getBits_7 d p = getBits_byte d p 7"
    by (simp only: getBits_7_def Let_def n(6) getBits_byte_Suc 6 [symmetric] getBits_6_def)
  show "getBits_8 d p = getBits_byte d p 8"
    by (simp only: getBits_8_def Let_def n(7) getBits_byte_Suc 7 [symmetric] getBits_7_def)
qed

section \<open>Byte streams\<close>

lemma unat_bits_of_bytes: "unat (bits_of_bytes p i) = unat (p (i div 8)) div 2 ^ (7 - i mod 8) mod 2"
  by (simp only: bits_of_bytes_def unsigned_and_eq unat_drop_bit) (simp add: and_one_eq)

lemma is_bits_of_bytes [simp]: "is_bits (bits_of_bytes p) q n"
proof -
  have "x mod 2 \<le> 1" for x :: nat by presburger
  then show ?thesis by (simp only: is_bits_def bit_le_1 unat_bits_of_bytes) blast
qed

text \<open>A byte is the number written in its eight bits.\<close>

lemma bits_val_byte: "bits_val (bits_of_bytes p) (8 * i) 8 = unat (p i)"
proof -
  have "bits_val (bits_of_bytes p) (8 * i) k = unat (p i) div 2 ^ (8 - k)" if "k \<le> 8" for k
    using that
  proof (induction k)
    case 0
    have "unat (p i) < 2 ^ 8" using unsigned_less [of "p i"] by simp
    then show ?case by simp
  next
    case (Suc k)
    let ?x = "unat (p i) div 2 ^ (7 - k)"
    have idx: "(8 * i + k) mod 8 = k" "(8 * i + k) div 8 = i" using Suc.prems by simp_all
    have "unat (bits_of_bytes p (8 * i + k)) = ?x mod 2"
      by (simp only: unat_bits_of_bytes idx)
    moreover have "bits_val (bits_of_bytes p) (8 * i) k = ?x div 2"
    proof -
      have "8 - k = Suc (7 - k)" using Suc.prems by simp
      with Suc show ?thesis by (simp add: div_mult2_eq mult.commute [of _ "2 ^ (7 - k)"])
    qed
    ultimately show ?case by simp
  qed
  from this [of 8] show ?thesis by simp
qed

lemma bits_val_bytes:
  assumes "n \<le> 8"
  shows "unat (foldl (\<lambda>accum i. push_bit 8 accum OR ucast (p i)) (0 :: u64) [m..<m + n]) =
    bits_val (bits_of_bytes p) (8 * m) (8 * n)"
  using assms
proof (induction n)
  case (Suc n)
  let ?a = "foldl (\<lambda>accum i. push_bit 8 accum OR ucast (p i)) (0 :: u64) [m..<m + n]"
  have a: "unat ?a = bits_val (bits_of_bytes p) (8 * m) (8 * n)" using Suc by simp
  have v: "bits_val (bits_of_bytes p) (8 * m) (8 * Suc n) =
      unat ?a * 2 ^ 8 + unat (p (m + n))"
    using bits_val_add [of "bits_of_bytes p" "8 * m" "8 * n" 8] bits_val_byte [of p "m + n"]
    by (simp add: a algebra_simps)
  also have "\<dots> < 2 ^ (8 * Suc n)" unfolding v [symmetric] by (rule bits_val_less) simp
  also have "(2::nat) ^ (8 * Suc n) \<le> 2 ^ LENGTH(64)" using Suc.prems by (intro power_increasing) simp_all
  finally have "unat ?a * 2 ^ 8 + unat (p (m + n)) < 2 ^ LENGTH(64)" unfolding v .
  then have "unat (push_bit 8 ?a OR ucast (p (m + n))) = unat ?a * 2 ^ 8 + unat (p (m + n))"
    using unsigned_less [of "p (m + n)"] by (intro shift_in) simp_all
  moreover have "[m..<m + Suc n] = [m..<m + n] @ [m + n]" by simp
  ultimately show ?case by (simp only: v foldl_append foldl.simps)
qed simp

section \<open>Properties\<close>

text \<open>
  C31: On an array of bits every reader returns the number written in the bits it was asked for: the
  eight unrolled readers, the generic reader up to 16 bits and the long reader up to 32 bits agree
  with one positional reference, so that they are interchangeable where their ranges overlap.
\<close>

theorem readers_positional:
  assumes "is_bits d p 32"
  shows "unat (getBits_1 d p) = bits_val d p 1 \<and> unat (getBits_2 d p) = bits_val d p 2 \<and>
    unat (getBits_3 d p) = bits_val d p 3 \<and> unat (getBits_4 d p) = bits_val d p 4 \<and>
    unat (getBits_5 d p) = bits_val d p 5 \<and> unat (getBits_6 d p) = bits_val d p 6 \<and>
    unat (getBits_7 d p) = bits_val d p 7 \<and> unat (getBits_8 d p) = bits_val d p 8 \<and>
    (\<forall>n\<le>16. unat (getBits d p n) = bits_val d p n) \<and>
    (\<forall>n\<le>32. unat (getLBits d p n) = bits_val d p n)"
proof -
  have b: "is_bits d p n" if "n \<le> 32" for n
    using assms by (rule is_bits_mono) (use that in simp_all)
  then show ?thesis
    by (simp add: unrolled_readers byte_reader.rd_val short_reader.rd_val long_reader.rd_val
        del: bits_val.simps)
qed

theorem readers_positional_witness:
  "unat (getBits_3 (\<lambda>i. if i = 2 \<or> i = 4 then 1 else 0) 2) = 5 \<and>
   unat (getBits (\<lambda>i. if i = 2 \<or> i = 4 then 1 else 0) 2 4) = 10"
proof -
  have "is_bits (\<lambda>i. if i = 2 \<or> i = 4 then 1 else 0) 2 32" by (simp add: is_bits_def)
  from readers_positional [OF this] show ?thesis by (simp add: numeral_eq_Suc)
qed

text \<open>
  C32: Reading 1 to 32 bits at any bit offset of a packed byte stream gives what the bit-array reader
  gives on the unpacked stream: at most five bytes are accumulated in 64 bits, and the final shift
  and mask isolate exactly the bits asked for.
\<close>

theorem extract_bits_unpacked:
  assumes "1 \<le> n" and "n \<le> 32"
  shows "extract_bits_from_byte_stream p off n = getLBits (bits_of_bytes p) off n"
proof -
  define d where "d = bits_of_bytes p"
  define f where "f = off div 8"
  define l where "l = (off + n - 1) div 8"
  define sh where "sh = (l + 1) * 8 - (off + n)"
  define len where "len = Suc l - f"
  have fl: "f \<le> l" unfolding f_def l_def using assms(1) by (intro div_le_mono) simp
  have l8: "off + n \<le> 8 * (l + 1)" and l8': "8 * l < off + n" unfolding l_def using assms(1) by presburger+
  have f8: "8 * f \<le> off" and f8': "off < 8 * f + 8" unfolding f_def by presburger+
  have len: "len \<le> 8" "Suc l = f + len" using fl l8' f8' assms(2) unfolding len_def by linarith+
  have split: "8 * len = (off - 8 * f) + n + sh"
    using l8 f8 fl unfolding sh_def len_def by simp
  define acc where "acc = foldl (\<lambda>accum i. push_bit 8 accum OR ucast (p i)) (0 :: u64) [f..<Suc l]"
  have "unat acc = bits_val d (8 * f) ((off - 8 * f) + n + sh)"
    unfolding acc_def len(2) bits_val_bytes [OF len(1)] d_def split ..
  also have "\<dots> = (bits_val d (8 * f) (off - 8 * f) * 2 ^ n + bits_val d off n) * 2 ^ sh +
      bits_val d (off + n) sh"
    using f8 bits_val_add [of d "8 * f" "off - 8 * f + n" sh] bits_val_add [of d "8 * f" "off - 8 * f" n]
    by simp
  finally have "unat acc div 2 ^ sh = bits_val d (8 * f) (off - 8 * f) * 2 ^ n + bits_val d off n"
    using bits_val_less [of d "off + n" sh] by (simp add: d_def)
  then have "unat (drop_bit sh acc AND mask n) = bits_val d off n"
    using bits_val_less [of d off n]
    by (simp only: unat_and_mask unat_drop_bit) (simp add: d_def)
  moreover have "bits_val d off n < 2 ^ LENGTH(32)"
    using bits_val_less [of d off n] power_increasing [OF assms(2), of "2 :: nat"] by (simp add: d_def)
  ultimately have "unat (ucast (drop_bit sh acc AND mask n) :: u32) = bits_val d off n"
    by (simp only: unsigned_ucast_eq take_bit_nat_eq_self)
  moreover have "push_bit n (1 :: u64) - 1 = mask n" by (simp add: mask_eq_exp_minus_1 push_bit_eq_mult)
  then have "extract_bits_from_byte_stream p off n = ucast (drop_bit sh acc AND mask n)"
    by (simp only: extract_bits_from_byte_stream_def Let_def acc_def sh_def f_def l_def)
  moreover have "unat (getLBits d off n) = bits_val d off n"
    using assms(2) by (intro long_reader.rd_val) (simp_all add: d_def)
  ultimately show ?thesis by (simp add: word_unat_eq_iff d_def)
qed

theorem extract_bits_unpacked_witness:
  "extract_bits_from_byte_stream (\<lambda>i. of_nat (17 * i)) 13 21 =
   getLBits (bits_of_bytes (\<lambda>i. of_nat (17 * i))) 13 21"
  by (rule extract_bits_unpacked) simp_all

end
