(* ===== verification/Fib_State.thy ===== *)
theory Fib_State
  imports Fib_Config Bit_Extractors
begin

text \<open>
  The state of the FIB decoder (\<^verbatim>\<open>src/src/base/decoder/fib_decoder.h\<close>), its loading states, the signals
  it emits (as the list of emissions so far) and the operations that are not tied to one FIG: reset and
  restart, timers, fast audio selection, clusters, FIG headers.  A timer is the flag that it is running.
  The clock is read once per FIB; its value is the argument \<open>now\<close>.
\<close>

section \<open>Loading states\<close>

datatype EFibLoadingState =
  S0_Init | S1_FastAudioDataLoaded | S2_PrimaryBaseDataLoaded | S3_FullyAudioDataLoaded |
  S4_FullyPacketDataLoaded | S5_DeferredDataLoaded

fun state_rank :: "EFibLoadingState \<Rightarrow> nat" where
  "state_rank S0_Init = 0"
| "state_rank S1_FastAudioDataLoaded = 1"
| "state_rank S2_PrimaryBaseDataLoaded = 2"
| "state_rank S3_FullyAudioDataLoaded = 3"
| "state_rank S4_FullyPacketDataLoaded = 4"
| "state_rank S5_DeferredDataLoaded = 5"

lemma state_rank_inject: "state_rank a = state_rank b \<longleftrightarrow> a = b"
  by (cases a; cases b) simp_all

instantiation EFibLoadingState :: linorder
begin

definition less_eq_EFibLoadingState :: "EFibLoadingState \<Rightarrow> EFibLoadingState \<Rightarrow> bool" where
  "a \<le> b \<longleftrightarrow> state_rank a \<le> state_rank b"

definition less_EFibLoadingState :: "EFibLoadingState \<Rightarrow> EFibLoadingState \<Rightarrow> bool" where
  "a < b \<longleftrightarrow> state_rank a < state_rank b"

instance
  by standard (auto simp: less_eq_EFibLoadingState_def less_EFibLoadingState_def state_rank_inject)

end

lemmas state_order = less_eq_EFibLoadingState_def less_EFibLoadingState_def

record SUtcTimeSet =
  ut_ModJulianDate :: int
  ut_Hour :: int
  ut_Minute :: int
  ut_Second :: int
  ut_LTO_Minutes :: int

datatype fib_signal =
    signal_name_of_ensemble nat qstring qstring
  | signal_change_in_configuration
  | signal_start_announcement qstring nat
  | signal_stop_announcement qstring nat
  | signal_ews_available
  | signal_fib_time_info SUtcTimeSet
  | signal_fib_loaded_state EFibLoadingState

text \<open>What FIG 0/15 prints, field by field.\<close>

record ews_location =
  el_nff :: nat
  el_zone :: nat
  el_codes :: "(nat \<times> nat) list"

datatype ews_field =
    EwsPhase string nat
  | EwsTriggerSec nat
  | EwsOtherEnsemble nat
  | EwsStatus nat string nat
  | EwsEntireCoverage
  | EwsLocation ews_location
  | EwsInvalidLocation
  | EwsInvalidLength nat

record fib_decoder =
  fd_Fig1 :: FibConfigFig1
  fd_Curr :: FibConfigFig0
  fd_Next :: FibConfigFig0
  fd_CifCount :: int
  fd_CifCount_hi :: int
  fd_CifCount_lo :: int
  fd_ModJulianDate :: int
  fd_SIdForFastAudioSelection :: nat
  fd_PrevChangeFlag :: nat
  fd_TimerDataConsistencyCheck :: bool
  fd_TimerCheckStateAndPrintFigs :: bool
  fd_FibLoadingState :: EFibLoadingState
  fd_UtcTimeSet :: SUtcTimeSet
  fd_UnhandledFig0Set :: "nat set"
  fd_UnhandledFig1Set :: "nat set"
  fd_EwsPrintedSet :: "ews_field list set"
  fd_EwsAvailable :: bool
  fd_DiffTimeMax :: int
  fd_LastTimePoint :: nat
  fd_FirstFigTimePoint :: nat
  fd_RestartFibDecoding :: bool
  fd_signals :: "fib_signal list"

definition utc_zero :: SUtcTimeSet where
  "utc_zero = \<lparr>ut_ModJulianDate = 0, ut_Hour = 0, ut_Minute = 0, ut_Second = 0, ut_LTO_Minutes = 0\<rparr>"

definition FibDecoder :: fib_decoder where
  "FibDecoder = \<lparr>fd_Fig1 = reset1, fd_Curr = new_FibConfigFig0, fd_Next = new_FibConfigFig0,
     fd_CifCount = 0, fd_CifCount_hi = 0, fd_CifCount_lo = 0, fd_ModJulianDate = 0,
     fd_SIdForFastAudioSelection = 0, fd_PrevChangeFlag = 0, fd_TimerDataConsistencyCheck = False,
     fd_TimerCheckStateAndPrintFigs = False, fd_FibLoadingState = S0_Init, fd_UtcTimeSet = utc_zero,
     fd_UnhandledFig0Set = {}, fd_UnhandledFig1Set = {}, fd_EwsPrintedSet = {}, fd_EwsAvailable = False,
     fd_DiffTimeMax = 0, fd_LastTimePoint = 0, fd_FirstFigTimePoint = 0, fd_RestartFibDecoding = False,
     fd_signals = []\<rparr>"

section \<open>Reset and restart\<close>

definition emit :: "fib_signal \<Rightarrow> fib_decoder \<Rightarrow> fib_decoder" where
  "emit sig s = s\<lparr>fd_signals := fd_signals s @ [sig]\<rparr>"

definition fib_reset :: "fib_decoder \<Rightarrow> fib_decoder" where
  "fib_reset s = s\<lparr>fd_TimerDataConsistencyCheck := False, fd_TimerCheckStateAndPrintFigs := False,
     fd_FibLoadingState := S0_Init, fd_DiffTimeMax := 0, fd_LastTimePoint := 0, fd_FirstFigTimePoint := 0,
     fd_CifCount := 0, fd_CifCount_hi := 0, fd_CifCount_lo := 0, fd_ModJulianDate := 0,
     fd_PrevChangeFlag := 0, fd_UtcTimeSet := utc_zero, fd_UnhandledFig0Set := {},
     fd_UnhandledFig1Set := {}, fd_EwsPrintedSet := {}, fd_EwsAvailable := False\<rparr>"

definition disconnect_channel :: "fib_decoder \<Rightarrow> fib_decoder" where
  "disconnect_channel s = s\<lparr>fd_Curr := reset0 (fd_Curr s), fd_Next := reset0 (fd_Next s), fd_Fig1 := reset1\<rparr>"

definition connect_channel :: "fib_decoder \<Rightarrow> fib_decoder" where
  "connect_channel s =
     fib_reset (s\<lparr>fd_Curr := reset0 (fd_Curr s), fd_Next := reset0 (fd_Next s), fd_Fig1 := reset1\<rparr>)"

definition restart_fib_decoding :: "fib_decoder \<Rightarrow> fib_decoder" where
  "restart_fib_decoding s =
     (fib_reset (s\<lparr>fd_Curr := reset0 (fd_Curr s), fd_Next := reset0 (fd_Next s), fd_Fig1 := reset1\<rparr>))
       \<lparr>fd_RestartFibDecoding := True\<rparr>"

definition set_SId_for_fast_audio_selection :: "nat \<Rightarrow> fib_decoder \<Rightarrow> fib_decoder" where
  "set_SId_for_fast_audio_selection iSId s =
     (if fd_FibLoadingState s \<ge> S3_FullyAudioDataLoaded
      then s\<lparr>fd_SIdForFastAudioSelection := 0\<rparr>
      else s\<lparr>fd_SIdForFastAudioSelection := iSId\<rparr>)"

section \<open>Configurations and timers\<close>

definition get_config :: "nat \<Rightarrow> fib_decoder \<Rightarrow> FibConfigFig0" where
  "get_config iCN_Bit s = (if iCN_Bit = 0 then fd_Curr s else fd_Next s)"

definition upd_config :: "nat \<Rightarrow> (FibConfigFig0 \<Rightarrow> FibConfigFig0) \<Rightarrow> fib_decoder \<Rightarrow> fib_decoder" where
  "upd_config iCN_Bit f s =
     (if iCN_Bit = 0 then s\<lparr>fd_Curr := f (fd_Curr s)\<rparr> else s\<lparr>fd_Next := f (fd_Next s)\<rparr>)"

record SFigHeader =
  fh_Length :: nat
  fh_CN_Flag :: nat
  fh_OE_Flag :: nat
  fh_PD_Flag :: nat

definition get_fig_header :: "bit_ptr \<Rightarrow> SFigHeader" where
  "get_fig_header d = \<lparr>fh_Length = unat (getBits_5 d 3), fh_CN_Flag = unat (getBits_1 d 8),
     fh_OE_Flag = unat (getBits_1 d 9), fh_PD_Flag = unat (getBits_1 d 10)\<rparr>"

definition retrigger_timer_data_loaded_fast :: "nat \<Rightarrow> fib_decoder \<Rightarrow> fib_decoder" where
  "retrigger_timer_data_loaded_fast now s =
     (let diff = int now - int (fd_LastTimePoint s);
          s = (if fd_LastTimePoint s > 0 \<and> diff > fd_DiffTimeMax s then s\<lparr>fd_DiffTimeMax := diff\<rparr> else s);
          s = s\<lparr>fd_LastTimePoint := now\<rparr>
      in if fd_FibLoadingState s \<ge> S4_FullyPacketDataLoaded
         then emit (signal_fib_loaded_state S5_DeferredDataLoaded)
                (s\<lparr>fd_FibLoadingState := S5_DeferredDataLoaded\<rparr>)
         else s\<lparr>fd_TimerDataConsistencyCheck := True, fd_TimerCheckStateAndPrintFigs := True\<rparr>)"

definition retrigger_timer_data_loaded_slow :: "nat \<Rightarrow> fib_decoder \<Rightarrow> fib_decoder" where
  "retrigger_timer_data_loaded_slow now s = retrigger_timer_data_loaded_fast now s"

definition process_fast_audio_selection :: "fib_decoder \<Rightarrow> fib_decoder" where
  "process_fast_audio_selection s =
     (case get_Fig0s2_of_SId_TMId (fd_Curr s) (fd_SIdForFastAudioSelection s) 0 of
        None \<Rightarrow> s
      | Some e \<Rightarrow>
          (case get_Fig0s1_of_SubChId (fd_Curr s) (int (ref_SubChId (sc_ref (s2_ServiceComp_C e)))) of
             None \<Rightarrow> s
           | Some _ \<Rightarrow>
               let s = s\<lparr>fd_SIdForFastAudioSelection := 0\<rparr>
               in if fd_FibLoadingState s < S1_FastAudioDataLoaded
                  then emit (signal_fib_loaded_state S1_FastAudioDataLoaded)
                         (s\<lparr>fd_FibLoadingState := S1_FastAudioDataLoaded\<rparr>)
                  else s))"

section \<open>Clusters\<close>

text \<open>
  The index of the cluster and the table, in which a free entry may have been taken.  Only the first
  64 of the 128 entries are searched.
\<close>

fun first_index :: "('a \<Rightarrow> bool) \<Rightarrow> 'a list \<Rightarrow> nat option" where
  "first_index P [] = None"
| "first_index P (x # xs) = (if P x then Some 0 else map_option Suc (first_index P xs))"

definition get_cluster :: "Cluster list \<Rightarrow> int \<Rightarrow> nat \<times> Cluster list" where
  "get_cluster table clusterId =
     (case first_index (\<lambda>c. cl_inUse c \<and> cl_clusterId c = clusterId) (take 64 table) of
        Some i \<Rightarrow> (i, table)
      | None \<Rightarrow>
          (case first_index (\<lambda>c. \<not> cl_inUse c) (take 64 table) of
             Some i \<Rightarrow> (i, table[i := (table ! i)\<lparr>cl_inUse := True, cl_clusterId := clusterId\<rparr>])
           | None \<Rightarrow> (0, table)))"

definition set_cluster :: "nat \<Rightarrow> int \<Rightarrow> nat \<Rightarrow> nat \<Rightarrow> fib_decoder \<Rightarrow> fib_decoder" where
  "set_cluster iCN_Bit clusterId iSId asuFlags s =
     (if fd_FibLoadingState s < S4_FullyPacketDataLoaded then s
      else
        let (i, table) = get_cluster (mClusterTable (get_config iCN_Bit s)) clusterId;
            c = table ! i;
            c = (if cl_flags c \<noteq> asuFlags then c\<lparr>cl_flags := asuFlags\<rparr> else c);
            c = (if iSId \<in> set (cl_servicesSIDs c) then c
                 else c\<lparr>cl_servicesSIDs := cl_servicesSIDs c @ [iSId]\<rparr>)
        in upd_config iCN_Bit (\<lambda>conf. conf\<lparr>mClusterTable := table[i := c]\<rparr>) s)"

end
