(* ===== verification/Fib_Fig0.thy ===== *)
theory Fib_Fig0
  imports Fib_State
begin

text \<open>
  FIG type 0, \<^verbatim>\<open>src/src/base/decoder/fib_decoder_fig0.cpp\<close>.  The address \<open>d\<close> points to the header byte
  of the FIG.  A sub-handler gets the number of bytes used so far and returns it increased by what it
  consumed.  The loops over the fields of a FIG have fuel, and None is the value of a loop that ran out
  of it: that this never happens in a reachable state is proved below.  Warnings that are only printed
  are left out.
\<close>

section \<open>FIG 0/0\<close>

definition parse_Fig0s0 :: "bit_ptr \<Rightarrow> SFig0s0_EnsembleInformation" where
  "parse_Fig0s0 d = \<lparr>s0_EId = unat (getBits d 16 16), s0_ChangeFlags = unat (getBits_2 d (16 + 16)),
     s0_AlarmFlag = unat (getBits_1 d (16 + 16 + 2)), s0_CIFCountHi = unat (getBits_5 d (16 + 19)),
     s0_CIFCountLo = unat (getBits_8 d (16 + 24)), s0_OccurrenceChange = unat (getBits_8 d (16 + 32))\<rparr>"

definition process_Fig0s0 :: "bit_ptr \<Rightarrow> fib_decoder \<Rightarrow> fib_decoder" where
  "process_Fig0s0 d s =
     (let fig0s0 = parse_Fig0s0 d;
          s = s\<lparr>fd_CifCount_hi := int (s0_CIFCountHi fig0s0), fd_CifCount_lo := int (s0_CIFCountLo fig0s0),
                fd_CifCount := int (s0_CIFCountHi fig0s0) * 250 + int (s0_CIFCountLo fig0s0)\<rparr>;
          s = (if s0_ChangeFlags fig0s0 = 0 \<and> fd_PrevChangeFlag s = 3
               then emit signal_change_in_configuration
                      (s\<lparr>fd_Curr := fd_Next s, fd_Next := reset0 (fd_Curr s)\<rparr>)
               else s)
      in s\<lparr>fd_PrevChangeFlag := s0_ChangeFlags fig0s0\<rparr>)"

section \<open>FIG 0/1\<close>

definition cNumCuPerCif :: int where
  "cNumCuPerCif = 864"

definition collides :: "SFig0s1 \<Rightarrow> SFig0s1 \<Rightarrow> bool" where
  "collides iCand e \<longleftrightarrow> \<not> (s1_StartAddr e < 0 \<or> s1_SubChannelSize e \<le> 0) \<and>
     s1_StartAddr iCand < s1_StartAddr e + s1_SubChannelSize e \<and>
     s1_StartAddr e < s1_StartAddr iCand + s1_SubChannelSize iCand"

definition find_colliding_Fig0s1 :: "SFig0s1 list \<Rightarrow> SFig0s1 \<Rightarrow> SFig0s1 option" where
  "find_colliding_Fig0s1 iVec iCand = find (collides iCand) iVec"

text \<open>The description and the bit offset behind it.\<close>

definition parse_Fig0s1 :: "bit_ptr \<Rightarrow> nat \<Rightarrow> SFig0s1 \<times> nat" where
  "parse_Fig0s1 d bitOffset =
     (let fig0s1 = empty_Fig0s1\<lparr>s1_SubChId := uint (getBits_6 d bitOffset),
            s1_StartAddr := uint (getBits d (bitOffset + 6) 10),
            s1_ShortForm := getBits_1 d (bitOffset + 16) = 0\<rparr>
      in if s1_ShortForm fig0s1
         then
           let idx = getBits_6 d (bitOffset + 18);
               (CUSize, ProtLevel, BitRate) = cProtLevelTable ! unat idx
           in (fig0s1\<lparr>s1_TableSwitch := uint (getBits_1 d (bitOffset + 17)), s1_TableIndex := uint idx,
                 s1_SubChannelSize := CUSize, s1_ProtectionLevel := ProtLevel, s1_BitRate := BitRate\<rparr>,
               bitOffset + 24)
         else
           let opt = uint (getBits_3 d (bitOffset + 17));
               level = getBits_2 d (bitOffset + 20);
               units = uint (getBits d (bitOffset + 22) 10);
               fig0s1 = fig0s1\<lparr>s1_Option := opt, s1_ProtectionLevel := uint level, s1_SubChannelSize := units\<rparr>
           in (if opt = 0 then fig0s1\<lparr>s1_BitRate := units div ([12, 8, 6, 4] ! unat level) * 8\<rparr>
               else if opt = 1
               then fig0s1\<lparr>s1_BitRate := units div ([27, 21, 18, 15] ! unat level) * 32,
                      s1_ProtectionLevel := uint level + 4\<rparr>
               else fig0s1,
               bitOffset + 32))"

definition subprocess_Fig0s1 :: "nat \<Rightarrow> bit_ptr \<Rightarrow> nat \<Rightarrow> SFigHeader \<Rightarrow> fib_decoder \<Rightarrow> nat \<times> fib_decoder" where
  "subprocess_Fig0s1 now d offset iFH s =
     (let bitOffset = offset * 8;
          SubChId = uint (getBits_6 d bitOffset);
          conf = get_config (fh_CN_Flag iFH) s
      in case get_Fig0s1_of_SubChId conf SubChId of
           None \<Rightarrow>
             let (fig0s1, bitOffset) = parse_Fig0s1 d bitOffset
             in if s1_StartAddr fig0s1 + s1_SubChannelSize fig0s1 > cNumCuPerCif
                then (bitOffset div 8, restart_fib_decoding s)
                else if find_colliding_Fig0s1 (Fig0s1Vec conf) fig0s1 \<noteq> None
                then (bitOffset div 8, restart_fib_decoding s)
                else (bitOffset div 8,
                      retrigger_timer_data_loaded_fast now
                        (upd_config (fh_CN_Flag iFH)
                           (\<lambda>c. c\<lparr>Fig0s1Vec := Fig0s1Vec c @ [set_current_time now fig0s1]\<rparr>) s))
         | Some e \<Rightarrow>
             ((bitOffset + (if s1_ShortForm e then 24 else 32)) div 8,
              upd_config (fh_CN_Flag iFH)
                (\<lambda>c. c\<lparr>Fig0s1Vec := update_first (\<lambda>e. s1_SubChId e = SubChId)
                         (set_current_time_2nd_call now) (Fig0s1Vec c)\<rparr>) s))"

section \<open>FIG 0/2\<close>

text \<open>One component; the local variable keeps what the components before it have written.\<close>

definition parse_component :: "bit_ptr \<Rightarrow> nat \<Rightarrow> SFig0s2_ServiceComponentDefinition \<Rightarrow> SFig0s2_ServiceComponentDefinition" where
  "parse_component d bitOffset c =
     (let TMId = uint (getBits_2 d bitOffset);
          c = c\<lparr>sc_TMId := TMId\<rparr>;
          c = (if TMId = 0
               then c\<lparr>sc_ref := TMId00 (unat (getBits_6 d (bitOffset + 8))) (unat (getBits_6 d (bitOffset + 2)))\<rparr>
               else if TMId = 1
               then c\<lparr>sc_ref := TMId01 (unat (getBits_6 d (bitOffset + 8))) (unat (getBits_6 d (bitOffset + 2)))\<rparr>
               else if TMId = 3
               then c\<lparr>sc_ref := TMId11 (unat (getBits d (bitOffset + 2) 12))\<rparr>
               else c)
      in c\<lparr>sc_PS_Flag := uint (getBits_1 d (bitOffset + 14)), sc_CA_Flag := uint (getBits_1 d (bitOffset + 15))\<rparr>)"

definition component_step ::
  "nat \<Rightarrow> bit_ptr \<Rightarrow> nat \<Rightarrow> SFigHeader \<Rightarrow> SFig0s2 \<times> fib_decoder \<Rightarrow> nat \<Rightarrow> SFig0s2 \<times> fib_decoder" where
  "component_step now d bitOffset iFH = (\<lambda>(fig0s2, s) idx.
     case get_Fig0s2_of_SId_ScIdx (get_config (fh_CN_Flag iFH) s) (s2_SId fig0s2) (int idx) of
       None \<Rightarrow>
         let fig0s2 = set_current_time now (fig0s2\<lparr>s2_ServiceComp_C_index := int idx,
               s2_ServiceComp_C := parse_component d (bitOffset + 16 * idx) (s2_ServiceComp_C fig0s2)\<rparr>)
         in (fig0s2, retrigger_timer_data_loaded_fast now
               (upd_config (fh_CN_Flag iFH) (\<lambda>c. c\<lparr>Fig0s2Vec := Fig0s2Vec c @ [fig0s2]\<rparr>) s))
     | Some _ \<Rightarrow>
         (fig0s2, upd_config (fh_CN_Flag iFH)
            (\<lambda>c. c\<lparr>Fig0s2Vec := update_first
                     (\<lambda>e. s2_SId e = s2_SId fig0s2 \<and> s2_ServiceComp_C_index e = int idx)
                     (set_current_time_2nd_call now) (Fig0s2Vec c)\<rparr>) s))"

definition subprocess_Fig0s2 :: "nat \<Rightarrow> bit_ptr \<Rightarrow> nat \<Rightarrow> SFigHeader \<Rightarrow> fib_decoder \<Rightarrow> nat \<times> fib_decoder" where
  "subprocess_Fig0s2 now d offset iFH s =
     (let bitOffset = 8 * offset;
          idBits = (if fh_PD_Flag iFH = 1 then 32 else 16);
          SId = unat (getLBits d bitOffset idBits);
          bitOffset = bitOffset + idBits;
          num = unat (getBits_4 d (bitOffset + 4));
          bitOffset = bitOffset + 8;
          fig0s2 = empty_Fig0s2\<lparr>s2_PD_Flag := int (fh_PD_Flag iFH), s2_SId := SId, s2_NumServiceComp := int num\<rparr>
      in ((bitOffset + 16 * num) div 8,
          snd (foldl (component_step now d bitOffset iFH) (fig0s2, s) [0..<num])))"

section \<open>FIG 0/3\<close>

definition parse_Fig0s3 :: "bit_ptr \<Rightarrow> nat \<Rightarrow> SFig0s3 \<times> nat" where
  "parse_Fig0s3 d bitOffset =
     (let fig0s3 = \<lparr>TimePoint = 0, TimePoint2ndCall = 0, s3_SCId = uint (getBits d bitOffset 12),
            s3_CAOrg_Flag = uint (getBits_1 d (bitOffset + 15)), s3_DG_Flag = uint (getBits_1 d (bitOffset + 16)),
            s3_DSCTy = uint (getBits_6 d (bitOffset + 18)), s3_SubChId = uint (getBits_6 d (bitOffset + 24)),
            s3_PacketAddress = uint (getBits d (bitOffset + 30) 10), s3_CAOrg = 2 ^ 16 - 1\<rparr>;
          bitOffset = bitOffset + 40
      in if s3_CAOrg_Flag fig0s3 = 1
         then (fig0s3\<lparr>s3_CAOrg := unat (getBits d (bitOffset + 40) 16)\<rparr>, bitOffset + 16)
         else (fig0s3, bitOffset))"

definition subprocess_Fig0s3 :: "nat \<Rightarrow> bit_ptr \<Rightarrow> nat \<Rightarrow> SFigHeader \<Rightarrow> fib_decoder \<Rightarrow> nat \<times> fib_decoder" where
  "subprocess_Fig0s3 now d used iFH s =
     (let bitOffset = used * 8;
          SCId = uint (getBits d bitOffset 12)
      in case get_Fig0s3_of_SCId (get_config (fh_CN_Flag iFH) s) SCId of
           None \<Rightarrow>
             let (fig0s3, bitOffset) = parse_Fig0s3 d bitOffset
             in (bitOffset div 8, retrigger_timer_data_loaded_slow now
                   (upd_config (fh_CN_Flag iFH)
                      (\<lambda>c. c\<lparr>Fig0s3Vec := Fig0s3Vec c @ [set_current_time now fig0s3]\<rparr>) s))
         | Some e \<Rightarrow>
             ((bitOffset + 40 + (if s3_CAOrg_Flag e \<noteq> 0 then 16 else 0)) div 8,
              upd_config (fh_CN_Flag iFH)
                (\<lambda>c. c\<lparr>Fig0s3Vec := update_first (\<lambda>e. s3_SCId e = SCId)
                         (set_current_time_2nd_call now) (Fig0s3Vec c)\<rparr>) s))"

section \<open>FIG 0/5\<close>

definition subprocess_Fig0s5 :: "nat \<Rightarrow> bit_ptr \<Rightarrow> nat \<Rightarrow> SFigHeader \<Rightarrow> fib_decoder \<Rightarrow> nat \<times> fib_decoder" where
  "subprocess_Fig0s5 now d offset iFH s =
     (let bitOffset = offset * 8
      in if getBits_1 d bitOffset = 0
         then
           let fig0s5 = \<lparr>TimePoint = 0, TimePoint2ndCall = 0, s5_LS_Flag = 0,
                 s5_Language = unat (getBits_8 d (bitOffset + 8)),
                 s5_SubChId = uint (getBits_6 d (bitOffset + 2)), s5_SCId = - 1\<rparr>
           in ((bitOffset + 16) div 8,
               case get_Fig0s5_of_SubChId (fd_Curr s) (s5_SubChId fig0s5) of
                 None \<Rightarrow> retrigger_timer_data_loaded_slow now
                   (upd_config 0 (\<lambda>c. c\<lparr>Fig0s5Vec := Fig0s5Vec c @ [set_current_time now fig0s5]\<rparr>) s)
               | Some _ \<Rightarrow> upd_config 0
                   (\<lambda>c. c\<lparr>Fig0s5Vec := update_first
                            (\<lambda>e. s5_LS_Flag e = 0 \<and> s5_SubChId e = s5_SubChId fig0s5 mod 256)
                            (set_current_time_2nd_call now) (Fig0s5Vec c)\<rparr>) s)
         else
           let fig0s5 = \<lparr>TimePoint = 0, TimePoint2ndCall = 0, s5_LS_Flag = uint (getBits_1 d bitOffset),
                 s5_Language = unat (getBits_8 d (bitOffset + 16)),
                 s5_SubChId = - 1, s5_SCId = uint (getBits d (bitOffset + 4) 12)\<rparr>
           in ((bitOffset + 24) div 8,
               case get_Fig0s5_of_SCId (fd_Curr s) (s5_SCId fig0s5) of
                 None \<Rightarrow> retrigger_timer_data_loaded_slow now
                   (upd_config 0 (\<lambda>c. c\<lparr>Fig0s5Vec := Fig0s5Vec c @ [set_current_time now fig0s5]\<rparr>) s)
               | Some _ \<Rightarrow> upd_config 0
                   (\<lambda>c. c\<lparr>Fig0s5Vec := update_first
                            (\<lambda>e. s5_LS_Flag e = 1 \<and> s5_SCId e = s5_SCId fig0s5 mod 256)
                            (set_current_time_2nd_call now) (Fig0s5Vec c)\<rparr>) s))"

section \<open>FIG 0/7\<close>

definition process_Fig0s7 :: "nat \<Rightarrow> bit_ptr \<Rightarrow> fib_decoder \<Rightarrow> fib_decoder" where
  "process_Fig0s7 now d s =
     (let fh = get_fig_header d
      in case get_Fig0s7 (get_config (fh_CN_Flag fh) s) of
           None \<Rightarrow>
             let fig0s7 = \<lparr>TimePoint = 0, TimePoint2ndCall = 0, s7_NumServices = unat (getBits_6 d (2 * 8)),
                   s7_Count = unat (getBits d (2 * 8 + 6) 10)\<rparr>
             in retrigger_timer_data_loaded_fast now
                  (upd_config (fh_CN_Flag fh)
                     (\<lambda>c. c\<lparr>Fig0s7Vec := Fig0s7Vec c @ [set_current_time now fig0s7]\<rparr>) s)
         | Some _ \<Rightarrow>
             upd_config (fh_CN_Flag fh)
               (\<lambda>c. c\<lparr>Fig0s7Vec := update_first (\<lambda>_. True) (set_current_time_2nd_call now) (Fig0s7Vec c)\<rparr>) s)"

section \<open>FIG 0/8\<close>

definition parse_Fig0s8 :: "bit_ptr \<Rightarrow> nat \<Rightarrow> SFigHeader \<Rightarrow> SFig0s8 \<times> nat" where
  "parse_Fig0s8 d bitOffset iFH =
     (let idBits = (if fh_PD_Flag iFH = 1 then 32 else 16);
          SId = unat (getLBits d bitOffset idBits);
          bitOffset = bitOffset + idBits;
          fig0s8 = \<lparr>TimePoint = 0, TimePoint2ndCall = 0, s8_PD_Flag = int (fh_PD_Flag iFH), s8_SId = SId,
            s8_Ext_Flag = uint (getBits_1 d bitOffset), s8_SCIdS = uint (getBits_4 d (bitOffset + 4)),
            s8_LS_Flag = uint (getBits_1 d (bitOffset + 8)), s8_SubChId = - 1, s8_SCId = - 1\<rparr>
      in if s8_LS_Flag fig0s8 = 0
         then (fig0s8\<lparr>s8_SubChId := uint (getBits_6 d (bitOffset + 4 + 4 + 2))\<rparr>,
               bitOffset + (if s8_Ext_Flag fig0s8 \<noteq> 0 then 16 + 8 else 16))
         else (fig0s8\<lparr>s8_SCId := uint (getBits d (bitOffset + 4 + 4 + 1 + 3) 12)\<rparr>,
               bitOffset + (if s8_Ext_Flag fig0s8 \<noteq> 0 then 24 + 8 else 24)))"

definition subprocess_Fig0s8 :: "nat \<Rightarrow> bit_ptr \<Rightarrow> nat \<Rightarrow> SFigHeader \<Rightarrow> fib_decoder \<Rightarrow> nat \<times> fib_decoder" where
  "subprocess_Fig0s8 now d used iFH s =
     (let (fig0s8, bitOffset) = parse_Fig0s8 d (used * 8) iFH
      in (bitOffset div 8,
          case get_Fig0s8_of_SId_SCIdS (get_config (fh_CN_Flag iFH) s) (s8_SId fig0s8) (s8_SCIdS fig0s8) of
            None \<Rightarrow> retrigger_timer_data_loaded_slow now
              (upd_config (fh_CN_Flag iFH)
                 (\<lambda>c. c\<lparr>Fig0s8Vec := Fig0s8Vec c @ [set_current_time now fig0s8]\<rparr>) s)
          | Some _ \<Rightarrow> upd_config (fh_CN_Flag iFH)
              (\<lambda>c. c\<lparr>Fig0s8Vec := update_first
                       (\<lambda>e. s8_SId e = s8_SId fig0s8 \<and> s8_SCIdS e = s8_SCIdS fig0s8)
                       (set_current_time_2nd_call now) (Fig0s8Vec c)\<rparr>) s))"

section \<open>FIG 0/9 and 0/10\<close>

definition process_Fig0s9 :: "nat \<Rightarrow> bit_ptr \<Rightarrow> fib_decoder \<Rightarrow> fib_decoder" where
  "process_Fig0s9 now d s =
     (let offset = 16
      in if Fig0s9Vec (fd_Curr s) \<noteq> []
         then upd_config 0 (\<lambda>c. c\<lparr>Fig0s9Vec := (Fig0s9Vec c)[0 := set_current_time_2nd_call now (Fig0s9Vec c ! 0)]\<rparr>) s
         else
           let lto = uint (getBits_5 d (offset + 3));
               lto = (if getBits_1 d (offset + 2) = 1 then lto * - 1 else lto);
               fig0s9 = \<lparr>TimePoint = 0, TimePoint2ndCall = 0, s9_Ext_Flag = uint (getBits_1 d offset),
                 s9_Ensemble_LTO = lto, s9_Ensemble_ECC = unat (getBits_8 d (offset + 8)),
                 s9_InterTableId = unat (getBits_8 d (offset + 16)), s9_LTO_minutes = lto * 30\<rparr>
           in retrigger_timer_data_loaded_slow now
                (upd_config 0 (\<lambda>c. c\<lparr>Fig0s9Vec := Fig0s9Vec c @ [set_current_time now fig0s9]\<rparr>) s))"

definition parse_Fig0s10 :: "bit_ptr \<Rightarrow> SFig0s10_DateAndTime" where
  "parse_Fig0s10 dd =
     (let offset = 16; flag = unat (getBits_1 dd (offset + 1 + 17 + 1 + 1))
      in \<lparr>s10_MJD = unat (getLBits dd (offset + 1) 17), s10_LSI = unat (getBits_1 dd (offset + 1 + 17)),
          s10_UTC_Flag = flag,
          s10_UTC = getLBits dd (offset + 1 + 17 + 1 + 1 + 1) (if flag = 1 then 27 else 11)\<rparr>)"

text \<open>A bit field of the time: \<open>n\<close> bits above the lowest \<open>k\<close>.\<close>

definition utc_field :: "u32 \<Rightarrow> nat \<Rightarrow> nat \<Rightarrow> int" where
  "utc_field utc k n = uint (drop_bit k utc AND mask n)"

definition process_Fig0s10 :: "bit_ptr \<Rightarrow> fib_decoder \<Rightarrow> fib_decoder" where
  "process_Fig0s10 dd s =
     (let fig0s10 = parse_Fig0s10 dd;
          utc = s10_UTC fig0s10;
          t = (fd_UtcTimeSet s)\<lparr>ut_ModJulianDate := int (s10_MJD fig0s10)\<rparr>;
          t = (if s10_UTC_Flag fig0s10 = 1
               then t\<lparr>ut_Hour := utc_field utc 22 5, ut_Minute := utc_field utc 16 6, ut_Second := utc_field utc 10 6\<rparr>
               else t\<lparr>ut_Hour := utc_field utc 6 5, ut_Minute := utc_field utc 0 6, ut_Second := - 1\<rparr>);
          s = s\<lparr>fd_ModJulianDate := int (s10_MJD fig0s10), fd_UtcTimeSet := t\<rparr>
      in case get_Fig0s9 (fd_Curr s) of
           None \<Rightarrow> s
         | Some e \<Rightarrow>
             let t = t\<lparr>ut_LTO_Minutes := s9_LTO_minutes e\<rparr>
             in emit (signal_fib_time_info t) (s\<lparr>fd_UtcTimeSet := t\<rparr>))"

end
