(* ===== verification/Fib_Fig0_Si.thy ===== *)
theory Fib_Fig0_Si
  imports Fib_Fig0
begin

text \<open>
  The remaining extensions of FIG type 0 in \<^verbatim>\<open>src/src/base/decoder/fib_decoder_fig0.cpp\<close>: user
  applications, FEC, emergency warning, programme type, announcements, and the dispatch with its loop
  over the fields of a FIG.
\<close>

section \<open>FIG 0/13\<close>

definition empty_app :: SUserApp where
  "empty_app = \<lparr>ua_UserAppType = - 1, ua_UserAppDataLength = 0, ua_XPadData = None\<rparr>"

definition parse_app :: "nat \<Rightarrow> bit_ptr \<Rightarrow> nat \<Rightarrow> SUserApp" where
  "parse_app PD_Flag d bitOffset =
     (let len = uint (getBits_5 d (bitOffset + 11))
      in \<lparr>ua_UserAppType = uint (getBits d bitOffset 11), ua_UserAppDataLength = len,
          ua_XPadData = (if PD_Flag = 0 \<and> len \<ge> 2
            then Some \<lparr>xd_CA_Flag = uint (getBits_1 d (bitOffset + 16)), xd_CA_Org_Flag = uint (getBits_1 d (bitOffset + 17)),
                   xd_XPadAppTy = uint (getBits_5 d (bitOffset + 19)), xd_DG_Flag = uint (getBits_1 d (bitOffset + 24)),
                   xd_DSCTy = uint (getBits_6 d (bitOffset + 26))\<rparr>
            else None)\<rparr>)"

definition app_step :: "nat \<Rightarrow> bit_ptr \<Rightarrow> SUserApp list \<times> nat \<Rightarrow> nat \<Rightarrow> SUserApp list \<times> nat" where
  "app_step PD_Flag d = (\<lambda>(apps, bitOffset) i.
     let app = parse_app PD_Flag d bitOffset
     in (apps[i := app], bitOffset + (11 + 5 + 8 * nat (ua_UserAppDataLength app))))"

text \<open>The bit offset behind the service identifier is \<open>bitOffset\<close>; \<open>start\<close> is where the field begins.\<close>

definition parse_Fig0s13 :: "bit_ptr \<Rightarrow> nat \<Rightarrow> SFigHeader \<Rightarrow> SFig0s13 \<times> nat" where
  "parse_Fig0s13 d start iFH =
     (let idBits = (if fh_PD_Flag iFH = 1 then 32 else 16);
          bitOffset = start + idBits;
          num = unat (getBits_4 d (bitOffset + 4));
          num = (if num > 6 then 6 else num);
          (apps, fin) = foldl (app_step (fh_PD_Flag iFH) d) (replicate 6 empty_app, bitOffset + 8) [0..<num]
      in (\<lparr>TimePoint = 0, TimePoint2ndCall = 0, s13_PD_Flag = int (fh_PD_Flag iFH),
           s13_SId = unat (getLBits d start idBits), s13_SCIdS = uint (getBits_4 d bitOffset),
           s13_NumUserApps = int num, s13_UserAppVec = apps, s13_SizeBits = (fin - start) mod 2 ^ 16\<rparr>, fin))"

definition subprocess_Fig0s13 :: "nat \<Rightarrow> bit_ptr \<Rightarrow> nat \<Rightarrow> SFigHeader \<Rightarrow> fib_decoder \<Rightarrow> nat \<times> fib_decoder" where
  "subprocess_Fig0s13 now d used iFH s =
     (let idBits = (if fh_PD_Flag iFH = 1 then 32 else 16);
          SId = unat (getLBits d (used * 8) idBits);
          SCIdS = uint (getBits_4 d (used * 8 + idBits))
      in case get_Fig0s13_of_SId_SCIdS (fd_Curr s) SId SCIdS of
           None \<Rightarrow>
             let (fig0s13, bitOffset) = parse_Fig0s13 d (used * 8) iFH
             in (bitOffset div 8, retrigger_timer_data_loaded_slow now
                   (upd_config (fh_CN_Flag iFH)
                      (\<lambda>c. c\<lparr>Fig0s13Vec := Fig0s13Vec c @ [set_current_time now fig0s13]\<rparr>) s))
         | Some e \<Rightarrow>
             ((s13_SizeBits e + used * 8) div 8,
              upd_config 0
                (\<lambda>c. c\<lparr>Fig0s13Vec := update_first (\<lambda>e. s13_SId e = SId \<and> s13_SCIdS e = SCIdS)
                         (set_current_time_2nd_call now) (Fig0s13Vec c)\<rparr>) s))"

section \<open>FIG 0/14\<close>

definition subprocess_Fig0s14 :: "nat \<Rightarrow> bit_ptr \<Rightarrow> nat \<Rightarrow> SFigHeader \<Rightarrow> fib_decoder \<Rightarrow> nat \<times> fib_decoder" where
  "subprocess_Fig0s14 now d used fh s =
     (let SubChId = uint (getBits_6 d (used * 8))
      in (used + 1,
          case get_Fig0s14_of_SubChId (get_config (fh_CN_Flag fh) s) SubChId of
            None \<Rightarrow>
              let fig0s14 = \<lparr>TimePoint = 0, TimePoint2ndCall = 0, s14_SubChId = SubChId,
                    s14_FEC_scheme = uint (getBits_2 d (used * 8 + 6))\<rparr>
              in retrigger_timer_data_loaded_slow now
                   (upd_config (fh_CN_Flag fh)
                      (\<lambda>c. c\<lparr>Fig0s14Vec := Fig0s14Vec c @ [set_current_time now fig0s14]\<rparr>) s)
          | Some _ \<Rightarrow> upd_config (fh_CN_Flag fh)
              (\<lambda>c. c\<lparr>Fig0s14Vec := update_first (\<lambda>e. s14_SubChId e = SubChId)
                       (set_current_time_2nd_call now) (Fig0s14Vec c)\<rparr>) s))"

section \<open>FIG 0/15\<close>

definition get_ews_phase_str :: "nat \<Rightarrow> string" where
  "get_ews_phase_str iPhase =
     (if iPhase = 0 then ''Pre-trigger'' else if iPhase = 1 then ''Trigger''
      else if iPhase = 2 then ''Sustain'' else ''End'')"

definition get_ews_stage_str :: "nat \<Rightarrow> string" where
  "get_ews_stage_str iStage =
     [''Level 1 Start'', ''Level 1 Update'', ''Level 1 Repeat'', ''Level 1 Critical'',
      ''Level 2 Start'', ''Level 2 Update'', ''Level 2 Repeat'', ''Test''] ! (iStage AND 7)"

text \<open>Twelve octal digits, presented as the symbols 1 to 8, in groups of four.\<close>

definition get_ews_location_presentation_code :: "u8 \<Rightarrow> u32 \<Rightarrow> qstring" where
  "get_ews_location_presentation_code iZone iDigits =
     (let code30 = push_bit 24 (ucast iZone :: u64) OR ucast iDigits;
          code36 = push_bit 6 code30 OR (code30 mod 61)
      in concat (map (\<lambda>i. (49 + unat (drop_bit (3 * i) code36 AND 7)) # (if i = 8 \<or> i = 4 then [45] else []))
           (rev [0..<12])))"

definition digit_step :: "bit_ptr \<Rightarrow> u32 \<times> nat \<Rightarrow> nat \<Rightarrow> u32 \<times> nat" where
  "digit_step d = (\<lambda>(digits, bitOffset) i.
     (push_bit 4 digits OR ucast (getBits_4 d bitOffset), bitOffset + 4))"

definition get_ews_location_code_str :: "bit_ptr \<Rightarrow> nat \<Rightarrow> nat \<Rightarrow> (nat \<times> ews_location) option" where
  "get_ews_location_code_str d bitOffset iEndOffset =
     (if bitOffset + 16 > iEndOffset then None
      else
        let nff = unat (getBits_2 d bitOffset);
            zone = unat (getBits_6 d (bitOffset + 2));
            scf = unat (getBits_1 d (bitOffset + 8));
            numDigits = unat (getBits_3 d (bitOffset + 9));
            digits = ucast (getBits_4 d (bitOffset + 12)) :: u32;
            bitOffset = bitOffset + 16
        in if numDigits > (if scf = 1 then 4 else 5) then None
           else if bitOffset + 4 * numDigits + (if odd numDigits then 4 else 0) + (if scf = 1 then 16 else 0) > iEndOffset
           then None
           else
             let (digits, bitOffset) = foldl (digit_step d) (digits, bitOffset) [0..<numDigits];
                 bitOffset = (if odd numDigits then bitOffset + 4 else bitOffset)
             in if scf = 1
                then
                  let subCodes = getBits d bitOffset 16
                  in Some (bitOffset + 16, \<lparr>el_nff = nff, el_zone = zone,
                       el_codes = map (\<lambda>i. (unat (push_bit 4 digits OR of_nat i), numDigits + 2))
                         (filter (\<lambda>i. bit subCodes i) [0..<16])\<rparr>)
                else Some (bitOffset, \<lparr>el_nff = nff, el_zone = zone, el_codes = [(unat digits, numDigits + 1)]\<rparr>))"

lemma digit_steps: "snd (foldl (digit_step d) (x, b) [0..<n]) = b + 4 * n"
proof -
  have "snd (foldl (digit_step d) st xs) = snd st + 4 * length xs" for st xs
    by (induction xs arbitrary: st) (simp_all add: digit_step_def case_prod_beta)
  then show ?thesis by simp
qed

lemma location_progress:
  assumes "get_ews_location_code_str d b e = Some (b', l)"
  shows "b + 16 \<le> b' \<and> b' \<le> e"
proof -
  define num where "num = unat (getBits_3 d (b + 9))"
  have "snd (foldl (digit_step d) (ucast (getBits_4 d (b + 12)), b + 16) [0..<num]) = b + 16 + 4 * num"
    by (rule digit_steps)
  with assms show ?thesis
    by (auto simp: get_ews_location_code_str_def Let_def num_def [symmetric] case_prod_beta split: if_splits)
qed

function ews_locations :: "bit_ptr \<Rightarrow> nat \<Rightarrow> nat \<Rightarrow> ews_field list" where
  "ews_locations d bitOffset endOffset =
     (if bitOffset < endOffset
      then case get_ews_location_code_str d bitOffset endOffset of
             None \<Rightarrow> [EwsInvalidLocation]
           | Some (bitOffset', l) \<Rightarrow> EwsLocation l # ews_locations d bitOffset' endOffset
      else [])"
  by pat_completeness auto
termination
  by (relation "measure (\<lambda>(_, b, e). e - b)") (auto dest: location_progress)

declare ews_locations.simps [simp del]

definition ews_report :: "bit_ptr \<Rightarrow> SFigHeader \<Rightarrow> ews_field list" where
  "ews_report d fh =
     (let endOffset = (fh_Length fh + 1) * 8;
          (hasStatus, bitOffset, txt) =
            (if fh_OE_Flag fh = 0
             then
               let phase = unat (getBits_2 d 16);
                   txt = [EwsPhase (get_ews_phase_str phase) (unat (getBits_6 d (16 + 2)))]
               in if phase = 0
                  then (phase \<le> 1, 16 + 8 + 8, txt @ [EwsTriggerSec (unat (getBits_6 d (16 + 8 + 2)))])
                  else (phase \<le> 1, 16 + 8, txt)
             else (True, 16 + 16, [EwsOtherEnsemble (unat (getBits d 16 16))]))
      in if hasStatus \<and> bitOffset + 8 \<le> endOffset
         then
           let txt = txt @ [EwsStatus (unat (getBits_1 d bitOffset)) (get_ews_stage_str (unat (getBits_3 d (bitOffset + 1))))
                              (unat (getBits_4 d (bitOffset + 4)))];
               bitOffset = bitOffset + 8
           in txt @ (if bitOffset = endOffset then [EwsEntireCoverage] else []) @ ews_locations d bitOffset endOffset
         else if bitOffset > endOffset \<or> hasStatus then txt @ [EwsInvalidLength (fh_Length fh)]
         else txt)"

definition process_Fig0s15 :: "bit_ptr \<Rightarrow> fib_decoder \<Rightarrow> fib_decoder" where
  "process_Fig0s15 d s =
     (let fh = get_fig_header d;
          s = (if \<not> fd_EwsAvailable s then emit signal_ews_available (s\<lparr>fd_EwsAvailable := True\<rparr>) else s)
      in if fh_Length fh = 1 then s\<lparr>fd_EwsPrintedSet := {}\<rparr>
         else s\<lparr>fd_EwsPrintedSet := insert (ews_report d fh) (fd_EwsPrintedSet s)\<rparr>)"

section \<open>FIG 0/17\<close>

definition process_type :: "nat \<Rightarrow> bit_ptr \<Rightarrow> nat \<Rightarrow> fib_decoder \<Rightarrow> fib_decoder" where
  "process_type now d offset s =
     (let SId = unat (getBits d offset 16)
      in case get_Fig0s17_of_SId (fd_Curr s) SId of
           None \<Rightarrow>
             let fig0s17 = \<lparr>TimePoint = 0, TimePoint2ndCall = 0, s17_SId = SId,
                   s17_SD_Flag = uint (getBits_1 d (offset + 16)), s17_IntCode = uint (getBits_5 d (offset + 16 + 11))\<rparr>
             in retrigger_timer_data_loaded_slow now
                  (upd_config 0 (\<lambda>c. c\<lparr>Fig0s17Vec := Fig0s17Vec c @ [set_current_time now fig0s17]\<rparr>) s)
         | Some _ \<Rightarrow> upd_config 0
             (\<lambda>c. c\<lparr>Fig0s17Vec := update_first (\<lambda>e. s17_SId e = SId mod 2 ^ 16)
                      (set_current_time_2nd_call now) (Fig0s17Vec c)\<rparr>) s)"

function types_loop :: "nat \<Rightarrow> bit_ptr \<Rightarrow> nat \<Rightarrow> nat \<Rightarrow> fib_decoder \<Rightarrow> fib_decoder" where
  "types_loop now d len offset s =
     (if offset < len * 8 then types_loop now d len (offset + 32) (process_type now d offset s) else s)"
  by pat_completeness auto
termination by (relation "measure (\<lambda>(_, _, len, offset, _). len * 8 - offset)") auto

declare types_loop.simps [simp del]

definition process_Fig0s17 :: "nat \<Rightarrow> bit_ptr \<Rightarrow> fib_decoder \<Rightarrow> fib_decoder" where
  "process_Fig0s17 now d s = types_loop now d (unat (getBits_5 d 3)) 16 s"

section \<open>FIG 0/18 and 0/19\<close>

definition support_step :: "bit_ptr \<Rightarrow> nat \<Rightarrow> nat \<Rightarrow> nat \<Rightarrow> nat \<Rightarrow> fib_decoder \<Rightarrow> nat \<Rightarrow> fib_decoder" where
  "support_step d CN bitOffset SId asuFlags s i =
     (let clusterId = getBits d (bitOffset + 8 * i) 8
      in if clusterId = 0 then s else set_cluster CN (uint clusterId) SId asuFlags s)"

function support_loop :: "bit_ptr \<Rightarrow> SFigHeader \<Rightarrow> nat \<Rightarrow> fib_decoder \<Rightarrow> fib_decoder" where
  "support_loop d fh bitOffset s =
     (if bitOffset \<le> fh_Length fh * 8
      then
        let SId = unat (getBits d bitOffset 16);
            asuFlags = unat (getBits d (bitOffset + 16) 16);
            nrClusters = unat (getBits d (bitOffset + 32 + 5) 3);
            bitOffset = bitOffset + 40
        in support_loop d fh (bitOffset + nrClusters * 8)
             (foldl (support_step d (fh_CN_Flag fh) bitOffset SId asuFlags) s [0..<nrClusters])
      else s)"
  by pat_completeness auto
termination by (relation "measure (\<lambda>(_, fh, b, _). Suc (fh_Length fh * 8) - b)") auto

declare support_loop.simps [simp del]

definition process_Fig0s18 :: "bit_ptr \<Rightarrow> fib_decoder \<Rightarrow> fib_decoder" where
  "process_Fig0s18 d s = support_loop d (get_fig_header d) 16 s"

definition announce :: "(qstring \<Rightarrow> nat \<Rightarrow> fib_signal) \<Rightarrow> nat \<Rightarrow> nat list \<Rightarrow> fib_decoder \<Rightarrow> fib_decoder" where
  "announce sig subChId SIds s =
     foldl (\<lambda>s SId. emit (sig (get_service_label_of_SId_from_all_Fig1 (fd_Fig1 s) SId) subChId) s) s SIds"

text \<open>The announcement counter starts the announcement when it reaches five.\<close>

definition switch_cluster :: "nat \<Rightarrow> int \<Rightarrow> u16 \<Rightarrow> nat \<Rightarrow> fib_decoder \<Rightarrow> fib_decoder" where
  "switch_cluster CN clusterId AswFlags subChId s =
     (let (i, table) = get_cluster (mClusterTable (get_config CN s)) clusterId;
          c = table ! i
      in if (of_nat (cl_flags c) AND AswFlags) \<noteq> 0
         then
           let c = c\<lparr>cl_announcing := cl_announcing c + 1\<rparr>;
               s = upd_config CN (\<lambda>conf. conf\<lparr>mClusterTable := table[i := c]\<rparr>) s
           in if cl_announcing c = 5
              then announce signal_start_announcement subChId (take (length (cl_servicesSIDs c) mod 2 ^ 16) (cl_servicesSIDs c)) s
              else s
         else if cl_announcing c > 0
         then
           let c = c\<lparr>cl_announcing := 0\<rparr>;
               s = upd_config CN (\<lambda>conf. conf\<lparr>mClusterTable := table[i := c]\<rparr>) s
           in announce signal_stop_announcement subChId (cl_servicesSIDs c) s
         else upd_config CN (\<lambda>conf. conf\<lparr>mClusterTable := table\<rparr>) s)"

function switching_loop :: "bit_ptr \<Rightarrow> SFigHeader \<Rightarrow> nat \<Rightarrow> fib_decoder \<Rightarrow> fib_decoder" where
  "switching_loop d fh bitOffset s =
     (if bitOffset \<le> fh_Length fh * 8
      then
        let clusterId = uint (getBits d bitOffset 8);
            AswFlags = getBits d (bitOffset + 8) 16;
            regionFlag = getBits d (bitOffset + 25) 1;
            subChId = unat (getBits d (bitOffset + 26) 6);
            bitOffset = bitOffset + (if regionFlag = 1 then 40 else 32)
        in if fd_FibLoadingState s < S4_FullyPacketDataLoaded then s
           else switching_loop d fh bitOffset (switch_cluster (fh_CN_Flag fh) clusterId AswFlags subChId s)
      else s)"
  by pat_completeness auto
termination by (relation "measure (\<lambda>(_, fh, b, _). Suc (fh_Length fh * 8) - b)") auto

declare switching_loop.simps [simp del]

definition process_Fig0s19 :: "bit_ptr \<Rightarrow> fib_decoder \<Rightarrow> fib_decoder" where
  "process_Fig0s19 d s = switching_loop d (get_fig_header d) 16 s"

section \<open>Dispatch\<close>

type_synonym fig0_proc = "bit_ptr \<Rightarrow> nat \<Rightarrow> SFigHeader \<Rightarrow> fib_decoder \<Rightarrow> nat \<times> fib_decoder"

fun fig0_loop :: "nat \<Rightarrow> fig0_proc \<Rightarrow> bit_ptr \<Rightarrow> SFigHeader \<Rightarrow> nat \<Rightarrow> fib_decoder \<Rightarrow> fib_decoder option" where
  "fig0_loop fuel fn d fh used s =
     (if used \<le> fh_Length fh
      then case fuel of
             0 \<Rightarrow> None
           | Suc fuel \<Rightarrow>
               (let (used, s) = fn d used fh s
                in if fd_RestartFibDecoding s then Some s else fig0_loop fuel fn d fh used s)
      else Some s)"

declare fig0_loop.simps [simp del]

text \<open>The length is a byte, and every field takes at least one byte of the FIG.\<close>

definition process_fig0_loop :: "bit_ptr \<Rightarrow> fig0_proc \<Rightarrow> fib_decoder \<Rightarrow> fib_decoder option" where
  "process_fig0_loop d fn s = (let fh = get_fig_header d in fig0_loop 256 fn d fh 2 s)"

definition process_Fig0_extension :: "nat \<Rightarrow> nat \<Rightarrow> bit_ptr \<Rightarrow> fib_decoder \<Rightarrow> fib_decoder option" where
  "process_Fig0_extension now extension d s =
     (if extension = 0 then Some (process_Fig0s0 d s)
      else if extension = 1 then process_fig0_loop d (subprocess_Fig0s1 now) s
      else if extension = 2 then process_fig0_loop d (subprocess_Fig0s2 now) s
      else if extension = 3 then process_fig0_loop d (subprocess_Fig0s3 now) s
      else if extension = 5 then process_fig0_loop d (subprocess_Fig0s5 now) s
      else if extension = 7 then Some (process_Fig0s7 now d s)
      else if extension = 8 then process_fig0_loop d (subprocess_Fig0s8 now) s
      else if extension = 9 then Some (process_Fig0s9 now d s)
      else if extension = 10 then Some (process_Fig0s10 d s)
      else if extension = 13 then process_fig0_loop d (subprocess_Fig0s13 now) s
      else if extension = 14 then process_fig0_loop d (subprocess_Fig0s14 now) s
      else if extension = 15 then Some (process_Fig0s15 d s)
      else if extension = 17 then Some (process_Fig0s17 now d s)
      else if extension = 18 then Some (process_Fig0s18 d s)
      else if extension = 19 then Some (process_Fig0s19 d s)
      else Some (s\<lparr>fd_UnhandledFig0Set := insert extension (fd_UnhandledFig0Set s)\<rparr>))"

definition process_Fig0 :: "nat \<Rightarrow> bit_ptr \<Rightarrow> fib_decoder \<Rightarrow> fib_decoder option" where
  "process_Fig0 now d s =
     (let extension = unat (getBits_5 d (8 + 3))
      in case process_Fig0_extension now extension d s of
           None \<Rightarrow> None
         | Some s \<Rightarrow>
             if \<not> fd_RestartFibDecoding s \<and> fd_SIdForFastAudioSelection s > 0 \<and> (extension = 1 \<or> extension = 2)
             then Some (process_fast_audio_selection s)
             else Some s)"

end
