(* ===== verification/Fib_Decoder.thy ===== *)
theory Fib_Decoder
  imports Fib_Fig0_Si
begin

text \<open>
  The FIB decoder: labels (\<^verbatim>\<open>src/src/base/decoder/fib_decoder_fig1.cpp\<close>), the FIB loop, the timer slots
  that advance the loading state, and the queries of the user interface
  (\<^verbatim>\<open>src/src/base/decoder/fib_decoder.cpp\<close>).  Every operation is a function
  on the state.  The operations are atomic: most of them take the decoder's mutex; setting the service for fast
  audio selection, the slot of the second timer and the list of sub-channel ids take none, so the model orders them
  although the source does not.  A timer is stopped at once, where the source queues the stop for the thread
  of the timer.
\<close>

section \<open>FIG type 1\<close>

definition resize :: "nat \<Rightarrow> nat \<Rightarrow> qstring \<Rightarrow> qstring" where
  "resize n c xs = take n (xs @ replicate n c)"

text \<open>The label, or None for an unknown character set.\<close>

definition extract_character_set_label :: "qt_codec \<Rightarrow> bit_ptr \<Rightarrow> nat \<Rightarrow> SFig1_DataField option" where
  "extract_character_set_label qt d iLabelOffs =
     (let charset = uint (getBits_4 d 8)
      in if \<not> is_charset_valid charset then None
         else
           let label = map (\<lambda>i. unat (getBits_8 d (iLabelOffs + 8 * i))) [0..<16] @ [0];
               flags = getBits d (iLabelOffs + 16 * 8) 16;
               name = resize 16 32 (to_QString_using_charset qt label charset None);
               short = map (\<lambda>i. name ! i) (filter (\<lambda>i. flags AND push_bit (15 - i) 1 \<noteq> 0) [0..<16])
           in Some \<lparr>TimePoint = 0, TimePoint2ndCall = 0, df_Charset = charset, df_Name = name,
                    df_NameShort = resize 8 32 short, df_CharFlagField = unat flags\<rparr>)"

definition process_Fig1s0 :: "qt_codec \<Rightarrow> nat \<Rightarrow> bit_ptr \<Rightarrow> fib_decoder \<Rightarrow> fib_decoder" where
  "process_Fig1s0 qt now d s =
     (case extract_character_set_label qt d 32 of
        None \<Rightarrow> s
      | Some df \<Rightarrow>
          let fig1s0 = SFig1_DataField.extend df (SFig1s0.fields (unat (getBits d 16 16)))
          in if Fig1s0Vec (fd_Fig1 s) = []
             then emit (signal_name_of_ensemble (g0_EId fig1s0) (df_Name fig1s0) (df_NameShort fig1s0))
                    (s\<lparr>fd_Fig1 := (fd_Fig1 s)\<lparr>Fig1s0Vec := Fig1s0Vec (fd_Fig1 s) @ [set_current_time now fig1s0]\<rparr>\<rparr>)
             else s\<lparr>fd_Fig1 := (fd_Fig1 s)\<lparr>Fig1s0Vec := (Fig1s0Vec (fd_Fig1 s))
                      [0 := set_current_time_2nd_call now (Fig1s0Vec (fd_Fig1 s) ! 0)]\<rparr>\<rparr>)"

definition process_Fig1s1 :: "qt_codec \<Rightarrow> nat \<Rightarrow> bit_ptr \<Rightarrow> fib_decoder \<Rightarrow> fib_decoder" where
  "process_Fig1s1 qt now d s =
     (case extract_character_set_label qt d (16 + 16) of
        None \<Rightarrow> s
      | Some df \<Rightarrow>
          let SId = unat (getBits d 16 16);
              fig1s1 = SFig1_DataField.extend df (SFig1s1.fields SId)
          in (case get_Fig1s1_of_SId (fd_Fig1 s) SId of
               None \<Rightarrow> retrigger_timer_data_loaded_fast now
                 (s\<lparr>fd_Fig1 := (fd_Fig1 s)\<lparr>Fig1s1Vec := Fig1s1Vec (fd_Fig1 s) @ [set_current_time now fig1s1],
                    serviceLabel_To_SId_SCIdS_Map :=
                      try_emplace (df_Name fig1s1) (SId, - 1) (serviceLabel_To_SId_SCIdS_Map (fd_Fig1 s))\<rparr>\<rparr>)
             | Some _ \<Rightarrow> s\<lparr>fd_Fig1 := (fd_Fig1 s)\<lparr>Fig1s1Vec := update_first (\<lambda>e. g1_SId e = SId)
                 (set_current_time_2nd_call now) (Fig1s1Vec (fd_Fig1 s))\<rparr>\<rparr>))"

definition process_Fig1s4 :: "qt_codec \<Rightarrow> nat \<Rightarrow> bit_ptr \<Rightarrow> fib_decoder \<Rightarrow> fib_decoder" where
  "process_Fig1s4 qt now d s =
     (let PD_Flag = uint (getBits_1 d 16);
          SCIdS = uint (getBits_4 d 20);
          SId = unat (if PD_Flag \<noteq> 0 then getLBits d 24 32 else getLBits d 24 16);
          offset = (if PD_Flag \<noteq> 0 then 56 else 40)
      in case get_Fig1s4_of_SId_SCIdS (fd_Fig1 s) SId SCIdS of
           None \<Rightarrow>
             (case extract_character_set_label qt d offset of
                None \<Rightarrow> s
              | Some df \<Rightarrow>
                  let fig1s4 = SFig1_DataField.extend df (SFig1s4.fields PD_Flag SCIdS SId)
                  in retrigger_timer_data_loaded_slow now
                       (s\<lparr>fd_Fig1 := (fd_Fig1 s)\<lparr>Fig1s4Vec := Fig1s4Vec (fd_Fig1 s) @ [set_current_time now fig1s4],
                          serviceLabel_To_SId_SCIdS_Map :=
                            try_emplace (df_Name fig1s4) (SId, SCIdS) (serviceLabel_To_SId_SCIdS_Map (fd_Fig1 s))\<rparr>\<rparr>))
         | Some _ \<Rightarrow> s\<lparr>fd_Fig1 := (fd_Fig1 s)\<lparr>Fig1s4Vec := update_first (\<lambda>e. g4_SId e = SId \<and> g4_SCIdS e = SCIdS)
             (set_current_time_2nd_call now) (Fig1s4Vec (fd_Fig1 s))\<rparr>\<rparr>)"

definition process_Fig1s5 :: "qt_codec \<Rightarrow> nat \<Rightarrow> bit_ptr \<Rightarrow> fib_decoder \<Rightarrow> fib_decoder" where
  "process_Fig1s5 qt now d s =
     (let SId = unat (getLBits d 16 32)
      in case get_Fig1s5_of_SId (fd_Fig1 s) SId of
           None \<Rightarrow>
             (case extract_character_set_label qt d 48 of
                None \<Rightarrow> s
              | Some df \<Rightarrow>
                  let fig1s5 = SFig1_DataField.extend df (SFig1s5.fields SId)
                  in retrigger_timer_data_loaded_slow now
                       (s\<lparr>fd_Fig1 := (fd_Fig1 s)\<lparr>Fig1s5Vec := Fig1s5Vec (fd_Fig1 s) @ [set_current_time now fig1s5],
                          serviceLabel_To_SId_SCIdS_Map :=
                            try_emplace (df_Name fig1s5) (SId, - 5) (serviceLabel_To_SId_SCIdS_Map (fd_Fig1 s))\<rparr>\<rparr>))
         | Some _ \<Rightarrow> s\<lparr>fd_Fig1 := (fd_Fig1 s)\<lparr>Fig1s5Vec := update_first (\<lambda>e. g5_SId e = SId)
             (set_current_time_2nd_call now) (Fig1s5Vec (fd_Fig1 s))\<rparr>\<rparr>)"

definition process_Fig1 :: "qt_codec \<Rightarrow> nat \<Rightarrow> bit_ptr \<Rightarrow> fib_decoder \<Rightarrow> fib_decoder" where
  "process_Fig1 qt now d s =
     (let extension = unat (getBits_3 d (8 + 5))
      in if extension = 0 then process_Fig1s0 qt now d s
         else if extension = 1 then process_Fig1s1 qt now d s
         else if extension = 4 then process_Fig1s4 qt now d s
         else if extension = 5 then process_Fig1s5 qt now d s
         else s\<lparr>fd_UnhandledFig1Set := insert extension (fd_UnhandledFig1Set s)\<rparr>)"

section \<open>The FIB loop\<close>

function process_figs :: "qt_codec \<Rightarrow> nat \<Rightarrow> bit_ptr \<Rightarrow> nat \<Rightarrow> fib_decoder \<Rightarrow> fib_decoder option" where
  "process_figs qt now iFibBits processedBytes s =
     (if processedBytes < 30
      then
        let d = (\<lambda>i. iFibBits (processedBytes * 8 + i));
            figType = unat (getBits_3 d 0);
            figLength = unat (getBits_5 d 3)
        in if figType = 7 \<and> figLength = 31 then Some s
           else
             case (if figType = 0 then process_Fig0 now d s
                   else if figType = 1 then Some (process_Fig1 qt now d s)
                   else Some s) of
               None \<Rightarrow> None
             | Some s \<Rightarrow>
                 if fd_RestartFibDecoding s then Some s
                 else process_figs qt now iFibBits (processedBytes + figLength + 1) s
      else Some s)"
  by pat_completeness auto
termination by (relation "measure (\<lambda>(_, _, _, n, _). 30 - n)") auto

declare process_figs.simps [simp del]

definition process_FIB :: "qt_codec \<Rightarrow> nat \<Rightarrow> bit_ptr \<Rightarrow> fib_decoder \<Rightarrow> fib_decoder option" where
  "process_FIB qt now iFibBits s =
     (let s = (if fd_FirstFigTimePoint s = 0 then s\<lparr>fd_FirstFigTimePoint := now\<rparr> else s)
      in process_figs qt now iFibBits 0 (s\<lparr>fd_RestartFibDecoding := False\<rparr>))"

section \<open>Service data\<close>

text \<open>The fields of an audio service that come from FIG 0/1 and 0/2, without the label.\<close>

definition new_SAudioData :: SAudioData where
  "new_SAudioData = \<lparr>sd_isDefined = False, sd_TMId = StreamModeAudio, sd_SId = 0, sd_SubChId = 0, sd_CuStartAddr = 0,
     sd_CuSize = 0, sd_shortForm = False, sd_protLevel = 0, sd_bitRate = 0, sd_serviceLabel = [],
     sd_serviceLabelShort = [], ad_ASCTy = 0\<rparr>"

text \<open>
  The source returns whether the data is complete and fills its output argument when there is one.
  Without an output argument the label is required too.
\<close>

definition audio_complete :: "fib_decoder \<Rightarrow> SFig0s2 \<Rightarrow> bool \<Rightarrow> bool" where
  "audio_complete s iFig0s2 withOutput \<longleftrightarrow>
     s2_PD_Flag iFig0s2 = 0 \<and>
     get_Fig0s1_of_SubChId (fd_Curr s) (int (ref_SubChId (sc_ref (s2_ServiceComp_C iFig0s2)))) \<noteq> None \<and>
     (withOutput \<or> get_Fig1s1_of_SId (fd_Fig1 s) (s2_SId iFig0s2 mod 2 ^ 16) \<noteq> None)"

definition get_audio_data :: "fib_decoder \<Rightarrow> SFig0s2 \<Rightarrow> SAudioData \<Rightarrow> SAudioData" where
  "get_audio_data s iFig0s2 ad =
     (let ad = ad\<lparr>sd_isDefined := False\<rparr>;
          SubChId = ref_SubChId (sc_ref (s2_ServiceComp_C iFig0s2));
          SId = s2_SId iFig0s2 mod 2 ^ 16
      in if s2_PD_Flag iFig0s2 \<noteq> 0 then ad
         else case get_Fig0s1_of_SubChId (fd_Curr s) (int SubChId) of
           None \<Rightarrow> ad
         | Some e \<Rightarrow>
             let ad = (case get_Fig1s1_of_SId (fd_Fig1 s) SId of
                         None \<Rightarrow> ad
                       | Some l \<Rightarrow> ad\<lparr>sd_serviceLabel := df_Name l, sd_serviceLabelShort := df_NameShort l\<rparr>)
             in ad\<lparr>sd_SId := of_nat SId, sd_SubChId := int SubChId, sd_CuStartAddr := s1_StartAddr e,
                   sd_shortForm := s1_ShortForm e, sd_protLevel := s1_ProtectionLevel e,
                   sd_CuSize := s1_SubChannelSize e, sd_bitRate := s1_BitRate e,
                   ad_ASCTy := int (ref_ASCTy (sc_ref (s2_ServiceComp_C iFig0s2))), sd_isDefined := True\<rparr>)"

definition get_data_for_audio_service :: "fib_decoder \<Rightarrow> nat \<Rightarrow> SAudioData \<Rightarrow> SAudioData" where
  "get_data_for_audio_service s iSId oAD =
     (let oAD = oAD\<lparr>sd_isDefined := False\<rparr>
      in if fd_FibLoadingState s < S1_FastAudioDataLoaded then oAD
         else case get_Fig0s2_of_SId_TMId (fd_Curr s) iSId 0 of
                None \<Rightarrow> oAD
              | Some e \<Rightarrow> get_audio_data s e oAD)"

definition get_data_for_audio_service_addon :: "fib_decoder \<Rightarrow> nat \<Rightarrow> SAudioDataAddOns \<Rightarrow> SAudioDataAddOns" where
  "get_data_for_audio_service_addon s iSId oADAO =
     (case get_Fig0s2_of_SId_TMId (fd_Curr s) iSId 0 of
        None \<Rightarrow> oADAO
      | Some e \<Rightarrow>
          if s2_PD_Flag e \<noteq> 0 then oADAO
          else
            oADAO\<lparr>aa_language := map_option (\<lambda>l. int (s5_Language l))
                    (get_Fig0s5_of_SubChId (fd_Curr s) (int (ref_SubChId (sc_ref (s2_ServiceComp_C e))))),
                  aa_programType := map_option s17_IntCode (get_Fig0s17_of_SId (fd_Curr s) (s2_SId e))\<rparr>)"

definition get_xpad_user_apps_of_audio_service :: "fib_decoder \<Rightarrow> nat \<Rightarrow> SXPadUserApp list" where
  "get_xpad_user_apps_of_audio_service s iSId =
     (case get_Fig0s2_of_SId_TMId (fd_Curr s) iSId 0 of
        None \<Rightarrow> []
      | Some e \<Rightarrow>
          let SCIdS = (case get_Fig0s8_of_SId_with_SubChId (fd_Curr s) iSId of
                         None \<Rightarrow> 0
                       | Some g \<Rightarrow> if s8_SubChId g = int (ref_SubChId (sc_ref (s2_ServiceComp_C e))) then s8_SCIdS g else 0)
          in (case get_Fig0s13_of_SId_SCIdS (fd_Curr s) iSId SCIdS of
               None \<Rightarrow> []
             | Some u \<Rightarrow>
                 concat (map (\<lambda>app. case ua_XPadData app of
                     None \<Rightarrow> []
                   | Some x \<Rightarrow> [\<lparr>xp_UserAppType = ua_UserAppType app, xp_XPadAppTy = xd_XPadAppTy x,
                                 xp_DSCTy = xd_DSCTy x, xp_DataGroupsUsed = (xd_DG_Flag x = 0)\<rparr>])
                   (take (min (nat (s13_NumUserApps u)) (length (s13_UserAppVec u))) (s13_UserAppVec u)))))"

definition new_SPacketData :: SPacketData where
  "new_SPacketData = \<lparr>sd_isDefined = False, sd_TMId = PacketModeData, sd_SId = 0, sd_SubChId = 0, sd_CuStartAddr = 0,
     sd_CuSize = 0, sd_shortForm = False, sd_protLevel = 0, sd_bitRate = 0, sd_serviceLabel = [],
     sd_serviceLabelShort = [], pd_DSCTy = 0, pd_FEC_scheme = 0, pd_DGflag = 0, pd_appTypeVec = [],
     pd_PacketAddress = 0, pd_SCIdS = 0, pd_language = None\<rparr>"

text \<open>The data of one packet component, None when some of it is missing.\<close>

definition get_packet_data :: "fib_decoder \<Rightarrow> SFig0s2 \<Rightarrow> nat \<Rightarrow> SPacketData option" where
  "get_packet_data s iFig0s2 iCompIdx =
     (if iCompIdx \<ge> cNumServiceCompMax then None else
      let SCId = int (ref_SCId (sc_ref (s2_ServiceComp_C iFig0s2)));
          SId = s2_SId iFig0s2
      in (case get_Fig0s3_of_SCId (fd_Curr s) SCId of None \<Rightarrow> None | Some fig0s3 \<Rightarrow>
      (case get_Fig0s1_of_SubChId (fd_Curr s) (s3_SubChId fig0s3) of None \<Rightarrow> None | Some fig0s1 \<Rightarrow>
      (case get_Fig0s8_of_SId_with_SCId (fd_Curr s) SId of None \<Rightarrow> None | Some fig0s8 \<Rightarrow>
      (case get_Fig0s13_of_SId_SCIdS (fd_Curr s) SId (s8_SCIdS fig0s8) of None \<Rightarrow> None | Some fig0s13 \<Rightarrow>
      if s13_NumUserApps fig0s13 < 1 then None else
      (case (if sc_PS_Flag (s2_ServiceComp_C iFig0s2) = 0
            then map_option (\<lambda>l. (df_Name l, df_NameShort l)) (get_Fig1s4_of_SId_SCIdS (fd_Fig1 s) SId (s8_SCIdS fig0s8))
            else map_option (\<lambda>l. (df_Name l, df_NameShort l)) (get_Fig1s5_of_SId (fd_Fig1 s) SId)) of
        None \<Rightarrow> None
      | Some (label, short) \<Rightarrow>
          Some (new_SPacketData\<lparr>sd_SId := of_nat SId, pd_SCIdS := s8_SCIdS fig0s8, sd_SubChId := s3_SubChId fig0s3,
            sd_CuStartAddr := s1_StartAddr fig0s1, sd_shortForm := s1_ShortForm fig0s1,
            sd_protLevel := s1_ProtectionLevel fig0s1, sd_CuSize := s1_SubChannelSize fig0s1,
            sd_bitRate := s1_BitRate fig0s1,
            pd_FEC_scheme := (case get_Fig0s14_of_SubChId (fd_Curr s) (s3_SubChId fig0s3) of
                                None \<Rightarrow> 0 | Some e \<Rightarrow> s14_FEC_scheme e),
            pd_DSCTy := s3_DSCTy fig0s3, pd_DGflag := s3_DG_Flag fig0s3, pd_PacketAddress := s3_PacketAddress fig0s3,
            pd_appTypeVec :=
              (let apps = map ua_UserAppType
                     (take (min (nat (s13_NumUserApps fig0s13)) (length (s13_UserAppVec fig0s13))) (s13_UserAppVec fig0s13))
               in if apps = [] then [- 1] else apps),
            pd_language := map_option (\<lambda>l. int (s5_Language l)) (get_Fig0s5_of_SCId (fd_Curr s) SCId),
            sd_isDefined := True, sd_serviceLabel := label, sd_serviceLabelShort := short\<rparr>)))))))"

fun packet_loop :: "fib_decoder \<Rightarrow> nat \<Rightarrow> nat list \<Rightarrow> int \<Rightarrow> SPacketData list \<Rightarrow> SPacketData list" where
  "packet_loop s iSId [] numComp out = out"
| "packet_loop s iSId (compIdx # rest) numComp out =
     (if numComp > 0 \<and> int compIdx \<ge> numComp then out
      else case get_Fig0s2_of_SId_ScIdx (fd_Curr s) iSId (int compIdx) of
             None \<Rightarrow> packet_loop s iSId rest numComp out
           | Some e \<Rightarrow>
               if sc_TMId (s2_ServiceComp_C e) \<noteq> 3 then packet_loop s iSId rest numComp out
               else if numComp > 0 \<and> numComp \<noteq> s2_NumServiceComp e then packet_loop s iSId rest numComp out
               else
                 let numComp = s2_NumServiceComp e
                 in if numComp \<le> 0 then packet_loop s iSId rest numComp out
                    else (case get_packet_data s e compIdx of
                           None \<Rightarrow> packet_loop s iSId rest numComp out
                         | Some pd \<Rightarrow> packet_loop s iSId rest numComp (out @ [pd])))"

definition get_data_for_packet_service :: "fib_decoder \<Rightarrow> nat \<Rightarrow> SPacketData list \<Rightarrow> SPacketData list" where
  "get_data_for_packet_service s iSId oPDVec =
     (if fd_FibLoadingState s < S4_FullyPacketDataLoaded then oPDVec
      else packet_loop s iSId [0..<cNumServiceCompMax] 0 oPDVec)"

section \<open>Other queries\<close>

record SServiceId =
  si_serviceLabel :: qstring
  si_SId :: nat
  si_isAudioChannel :: bool
  si_hasSpiEpgData :: bool

definition get_service_list :: "fib_decoder \<Rightarrow> SServiceId list" where
  "get_service_list s =
     map (\<lambda>(label, SId, SCIdS). \<lparr>si_serviceLabel = label, si_SId = SId,
            si_isAudioChannel = (get_Fig0s2_of_SId_TMId (fd_Curr s) SId 0 \<noteq> None), si_hasSpiEpgData = False\<rparr>)
       (filter (\<lambda>(label, SId, SCIdS). SCIdS \<le> 0) (serviceLabel_To_SId_SCIdS_Map (fd_Fig1 s)))"

definition get_service_label_from_SId_SCIdS :: "fib_decoder \<Rightarrow> nat \<Rightarrow> int \<Rightarrow> qstring" where
  "get_service_label_from_SId_SCIdS s iSId iSCIdS =
     (case get_Fig1s4_of_SId_SCIdS (fd_Fig1 s) iSId iSCIdS of None \<Rightarrow> [] | Some e \<Rightarrow> df_Name e)"

definition get_SId_SCIdS_from_service_label :: "fib_decoder \<Rightarrow> qstring \<Rightarrow> nat \<times> int" where
  "get_SId_SCIdS_from_service_label s iServiceLabel =
     (case get_SId_SCIdS_of_label (fd_Fig1 s) iServiceLabel of
        None \<Rightarrow> (0, 0)
      | Some (SId, SCIdS) \<Rightarrow> if SId = 0 then (0, 0) else (SId, SCIdS))"

definition get_EId :: "fib_decoder \<Rightarrow> nat" where
  "get_EId s = (if Fig1s0Vec (fd_Fig1 s) \<noteq> [] then g0_EId (Fig1s0Vec (fd_Fig1 s) ! 0) else 0)"

definition get_ensemble_name :: "fib_decoder \<Rightarrow> qstring" where
  "get_ensemble_name s = (if Fig1s0Vec (fd_Fig1 s) \<noteq> [] then df_Name (Fig1s0Vec (fd_Fig1 s) ! 0) else [32])"

definition get_sub_channel_id_list :: "fib_decoder \<Rightarrow> int list" where
  "get_sub_channel_id_list s = map s1_SubChId (Fig0s1Vec (fd_Curr s))"

definition get_ecc :: "fib_decoder \<Rightarrow> nat" where
  "get_ecc s = (case get_Fig0s9 (fd_Curr s) of None \<Rightarrow> 0 | Some e \<Rightarrow> s9_Ensemble_ECC e)"

record SChannelData =
  cd_in_use :: bool
  cd_id :: int
  cd_start_cu :: int
  cd_uepFlag :: bool
  cd_protlev :: int
  cd_size :: int
  cd_bitrate :: int

definition get_sub_channel_info :: "fib_decoder \<Rightarrow> int \<Rightarrow> SChannelData" where
  "get_sub_channel_info s iSubChId =
     (let found = get_Fig0s1_of_SubChId (fd_Curr s) iSubChId;
          scd = (case found of Some e \<Rightarrow> e | None \<Rightarrow> empty_Fig0s1)
      in \<lparr>cd_in_use = (found \<noteq> None), cd_id = s1_SubChId scd, cd_start_cu = s1_StartAddr scd,
          cd_uepFlag = s1_ShortForm scd, cd_protlev = s1_ProtectionLevel scd, cd_size = s1_SubChannelSize scd,
          cd_bitrate = s1_BitRate scd\<rparr>)"

section \<open>Completeness checks and timers\<close>

definition check_audio_data_completeness :: "fib_decoder \<Rightarrow> bool" where
  "check_audio_data_completeness s \<longleftrightarrow>
     fd_FibLoadingState s = S2_PrimaryBaseDataLoaded \<and>
     (let audio = filter (\<lambda>e. sc_TMId (s2_ServiceComp_C e) = 0) (Fig0s2Vec (fd_Curr s))
      in list_all (\<lambda>e. audio_complete s e False) audio \<and> audio \<noteq> [])"

definition check_packet_data_completeness :: "fib_decoder \<Rightarrow> bool" where
  "check_packet_data_completeness s \<longleftrightarrow>
     fd_FibLoadingState s = S3_FullyAudioDataLoaded \<and>
     list_all (\<lambda>e. list_all (\<lambda>compIdx. get_packet_data s e compIdx \<noteq> None) [0..<nat (s2_NumServiceComp e)])
       (filter (\<lambda>e. sc_TMId (s2_ServiceComp_C e) = 3) (Fig0s2Vec (fd_Curr s)))"

definition slot_timer_data_consistency_check :: "fib_decoder \<Rightarrow> fib_decoder" where
  "slot_timer_data_consistency_check s =
     (let s = (if fd_FibLoadingState s \<le> S2_PrimaryBaseDataLoaded
               then
                 let s = s\<lparr>fd_FibLoadingState := S2_PrimaryBaseDataLoaded\<rparr>
                 in if check_audio_data_completeness s
                    then emit (signal_fib_loaded_state S3_FullyAudioDataLoaded)
                           (s\<lparr>fd_FibLoadingState := S3_FullyAudioDataLoaded\<rparr>)
                    else s
               else s)
      in if fd_FibLoadingState s = S3_FullyAudioDataLoaded \<and> check_packet_data_completeness s
         then emit (signal_fib_loaded_state S4_FullyPacketDataLoaded)
                (s\<lparr>fd_FibLoadingState := S4_FullyPacketDataLoaded\<rparr>)
         else s)"

definition slot_timer_check_state_and_print_FIGs :: "fib_decoder \<Rightarrow> fib_decoder" where
  "slot_timer_check_state_and_print_FIGs s =
     (let s = (if fd_FibLoadingState s < S3_FullyAudioDataLoaded
               then emit (signal_fib_loaded_state S3_FullyAudioDataLoaded)
                      (s\<lparr>fd_FibLoadingState := S3_FullyAudioDataLoaded\<rparr>)
               else s)
      in if fd_FibLoadingState s < S4_FullyPacketDataLoaded
         then emit (signal_fib_loaded_state S4_FullyPacketDataLoaded)
                (s\<lparr>fd_FibLoadingState := S4_FullyPacketDataLoaded\<rparr>)
         else s)"

section \<open>The decoder as a transition system\<close>

text \<open>
  Events: a FIB arrives, a running single-shot timer fires, the user interface connects, disconnects
  or selects a service.  A FIB is an array of bits.
\<close>

definition fib_bits :: "bit_ptr \<Rightarrow> bool" where
  "fib_bits bits \<longleftrightarrow> (\<forall>i. bits i \<le> 1)"

inductive fib_step :: "qt_codec \<Rightarrow> fib_decoder \<Rightarrow> fib_decoder \<Rightarrow> bool" for qt where
  step_FIB: "fib_bits bits \<Longrightarrow> process_FIB qt now bits s = Some s' \<Longrightarrow> fib_step qt s s'"
| step_timer1: "fd_TimerDataConsistencyCheck s \<Longrightarrow>
    fib_step qt s (slot_timer_data_consistency_check (s\<lparr>fd_TimerDataConsistencyCheck := False\<rparr>))"
| step_timer2: "fd_TimerCheckStateAndPrintFigs s \<Longrightarrow>
    fib_step qt s (slot_timer_check_state_and_print_FIGs (s\<lparr>fd_TimerCheckStateAndPrintFigs := False\<rparr>))"
| step_connect: "fib_step qt s (connect_channel s)"
| step_disconnect: "fib_step qt s (disconnect_channel s)"
| step_select: "fib_step qt s (set_SId_for_fast_audio_selection sid s)"

inductive fib_reachable :: "qt_codec \<Rightarrow> fib_decoder \<Rightarrow> bool" for qt where
  start: "fib_reachable qt FibDecoder"
| step: "fib_reachable qt s \<Longrightarrow> fib_step qt s s' \<Longrightarrow> fib_reachable qt s'"

end
