(* ===== verification/Fib_Invariant.thy ===== *)
theory Fib_Invariant
  imports Fib_Decoder
begin

text \<open>
  The invariant of the collected FIB content: unique keys in the vectors that are searched by key,
  sub-channels that lie inside a CIF and do not overlap, well-formed entries; every handler keeps it,
  and the loops of the decoder end.
\<close>

section \<open>Vectors searched by key\<close>

text \<open>
  The handlers treat their vectors alike: an unknown key is appended with its time of arrival, a known
  one only has the time of its second arrival noted.
\<close>

locale keyed_vector =
  fixes key :: "'a SFigBase_scheme \<Rightarrow> 'k"
  assumes key_first: "key (set_current_time now e) = key e"
    and key_second: "key (set_current_time_2nd_call now e) = key e"
begin

lemma keys_touch: "map key (update_first P (set_current_time_2nd_call now) xs) = map key xs"
  by (rule map_update_first) (rule key_second)

lemma keys_append:
  assumes "find (\<lambda>e. key e = k) xs = None" and "key e = k"
  shows "distinct (map key (xs @ [set_current_time now e])) = distinct (map key xs)"
proof -
  have "\<not> (\<exists>e. e \<in> set xs \<and> key e = k)" using assms(1) by (simp only: find_None_iff simp_thms)
  then show ?thesis using assms(2) by (auto simp: key_first)
qed

lemma found_after_append:
  "find (\<lambda>e. key e = k) xs = None \<Longrightarrow> key e = k \<Longrightarrow>
    find (\<lambda>e. key e = k) (xs @ [set_current_time now e]) = Some (set_current_time now e)"
  by (induction xs) (auto simp: key_first split: if_splits)

lemma found_after_touch:
  "find (\<lambda>e. key e = k) xs = Some e \<Longrightarrow>
    find (\<lambda>e. key e = k) (update_first (\<lambda>e. key e = k) (set_current_time_2nd_call now) xs) =
      Some (set_current_time_2nd_call now e)"
  by (induction xs) (auto simp: key_second split: if_splits)

end

lemma time_fields [simp]:
  "s1_SubChId (set_current_time now e1) = s1_SubChId e1"
  "s1_SubChId (set_current_time_2nd_call now e1) = s1_SubChId e1"
  by (simp_all add: set_current_time_def set_current_time_2nd_call_def)

interpretation fig0s1: keyed_vector s1_SubChId
  by unfold_locales simp_all

interpretation fig0s2: keyed_vector "\<lambda>e. (s2_SId e, s2_ServiceComp_C_index e)"
  by unfold_locales (simp_all add: set_current_time_def set_current_time_2nd_call_def)

interpretation fig0s3: keyed_vector s3_SCId
  by unfold_locales (simp_all add: set_current_time_def set_current_time_2nd_call_def)

interpretation fig0s8: keyed_vector "\<lambda>e. (s8_SId e, s8_SCIdS e)"
  by unfold_locales (simp_all add: set_current_time_def set_current_time_2nd_call_def)

interpretation fig0s14: keyed_vector s14_SubChId
  by unfold_locales (simp_all add: set_current_time_def set_current_time_2nd_call_def)

interpretation fig0s17: keyed_vector s17_SId
  by unfold_locales (simp_all add: set_current_time_def set_current_time_2nd_call_def)

interpretation fig1s1: keyed_vector g1_SId
  by unfold_locales (simp_all add: set_current_time_def set_current_time_2nd_call_def)

interpretation fig1s4: keyed_vector "\<lambda>e. (g4_SId e, g4_SCIdS e)"
  by unfold_locales (simp_all add: set_current_time_def set_current_time_2nd_call_def)

interpretation fig1s5: keyed_vector g5_SId
  by unfold_locales (simp_all add: set_current_time_def set_current_time_2nd_call_def)

section \<open>Sub-channels\<close>

definition disjoint_cu :: "SFig0s1 \<Rightarrow> SFig0s1 \<Rightarrow> bool" where
  "disjoint_cu e f \<longleftrightarrow> s1_SubChannelSize e = 0 \<or> s1_SubChannelSize f = 0 \<or>
     s1_StartAddr e + s1_SubChannelSize e \<le> s1_StartAddr f \<or>
     s1_StartAddr f + s1_SubChannelSize f \<le> s1_StartAddr e"

text \<open>What FIG 0/1 says about the protection of a sub-channel.\<close>

definition profile_ok :: "SFig0s1 \<Rightarrow> bool" where
  "profile_ok e \<longleftrightarrow>
     (if s1_ShortForm e
      then (s1_SubChannelSize e, s1_ProtectionLevel e, s1_BitRate e) \<in> set cProtLevelTable
      else 0 \<le> s1_Option e \<and> s1_Option e < 8 \<and> 0 \<le> s1_ProtectionLevel e \<and>
        (if s1_Option e = 0
         then s1_ProtectionLevel e < 4 \<and>
           s1_BitRate e = s1_SubChannelSize e div ([12, 8, 6, 4] ! nat (s1_ProtectionLevel e)) * 8
         else if s1_Option e = 1
         then 4 \<le> s1_ProtectionLevel e \<and> s1_ProtectionLevel e < 8 \<and>
           s1_BitRate e = s1_SubChannelSize e div ([27, 21, 18, 15] ! nat (s1_ProtectionLevel e - 4)) * 32
         else s1_ProtectionLevel e < 4 \<and> s1_BitRate e = - 1))"

definition subchannel_ok :: "SFig0s1 \<Rightarrow> bool" where
  "subchannel_ok e \<longleftrightarrow> 0 \<le> s1_SubChId e \<and> s1_SubChId e < 64 \<and> 0 \<le> s1_StartAddr e \<and> 0 \<le> s1_SubChannelSize e \<and>
     s1_StartAddr e + s1_SubChannelSize e \<le> cNumCuPerCif \<and> profile_ok e"

definition subchannels_ok :: "SFig0s1 list \<Rightarrow> bool" where
  "subchannels_ok xs \<longleftrightarrow> distinct (map s1_SubChId xs) \<and> list_all subchannel_ok xs \<and> sorted_wrt disjoint_cu xs"

lemma uint_less_int: "unat x < n \<Longrightarrow> uint x < int n"
  unfolding uint_nat by (simp only: of_nat_less_iff)

lemma bit_range:
  assumes "fib_bits d"
  shows "uint (getBits_1 d p) \<in> {0, 1}" "uint (getBits_2 d p) < 4" "uint (getBits_3 d p) < 8" "uint (getBits_4 d p) < 16"
    "uint (getBits_5 d p) < 32" "uint (getBits_6 d p) < 64" "n \<le> 16 \<Longrightarrow> uint (getBits d p n) < 2 ^ n"
proof -
  have b: "is_bits d p n" for n using assms by (simp add: fib_bits_def is_bits_def)
  have r: "unat (getBits_byte d p n) < 2 ^ n" if "n \<le> 8" for n using byte_reader.rd_bound [OF that b] .
  have u: "uint (getBits_byte d p n) < int (2 ^ n)" if "n \<le> 8" for n by (rule uint_less_int [OF r [OF that]])
  note uu = u [of 1] u [of 2] u [of 3] u [of 4] u [of 5] u [of 6]
  show "uint (getBits_2 d p) < 4" "uint (getBits_3 d p) < 8" "uint (getBits_4 d p) < 16"
    "uint (getBits_5 d p) < 32" "uint (getBits_6 d p) < 64"
    using uu unfolding unrolled_readers by simp_all
  have "0 \<le> uint (getBits_1 d p)" "uint (getBits_1 d p) < 2" using uu(1) unfolding unrolled_readers by simp_all
  then have "uint (getBits_1 d p) = 0 \<or> uint (getBits_1 d p) = 1" by linarith
  then show "uint (getBits_1 d p) \<in> {0, 1}" by (simp only: insert_iff empty_iff simp_thms)
  show "uint (getBits d p n) < 2 ^ n" if "n \<le> 16"
    using uint_less_int [OF short_reader.rd_bound [OF that b]] by simp
qed

lemma length_cProtLevelTable: "length cProtLevelTable = 64"
  by (simp add: cProtLevelTable_def)

lemma cProtLevelTable_pos: "\<forall>(c, l, b)\<in>set cProtLevelTable. 0 < c \<and> c \<le> 864 \<and> 0 < b"
  by (simp add: cProtLevelTable_def)

lemma parse_Fig0s1_ok:
  assumes "fib_bits d"
  shows "s1_SubChId (fst (parse_Fig0s1 d b)) = uint (getBits_6 d b)"
    and "0 \<le> s1_StartAddr (fst (parse_Fig0s1 d b))" and "0 \<le> s1_SubChannelSize (fst (parse_Fig0s1 d b))"
    and "profile_ok (fst (parse_Fig0s1 d b))" and "b + 24 \<le> snd (parse_Fig0s1 d b)"
proof -
  note r = bit_range [OF assms]
  obtain c l r' where row: "cProtLevelTable ! unat (getBits_6 d (b + 18)) = (c, l, r')" by (metis prod.exhaust)
  have "unat (getBits_6 d (b + 18)) < 64" using r(6) [of "b + 18"] unfolding uint_nat by linarith
  then have mem: "(c, l, r') \<in> set cProtLevelTable" using row nth_mem [of _ cProtLevelTable] length_cProtLevelTable by metis
  then have "0 < c" using cProtLevelTable_pos by fast
  have l4: "uint (getBits_2 d (b + 20)) < 4" and o8: "uint (getBits_3 d (b + 17)) < 8" using r by simp_all
  show "s1_SubChId (fst (parse_Fig0s1 d b)) = uint (getBits_6 d b)"
    and "0 \<le> s1_StartAddr (fst (parse_Fig0s1 d b))" and "b + 24 \<le> snd (parse_Fig0s1 d b)"
    by (simp_all add: parse_Fig0s1_def Let_def row)
  show "0 \<le> s1_SubChannelSize (fst (parse_Fig0s1 d b))"
    using \<open>0 < c\<close> by (simp add: parse_Fig0s1_def Let_def row)
  show "profile_ok (fst (parse_Fig0s1 d b))"
    using mem l4 o8 by (simp add: parse_Fig0s1_def Let_def row profile_ok_def empty_Fig0s1_def)
qed

lemma not_colliding:
  assumes "find_colliding_Fig0s1 xs e = None" and "list_all subchannel_ok xs"
  shows "\<forall>f\<in>set xs. disjoint_cu f e"
proof
  fix f assume f: "f \<in> set xs"
  then have "\<not> collides e f" using assms(1) by (auto simp: find_colliding_Fig0s1_def find_None_iff)
  moreover have "subchannel_ok f" using assms(2) f by (simp add: list_all_iff)
  ultimately show "disjoint_cu f e" by (auto simp: collides_def disjoint_cu_def subchannel_ok_def)
qed

lemma subchannel_time [simp]:
  "subchannel_ok (set_current_time now e) = subchannel_ok e"
  "subchannel_ok (set_current_time_2nd_call now e) = subchannel_ok e"
  "disjoint_cu f (set_current_time now e) = disjoint_cu f e"
  "disjoint_cu f (set_current_time_2nd_call now e) = disjoint_cu f e"
  "disjoint_cu (set_current_time_2nd_call now f) e = disjoint_cu f e"
  by (simp_all add: subchannel_ok_def disjoint_cu_def profile_ok_def set_current_time_def set_current_time_2nd_call_def)

lemma subchannels_append:
  assumes "subchannels_ok xs" and "subchannel_ok e" and "find_colliding_Fig0s1 xs e = None"
    and "find (\<lambda>f. s1_SubChId f = s1_SubChId e) xs = None"
  shows "subchannels_ok (xs @ [set_current_time now e])"
  using assms not_colliding [OF assms(3)] fig0s1.keys_append [OF assms(4) refl, of now]
  by (simp add: subchannels_ok_def sorted_wrt_append)

lemma subchannels_touch:
  assumes "subchannels_ok xs"
  shows "subchannels_ok (update_first P (set_current_time_2nd_call now) xs)"
proof -
  have all: "list_all subchannel_ok (update_first P (set_current_time_2nd_call now) xs) = list_all subchannel_ok xs" for xs
    by (induction xs) auto
  have one: "(\<forall>f\<in>set (update_first P (set_current_time_2nd_call now) xs). disjoint_cu e f) = (\<forall>f\<in>set xs. disjoint_cu e f)" for e xs
    by (induction xs) auto
  have "sorted_wrt disjoint_cu (update_first P (set_current_time_2nd_call now) xs) = sorted_wrt disjoint_cu xs" for xs
    by (induction xs) (auto simp: one)
  then show ?thesis using assms by (simp add: subchannels_ok_def all fig0s1.keys_touch)
qed

section \<open>The invariant\<close>

definition component_ok :: "SFig0s2 \<Rightarrow> bool" where
  "component_ok e \<longleftrightarrow>
     (sc_TMId (s2_ServiceComp_C e) = 0 \<longrightarrow> (\<exists>n a. sc_ref (s2_ServiceComp_C e) = TMId00 n a)) \<and>
     (sc_TMId (s2_ServiceComp_C e) = 3 \<longrightarrow> (\<exists>n. sc_ref (s2_ServiceComp_C e) = TMId11 n))"

definition user_apps_ok :: "SFig0s13 \<Rightarrow> bool" where
  "user_apps_ok e \<longleftrightarrow> 24 \<le> s13_SizeBits e \<and> 8 dvd s13_SizeBits e \<and>
     0 \<le> s13_NumUserApps e \<and> s13_NumUserApps e \<le> 6 \<and> length (s13_UserAppVec e) = 6"

definition conf_inv :: "FibConfigFig0 \<Rightarrow> bool" where
  "conf_inv c \<longleftrightarrow> subchannels_ok (Fig0s1Vec c) \<and>
     (distinct (map (\<lambda>e. (s2_SId e, s2_ServiceComp_C_index e)) (Fig0s2Vec c)) \<and> list_all component_ok (Fig0s2Vec c)) \<and>
     distinct (map s3_SCId (Fig0s3Vec c)) \<and> length (Fig0s7Vec c) \<le> 1 \<and>
     distinct (map (\<lambda>e. (s8_SId e, s8_SCIdS e)) (Fig0s8Vec c)) \<and> length (Fig0s9Vec c) \<le> 1 \<and>
     list_all user_apps_ok (Fig0s13Vec c) \<and> distinct (map s14_SubChId (Fig0s14Vec c)) \<and>
     distinct (map s17_SId (Fig0s17Vec c)) \<and> length (mClusterTable c) = 128"

definition label_ok :: "'a SFig1_DataField_scheme \<Rightarrow> bool" where
  "label_ok e \<longleftrightarrow> length (df_Name e) = 16 \<and> length (df_NameShort e) = 8"

definition labels_inv :: "FibConfigFig1 \<Rightarrow> bool" where
  "labels_inv c \<longleftrightarrow> (length (Fig1s0Vec c) \<le> 1 \<and> list_all label_ok (Fig1s0Vec c)) \<and>
     (distinct (map g1_SId (Fig1s1Vec c)) \<and> list_all label_ok (Fig1s1Vec c)) \<and>
     (distinct (map (\<lambda>e. (g4_SId e, g4_SCIdS e)) (Fig1s4Vec c)) \<and> list_all label_ok (Fig1s4Vec c)) \<and>
     (distinct (map g5_SId (Fig1s5Vec c)) \<and> list_all label_ok (Fig1s5Vec c)) \<and>
     sorted_wrt qstring_less (map fst (serviceLabel_To_SId_SCIdS_Map c))"

definition fib_inv :: "fib_decoder \<Rightarrow> bool" where
  "fib_inv s \<longleftrightarrow> conf_inv (fd_Curr s) \<and> conf_inv (fd_Next s) \<and> labels_inv (fd_Fig1 s)"

section \<open>What the operations leave alone\<close>

named_theorems inv_simps \<open>updates that keep the invariant\<close>

lemma emit_frame [frame_simps]:
  "fd_Curr (emit sig s) = fd_Curr s" "fd_Next (emit sig s) = fd_Next s" "fd_Fig1 (emit sig s) = fd_Fig1 s"
  "fd_FibLoadingState (emit sig s) = fd_FibLoadingState s" "fd_RestartFibDecoding (emit sig s) = fd_RestartFibDecoding s"
  by (simp_all add: emit_def)

lemma retrigger_frame [frame_simps]:
  "fd_Curr (retrigger_timer_data_loaded_fast now s) = fd_Curr s"
  "fd_Next (retrigger_timer_data_loaded_fast now s) = fd_Next s"
  "fd_Fig1 (retrigger_timer_data_loaded_fast now s) = fd_Fig1 s"
  "fd_RestartFibDecoding (retrigger_timer_data_loaded_fast now s) = fd_RestartFibDecoding s"
  by (simp_all add: retrigger_timer_data_loaded_fast_def Let_def frame_simps)

lemma fib_inv_retrigger [inv_simps]:
  "fib_inv (retrigger_timer_data_loaded_fast now s) = fib_inv s"
  "fib_inv (retrigger_timer_data_loaded_slow now s) = fib_inv s"
  "fib_inv (emit sig s) = fib_inv s"
  by (simp_all add: fib_inv_def frame_simps retrigger_timer_data_loaded_slow_def)

lemma fib_inv_config:
  assumes "fib_inv s" and "conf_inv (f (get_config cn s))"
  shows "fib_inv (upd_config cn f s)"
  using assms by (cases "cn = 0") (simp_all add: fib_inv_def upd_config_def get_config_def)

lemma config_inv: "fib_inv s \<Longrightarrow> conf_inv (get_config cn s)"
  by (simp add: fib_inv_def get_config_def)

lemma conf_inv_reset: "conf_inv c \<Longrightarrow> conf_inv (reset0 c)"
  by (simp add: conf_inv_def reset0_def subchannels_ok_def)

lemma labels_inv_reset: "labels_inv reset1"
  by (simp add: labels_inv_def reset1_def)

lemma fib_inv_start: "fib_inv FibDecoder"
  by (simp add: fib_inv_def FibDecoder_def labels_inv_reset)
    (simp add: conf_inv_def new_FibConfigFig0_def subchannels_ok_def)

lemma fib_inv_restart: "fib_inv s \<Longrightarrow> fib_inv (restart_fib_decoding s)"
  by (simp add: fib_inv_def restart_fib_decoding_def fib_reset_def conf_inv_reset labels_inv_reset)

lemma fib_inv_connect: "fib_inv s \<Longrightarrow> fib_inv (connect_channel s)" "fib_inv s \<Longrightarrow> fib_inv (disconnect_channel s)"
  by (simp_all add: fib_inv_def connect_channel_def disconnect_channel_def fib_reset_def conf_inv_reset labels_inv_reset)

section \<open>FIG type 0\<close>

lemma find_pair: "find (\<lambda>e. f e = a \<and> g e = b) xs = find (\<lambda>e. (f e, g e) = (a, b)) xs"
  by simp

lemma Fig0s1_inv:
  assumes "fib_inv s" and "fib_bits d"
  shows "fib_inv (snd (subprocess_Fig0s1 now d used fh s))" and "used < fst (subprocess_Fig0s1 now d used fh s)"
proof -
  let ?c = "get_config (fh_CN_Flag fh) s"
  obtain e b where p: "parse_Fig0s1 d (used * 8) = (e, b)" by fastforce
  note ok = parse_Fig0s1_ok [OF assms(2), of "used * 8", unfolded p fst_conv snd_conv]
  have c: "conf_inv ?c" by (rule config_inv [OF assms(1)])
  have "uint (getBits_6 d (used * 8)) < 64" by (rule bit_range(6) [OF assms(2)])
  then have e: "s1_StartAddr e + s1_SubChannelSize e \<le> cNumCuPerCif \<Longrightarrow> subchannel_ok e"
    using ok by (simp add: subchannel_ok_def)
  have "conf_inv (?c\<lparr>Fig0s1Vec := Fig0s1Vec ?c @ [set_current_time now e]\<rparr>)"
    if "find_colliding_Fig0s1 (Fig0s1Vec ?c) e = None" "s1_StartAddr e + s1_SubChannelSize e \<le> cNumCuPerCif"
      "get_Fig0s1_of_SubChId ?c (uint (getBits_6 d (used * 8))) = None"
    using c subchannels_append [OF _ e [OF that(2)] that(1)] that(3) ok(1)
    by (simp add: conf_inv_def get_Fig0s1_of_SubChId_def)
  moreover have "conf_inv (?c\<lparr>Fig0s1Vec := update_first P (set_current_time_2nd_call now) (Fig0s1Vec ?c)\<rparr>)" for P
    using c by (simp add: conf_inv_def subchannels_touch)
  ultimately show "fib_inv (snd (subprocess_Fig0s1 now d used fh s))"
    using assms(1) by (auto simp: subprocess_Fig0s1_def Let_def p inv_simps fib_inv_restart intro!: fib_inv_config
        split: option.splits)
  show "used < fst (subprocess_Fig0s1 now d used fh s)"
    using ok(5) by (auto simp: subprocess_Fig0s1_def Let_def p split: option.splits)
qed

lemma parse_component_ok: "component_ok (e\<lparr>s2_ServiceComp_C := parse_component d b c\<rparr>)"
  by (simp add: component_ok_def parse_component_def Let_def)

lemma component_time [simp]:
  "component_ok (set_current_time now e) = component_ok e"
  "component_ok (set_current_time_2nd_call now e) = component_ok e"
  by (simp_all add: component_ok_def set_current_time_def set_current_time_2nd_call_def)

lemma list_all_update_first: "(\<And>e. P (f e) = P e) \<Longrightarrow> list_all P (update_first Q f xs) = list_all P xs"
  by (induction xs) auto

lemma component_step_inv:
  assumes "fib_inv s"
  shows "fib_inv (snd (component_step now d b fh (e, s) i)) \<and>
    s2_SId (fst (component_step now d b fh (e, s) i)) = s2_SId e"
proof -
  let ?c = "get_config (fh_CN_Flag fh) s"
  define e' where "e' = e\<lparr>s2_ServiceComp_C_index := int i, s2_ServiceComp_C := parse_component d (b + 16 * i) (s2_ServiceComp_C e)\<rparr>"
  have c: "conf_inv ?c" by (rule config_inv [OF assms])
  have ok: "component_ok e'" unfolding e'_def by (rule parse_component_ok)
  have key: "(s2_SId e', s2_ServiceComp_C_index e') = (s2_SId e, int i)" by (simp add: e'_def)
  have "conf_inv (?c\<lparr>Fig0s2Vec := Fig0s2Vec ?c @ [set_current_time now e']\<rparr>)"
    if "get_Fig0s2_of_SId_ScIdx ?c (s2_SId e) (int i) = None"
    using c fig0s2.keys_append [OF that [unfolded get_Fig0s2_of_SId_ScIdx_def find_pair] key, of now] ok
    by (simp add: conf_inv_def)
  moreover have "conf_inv (?c\<lparr>Fig0s2Vec := update_first P (set_current_time_2nd_call now) (Fig0s2Vec ?c)\<rparr>)" for P
    using c by (simp add: conf_inv_def fig0s2.keys_touch list_all_update_first)
  ultimately show ?thesis
    using assms by (auto simp: component_step_def Let_def inv_simps e'_def [symmetric] set_current_time_def
        intro!: fib_inv_config split: option.splits) (simp_all add: e'_def)
qed

lemma component_steps_inv: "fib_inv s \<Longrightarrow> fib_inv (snd (foldl (component_step now d b fh) (e, s) is))"
proof (induction "is" arbitrary: e s)
  case (Cons i "is")
  obtain e' s' where step: "component_step now d b fh (e, s) i = (e', s')" by fastforce
  then have "fib_inv s'" using component_step_inv [OF Cons.prems, of now d b fh e i] by simp
  from Cons.IH [OF this, of e'] show ?case by (simp add: step)
qed simp

lemma Fig0s2_inv:
  assumes "fib_inv s"
  shows "fib_inv (snd (subprocess_Fig0s2 now d used fh s))" and "used < fst (subprocess_Fig0s2 now d used fh s)"
  by (simp_all add: subprocess_Fig0s2_def Let_def component_steps_inv [OF assms])

lemma Fig0s3_inv:
  assumes "fib_inv s"
  shows "fib_inv (snd (subprocess_Fig0s3 now d used fh s))" and "used < fst (subprocess_Fig0s3 now d used fh s)"
proof -
  let ?c = "get_config (fh_CN_Flag fh) s"
  obtain e b where p: "parse_Fig0s3 d (used * 8) = (e, b)" by fastforce
  have e: "s3_SCId e = uint (getBits d (used * 8) 12)" "used * 8 + 40 \<le> b"
    using p by (auto simp: parse_Fig0s3_def Let_def split: if_splits)
  have c: "conf_inv ?c" by (rule config_inv [OF assms])
  have "conf_inv (?c\<lparr>Fig0s3Vec := Fig0s3Vec ?c @ [set_current_time now e]\<rparr>)"
    if "get_Fig0s3_of_SCId ?c (uint (getBits d (used * 8) 12)) = None"
    using c fig0s3.keys_append [OF that [unfolded get_Fig0s3_of_SCId_def] e(1), of now] by (simp add: conf_inv_def)
  moreover have "conf_inv (?c\<lparr>Fig0s3Vec := update_first P (set_current_time_2nd_call now) (Fig0s3Vec ?c)\<rparr>)" for P
    using c by (simp add: conf_inv_def fig0s3.keys_touch)
  ultimately show "fib_inv (snd (subprocess_Fig0s3 now d used fh s))"
    using assms by (auto simp: subprocess_Fig0s3_def Let_def p inv_simps intro!: fib_inv_config split: option.splits)
  show "used < fst (subprocess_Fig0s3 now d used fh s)"
    using e(2) by (auto simp: subprocess_Fig0s3_def Let_def p split: option.splits)
qed

lemma Fig0s5_inv:
  assumes "fib_inv s"
  shows "fib_inv (snd (subprocess_Fig0s5 now d used fh s))" and "used < fst (subprocess_Fig0s5 now d used fh s)"
proof -
  have "conf_inv ((get_config 0 s)\<lparr>Fig0s5Vec := xs\<rparr>)" for xs
    using config_inv [OF assms, of 0] by (simp add: conf_inv_def)
  then show "fib_inv (snd (subprocess_Fig0s5 now d used fh s))"
    using assms by (auto simp: subprocess_Fig0s5_def Let_def inv_simps intro!: fib_inv_config split: option.splits)
  show "used < fst (subprocess_Fig0s5 now d used fh s)"
    by (simp add: subprocess_Fig0s5_def Let_def)
qed

lemma Fig0s7_inv: "fib_inv s \<Longrightarrow> fib_inv (process_Fig0s7 now d s)"
  using config_inv [of s "fh_CN_Flag (get_fig_header d)"]
  by (auto simp: process_Fig0s7_def Let_def inv_simps conf_inv_def get_Fig0s7_def first_of_def intro!: fib_inv_config
      split: option.splits if_splits)

lemma Fig0s8_inv:
  assumes "fib_inv s"
  shows "fib_inv (snd (subprocess_Fig0s8 now d used fh s))" and "used < fst (subprocess_Fig0s8 now d used fh s)"
proof -
  let ?c = "get_config (fh_CN_Flag fh) s"
  obtain e b where p: "parse_Fig0s8 d (used * 8) fh = (e, b)" by fastforce
  have b: "used * 8 + 32 \<le> b" using p by (auto simp: parse_Fig0s8_def Let_def split: if_splits)
  have c: "conf_inv ?c" by (rule config_inv [OF assms])
  have "conf_inv (?c\<lparr>Fig0s8Vec := Fig0s8Vec ?c @ [set_current_time now e]\<rparr>)"
    if "get_Fig0s8_of_SId_SCIdS ?c (s8_SId e) (s8_SCIdS e) = None"
    using c fig0s8.keys_append [OF that [unfolded get_Fig0s8_of_SId_SCIdS_def find_pair] refl, of now]
    by (simp add: conf_inv_def)
  moreover have "conf_inv (?c\<lparr>Fig0s8Vec := update_first P (set_current_time_2nd_call now) (Fig0s8Vec ?c)\<rparr>)" for P
    using c by (simp add: conf_inv_def fig0s8.keys_touch)
  ultimately show "fib_inv (snd (subprocess_Fig0s8 now d used fh s))"
    using assms by (auto simp: subprocess_Fig0s8_def Let_def p inv_simps intro!: fib_inv_config split: option.splits)
  show "used < fst (subprocess_Fig0s8 now d used fh s)"
    using b by (simp add: subprocess_Fig0s8_def Let_def p)
qed

lemma Fig0s9_inv: "fib_inv s \<Longrightarrow> fib_inv (process_Fig0s9 now d s)"
  using config_inv [of s 0]
  by (auto simp: process_Fig0s9_def Let_def inv_simps conf_inv_def get_config_def intro!: fib_inv_config)

lemma Fig0s0_inv: "fib_inv s \<Longrightarrow> fib_inv (process_Fig0s0 d s)"
  by (simp add: process_Fig0s0_def Let_def fib_inv_def frame_simps conf_inv_reset)

lemma Fig0s10_inv: "fib_inv s \<Longrightarrow> fib_inv (process_Fig0s10 d s)"
  by (simp add: process_Fig0s10_def Let_def fib_inv_def frame_simps split: option.splits)

lemma app_steps:
  "length (fst (foldl (app_step pd d) (apps, b) is)) = length apps \<and>
   b \<le> snd (foldl (app_step pd d) (apps, b) is) \<and> 8 dvd snd (foldl (app_step pd d) (apps, b) is) - b"
proof (induction "is" arbitrary: apps b)
  case (Cons i "is")
  obtain apps' b' where step: "app_step pd d (apps, b) i = (apps', b')" by fastforce
  then have s: "length apps' = length apps" "b' = b + (16 + 8 * nat (ua_UserAppDataLength (parse_app pd d b)))"
    by (auto simp: app_step_def Let_def)
  let ?f = "snd (foldl (app_step pd d) (apps', b') is)"
  have IH: "length (fst (foldl (app_step pd d) (apps', b') is)) = length apps'" "b' \<le> ?f" "8 dvd ?f - b'"
    using Cons.IH [of apps' b'] by blast+
  have "?f - b = (?f - b') + 8 * (2 + nat (ua_UserAppDataLength (parse_app pd d b)))" using IH(2) s(2) by simp
  then have "8 dvd ?f - b" using IH(3) by (simp only: dvd_add dvd_triv_left)
  moreover have "b \<le> ?f" using IH(2) s(2) by simp
  ultimately show ?case using IH(1) s(1) unfolding foldl.simps step by (simp only: simp_thms)
qed simp

lemma app_steps_bound: "snd (foldl (app_step pd d) (apps, b) is) \<le> b + 2056 * length is"
proof (induction "is" arbitrary: apps b)
  case (Cons i "is")
  obtain apps' b' where step: "app_step pd d (apps, b) i = (apps', b')" by fastforce
  have "unat (getBits_5 d (b + 11)) < 256" using unsigned_less [of "getBits_5 d (b + 11)"] by simp
  then have "nat (ua_UserAppDataLength (parse_app pd d b)) \<le> 255" by (simp add: parse_app_def Let_def)
  then have "b' \<le> b + 2056" using step by (auto simp: app_step_def Let_def)
  with Cons.IH [of apps' b'] show ?case by (simp add: step)
qed simp

lemma parse_Fig0s13_ok:
  assumes "parse_Fig0s13 d start fh = (e, b)"
  shows "user_apps_ok e" and "start + 24 \<le> b"
proof -
  define n where "n = (if fh_PD_Flag fh = 1 then 32 else 16 :: nat)"
  define num where "num = (if unat (getBits_4 d (start + n + 4)) > 6 then 6 else unat (getBits_4 d (start + n + 4)))"
  obtain apps fin where f: "foldl (app_step (fh_PD_Flag fh) d) (replicate 6 empty_app, start + n + 8) [0..<num] = (apps, fin)"
    by fastforce
  have n: "n = 16 \<or> n = 32" by (simp add: n_def)
  have e: "e = \<lparr>TimePoint = 0, TimePoint2ndCall = 0, s13_PD_Flag = int (fh_PD_Flag fh),
           s13_SId = unat (getLBits d start n), s13_SCIdS = uint (getBits_4 d (start + n)),
           s13_NumUserApps = int num, s13_UserAppVec = apps, s13_SizeBits = (fin - start) mod 2 ^ 16\<rparr>" and b: "b = fin"
    using assms unfolding parse_Fig0s13_def Let_def n_def [symmetric] num_def [symmetric] f by auto
  have s: "length apps = 6" "start + n + 8 \<le> fin" "8 dvd fin - (start + n + 8)"
    using app_steps [of "fh_PD_Flag fh" d "replicate 6 empty_app" "start + n + 8" "[0..<num]"] f by simp_all
  have num: "num \<le> 6" by (simp add: num_def)
  have "fin \<le> start + n + 8 + 2056 * num"
    using app_steps_bound [of "fh_PD_Flag fh" d "replicate 6 empty_app" "start + n + 8" "[0..<num]"] f by simp
  then have small: "fin - start < 2 ^ 16" using n num by auto
  obtain k where k: "fin - (start + n + 8) = 8 * k" using s(3) by (elim dvdE)
  obtain m where m: "n + 8 = 8 * m" "3 \<le> m" using that [of 3] that [of 5] n by auto
  have "fin - start = 8 * (k + m)" using s(2) k m(1) by simp
  then have d: "8 dvd fin - start" and l: "24 \<le> fin - start" using m(2) by simp_all
  have "(fin - start) mod 2 ^ 16 = fin - start" using small by (rule mod_less)
  then show "user_apps_ok e" using d l s(1) num unfolding user_apps_ok_def e SFig0s13.select_convs by simp
  show "start + 24 \<le> b" using s(2) n b by auto
qed

lemma user_apps_time [simp]:
  "user_apps_ok (set_current_time now e) = user_apps_ok e"
  "user_apps_ok (set_current_time_2nd_call now e) = user_apps_ok e"
  by (simp_all add: user_apps_ok_def set_current_time_def set_current_time_2nd_call_def)

lemma Fig0s13_inv:
  assumes "fib_inv s"
  shows "fib_inv (snd (subprocess_Fig0s13 now d used fh s))" and "used < fst (subprocess_Fig0s13 now d used fh s)"
proof -
  obtain e b where p: "parse_Fig0s13 d (used * 8) fh = (e, b)" by fastforce
  note ok = parse_Fig0s13_ok [OF p]
  have "conf_inv ((get_config cn s)\<lparr>Fig0s13Vec := Fig0s13Vec (get_config cn s) @ [set_current_time now e]\<rparr>)" for cn
    using config_inv [OF assms, of cn] ok(1) by (simp add: conf_inv_def)
  moreover have "conf_inv ((get_config 0 s)\<lparr>Fig0s13Vec :=
      update_first P (set_current_time_2nd_call now) (Fig0s13Vec (get_config 0 s))\<rparr>)" for P
    using config_inv [OF assms, of 0] by (simp add: conf_inv_def list_all_update_first)
  ultimately show "fib_inv (snd (subprocess_Fig0s13 now d used fh s))"
    using assms by (auto simp: subprocess_Fig0s13_def Let_def p inv_simps intro!: fib_inv_config split: option.splits)
  have "0 < s13_SizeBits f div 8" if "get_Fig0s13_of_SId_SCIdS (fd_Curr s) x y = Some f" for x y f
  proof -
    have "f \<in> set (Fig0s13Vec (fd_Curr s))"
      using that by (auto simp: get_Fig0s13_of_SId_SCIdS_def find_Some_iff)
    then have "24 \<le> s13_SizeBits f"
      using assms by (simp add: fib_inv_def conf_inv_def list_all_iff user_apps_ok_def)
    then show ?thesis by simp
  qed
  then show "used < fst (subprocess_Fig0s13 now d used fh s)"
    using ok(2) by (auto simp: subprocess_Fig0s13_def Let_def p split: option.splits)
qed

lemma Fig0s14_inv:
  assumes "fib_inv s"
  shows "fib_inv (snd (subprocess_Fig0s14 now d used fh s))" and "used < fst (subprocess_Fig0s14 now d used fh s)"
proof -
  let ?c = "get_config (fh_CN_Flag fh) s" and ?k = "uint (getBits_6 d (used * 8))"
  have c: "conf_inv ?c" by (rule config_inv [OF assms])
  have "conf_inv (?c\<lparr>Fig0s14Vec := Fig0s14Vec ?c @ [set_current_time now e]\<rparr>)"
    if "get_Fig0s14_of_SubChId ?c ?k = None" "s14_SubChId e = ?k" for e
    using c fig0s14.keys_append [OF that(1) [unfolded get_Fig0s14_of_SubChId_def] that(2), of now]
    by (simp add: conf_inv_def)
  moreover have "conf_inv (?c\<lparr>Fig0s14Vec := update_first P (set_current_time_2nd_call now) (Fig0s14Vec ?c)\<rparr>)" for P
    using c by (simp add: conf_inv_def fig0s14.keys_touch)
  ultimately show "fib_inv (snd (subprocess_Fig0s14 now d used fh s))"
    using assms by (auto simp: subprocess_Fig0s14_def Let_def inv_simps intro!: fib_inv_config split: option.splits)
  show "used < fst (subprocess_Fig0s14 now d used fh s)" by (simp add: subprocess_Fig0s14_def Let_def)
qed

lemma Fig0s15_inv: "fib_inv s \<Longrightarrow> fib_inv (process_Fig0s15 d s)"
  by (simp add: process_Fig0s15_def Let_def fib_inv_def frame_simps)

lemma process_type_inv:
  assumes "fib_inv s"
  shows "fib_inv (process_type now d b s)"
proof -
  let ?c = "get_config 0 s" and ?k = "unat (getBits d b 16)"
  have c: "conf_inv ?c" by (rule config_inv [OF assms])
  have k: "?k mod 2 ^ 16 = ?k" using unsigned_less [of "getBits d b 16"] by (intro mod_less) simp
  have "conf_inv (?c\<lparr>Fig0s17Vec := Fig0s17Vec ?c @ [set_current_time now e]\<rparr>)"
    if "get_Fig0s17_of_SId ?c ?k = None" "s17_SId e = ?k" for e
    using c fig0s17.keys_append [OF that(1) [unfolded get_Fig0s17_of_SId_def k] that(2), of now]
    by (simp add: conf_inv_def)
  moreover have "conf_inv (?c\<lparr>Fig0s17Vec := update_first P (set_current_time_2nd_call now) (Fig0s17Vec ?c)\<rparr>)" for P
    using c by (simp add: conf_inv_def fig0s17.keys_touch)
  ultimately show ?thesis
    using assms by (auto simp: process_type_def Let_def inv_simps get_config_def intro!: fib_inv_config split: option.splits)
qed

lemma types_loop_inv: "fib_inv s \<Longrightarrow> fib_inv (types_loop now d len b s)"
proof (induction now d len b s rule: types_loop.induct)
  case (1 now d len b s)
  then show ?case by (subst types_loop.simps) (simp add: process_type_inv)
qed

lemma length_get_cluster [simp]: "length (snd (get_cluster table k)) = length table"
  by (simp add: get_cluster_def split: option.splits)

lemma set_cluster_inv:
  assumes "fib_inv s"
  shows "fib_inv (set_cluster cn k sid flags s)"
proof -
  have "conf_inv ((get_config cn s)\<lparr>mClusterTable := t\<rparr>)" if "length t = 128" for t
    using config_inv [OF assms, of cn] that by (simp add: conf_inv_def)
  moreover have "length (snd (get_cluster (mClusterTable (get_config cn s)) k)) = 128"
    using config_inv [OF assms, of cn] by (simp add: conf_inv_def)
  ultimately show ?thesis using assms
    by (auto simp: set_cluster_def Let_def case_prod_beta intro!: fib_inv_config)
qed

lemma support_loop_inv: "fib_inv s \<Longrightarrow> fib_inv (support_loop d fh b s)"
proof (induction d fh b s rule: support_loop.induct)
  case (1 d fh b s)
  have "fib_inv (foldl (support_step d cn b' sid flags) s is)" if "fib_inv s" for cn b' sid flags "is" s
    using that by (induction "is" arbitrary: s) (simp_all add: support_step_def Let_def set_cluster_inv)
  with 1 show ?case by (subst support_loop.simps) (simp add: Let_def)
qed

lemma announce_inv [inv_simps]: "fib_inv (announce sig sc sids s) = fib_inv s"
  unfolding announce_def by (induction sids arbitrary: s) (simp_all add: inv_simps)

lemma switch_cluster_inv:
  assumes "fib_inv s"
  shows "fib_inv (switch_cluster cn k flags sc s)"
proof -
  have "conf_inv ((get_config cn s)\<lparr>mClusterTable := t\<rparr>)" if "length t = 128" for t
    using config_inv [OF assms, of cn] that by (simp add: conf_inv_def)
  moreover have "length (snd (get_cluster (mClusterTable (get_config cn s)) k)) = 128"
    using config_inv [OF assms, of cn] by (simp add: conf_inv_def)
  ultimately show ?thesis using assms
    by (auto simp: switch_cluster_def Let_def case_prod_beta inv_simps intro!: fib_inv_config)
qed

lemma switching_loop_inv: "fib_inv s \<Longrightarrow> fib_inv (switching_loop d fh b s)"
proof (induction d fh b s rule: switching_loop.induct)
  case (1 d fh b s)
  then show ?case by (subst switching_loop.simps) (simp add: Let_def switch_cluster_inv)
qed

lemma fast_selection_inv: "fib_inv s \<Longrightarrow> fib_inv (process_fast_audio_selection s)"
  by (simp add: process_fast_audio_selection_def fib_inv_def frame_simps Let_def split: option.splits)

section \<open>The loop over the fields of a FIG\<close>

lemma fig0_loop_total:
  assumes "I s" and "\<And>used s. I s \<Longrightarrow> I (snd (fn d used fh s)) \<and> used < fst (fn d used fh s)"
    and "fh_Length fh < used + fuel"
  shows "\<exists>s'. fig0_loop fuel fn d fh used s = Some s' \<and> I s'"
  using assms(1,3)
proof (induction fuel arbitrary: used s)
  case 0
  then show ?case by (subst fig0_loop.simps) simp
next
  case (Suc fuel)
  obtain used' s' where step: "fn d used fh s = (used', s')" by fastforce
  then have p: "I s'" "used < used'" using assms(2) [OF Suc.prems(1), of used] by simp_all
  show ?case
  proof (cases "used \<le> fh_Length fh \<and> \<not> fd_RestartFibDecoding s'")
    case True
    then have "fig0_loop (Suc fuel) fn d fh used s = fig0_loop fuel fn d fh used' s'"
      by (subst fig0_loop.simps) (simp add: step)
    then show ?thesis using Suc.IH [OF p(1), of used'] Suc.prems(2) p(2) by simp
  next
    case False
    then show ?thesis using Suc.prems(1) p(1) by (subst fig0_loop.simps) (auto simp: step)
  qed
qed

lemma process_fig0_loop_total:
  assumes "fib_inv s"
    and "\<And>used s fh. fib_inv s \<Longrightarrow> fib_inv (snd (fn d used fh s)) \<and> used < fst (fn d used fh s)"
  shows "\<exists>s'. process_fig0_loop d fn s = Some s' \<and> fib_inv s'"
proof -
  have "fh_Length (get_fig_header d) < 256" using unsigned_less [of "getBits_5 d 3"] by (simp add: get_fig_header_def)
  then show ?thesis unfolding process_fig0_loop_def Let_def using assms by (intro fig0_loop_total) simp_all
qed

lemmas fig0_handlers = Fig0s1_inv Fig0s2_inv Fig0s3_inv Fig0s5_inv Fig0s8_inv Fig0s13_inv Fig0s14_inv

lemma process_Fig0_extension_total:
  assumes "fib_inv s" and "fib_bits d"
  shows "\<exists>s'. process_Fig0_extension now n d s = Some s' \<and> fib_inv s'"
proof -
  have L: "\<exists>s'. process_fig0_loop d fn s = Some s' \<and> fib_inv s'"
    if "\<And>used s fh. fib_inv s \<Longrightarrow> fib_inv (snd (fn d used fh s)) \<and> used < fst (fn d used fh s)" for fn
    using assms(1) that by (rule process_fig0_loop_total)
  have loops: "\<exists>s'. process_fig0_loop d (subprocess_Fig0s1 now) s = Some s' \<and> fib_inv s'"
    "\<exists>s'. process_fig0_loop d (subprocess_Fig0s2 now) s = Some s' \<and> fib_inv s'"
    "\<exists>s'. process_fig0_loop d (subprocess_Fig0s3 now) s = Some s' \<and> fib_inv s'"
    "\<exists>s'. process_fig0_loop d (subprocess_Fig0s5 now) s = Some s' \<and> fib_inv s'"
    "\<exists>s'. process_fig0_loop d (subprocess_Fig0s8 now) s = Some s' \<and> fib_inv s'"
    "\<exists>s'. process_fig0_loop d (subprocess_Fig0s13 now) s = Some s' \<and> fib_inv s'"
    "\<exists>s'. process_fig0_loop d (subprocess_Fig0s14 now) s = Some s' \<and> fib_inv s'"
    by (rule L, simp add: fig0_handlers assms(2))+
  note others = Fig0s0_inv [OF assms(1)] Fig0s7_inv [OF assms(1)] Fig0s9_inv [OF assms(1)] Fig0s10_inv [OF assms(1)]
    Fig0s15_inv [OF assms(1)] types_loop_inv [OF assms(1)] support_loop_inv [OF assms(1)] switching_loop_inv [OF assms(1)]
  have u: "fib_inv (s\<lparr>fd_UnhandledFig0Set := x\<rparr>)" for x using assms(1) by (simp add: fib_inv_def)
  show ?thesis
    unfolding process_Fig0_extension_def using loops others u
    by (simp add: process_Fig0s17_def process_Fig0s18_def process_Fig0s19_def)
qed

lemma process_Fig0_total:
  assumes "fib_inv s" and "fib_bits d"
  shows "\<exists>s'. process_Fig0 now d s = Some s' \<and> fib_inv s'"
  using process_Fig0_extension_total [OF assms, of now "unat (getBits_5 d (8 + 3))"]
  by (auto simp: process_Fig0_def Let_def fast_selection_inv)

section \<open>FIG type 1\<close>

lemma length_resize [simp]: "length (resize n c xs) = n"
  by (simp add: resize_def)

lemma extracted_label: "extract_character_set_label qt d b = Some df \<Longrightarrow> label_ok df"
  by (auto simp: extract_character_set_label_def Let_def label_ok_def split: if_splits)

lemma label_time [simp]:
  "label_ok (set_current_time now e) = label_ok e" "label_ok (set_current_time_2nd_call now e) = label_ok e"
  by (simp_all add: label_ok_def set_current_time_def set_current_time_2nd_call_def)

lemma label_extend [simp]: "label_ok (SFig1_DataField.extend df ext) = label_ok df"
  by (simp add: label_ok_def SFig1_DataField.extend_def)

lemma extend_keys [simp]:
  "g0_EId (SFig1_DataField.extend df (SFig1s0.fields a)) = a"
  "g1_SId (SFig1_DataField.extend df (SFig1s1.fields a)) = a"
  "g4_SId (SFig1_DataField.extend df (SFig1s4.fields b c a)) = a"
  "g4_SCIdS (SFig1_DataField.extend df (SFig1s4.fields b c a)) = c"
  "g5_SId (SFig1_DataField.extend df (SFig1s5.fields a)) = a"
  "df_Name (SFig1_DataField.extend df ext) = df_Name df"
  "df_NameShort (SFig1_DataField.extend df ext) = df_NameShort df"
  by (simp_all add: SFig1_DataField.extend_def SFig1s0.fields_def SFig1s1.fields_def SFig1s4.fields_def SFig1s5.fields_def)

lemma qstring_less_linear: "qstring_less x y \<or> x = y \<or> qstring_less y x"
  by (induction x y rule: qstring_less.induct) (auto, case_tac xs, auto)

lemma qstring_less_trans: "qstring_less x y \<Longrightarrow> qstring_less y z \<Longrightarrow> qstring_less x z"
proof (induction x y arbitrary: z rule: qstring_less.induct)
  case (2 y ys)
  then show ?case by (cases z) auto
next
  case (3 x xs y ys)
  then show ?case by (cases z) auto
qed simp

lemma try_emplace_keys: "set (map fst (try_emplace k v m)) = insert k (set (map fst m))"
  by (induction k v m rule: try_emplace.induct) auto

lemma try_emplace_sorted:
  "sorted_wrt qstring_less (map fst m) \<Longrightarrow> sorted_wrt qstring_less (map fst (try_emplace k v m))"
proof (induction k v m rule: try_emplace.induct)
  case (2 k v k' v' m)
  have s: "\<forall>x\<in>set (map fst m). qstring_less k' x" "sorted_wrt qstring_less (map fst m)" using 2 by simp_all
  consider "k = k'" | "k \<noteq> k'" "qstring_less k k'" | "k \<noteq> k'" "\<not> qstring_less k k'" "qstring_less k' k"
    using qstring_less_linear by blast
  then show ?case
  proof cases
    case 2
    then have "\<forall>x\<in>set (map fst m). qstring_less k x" using s(1) qstring_less_trans by blast
    then show ?thesis using s 2 by simp
  next
    case 3
    have "\<forall>x\<in>set (map fst (try_emplace k v m)). qstring_less k' x"
      unfolding try_emplace_keys using s(1) 3(3) by simp
    moreover have "sorted_wrt qstring_less (map fst (try_emplace k v m))" using "2.IH" 3 s(2) by simp
    ultimately show ?thesis using 3 by simp
  qed (use s in simp)
qed simp

lemma fib_inv_labels: "fib_inv s \<Longrightarrow> labels_inv c \<Longrightarrow> fib_inv (s\<lparr>fd_Fig1 := c\<rparr>)"
  by (simp add: fib_inv_def)

lemma Fig1s0_inv:
  assumes "fib_inv s"
  shows "fib_inv (process_Fig1s0 qt now d s)"
proof -
  let ?c = "fd_Fig1 s"
  have c: "labels_inv ?c" using assms by (simp add: fib_inv_def)
  have A: "labels_inv (?c\<lparr>Fig1s0Vec := [set_current_time now e]\<rparr>)" if "label_ok e" for e
    using c that by (simp add: labels_inv_def)
  have B: "labels_inv (?c\<lparr>Fig1s0Vec := (Fig1s0Vec ?c)[0 := set_current_time_2nd_call now (Fig1s0Vec ?c ! 0)]\<rparr>)"
    using c by (cases "Fig1s0Vec ?c") (simp_all add: labels_inv_def)
  show ?thesis using assms extracted_label [of qt d 32]
    by (auto simp: process_Fig1s0_def Let_def inv_simps intro!: fib_inv_labels A B split: option.splits)
qed

lemma Fig1s1_inv:
  assumes "fib_inv s"
  shows "fib_inv (process_Fig1s1 qt now d s)"
proof -
  let ?c = "fd_Fig1 s" and ?k = "unat (getBits d 16 16)"
  have c: "labels_inv ?c" using assms by (simp add: fib_inv_def)
  have A: "labels_inv (?c\<lparr>Fig1s1Vec := Fig1s1Vec ?c @ [set_current_time now e],
      serviceLabel_To_SId_SCIdS_Map := try_emplace n v (serviceLabel_To_SId_SCIdS_Map ?c)\<rparr>)"
    if "get_Fig1s1_of_SId ?c ?k = None" "g1_SId e = ?k" "label_ok e" for e n v
    using c that(3) fig1s1.keys_append [OF that(1) [unfolded get_Fig1s1_of_SId_def] that(2), of now]
    by (simp add: labels_inv_def try_emplace_sorted)
  have B: "labels_inv (?c\<lparr>Fig1s1Vec := update_first P (set_current_time_2nd_call now) (Fig1s1Vec ?c)\<rparr>)" for P
    using c by (simp add: labels_inv_def fig1s1.keys_touch list_all_update_first)
  show ?thesis using assms extracted_label [of qt d 32]
    by (auto simp: process_Fig1s1_def Let_def inv_simps intro!: fib_inv_labels A B split: option.splits)
qed

lemma Fig1s4_inv:
  assumes "fib_inv s"
  shows "fib_inv (process_Fig1s4 qt now d s)"
proof -
  let ?c = "fd_Fig1 s"
  have c: "labels_inv ?c" using assms by (simp add: fib_inv_def)
  have A: "labels_inv (?c\<lparr>Fig1s4Vec := Fig1s4Vec ?c @ [set_current_time now e],
      serviceLabel_To_SId_SCIdS_Map := try_emplace n v (serviceLabel_To_SId_SCIdS_Map ?c)\<rparr>)"
    if "get_Fig1s4_of_SId_SCIdS ?c k i = None" "(g4_SId e, g4_SCIdS e) = (k, i)" "label_ok e" for e k i n v
    using c that(3) fig1s4.keys_append [OF that(1) [unfolded get_Fig1s4_of_SId_SCIdS_def find_pair] that(2), of now]
    by (simp add: labels_inv_def try_emplace_sorted)
  have B: "labels_inv (?c\<lparr>Fig1s4Vec := update_first P (set_current_time_2nd_call now) (Fig1s4Vec ?c)\<rparr>)" for P
    using c by (simp add: labels_inv_def fig1s4.keys_touch list_all_update_first)
  show ?thesis using assms extracted_label [of qt d]
    by (cases "uint (getBits_1 d 16) = 0") (auto simp: process_Fig1s4_def Let_def inv_simps intro!: fib_inv_labels A B split: option.splits)
qed

lemma Fig1s5_inv:
  assumes "fib_inv s"
  shows "fib_inv (process_Fig1s5 qt now d s)"
proof -
  let ?c = "fd_Fig1 s" and ?k = "unat (getLBits d 16 32)"
  have c: "labels_inv ?c" using assms by (simp add: fib_inv_def)
  have A: "labels_inv (?c\<lparr>Fig1s5Vec := Fig1s5Vec ?c @ [set_current_time now e],
      serviceLabel_To_SId_SCIdS_Map := try_emplace n v (serviceLabel_To_SId_SCIdS_Map ?c)\<rparr>)"
    if "get_Fig1s5_of_SId ?c ?k = None" "g5_SId e = ?k" "label_ok e" for e n v
    using c that(3) fig1s5.keys_append [OF that(1) [unfolded get_Fig1s5_of_SId_def] that(2), of now]
    by (simp add: labels_inv_def try_emplace_sorted)
  have B: "labels_inv (?c\<lparr>Fig1s5Vec := update_first P (set_current_time_2nd_call now) (Fig1s5Vec ?c)\<rparr>)" for P
    using c by (simp add: labels_inv_def fig1s5.keys_touch list_all_update_first)
  show ?thesis using assms extracted_label [of qt d]
    by (auto simp: process_Fig1s5_def Let_def inv_simps intro!: fib_inv_labels A B split: option.splits)
qed

lemma process_Fig1_inv: "fib_inv s \<Longrightarrow> fib_inv (process_Fig1 qt now d s)"
  by (simp add: process_Fig1_def Let_def Fig1s0_inv Fig1s1_inv Fig1s4_inv Fig1s5_inv) (simp add: fib_inv_def)

section \<open>FIBs and events\<close>

lemma process_figs_total:
  "fib_inv s \<Longrightarrow> fib_bits bits \<Longrightarrow> \<exists>s'. process_figs qt now bits n s = Some s' \<and> fib_inv s'"
proof (induction qt now bits n s rule: process_figs.induct)
  case (1 qt now bits n s)
  let ?d = "\<lambda>i. bits (n * 8 + i)"
  let ?ty = "unat (getBits_3 ?d 0)" and ?len = "unat (getBits_5 ?d 3)"
  have d: "fib_bits ?d" using "1.prems"(2) by (simp add: fib_bits_def)
  define r where "r = (if ?ty = 0 then process_Fig0 now ?d s else if ?ty = 1 then Some (process_Fig1 qt now ?d s) else Some s)"
  have "\<exists>s'. r = Some s' \<and> fib_inv s'"
    using process_Fig0_total [OF "1.prems"(1) d, of now] process_Fig1_inv [OF "1.prems"(1)] "1.prems"(1)
    by (cases "?ty = 0"; cases "?ty = 1") (simp_all add: r_def)
  then obtain s' where s': "r = Some s'" "fib_inv s'" by blast
  show ?case
  proof (cases "n < 30 \<and> \<not> (?ty = 7 \<and> ?len = 31) \<and> \<not> fd_RestartFibDecoding s'")
    case True
    then have "process_figs qt now bits n s = process_figs qt now bits (n + ?len + 1) s'"
      using s'(1) by (subst process_figs.simps) (auto simp: Let_def r_def)
    moreover have "\<exists>t. process_figs qt now bits (n + ?len + 1) s' = Some t \<and> fib_inv t"
      by (rule "1.IH" [OF _ refl refl refl _ s'(1) [unfolded r_def] _ s'(2) "1.prems"(2)]) (use True in simp_all)
    ultimately show ?thesis by simp
  next
    case False
    then show ?thesis using "1.prems"(1) s'
      by (subst process_figs.simps) (auto simp: Let_def r_def split: if_splits)
  qed
qed

lemma process_FIB_total:
  assumes "fib_inv s" and "fib_bits bits"
  shows "\<exists>s'. process_FIB qt now bits s = Some s' \<and> fib_inv s'"
  unfolding process_FIB_def Let_def by (rule process_figs_total) (use assms in \<open>simp_all add: fib_inv_def\<close>)

lemma timers_inv:
  "fib_inv s \<Longrightarrow> fib_inv (slot_timer_data_consistency_check s)"
  "fib_inv s \<Longrightarrow> fib_inv (slot_timer_check_state_and_print_FIGs s)"
  by (simp_all add: slot_timer_data_consistency_check_def slot_timer_check_state_and_print_FIGs_def Let_def fib_inv_def
      frame_simps)

lemma fib_step_inv: "fib_step qt s s' \<Longrightarrow> fib_inv s \<Longrightarrow> fib_inv s'"
proof (induction rule: fib_step.induct)
  case (step_FIB bits now s s')
  then show ?case using process_FIB_total [of s bits qt now] by auto
next
  case (step_timer1 s)
  then show ?case by (intro timers_inv) (simp add: fib_inv_def)
next
  case (step_timer2 s)
  then show ?case by (intro timers_inv) (simp add: fib_inv_def)
next
  case (step_select s sid)
  then show ?case by (simp add: set_SId_for_fast_audio_selection_def fib_inv_def)
qed (simp_all add: fib_inv_connect)

lemma reachable_inv: "fib_reachable qt s \<Longrightarrow> fib_inv s"
  by (induction rule: fib_reachable.induct) (auto simp: fib_inv_start intro: fib_step_inv)

end
