(* ===== verification/Fib_Properties.thy ===== *)
theory Fib_Properties
  imports Fib_Invariant
begin

text \<open>
  What the FIB decoder guarantees in every reachable state, and what single operations do.
\<close>

section \<open>Lookups and geometry\<close>

definition cu_range :: "SFig0s1 \<Rightarrow> int set" where
  "cu_range e = {s1_StartAddr e..<s1_StartAddr e + s1_SubChannelSize e}"

lemma disjoint_ranges: "disjoint_cu e f \<Longrightarrow> cu_range e \<inter> cu_range f = {}"
  by (auto simp: disjoint_cu_def cu_range_def)

lemma lookup_subchannel:
  assumes "conf_inv c" and "get_Fig0s1_of_SubChId c k = Some e"
  shows "s1_SubChId e = k" and "subchannel_ok e"
  using assms by (auto simp: conf_inv_def subchannels_ok_def list_all_iff get_Fig0s1_of_SubChId_def find_Some_iff)

lemma find_append_other: "\<not> P x \<Longrightarrow> find P (xs @ [x]) = find P xs"
  by (induction xs) simp_all

lemma upd_config_get [simp]: "get_config cn (upd_config cn f s) = f (get_config cn s)"
  by (simp add: get_config_def upd_config_def)

lemma retrigger_config [simp]: "get_config cn (retrigger_timer_data_loaded_fast now s) = get_config cn s"
  by (simp add: get_config_def frame_simps)

text \<open>
  No room for a sub-channel beside others: its units leave the CIF or are units of another one. An entry of size zero has no
  units; there is no room for it behind the end of the CIF and between two units of another sub-channel.
\<close>

definition no_room :: "SFig0s1 list \<Rightarrow> SFig0s1 \<Rightarrow> bool" where
  "no_room xs e \<longleftrightarrow> \<not> cu_range e \<subseteq> {0..<864} \<or> (\<exists>f\<in>set xs. cu_range f \<inter> cu_range e \<noteq> {}) \<or>
     s1_SubChannelSize e = 0 \<and>
       (864 < s1_StartAddr e \<or> (\<exists>f\<in>set xs. {s1_StartAddr e - 1, s1_StartAddr e} \<subseteq> cu_range f))"

lemma collides_ranges:
  assumes "0 \<le> s1_StartAddr f"
  shows "collides e f \<longleftrightarrow> (if 0 < s1_SubChannelSize e then cu_range f \<inter> cu_range e \<noteq> {}
    else s1_SubChannelSize f > 0 \<and> s1_StartAddr e < s1_StartAddr f + s1_SubChannelSize f \<and>
      s1_StartAddr f < s1_StartAddr e + s1_SubChannelSize e)"
proof (cases "0 < s1_SubChannelSize e")
  case True
  have "cu_range f \<inter> cu_range e = {max (s1_StartAddr f) (s1_StartAddr e)..<
      min (s1_StartAddr f + s1_SubChannelSize f) (s1_StartAddr e + s1_SubChannelSize e)}"
    by (auto simp: cu_range_def)
  then show ?thesis using True assms by (auto simp: collides_def)
qed (use assms in \<open>auto simp: collides_def\<close>)

lemma no_room_iff:
  assumes "0 \<le> s1_StartAddr e" and "0 \<le> s1_SubChannelSize e" and "list_all subchannel_ok xs"
  shows "s1_StartAddr e + s1_SubChannelSize e > cNumCuPerCif \<or> find_colliding_Fig0s1 xs e \<noteq> None \<longleftrightarrow> no_room xs e"
proof -
  have c: "find_colliding_Fig0s1 xs e \<noteq> None \<longleftrightarrow> (\<exists>f\<in>set xs. collides e f)"
    unfolding find_colliding_Fig0s1_def find_None_iff by blast
  have f: "0 \<le> s1_StartAddr f" if "f \<in> set xs" for f
    using assms(3) that by (auto simp: list_all_iff subchannel_ok_def)
  show ?thesis
  proof (cases "s1_SubChannelSize e = 0")
    case True
    then have "cu_range e = {}" by (simp add: cu_range_def)
    moreover have "collides e f \<longleftrightarrow> {s1_StartAddr e - 1, s1_StartAddr e} \<subseteq> cu_range f" if "f \<in> set xs" for f
      using collides_ranges [OF f [OF that], of e] True by (auto simp: cu_range_def)
    ultimately show ?thesis using True unfolding c by (auto simp: no_room_def cNumCuPerCif_def)
  next
    case False
    then have pos: "0 < s1_SubChannelSize e" using assms(2) by simp
    then have "cu_range e \<subseteq> {0..<864} \<longleftrightarrow> s1_StartAddr e + s1_SubChannelSize e \<le> 864"
      using assms(1) by (auto simp: cu_range_def)
    moreover have "(\<exists>f\<in>set xs. collides e f) \<longleftrightarrow> (\<exists>f\<in>set xs. cu_range f \<inter> cu_range e \<noteq> {})"
      using collides_ranges [OF f] pos by auto
    ultimately show ?thesis using False unfolding c by (auto simp: no_room_def cNumCuPerCif_def)
  qed
qed

lemma subchannels_geometry:
  assumes "subchannels_ok xs"
  shows "distinct (map s1_SubChId xs) \<and> (\<forall>e\<in>set xs. cu_range e \<subseteq> {0..<864}) \<and>
    (\<forall>i j. i < j \<and> j < length xs \<longrightarrow> cu_range (xs ! i) \<inter> cu_range (xs ! j) = {})"
proof -
  have "cu_range e \<subseteq> {0..<864}" if "subchannel_ok e" for e
    using that by (auto simp: subchannel_ok_def cu_range_def cNumCuPerCif_def)
  moreover have "cu_range (xs ! i) \<inter> cu_range (xs ! j) = {}" if "i < j" "j < length xs" for i j
    by (rule disjoint_ranges, rule sorted_wrt_nth_less) (use assms that in \<open>simp_all add: subchannels_ok_def\<close>)
  ultimately show ?thesis using assms by (simp add: subchannels_ok_def list_all_iff)
qed

section \<open>Loading states\<close>

lemma audio_complete_defined:
  assumes "audio_complete s e False"
  shows "sd_isDefined (get_audio_data s e ad) \<and>
    (\<exists>l\<in>set (Fig1s1Vec (fd_Fig1 s)). sd_serviceLabel (get_audio_data s e ad) = df_Name l) \<and>
    (\<exists>f\<in>set (Fig0s1Vec (fd_Curr s)). sd_CuStartAddr (get_audio_data s e ad) = s1_StartAddr f \<and>
       sd_CuSize (get_audio_data s e ad) = s1_SubChannelSize f)"
proof -
  obtain f where f: "get_Fig0s1_of_SubChId (fd_Curr s) (int (ref_SubChId (sc_ref (s2_ServiceComp_C e)))) = Some f"
    and pd: "s2_PD_Flag e = 0" using assms by (auto simp: audio_complete_def)
  obtain l where l: "get_Fig1s1_of_SId (fd_Fig1 s) (s2_SId e mod 2 ^ 16) = Some l"
    using assms by (auto simp: audio_complete_def)
  have "f \<in> set (Fig0s1Vec (fd_Curr s))" using f by (auto simp: get_Fig0s1_of_SubChId_def find_Some_iff)
  moreover have "l \<in> set (Fig1s1Vec (fd_Fig1 s))" using l by (auto simp: get_Fig1s1_of_SId_def find_Some_iff)
  ultimately show ?thesis unfolding get_audio_data_def Let_def f l by (auto simp: pd)
qed

lemma find_in_filter: "find (\<lambda>e. Q e \<and> P e) xs = Some e \<Longrightarrow> e \<in> set (filter P xs)"
  by (auto simp: find_Some_iff)

lemma audio_complete_frame:
  "audio_complete (s\<lparr>fd_FibLoadingState := x\<rparr>) e b = audio_complete s e b"
  "audio_complete (emit sig s) e b = audio_complete s e b"
  by (simp_all add: audio_complete_def frame_simps)

lemma consistency_frame:
  "fd_Curr (slot_timer_data_consistency_check s) = fd_Curr s"
  "fd_Fig1 (slot_timer_data_consistency_check s) = fd_Fig1 s"
  by (simp_all add: slot_timer_data_consistency_check_def Let_def frame_simps)

section \<open>Bit fields of the time\<close>

lemma utc_field_bits:
  assumes "fib_bits d" and "n + k \<le> m" and "m \<le> 32"
  shows "utc_field (getLBits d p m) k n = int (bits_val d (p + (m - (n + k))) n)"
proof -
  have b: "is_bits d q j" for q j using assms(1) by (simp add: fib_bits_def is_bits_def)
  have "bits_val d p m = bits_val d p (m - (n + k)) * 2 ^ (n + k) + bits_val d (p + (m - (n + k))) (n + k)"
    using bits_val_add [of d p "m - (n + k)" "n + k"] assms(2) by simp
  also have "bits_val d (p + (m - (n + k))) (n + k) =
      bits_val d (p + (m - (n + k))) n * 2 ^ k + bits_val d (p + (m - (n + k)) + n) k"
    by (rule bits_val_add)
  finally have v: "bits_val d p m = (bits_val d p (m - (n + k)) * 2 ^ n + bits_val d (p + (m - (n + k))) n) * 2 ^ k +
      bits_val d (p + (m - (n + k)) + n) k"
    by (simp add: power_add algebra_simps)
  have "unat (drop_bit k (getLBits d p m) AND mask n) = bits_val d p m div 2 ^ k mod 2 ^ n"
    by (simp only: unat_and_mask unat_drop_bit long_reader.rd_val [OF assms(3) b])
  also have "\<dots> = bits_val d (p + (m - (n + k))) n"
    using bits_val_less [OF b, of "p + (m - (n + k)) + n" k] bits_val_less [OF b, of "p + (m - (n + k))" n]
    unfolding v by simp
  finally show ?thesis by (simp only: utc_field_def uint_nat)
qed

section \<open>Announcements\<close>

lemma first_index_nth: "first_index P xs = Some i \<Longrightarrow> i < length xs \<and> P (xs ! i) \<and> (\<forall>j<i. \<not> P (xs ! j))"
proof (induction xs arbitrary: i)
  case (Cons x xs)
  show ?case
  proof (cases "P x")
    case False
    then obtain j where j: "first_index P xs = Some j" "i = Suc j" using Cons.prems by auto
    have "\<not> P ((x # xs) ! m)" if "m < i" for m using that Cons.IH [OF j(1)] j(2) False by (cases m) auto
    then show ?thesis using Cons.IH [OF j(1)] j(2) by simp
  qed (use Cons.prems in auto)
qed simp

lemma first_index_cong:
  "(\<And>j. j < length xs \<Longrightarrow> P (xs ! j) = P (ys ! j)) \<Longrightarrow> length xs = length ys \<Longrightarrow> first_index P xs = first_index P ys"
proof (induction xs arbitrary: ys)
  case (Cons x xs)
  then obtain y ys' where y: "ys = y # ys'" by (cases ys) auto
  have "P x = P y" using Cons.prems(1) [of 0] y by simp
  moreover have "first_index P xs = first_index P ys'"
    using Cons.IH [of ys'] Cons.prems(1) [of "Suc _"] Cons.prems(2) y by simp
  ultimately show ?case by (simp add: y)
qed simp

lemma announce_signals:
  "fd_signals (announce sig sc sids s) =
     fd_signals s @ map (\<lambda>sid. sig (get_service_label_of_SId_from_all_Fig1 (fd_Fig1 s) sid) sc) sids"
  "fd_Fig1 (announce sig sc sids s) = fd_Fig1 s" "get_config cn (announce sig sc sids s) = get_config cn s"
proof -
  have "fd_signals (announce sig sc sids s) =
      fd_signals s @ map (\<lambda>sid. sig (get_service_label_of_SId_from_all_Fig1 (fd_Fig1 s) sid) sc) sids \<and>
    fd_Fig1 (announce sig sc sids s) = fd_Fig1 s \<and> get_config cn (announce sig sc sids s) = get_config cn s"
    unfolding announce_def by (induction sids arbitrary: s) (simp_all add: emit_def get_config_def)
  then show "fd_signals (announce sig sc sids s) =
     fd_signals s @ map (\<lambda>sid. sig (get_service_label_of_SId_from_all_Fig1 (fd_Fig1 s) sid) sc) sids"
    "fd_Fig1 (announce sig sc sids s) = fd_Fig1 s" "get_config cn (announce sig sc sids s) = get_config cn s"
    by blast+
qed

lemma upd_config_frame [simp]: "fd_signals (upd_config cn f s) = fd_signals s" "fd_Fig1 (upd_config cn f s) = fd_Fig1 s"
  by (simp_all add: upd_config_def)

definition cluster_at :: "nat \<Rightarrow> int \<Rightarrow> nat \<Rightarrow> fib_decoder \<Rightarrow> bool" where
  "cluster_at cn k i s \<longleftrightarrow>
     first_index (\<lambda>c. cl_inUse c \<and> cl_clusterId c = k) (take 64 (mClusterTable (get_config cn s))) = Some i"

lemma cluster_at_less: "cluster_at cn k i s \<Longrightarrow> i < length (mClusterTable (get_config cn s)) \<and> i < 64"
  using first_index_nth [of _ "take 64 (mClusterTable (get_config cn s))" i] by (auto simp: cluster_at_def)

lemma cluster_at_update:
  assumes at: "cluster_at cn k i s" and c: "cl_inUse c = cl_inUse (mClusterTable (get_config cn s) ! i)"
    "cl_clusterId c = cl_clusterId (mClusterTable (get_config cn s) ! i)"
    and s': "mClusterTable (get_config cn s') = (mClusterTable (get_config cn s))[i := c]"
  shows "cluster_at cn k i s'"
proof -
  let ?t = "mClusterTable (get_config cn s)"
  let ?P = "\<lambda>c. cl_inUse c \<and> cl_clusterId c = k"
  have "first_index ?P (take 64 (?t[i := c])) = first_index ?P (take 64 ?t)"
  proof (rule first_index_cong)
    fix j assume "j < length (take 64 (?t[i := c]))"
    then show "?P (take 64 (?t[i := c]) ! j) = ?P (take 64 ?t ! j)"
      using c cluster_at_less [OF at] by (cases "j = i") simp_all
  qed simp
  then show ?thesis using at s' by (simp add: cluster_at_def)
qed

lemma switch_active:
  assumes "cluster_at cn k i s" and "c = mClusterTable (get_config cn s) ! i" and "of_nat (cl_flags c) AND asw \<noteq> 0"
    and "length (cl_servicesSIDs c) < 2 ^ 16"
  shows "mClusterTable (get_config cn (switch_cluster cn k asw sc s)) =
      (mClusterTable (get_config cn s))[i := c\<lparr>cl_announcing := cl_announcing c + 1\<rparr>]"
    and "fd_Fig1 (switch_cluster cn k asw sc s) = fd_Fig1 s"
    and "fd_signals (switch_cluster cn k asw sc s) = fd_signals s @
      (if cl_announcing c + 1 = 5 then map (\<lambda>sid. signal_start_announcement
           (get_service_label_of_SId_from_all_Fig1 (fd_Fig1 s) sid) sc) (cl_servicesSIDs c) else [])"
proof -
  have g: "get_cluster (mClusterTable (get_config cn s)) k = (i, mClusterTable (get_config cn s))"
    using assms(1) by (simp add: get_cluster_def cluster_at_def)
  have m: "length (cl_servicesSIDs c) mod 2 ^ 16 = length (cl_servicesSIDs c)" using assms(4) by (rule mod_less)
  have u: "switch_cluster cn k asw sc s =
     (let s' = upd_config cn (\<lambda>conf. conf\<lparr>mClusterTable := (mClusterTable (get_config cn s))
                 [i := c\<lparr>cl_announcing := cl_announcing c + 1\<rparr>]\<rparr>) s
      in if cl_announcing c + 1 = 5 then announce signal_start_announcement sc (cl_servicesSIDs c) s' else s')"
    using assms(3) m unfolding switch_cluster_def g Let_def prod.case assms(2) [symmetric] by simp
  show "mClusterTable (get_config cn (switch_cluster cn k asw sc s)) =
      (mClusterTable (get_config cn s))[i := c\<lparr>cl_announcing := cl_announcing c + 1\<rparr>]"
    and "fd_Fig1 (switch_cluster cn k asw sc s) = fd_Fig1 s"
    and "fd_signals (switch_cluster cn k asw sc s) = fd_signals s @
      (if cl_announcing c + 1 = 5 then map (\<lambda>sid. signal_start_announcement
           (get_service_label_of_SId_from_all_Fig1 (fd_Fig1 s) sid) sc) (cl_servicesSIDs c) else [])"
    unfolding u Let_def by (simp_all add: announce_signals)
qed

lemma switch_repeated:
  fixes sc :: nat
  assumes at: "cluster_at cn k i s" and c: "c = mClusterTable (get_config cn s) ! i" "cl_announcing c = 0"
    "of_nat (cl_flags c) AND asw \<noteq> 0" "length (cl_servicesSIDs c) < 2 ^ 16"
  defines "t n \<equiv> (switch_cluster cn k asw sc ^^ n) s"
  shows "cluster_at cn k i (t n) \<and> mClusterTable (get_config cn (t n)) ! i = c\<lparr>cl_announcing := int n\<rparr> \<and>
    fd_Fig1 (t n) = fd_Fig1 s \<and>
    fd_signals (t n) = fd_signals s @ (if n \<ge> 5 then map (\<lambda>sid. signal_start_announcement
         (get_service_label_of_SId_from_all_Fig1 (fd_Fig1 s) sid) sc) (cl_servicesSIDs c) else [])"
proof (induction n)
  case 0
  then show ?case using at c(1,2) by (simp add: t_def)
next
  case (Suc n)
  have at': "cluster_at cn k i (t n)" and cn: "c\<lparr>cl_announcing := int n\<rparr> = mClusterTable (get_config cn (t n)) ! i"
    and f: "fd_Fig1 (t n) = fd_Fig1 s" using Suc by simp_all
  have t: "t (Suc n) = switch_cluster cn k asw sc (t n)" by (simp add: t_def)
  note a = switch_active [OF at' cn, of asw sc, simplified Cluster.select_convs Cluster.update_convs, folded t]
  have "cluster_at cn k i (t (Suc n))"
    by (rule cluster_at_update [OF at' _ _ a(1)]) (use c cn in \<open>simp_all flip: cn\<close>)
  then show ?case using a c Suc f cluster_at_less [OF at'] by (auto simp: add.commute)
qed

section \<open>Properties\<close>

text \<open>
  C12: The decoder survives every FIB: in every reachable state and for every array of bits, processing a
  FIB ends, with a state that is reachable again.  (The loop over the fields of a FIG takes the size of
  a known FIG 0/13 entry from the stored entry; it could not end if that size were ever zero.)
\<close>

theorem process_FIB_returns:
  assumes "fib_reachable qt s" and "fib_bits bits"
  shows "\<exists>s'. process_FIB qt now bits s = Some s' \<and> fib_reachable qt s'"
  using process_FIB_total [OF reachable_inv [OF assms(1)] assms(2), of qt now]
    fib_reachable.step [OF assms(1) fib_step.step_FIB [OF assms(2)]] by blast

theorem process_FIB_returns_witness:
  "\<exists>s'. process_FIB \<lparr>fromUtf16 = \<lambda>b n. take n b, fromUtf8 = \<lambda>b n. take n b\<rparr> 7 (\<lambda>i. if even i then 1 else 0) FibDecoder = Some s' \<and>
    fib_reachable \<lparr>fromUtf16 = \<lambda>b n. take n b, fromUtf8 = \<lambda>b n. take n b\<rparr> s'"
  by (rule process_FIB_returns) (simp_all add: fib_reachable.start fib_bits_def)

text \<open>
  C8: In every reachable state the sub-channels of the current and of the next configuration have
  different identifiers, lie inside the 864 capacity units of a CIF, and no capacity unit belongs to
  two of them.
\<close>

theorem subchannels_disjoint:
  assumes "fib_reachable qt s"
  shows "\<forall>c\<in>{fd_Curr s, fd_Next s}. distinct (map s1_SubChId (Fig0s1Vec c)) \<and>
    (\<forall>e\<in>set (Fig0s1Vec c). cu_range e \<subseteq> {0..<864}) \<and>
    (\<forall>i j. i < j \<and> j < length (Fig0s1Vec c) \<longrightarrow> cu_range (Fig0s1Vec c ! i) \<inter> cu_range (Fig0s1Vec c ! j) = {})"
proof -
  have "subchannels_ok (Fig0s1Vec c)" if "c \<in> {fd_Curr s, fd_Next s}" for c
    using reachable_inv [OF assms] that by (auto simp: fib_inv_def conf_inv_def)
  from subchannels_geometry [OF this] show ?thesis by blast
qed

text \<open>
  C18: In every reachable state the content is a table: no two entries of the vectors for services (0/2),
  packet components (0/3), global definitions (0/8), FEC (0/14), programme types (0/17) and labels (1/1,
  1/4, 1/5) have the same key, there is at most one entry for the configuration information (0/7), for the country (0/9) and for the
  ensemble label (1/0), every label of these four kinds has 16 and its short form 8 characters, and the label map is ordered by its keys
  without duplicates. The vectors for languages (0/5) and user applications (0/13) are not in this list: they can get
  several entries of the same key.
\<close>

theorem fib_content_tables:
  assumes "fib_reachable qt s"
  shows "(\<forall>c\<in>{fd_Curr s, fd_Next s}.
      distinct (map (\<lambda>e. (s2_SId e, s2_ServiceComp_C_index e)) (Fig0s2Vec c)) \<and>
      distinct (map s3_SCId (Fig0s3Vec c)) \<and> distinct (map (\<lambda>e. (s8_SId e, s8_SCIdS e)) (Fig0s8Vec c)) \<and>
      distinct (map s14_SubChId (Fig0s14Vec c)) \<and> distinct (map s17_SId (Fig0s17Vec c)) \<and>
      length (Fig0s7Vec c) \<le> 1 \<and> length (Fig0s9Vec c) \<le> 1) \<and>
    distinct (map g1_SId (Fig1s1Vec (fd_Fig1 s))) \<and> length (Fig1s0Vec (fd_Fig1 s)) \<le> 1 \<and>
    distinct (map (\<lambda>e. (g4_SId e, g4_SCIdS e)) (Fig1s4Vec (fd_Fig1 s))) \<and>
    distinct (map g5_SId (Fig1s5Vec (fd_Fig1 s))) \<and>
    (\<forall>e\<in>set (Fig1s0Vec (fd_Fig1 s)). length (df_Name e) = 16 \<and> length (df_NameShort e) = 8) \<and>
    (\<forall>e\<in>set (Fig1s1Vec (fd_Fig1 s)). length (df_Name e) = 16 \<and> length (df_NameShort e) = 8) \<and>
    (\<forall>e\<in>set (Fig1s4Vec (fd_Fig1 s)). length (df_Name e) = 16 \<and> length (df_NameShort e) = 8) \<and>
    (\<forall>e\<in>set (Fig1s5Vec (fd_Fig1 s)). length (df_Name e) = 16 \<and> length (df_NameShort e) = 8) \<and>
    sorted_wrt qstring_less (map fst (serviceLabel_To_SId_SCIdS_Map (fd_Fig1 s)))"
  using reachable_inv [OF assms] by (auto simp: fib_inv_def conf_inv_def labels_inv_def list_all_iff label_ok_def)

text \<open>
  C19: What one entry of FIG 0/1 does.  A known sub-channel keeps its description: apart from the time of the second reception
  in its entry nothing changes anywhere.  A new one for which there is no room (its units leave the CIF or overlap
  a known one; an entry of size zero starts behind the CIF or inside a known one) makes the decoder drop
  all ten tables of both configurations and all labels and start over, without a signal; only the
  cluster tables survive.  Any other new one is added: its lookup then returns what
  was read, no other lookup changes, and the other tables, the other configuration and the labels stay as they are.
\<close>

definition no_content :: "FibConfigFig0 \<Rightarrow> bool" where
  "no_content c \<longleftrightarrow> Fig0s1Vec c = [] \<and> Fig0s2Vec c = [] \<and> Fig0s3Vec c = [] \<and> Fig0s5Vec c = [] \<and> Fig0s7Vec c = [] \<and>
     Fig0s8Vec c = [] \<and> Fig0s9Vec c = [] \<and> Fig0s13Vec c = [] \<and> Fig0s14Vec c = [] \<and> Fig0s17Vec c = []"

definition no_labels :: "FibConfigFig1 \<Rightarrow> bool" where
  "no_labels c \<longleftrightarrow> Fig1s0Vec c = [] \<and> Fig1s1Vec c = [] \<and> Fig1s4Vec c = [] \<and> Fig1s5Vec c = [] \<and> serviceLabel_To_SId_SCIdS_Map c = []"

theorem Fig0s1_entry:
  fixes s :: fib_decoder and fh :: SFigHeader and used now :: nat
  assumes "fib_reachable qt s" and "fib_bits d"
  defines "k \<equiv> uint (getBits_6 d (used * 8))" and "e \<equiv> fst (parse_Fig0s1 d (used * 8))" and "cn \<equiv> fh_CN_Flag fh"
    and "c \<equiv> get_config (fh_CN_Flag fh) s" and "s' \<equiv> snd (subprocess_Fig0s1 now d used fh s)"
  shows "if get_Fig0s1_of_SubChId c k \<noteq> None
    then map (\<lambda>e. e\<lparr>TimePoint2ndCall := 0\<rparr>) (Fig0s1Vec (get_config cn s')) = map (\<lambda>e. e\<lparr>TimePoint2ndCall := 0\<rparr>) (Fig0s1Vec c) \<and>
      upd_config cn (\<lambda>c'. c'\<lparr>Fig0s1Vec := Fig0s1Vec c\<rparr>) s' = s
    else if no_room (Fig0s1Vec c) e
    then no_content (fd_Curr s') \<and> no_content (fd_Next s') \<and> no_labels (fd_Fig1 s') \<and>
      fd_RestartFibDecoding s' \<and> fd_FibLoadingState s' = S0_Init \<and> fd_signals s' = fd_signals s \<and>
      mClusterTable (fd_Curr s') = mClusterTable (fd_Curr s) \<and> mClusterTable (fd_Next s') = mClusterTable (fd_Next s)
    else (\<forall>j. get_Fig0s1_of_SubChId (get_config cn s') j = (if j = k then Some (set_current_time now e) else get_Fig0s1_of_SubChId c j)) \<and>
      fd_Fig1 s' = fd_Fig1 s \<and>
      (get_config cn s')\<lparr>Fig0s1Vec := []\<rparr> = c\<lparr>Fig0s1Vec := []\<rparr> \<and>
      (if cn = 0 then fd_Next s' = fd_Next s else fd_Curr s' = fd_Curr s)"
proof (cases "get_Fig0s1_of_SubChId c k")
  case (Some f)
  have "map (\<lambda>e. e\<lparr>TimePoint2ndCall := 0\<rparr>) (update_first P (set_current_time_2nd_call now) xs) = map (\<lambda>e. e\<lparr>TimePoint2ndCall := 0\<rparr>) xs"
    for xs :: "SFig0s1 list" and P
    by (induction xs) (simp_all add: set_current_time_2nd_call_def)
  moreover have "s' = upd_config cn (\<lambda>c. c\<lparr>Fig0s1Vec := update_first (\<lambda>e. s1_SubChId e = k) (set_current_time_2nd_call now) (Fig0s1Vec c)\<rparr>) s"
    using Some unfolding s'_def by (simp add: subprocess_Fig0s1_def Let_def k_def [symmetric] c_def [symmetric] cn_def)
  ultimately show ?thesis using Some
    by (simp add: c_def cn_def [symmetric]) (simp add: upd_config_def get_config_def)
next
  case None
  obtain b where p: "parse_Fig0s1 d (used * 8) = (e, b)" unfolding e_def by (metis prod.collapse)
  note ok = parse_Fig0s1_ok [OF assms(2), of "used * 8", unfolded p fst_conv snd_conv]
  have "conf_inv c" unfolding c_def by (rule config_inv [OF reachable_inv [OF assms(1)]])
  then have "list_all subchannel_ok (Fig0s1Vec c)" by (simp add: conf_inv_def subchannels_ok_def)
  note room = no_room_iff [OF ok(2,3) this]
  show ?thesis
  proof (cases "no_room (Fig0s1Vec c) e")
    case True
    then have "s' = restart_fib_decoding s"
      using None room unfolding s'_def by (auto simp: subprocess_Fig0s1_def Let_def p k_def [symmetric] c_def [symmetric])
    then show ?thesis using None True
      by (simp add: restart_fib_decoding_def fib_reset_def reset0_def reset1_def no_content_def no_labels_def)
  next
    case False
    then have s': "s' = retrigger_timer_data_loaded_fast now
        (upd_config cn (\<lambda>c. c\<lparr>Fig0s1Vec := Fig0s1Vec c @ [set_current_time now e]\<rparr>) s)"
      using None room unfolding s'_def by (auto simp: subprocess_Fig0s1_def Let_def p k_def [symmetric] c_def [symmetric] cn_def)
    have "get_Fig0s1_of_SubChId (get_config cn s') j = (if j = k then Some (set_current_time now e) else get_Fig0s1_of_SubChId c j)" for j
      using fig0s1.found_after_append [of k "Fig0s1Vec c" e now] None ok(1)
        find_append_other [of "\<lambda>e. s1_SubChId e = j" "set_current_time now e" "Fig0s1Vec c"]
      by (auto simp: s' get_Fig0s1_of_SubChId_def k_def c_def cn_def)
    moreover have "fd_Fig1 s' = fd_Fig1 s" "(get_config cn s')\<lparr>Fig0s1Vec := []\<rparr> = c\<lparr>Fig0s1Vec := []\<rparr>"
        "if cn = 0 then fd_Next s' = fd_Next s else fd_Curr s' = fd_Curr s"
      by (simp_all add: s' c_def cn_def frame_simps) (simp_all add: upd_config_def)
    ultimately show ?thesis using None False by simp
  qed
qed

text \<open>
  C17: When the consistency check reports the audio data as fully loaded, it is: every audio service of
  FIG 0/2 gets a defined descriptor, with the label of a received FIG 1/1 and the capacity units of a
  received FIG 0/1.
\<close>

theorem audio_loaded_complete:
  assumes "fd_FibLoadingState s \<le> S2_PrimaryBaseDataLoaded"
    and "fd_FibLoadingState (slot_timer_data_consistency_check s) \<ge> S3_FullyAudioDataLoaded"
    and "get_Fig0s2_of_SId_TMId (fd_Curr s) SId 0 \<noteq> None"
  shows "let s' = slot_timer_data_consistency_check s; ad' = get_data_for_audio_service s' SId ad in
    signal_fib_loaded_state S3_FullyAudioDataLoaded \<in> set (fd_signals s') \<and> sd_isDefined ad' \<and>
    (\<exists>l\<in>set (Fig1s1Vec (fd_Fig1 s')). sd_serviceLabel ad' = df_Name l) \<and>
    (\<exists>f\<in>set (Fig0s1Vec (fd_Curr s')). sd_CuStartAddr ad' = s1_StartAddr f \<and> sd_CuSize ad' = s1_SubChannelSize f)"
proof -
  let ?s = "slot_timer_data_consistency_check s" and ?t = "s\<lparr>fd_FibLoadingState := S2_PrimaryBaseDataLoaded\<rparr>"
  obtain e where e: "get_Fig0s2_of_SId_TMId (fd_Curr s) SId 0 = Some e" using assms(3) by blast
  have chk: "check_audio_data_completeness ?t"
    using assms(1,2) by (auto simp: slot_timer_data_consistency_check_def Let_def state_order split: if_splits)
  then have "list_all (\<lambda>e. audio_complete ?t e False) (filter (\<lambda>e. sc_TMId (s2_ServiceComp_C e) = 0) (Fig0s2Vec (fd_Curr s)))"
    by (simp add: check_audio_data_completeness_def Let_def)
  moreover have "e \<in> set (filter (\<lambda>e. sc_TMId (s2_ServiceComp_C e) = 0) (Fig0s2Vec (fd_Curr s)))"
    using e unfolding get_Fig0s2_of_SId_TMId_def by (rule find_in_filter)
  ultimately have "audio_complete s e False" by (simp add: list_all_iff audio_complete_frame)
  then have "audio_complete ?s e False" by (simp add: audio_complete_def consistency_frame)
  note d = audio_complete_defined [OF this, of "ad\<lparr>sd_isDefined := False\<rparr>"]
  have "\<not> fd_FibLoadingState ?s < S1_FastAudioDataLoaded"
    using assms(2) by (cases "fd_FibLoadingState ?s") (simp_all add: state_order)
  then have "get_data_for_audio_service ?s SId ad = get_audio_data ?s e (ad\<lparr>sd_isDefined := False\<rparr>)"
    by (simp add: get_data_for_audio_service_def Let_def consistency_frame e)
  moreover have "signal_fib_loaded_state S3_FullyAudioDataLoaded \<in> set (fd_signals ?s)"
    using assms(1) chk by (simp add: slot_timer_data_consistency_check_def Let_def emit_def)
  ultimately show ?thesis using d by (simp add: Let_def)
qed

theorem audio_loaded_complete_witness:
  "\<exists>s. sd_isDefined (get_data_for_audio_service (slot_timer_data_consistency_check s) 4660 new_SAudioData)"
proof -
  define e1 where "e1 = empty_Fig0s1\<lparr>s1_SubChId := 5, s1_StartAddr := 0, s1_SubChannelSize := 16\<rparr>"
  define e2 where "e2 = empty_Fig0s2\<lparr>s2_PD_Flag := 0, s2_SId := 4660, s2_ServiceComp_C :=
      \<lparr>sc_TMId = 0, sc_ref = TMId00 5 63, sc_PS_Flag = 1, sc_CA_Flag = 0\<rparr>\<rparr>"
  define l where "l = \<lparr>TimePoint = 0, TimePoint2ndCall = 0, df_Charset = 0, df_Name = [65], df_NameShort = [65],
      df_CharFlagField = 0, g1_SId = 4660\<rparr>"
  define s where "s = FibDecoder\<lparr>fd_Curr := new_FibConfigFig0\<lparr>Fig0s1Vec := [e1], Fig0s2Vec := [e2]\<rparr>,
      fd_Fig1 := reset1\<lparr>Fig1s1Vec := [l]\<rparr>\<rparr>"
  note d = s_def e1_def e2_def l_def FibDecoder_def empty_Fig0s1_def empty_Fig0s2_def new_FibConfigFig0_def reset1_def
  have "fd_FibLoadingState s \<le> S2_PrimaryBaseDataLoaded" by (simp add: d state_order)
  moreover have "fd_FibLoadingState (slot_timer_data_consistency_check s) \<ge> S3_FullyAudioDataLoaded"
    by (simp add: d slot_timer_data_consistency_check_def Let_def check_audio_data_completeness_def audio_complete_def
        get_Fig0s1_of_SubChId_def get_Fig1s1_of_SId_def state_order emit_def check_packet_data_completeness_def)
  moreover have "get_Fig0s2_of_SId_TMId (fd_Curr s) 4660 0 \<noteq> None"
    by (simp add: d get_Fig0s2_of_SId_TMId_def)
  ultimately show ?thesis using audio_loaded_complete [of s 4660 new_SAudioData] by (auto simp: Let_def)
qed

text \<open>
  C36: An announcement is started once: while the switching flags of a known cluster keep matching, the
  services of the cluster are announced exactly at the fifth repetition and never again, and the
  counter counts the repetitions.
\<close>

theorem announcement_started_once:
  assumes "cluster_at cn k i s" and "c = mClusterTable (get_config cn s) ! i" and "cl_announcing c = 0"
    and "of_nat (cl_flags c) AND asw \<noteq> 0" and "length (cl_servicesSIDs c) < 2 ^ 16"
  shows "fd_signals ((switch_cluster cn k asw sc ^^ n) s) = fd_signals s @
      (if n \<ge> 5 then map (\<lambda>sid. signal_start_announcement
         (get_service_label_of_SId_from_all_Fig1 (fd_Fig1 s) sid) sc) (cl_servicesSIDs c) else []) \<and>
    cl_announcing (mClusterTable (get_config cn ((switch_cluster cn k asw sc ^^ n) s)) ! i) = int n"
  using switch_repeated [OF assms, where sc = sc and n = n] by simp

theorem announcement_started_once_witness:
  "\<exists>s. length (fd_signals ((switch_cluster 0 7 1 3 ^^ 9) s)) = 2 \<and> fd_signals s = []"
proof -
  define c where "c = empty_cluster\<lparr>cl_flags := 3, cl_inUse := True, cl_clusterId := 7, cl_servicesSIDs := [10, 11]\<rparr>"
  define s where "s = FibDecoder\<lparr>fd_Curr := new_FibConfigFig0\<lparr>mClusterTable := c # replicate 127 empty_cluster\<rparr>\<rparr>"
  have "cluster_at 0 7 0 s" by (simp add: cluster_at_def s_def get_config_def c_def)
  from announcement_started_once [OF this, where c = c and asw = 1 and sc = 3 and n = 9] have "length (fd_signals ((switch_cluster 0 7 1 3 ^^ 9) s)) = 2"
    by (simp add: s_def c_def get_config_def empty_cluster_def FibDecoder_def)
  moreover have "fd_signals s = []" by (simp add: s_def FibDecoder_def)
  ultimately show ?thesis by blast
qed

text \<open>
  Date and time of FIG 0/10: in the long form day, hour, minute and second are the numbers written
  at their positions in the FIG (17, 5, 6 and 6 bits at 17, 37, 42 and 48); in the short form hour and
  minute are (5 and 6 bits at 37 and 42) and no second is given; the interface is told only when the
  local time offset is known.
\<close>

theorem time_fields_positional:
  assumes "fib_bits d"
  shows "let s' = process_Fig0s10 d s; t = fd_UtcTimeSet s' in
    ut_ModJulianDate t = int (bits_val d 17 17) \<and> ut_Hour t = int (bits_val d 37 5) \<and>
    ut_Minute t = int (bits_val d 42 6) \<and>
    ut_Second t = (if d 36 = 1 then int (bits_val d 48 6) else - 1) \<and>
    fd_signals s' = fd_signals s @ (if Fig0s9Vec (fd_Curr s) = [] then [] else [signal_fib_time_info t])"
proof -
  let ?s = "process_Fig0s10 d s"
  have b: "is_bits d p n" for p n using assms by (simp add: fib_bits_def is_bits_def)
  have f: "unat (getBits_1 d 36) = 1 \<longleftrightarrow> d 36 = 1"
    using assms by (simp add: getBits_1_def word_unat_eq_iff)
  have m: "unat (getLBits d 17 17) = bits_val d 17 17" using long_reader.rd_val [of 17 d 17] b by simp
  have long: "utc_field (getLBits d 37 27) 22 5 = int (bits_val d 37 5)"
    "utc_field (getLBits d 37 27) 16 6 = int (bits_val d 42 6)"
    "utc_field (getLBits d 37 27) 10 6 = int (bits_val d 48 6)"
    using utc_field_bits [OF assms, of 5 22 27 37] utc_field_bits [OF assms, of 6 16 27 37]
      utc_field_bits [OF assms, of 6 10 27 37] by simp_all
  have short: "utc_field (getLBits d 37 11) 6 5 = int (bits_val d 37 5)"
    "utc_field (getLBits d 37 11) 0 6 = int (bits_val d 42 6)"
    using utc_field_bits [OF assms, of 5 6 11 37] utc_field_bits [OF assms, of 6 0 11 37] by simp_all
  define t where "t = fd_UtcTimeSet ?s"
  have s: "s10_UTC (parse_Fig0s10 d) = getLBits d 37 (if d 36 = 1 then 27 else 11)"
    "s10_MJD (parse_Fig0s10 d) = bits_val d 17 17" "s10_UTC_Flag (parse_Fig0s10 d) = Suc 0 \<longleftrightarrow> d 36 = 1"
    using m f by (simp_all add: parse_Fig0s10_def Let_def)
  show ?thesis
    by (cases "d 36 = 1"; cases "Fig0s9Vec (fd_Curr s) = []")
      (simp_all add: process_Fig0s10_def Let_def s long short get_Fig0s9_def first_of_def emit_def)
qed

theorem time_fields_positional_witness:
  "ut_Hour (fd_UtcTimeSet (process_Fig0s10 (\<lambda>i. if i = 41 then 1 else 0) FibDecoder)) = 1"
proof -
  have "fib_bits (\<lambda>i. if i = 41 then 1 else 0)" by (simp add: fib_bits_def)
  from time_fields_positional [OF this, of FibDecoder] show ?thesis by (simp add: Let_def numeral_eq_Suc)
qed

lemma long_SCId_step:
  fixes s :: fib_decoder and now used :: nat and fh :: SFigHeader
  assumes "d (used * 8) = 1" and "256 \<le> uint (getBits d (used * 8 + 4) 12)"
  defines "k \<equiv> uint (getBits d (used * 8 + 4) 12)"
    and "known \<equiv> \<lambda>xs. \<exists>e\<in>set xs. s5_LS_Flag e = 1 \<and> s5_SCId e = uint (getBits d (used * 8 + 4) 12) mod 256"
    and "s' \<equiv> snd (subprocess_Fig0s5 now d used fh s)"
  shows "known (Fig0s5Vec (fd_Curr s)) \<Longrightarrow> known (Fig0s5Vec (fd_Curr s')) \<and>
      map (\<lambda>e. e\<lparr>TimePoint2ndCall := 0\<rparr>) (Fig0s5Vec (fd_Curr s')) = map (\<lambda>e. e\<lparr>TimePoint2ndCall := 0\<rparr>) (Fig0s5Vec (fd_Curr s))"
    and "\<not> known (Fig0s5Vec (fd_Curr s)) \<Longrightarrow> \<not> known (Fig0s5Vec (fd_Curr s')) \<and>
      map (\<lambda>e. (s5_SCId e, s5_Language e)) (Fig0s5Vec (fd_Curr s')) =
        map (\<lambda>e. (s5_SCId e, s5_Language e)) (Fig0s5Vec (fd_Curr s)) @ [(k, unat (getBits_8 d (used * 8 + 16)))]"
proof -
  let ?P = "\<lambda>e. s5_LS_Flag e = 1 \<and> s5_SCId e = k mod 256"
  have one: "getBits_1 d (used * 8) \<noteq> 0" using assms(1) by (simp add: getBits_1_def)
  have f: "get_Fig0s5_of_SCId (fd_Curr s) k = None \<longleftrightarrow> \<not> known (Fig0s5Vec (fd_Curr s))"
    unfolding get_Fig0s5_of_SCId_def find_None_iff known_def k_def by blast
  have t: "s5_LS_Flag (set_current_time_2nd_call now e) = s5_LS_Flag e" "s5_SCId (set_current_time_2nd_call now e) = s5_SCId e" for e
    by (simp_all add: set_current_time_2nd_call_def)
  have u: "map (\<lambda>e. e\<lparr>TimePoint2ndCall := 0\<rparr>) (update_first ?P (set_current_time_2nd_call now) xs) = map (\<lambda>e. e\<lparr>TimePoint2ndCall := 0\<rparr>) xs"
      "(\<exists>e\<in>set (update_first ?P (set_current_time_2nd_call now) xs). ?P e) = (\<exists>e\<in>set xs. ?P e)" for xs :: "SFig0s5 list"
    by (induction xs) (simp_all add: t, simp add: set_current_time_2nd_call_def)
  show "known (Fig0s5Vec (fd_Curr s')) \<and>
      map (\<lambda>e. e\<lparr>TimePoint2ndCall := 0\<rparr>) (Fig0s5Vec (fd_Curr s')) = map (\<lambda>e. e\<lparr>TimePoint2ndCall := 0\<rparr>) (Fig0s5Vec (fd_Curr s))"
    if kn: "known (Fig0s5Vec (fd_Curr s))"
  proof -
    obtain e where "get_Fig0s5_of_SCId (fd_Curr s) k = Some e"
      using f kn by (cases "get_Fig0s5_of_SCId (fd_Curr s) k") auto
    then have "Fig0s5Vec (fd_Curr s') = update_first ?P (set_current_time_2nd_call now) (Fig0s5Vec (fd_Curr s))"
      using one by (simp add: s'_def subprocess_Fig0s5_def Let_def upd_config_def k_def)
    then show ?thesis using u [of "Fig0s5Vec (fd_Curr s)"] that by (simp add: known_def k_def)
  qed
  show "\<not> known (Fig0s5Vec (fd_Curr s')) \<and> map (\<lambda>e. (s5_SCId e, s5_Language e)) (Fig0s5Vec (fd_Curr s')) =
        map (\<lambda>e. (s5_SCId e, s5_Language e)) (Fig0s5Vec (fd_Curr s)) @ [(k, unat (getBits_8 d (used * 8 + 16)))]"
    if "\<not> known (Fig0s5Vec (fd_Curr s))"
  proof -
    have "get_Fig0s5_of_SCId (fd_Curr s) k = None" using f that by blast
    moreover have "k \<noteq> k mod 256"
    proof -
      have "k mod 256 < 256" by simp
      then show ?thesis using assms(2) unfolding k_def by linarith
    qed
    ultimately show ?thesis using one that
      by (simp add: s'_def subprocess_Fig0s5_def Let_def retrigger_timer_data_loaded_slow_def frame_simps upd_config_def
          set_current_time_def known_def k_def)
  qed
qed

text \<open>
  C38: The language table and long identifiers: the search for a component by its 12-bit identifier
  takes an 8-bit argument, so it looks for the identifier modulo 256. If the table holds no entry of that shorter
  identifier, an entry of FIG 0/5 with an identifier above 255 is not found although it was stored, and every
  repetition of the same FIG stores it again. If the table does hold one, that entry is taken for the
  repetition of the other component, and the language of the long identifier is never stored.
\<close>

theorem language_of_long_SCId_repeats:
  fixes s :: fib_decoder and now n used :: nat and fh :: SFigHeader
  assumes "d (used * 8) = 1" and "256 \<le> uint (getBits d (used * 8 + 4) 12)"
  defines "k \<equiv> uint (getBits d (used * 8 + 4) 12)"
    and "s' \<equiv> ((\<lambda>s. snd (subprocess_Fig0s5 now d used fh s)) ^^ n) s"
  shows "if \<exists>e\<in>set (Fig0s5Vec (fd_Curr s)). s5_LS_Flag e = 1 \<and> s5_SCId e = k mod 256
    then map (\<lambda>e. e\<lparr>TimePoint2ndCall := 0\<rparr>) (Fig0s5Vec (fd_Curr s')) = map (\<lambda>e. e\<lparr>TimePoint2ndCall := 0\<rparr>) (Fig0s5Vec (fd_Curr s))
    else map (\<lambda>e. (s5_SCId e, s5_Language e)) (Fig0s5Vec (fd_Curr s')) =
      map (\<lambda>e. (s5_SCId e, s5_Language e)) (Fig0s5Vec (fd_Curr s)) @ replicate n (k, unat (getBits_8 d (used * 8 + 16)))"
proof -
  let ?f = "\<lambda>s. snd (subprocess_Fig0s5 now d used fh s)" and ?same = "\<lambda>e. s5_LS_Flag e = 1 \<and> s5_SCId e = k mod 256"
  let ?untimed = "map (\<lambda>e :: SFig0s5. e\<lparr>TimePoint2ndCall := 0\<rparr>)" and ?new = "(k, unat (getBits_8 d (used * 8 + 16)))"
  note ls = long_SCId_step [OF assms(1,2), where now = now and fh = fh, folded k_def]
  show ?thesis
  proof (cases "\<exists>e\<in>set (Fig0s5Vec (fd_Curr s)). ?same e")
    case True
    have "?untimed (Fig0s5Vec (fd_Curr ((?f ^^ n) s))) = ?untimed (Fig0s5Vec (fd_Curr s)) \<and>
        (\<exists>e\<in>set (Fig0s5Vec (fd_Curr ((?f ^^ n) s))). ?same e)"
      by (induction n) (use True ls(1) in simp_all)
    then show ?thesis using True by (simp add: s'_def)
  next
    case False
    have "map (\<lambda>e. (s5_SCId e, s5_Language e)) (Fig0s5Vec (fd_Curr ((?f ^^ n) s))) =
        map (\<lambda>e. (s5_SCId e, s5_Language e)) (Fig0s5Vec (fd_Curr s)) @ replicate n ?new \<and>
        \<not> (\<exists>e\<in>set (Fig0s5Vec (fd_Curr ((?f ^^ n) s))). ?same e)"
    proof (induction n)
      case (Suc n)
      then show ?case using ls(2) [of "(?f ^^ n) s"] by (simp flip: replicate_append_same)
    qed (use False in simp)
    then show ?thesis unfolding if_not_P [OF False] by (simp add: s'_def)
  qed
qed

text \<open>A long identifier, three times from the start.\<close>

theorem language_of_long_SCId_repeats_witness:
  "map (\<lambda>e. (s5_SCId e, s5_Language e)) (Fig0s5Vec (fd_Curr (((\<lambda>s. snd (subprocess_Fig0s5 1 (\<lambda>_. 1) 2
      \<lparr>fh_Length = 4, fh_CN_Flag = 0, fh_OE_Flag = 0, fh_PD_Flag = 0\<rparr> s)) ^^ 3) FibDecoder))) = [(4095, 255), (4095, 255), (4095, 255)]"
proof -
  have ones: "bits_val (\<lambda>_. 1) p n + 1 = 2 ^ n" for p n by (induction n) simp_all
  have "bits_val (\<lambda>_. 1) (2 * 8 + 4) 12 = 4095" "bits_val (\<lambda>_. 1) (2 * 8 + 16) 8 = 255"
    using ones [of "2 * 8 + 4" 12] ones [of "2 * 8 + 16" 8] by simp_all
  then have n: "unat (getBits (\<lambda>_. 1) (2 * 8 + 4) 12) = 4095"
    using short_reader.rd_val [of 12 "\<lambda>_. 1" "2 * 8 + 4"] by (simp add: is_bits_def)
  have l: "unat (getBits_8 (\<lambda>_. 1) (2 * 8 + 16)) = 255"
    by code_simp
  have u: "uint (getBits (\<lambda>_. 1) (2 * 8 + 4) 12) = 4095" unfolding uint_nat n by simp
  have e: "Fig0s5Vec (fd_Curr FibDecoder) = []" by (simp add: FibDecoder_def new_FibConfigFig0_def)
  have "256 \<le> uint (getBits (\<lambda>_. 1) (2 * 8 + 4) 12)" unfolding u by simp
  from language_of_long_SCId_repeats [OF _ this, where s = FibDecoder and now = 1 and n = 3
      and fh = "\<lparr>fh_Length = 4, fh_CN_Flag = 0, fh_OE_Flag = 0, fh_PD_Flag = 0\<rparr>"]
  show ?thesis unfolding u l e by (simp add: numeral_3_eq_3)
qed

end
