(* ===== verification/Crc.thy ===== *)
theory Crc
  imports Bit_Extractors
begin

text \<open>
  The cyclic redundancy checks of \<^verbatim>\<open>src/src/base/backend/crc.cpp\<close>: the table-driven check on bytes and
  the shift-register check on bit arrays, both for the polynomial \<open>x^16 + x^12 + x^5 + 1\<close>.  The
  reference is the bit-serial register \<open>crc_bit\<close>; locale \<open>crc16_table\<close> says what makes a table of 256
  entries a table for it, and is reused by the fire code.  The theory shows that both implementations
  compute the reference, that they agree with each other, and that every error burst of at most 16
  bits is detected.
\<close>

section \<open>The code\<close>

definition crctab_1021 :: "u16 list" where
  "crctab_1021 = [
   0x0000, 0x1021, 0x2042, 0x3063, 0x4084, 0x50a5, 0x60c6, 0x70e7,
   0x8108, 0x9129, 0xa14a, 0xb16b, 0xc18c, 0xd1ad, 0xe1ce, 0xf1ef,
   0x1231, 0x0210, 0x3273, 0x2252, 0x52b5, 0x4294, 0x72f7, 0x62d6,
   0x9339, 0x8318, 0xb37b, 0xa35a, 0xd3bd, 0xc39c, 0xf3ff, 0xe3de,
   0x2462, 0x3443, 0x0420, 0x1401, 0x64e6, 0x74c7, 0x44a4, 0x5485,
   0xa56a, 0xb54b, 0x8528, 0x9509, 0xe5ee, 0xf5cf, 0xc5ac, 0xd58d,
   0x3653, 0x2672, 0x1611, 0x0630, 0x76d7, 0x66f6, 0x5695, 0x46b4,
   0xb75b, 0xa77a, 0x9719, 0x8738, 0xf7df, 0xe7fe, 0xd79d, 0xc7bc,
   0x48c4, 0x58e5, 0x6886, 0x78a7, 0x0840, 0x1861, 0x2802, 0x3823,
   0xc9cc, 0xd9ed, 0xe98e, 0xf9af, 0x8948, 0x9969, 0xa90a, 0xb92b,
   0x5af5, 0x4ad4, 0x7ab7, 0x6a96, 0x1a71, 0x0a50, 0x3a33, 0x2a12,
   0xdbfd, 0xcbdc, 0xfbbf, 0xeb9e, 0x9b79, 0x8b58, 0xbb3b, 0xab1a,
   0x6ca6, 0x7c87, 0x4ce4, 0x5cc5, 0x2c22, 0x3c03, 0x0c60, 0x1c41,
   0xedae, 0xfd8f, 0xcdec, 0xddcd, 0xad2a, 0xbd0b, 0x8d68, 0x9d49,
   0x7e97, 0x6eb6, 0x5ed5, 0x4ef4, 0x3e13, 0x2e32, 0x1e51, 0x0e70,
   0xff9f, 0xefbe, 0xdfdd, 0xcffc, 0xbf1b, 0xaf3a, 0x9f59, 0x8f78,
   0x9188, 0x81a9, 0xb1ca, 0xa1eb, 0xd10c, 0xc12d, 0xf14e, 0xe16f,
   0x1080, 0x00a1, 0x30c2, 0x20e3, 0x5004, 0x4025, 0x7046, 0x6067,
   0x83b9, 0x9398, 0xa3fb, 0xb3da, 0xc33d, 0xd31c, 0xe37f, 0xf35e,
   0x02b1, 0x1290, 0x22f3, 0x32d2, 0x4235, 0x5214, 0x6277, 0x7256,
   0xb5ea, 0xa5cb, 0x95a8, 0x8589, 0xf56e, 0xe54f, 0xd52c, 0xc50d,
   0x34e2, 0x24c3, 0x14a0, 0x0481, 0x7466, 0x6447, 0x5424, 0x4405,
   0xa7db, 0xb7fa, 0x8799, 0x97b8, 0xe75f, 0xf77e, 0xc71d, 0xd73c,
   0x26d3, 0x36f2, 0x0691, 0x16b0, 0x6657, 0x7676, 0x4615, 0x5634,
   0xd94c, 0xc96d, 0xf90e, 0xe92f, 0x99c8, 0x89e9, 0xb98a, 0xa9ab,
   0x5844, 0x4865, 0x7806, 0x6827, 0x18c0, 0x08e1, 0x3882, 0x28a3,
   0xcb7d, 0xdb5c, 0xeb3f, 0xfb1e, 0x8bf9, 0x9bd8, 0xabbb, 0xbb9a,
   0x4a75, 0x5a54, 0x6a37, 0x7a16, 0x0af1, 0x1ad0, 0x2ab3, 0x3a92,
   0xfd2e, 0xed0f, 0xdd6c, 0xcd4d, 0xbdaa, 0xad8b, 0x9de8, 0x8dc9,
   0x7c26, 0x6c07, 0x5c64, 0x4c45, 0x3ca2, 0x2c83, 0x1ce0, 0x0cc1,
   0xef1f, 0xff3e, 0xcf5d, 0xdf7c, 0xaf9b, 0xbfba, 0x8fd9, 0x9ff8,
   0x6e17, 0x7e36, 0x4e55, 0x5e74, 0x2e93, 0x3eb2, 0x0ed1, 0x1ef0]"

definition crc_table_step :: "u16 list \<Rightarrow> u16 \<Rightarrow> u8 \<Rightarrow> u16" where
  "crc_table_step tab crc b =
     (let pos = (ucast b XOR drop_bit 8 crc) AND 0xff in tab ! unat pos XOR push_bit 8 crc)"

definition calc_crc :: "(nat \<Rightarrow> u8) \<Rightarrow> nat \<Rightarrow> u16" where
  "calc_crc p n = NOT (foldl (\<lambda>crc i. crc_table_step crctab_1021 crc (p i)) 0xffff [0..<n])"

definition check_crc_bytes :: "(nat \<Rightarrow> u8) \<Rightarrow> nat \<Rightarrow> bool" where
  "check_crc_bytes msg len =
     (let accumulator = calc_crc msg len;
          crc = push_bit 8 (ucast (msg len)) OR ucast (msg (len + 1))
      in crc XOR accumulator = 0)"

definition crcPolynome :: "u8 list" where
  "crcPolynome = [0, 0, 0, 1, 0, 0, 0, 0, 0, 0, 1, 0, 0, 0, 0]"

definition crc_reg_step :: "u8 list \<Rightarrow> u8 \<Rightarrow> u8 list" where
  "crc_reg_step b x =
     (if b ! 0 XOR x = 1 then map (\<lambda>f. crcPolynome ! f XOR b ! (f + 1)) [0..<15] @ [1]
      else take 15 (drop 1 b) @ [0])"

definition check_CRC_bits :: "bit_ptr \<Rightarrow> nat \<Rightarrow> bool" where
  "check_CRC_bits iIn iSize =
     (let b = foldl (\<lambda>b i. let invBit = (if i + 16 \<ge> iSize then 1 else 0) in
                             crc_reg_step b (iIn i XOR invBit)) (replicate 16 1) [0..<iSize]
      in sum_list (map unat b) = 0)"

section \<open>The bit-serial reference\<close>

definition crc_shift :: "u16 \<Rightarrow> u16 \<Rightarrow> u16" where
  "crc_shift poly c = (if bit c 15 then push_bit 1 c XOR poly else push_bit 1 c)"

definition crc_bit :: "u16 \<Rightarrow> u16 \<Rightarrow> bool \<Rightarrow> u16" where
  "crc_bit poly c b = crc_shift poly (c XOR (if b then 0x8000 else 0))"

definition byte_bits :: "u8 \<Rightarrow> bool list" where
  "byte_bits b = map (\<lambda>i. bit b (7 - i)) [0..<8]"

declare push_bit_Suc [simp del]

lemma crc_shift_xor: "crc_shift poly (c XOR d) = crc_shift poly c XOR crc_shift poly d"
  by (auto simp: crc_shift_def bit_eq_iff bit_simps)

lemma crc_shift_0 [simp]: "crc_shift poly 0 = 0"
  by (simp add: crc_shift_def)

lemma crc_bit_xor: "crc_bit poly (c XOR d) (a \<noteq> b) = crc_bit poly c a XOR crc_bit poly d b"
proof -
  have "(c XOR d) XOR (if a \<noteq> b then 0x8000 else 0) =
      (c XOR (if a then 0x8000 else 0)) XOR (d XOR (if b then 0x8000 else 0))"
    by (auto simp: bit_eq_iff bit_simps)
  then show ?thesis by (simp only: crc_bit_def crc_shift_xor)
qed

lemma crc_shift_inj:
  assumes "bit poly 0" and "crc_shift poly c = 0"
  shows "c = 0"
proof (rule bit_word_eqI)
  fix n assume n: "n < LENGTH(16)"
  have "bit (crc_shift poly c) 0 \<longleftrightarrow> bit c 15"
    using assms(1) by (simp add: crc_shift_def bit_xor_iff bit_push_bit_iff)
  with assms(2) have top: "\<not> bit c 15" by simp
  then have "bit c n \<longleftrightarrow> bit (crc_shift poly c) (Suc n)" if "n < 15"
    using that by (simp add: crc_shift_def bit_push_bit_iff)
  moreover have "n = 15" if "\<not> n < 15" using that n by simp
  ultimately show "bit c n = bit (0 :: u16) n" using top assms(2) by (cases "n < 15") auto
qed

lemma crc_shift_pow_xor:
  "(crc_shift poly ^^ n) (c XOR d) = (crc_shift poly ^^ n) c XOR (crc_shift poly ^^ n) d"
  by (induction n) (simp_all add: crc_shift_xor)

lemma crc_shift_pow_zero [simp]: "(crc_shift poly ^^ n) 0 = 0"
  by (induction n) simp_all

lemma crc_shift_pow_inj: "bit poly 0 \<Longrightarrow> (crc_shift poly ^^ n) c = 0 \<Longrightarrow> c = 0"
  by (induction n) (auto dest: crc_shift_inj)

section \<open>Table-driven computation\<close>

text \<open>
  A table serves a polynomial when its entries are the register contents after eight shifts of the
  index placed in the upper byte.
\<close>

locale crc16_table =
  fixes poly :: u16 and tab :: "u16 list"
  assumes tab_length: "length tab = 256"
    and tab_nth: "i < 256 \<Longrightarrow> tab ! i = (crc_shift poly ^^ 8) (push_bit 8 (of_nat i))"

text \<open>Feeding up to 16 bits is shifting after adding them at the top of the register.\<close>

fun msb_word :: "bool list \<Rightarrow> u16" where
  "msb_word [] = 0"
| "msb_word (b # bs) = (if b then 0x8000 else 0) XOR drop_bit 1 (msb_word bs)"

lemma bit_0x8000: "bit (0x8000 :: u16) j \<longleftrightarrow> j = 15"
proof -
  have "(0x8000 :: u16) = 2 ^ 15" by simp
  then show ?thesis by (simp only: bit_exp_iff) auto
qed

lemma bit_msb_word:
  "bit (msb_word bs) j \<longleftrightarrow> j \<le> 15 \<and> 15 - j < length bs \<and> bs ! (15 - j)"
proof (induction bs arbitrary: j)
  case (Cons b bs)
  show ?case
  proof (cases "j = 15")
    case True
    then show ?thesis
      by (simp only: msb_word.simps bit_xor_iff bit_drop_bit_eq) (auto simp: Cons.IH)
  next
    case False
    then have "bit (msb_word (b # bs)) j \<longleftrightarrow> bit (msb_word bs) (Suc j)"
      by (simp only: msb_word.simps bit_xor_iff bit_0x8000 bit_drop_bit_eq if_distrib [of "\<lambda>w. bit w j"])
        (simp add: bit_0x8000 [simplified])
    with False show ?thesis by (cases "j \<le> 15") (auto simp: Cons.IH nth_Cons' )
  qed
qed simp

lemma crc_shift_drop:
  assumes "\<not> bit m 0"
  shows "crc_shift poly (drop_bit 1 m) = m"
proof -
  have "\<not> bit (drop_bit 1 m) 15" by (auto simp: bit_drop_bit_eq dest: bit_imp_le_length)
  moreover have "push_bit 1 (drop_bit 1 m) = m"
  proof (rule bit_word_eqI)
    fix n assume "n < LENGTH(16)"
    then show "bit (push_bit 1 (drop_bit 1 m)) n = bit m n"
      using assms by (cases n) (simp_all add: bit_push_bit_iff bit_drop_bit_eq)
  qed
  ultimately show ?thesis by (simp add: crc_shift_def)
qed

lemma crc_bits_linear:
  assumes "length bs \<le> 16"
  shows "foldl (crc_bit poly) c bs = (crc_shift poly ^^ length bs) (c XOR msb_word bs)"
  using assms
proof (induction bs arbitrary: c)
  case (Cons b bs)
  have "\<not> bit (msb_word bs) 0" using Cons.prems by (simp add: bit_msb_word)
  then have "crc_shift poly (c XOR msb_word (b # bs)) =
      crc_bit poly c b XOR msb_word bs"
    by (simp only: msb_word.simps crc_bit_def xor.assoc [symmetric] crc_shift_xor crc_shift_drop
        not_False_eq_True)
  then show ?case using Cons by (simp add: funpow_swap1)
qed simp

lemma msb_word_byte: "msb_word (byte_bits b) = push_bit 8 (ucast b)"
proof (rule bit_word_eqI)
  fix n assume "n < LENGTH(16)"
  then show "bit (msb_word (byte_bits b)) n = bit (push_bit 8 (ucast b) :: u16) n"
    by (cases "8 \<le> n") (auto simp: bit_msb_word byte_bits_def bit_simps Suc_diff_le)
qed

context crc16_table
begin

lemma table_step: "crc_table_step tab c b = foldl (crc_bit poly) c (byte_bits b)"
proof -
  define pos where "pos = (ucast b XOR drop_bit 8 c) AND (0xff :: u16)"
  have pm: "pos = (ucast b XOR drop_bit 8 c) AND mask 8" by (simp add: pos_def mask_eq_exp_minus_1)
  then have pos: "unat pos < 256" by (simp only: unat_and_mask) simp
  have split: "c XOR push_bit 8 (ucast b) = push_bit 8 pos XOR (c AND mask 8)"
    by (rule bit_word_eqI) (auto simp: pm bit_simps)
  have low: "(crc_shift poly ^^ n) (c AND mask 8) = push_bit n (c AND mask 8)" if "n \<le> 8" for n
    using that
  proof (induction n)
    case (Suc n)
    have "\<not> bit (push_bit n (c AND mask 8)) 15" using Suc.prems by (auto simp: bit_simps)
    with Suc show ?case by (simp add: crc_shift_def push_bit_push_bit)
  qed simp
  have "push_bit 8 (c AND mask 8) = push_bit 8 c"
    by (rule bit_word_eqI) (auto simp: bit_simps)
  with low [of 8] have "(crc_shift poly ^^ 8) (c AND mask 8) = push_bit 8 c" by simp
  then show ?thesis
    using tab_nth [OF pos]
    by (simp add: crc_bits_linear byte_bits_def [THEN arg_cong, of length] msb_word_byte split
        crc_shift_pow_xor crc_table_step_def Let_def pos_def [symmetric])
qed

lemma table_step_shift: "crc_table_step tab c b = (crc_shift poly ^^ 8) (c XOR push_bit 8 (ucast b))"
proof -
  have "length (byte_bits b) = 8" by (simp add: byte_bits_def)
  then show ?thesis by (simp add: table_step crc_bits_linear msb_word_byte)
qed

lemma table_step_xor:
  "crc_table_step tab (c XOR c') (b XOR b') = crc_table_step tab c b XOR crc_table_step tab c' b'"
  by (simp only: table_step_shift unsigned_xor_eq push_bit_xor crc_shift_pow_xor ac_simps)

lemma table_bytes_xor:
  "foldl (crc_table_step tab) (c XOR c') (map (\<lambda>i. x i XOR y i) js) =
    foldl (crc_table_step tab) c (map x js) XOR foldl (crc_table_step tab) c' (map y js)"
  by (induction js arbitrary: c c') (simp_all add: table_step_xor)

lemma table_bytes:
  "foldl (crc_table_step tab) c bs = foldl (crc_bit poly) c (concat (map byte_bits bs))"
  by (induction bs arbitrary: c) (simp_all add: table_step)

end


text \<open>
  By linearity a table is determined by its entries at the powers of two; the 256 constants of the
  source are checked by doubling.
\<close>

definition crc_entry :: "u16 \<Rightarrow> nat \<Rightarrow> u16" where
  "crc_entry poly i = (crc_shift poly ^^ 8) (push_bit 8 (of_nat i))"

definition xor_double :: "u16 \<Rightarrow> u16 list \<Rightarrow> u16 list" where
  "xor_double t xs = xs @ map (\<lambda>x. t XOR x) xs"

lemma crc_entry_add:
  assumes "i < 2 ^ k"
  shows "crc_entry poly (2 ^ k + i) = crc_entry poly (2 ^ k) XOR crc_entry poly i"
proof -
  have "(2 ^ k :: nat) AND take_bit k i = 0"
    by (rule bit_eqI) (auto simp: bit_and_iff bit_exp_iff bit_take_bit_iff)
  then have "(2 ^ k :: nat) AND i = 0" using assms by (simp only: take_bit_nat_eq_self)
  then have "(2 ^ k + i :: nat) = 2 ^ k XOR i" by (rule disjunctive_add_eq_xor)
  then have "(of_nat (2 ^ k + i) :: u16) = of_nat (2 ^ k) XOR of_nat i"
    by (simp only: of_nat_xor_eq)
  then show ?thesis
    by (simp only: crc_entry_def push_bit_xor crc_shift_pow_xor)
qed

lemma crc_entries_double:
  "map (crc_entry poly) [0..<2 ^ Suc k] = xor_double (crc_entry poly (2 ^ k)) (map (crc_entry poly) [0..<2 ^ k])"
proof -
  have "[0..<2 ^ Suc k] = [0..<2 ^ k] @ map (\<lambda>i. 2 ^ k + i) [0..<2 ^ k]"
    by (simp add: list_eq_iff_nth_eq nth_append)
  then show ?thesis by (simp add: xor_double_def crc_entry_add del: power_Suc)
qed

lemma crc_entries:
  "map (crc_entry poly) [0..<256] =
    fold (\<lambda>k. xor_double (crc_entry poly (2 ^ k))) [0..<8] [0]"
proof -
  have "map (crc_entry poly) [0..<2 ^ n] = fold (\<lambda>k. xor_double (crc_entry poly (2 ^ k))) [0..<n] [0]" for n
  proof (induction n)
    case 0
    have "crc_entry poly 0 = (crc_shift poly ^^ 8) 0" by (simp add: crc_entry_def)
    moreover have "(crc_shift poly ^^ m) 0 = 0" for m by (induction m) simp_all
    ultimately show ?case by simp
  next
    case (Suc n)
    then show ?case by (simp only: crc_entries_double) simp
  qed
  from this [of 8] show ?thesis by simp
qed

lemma crc_entry_powers_1021:
  "crc_entry 0x1021 1 = 0x1021" "crc_entry 0x1021 2 = 0x2042" "crc_entry 0x1021 4 = 0x4084"
  "crc_entry 0x1021 8 = 0x8108" "crc_entry 0x1021 16 = 0x1231" "crc_entry 0x1021 32 = 0x2462"
  "crc_entry 0x1021 64 = 0x48c4" "crc_entry 0x1021 128 = 0x9188"
  by code_simp+

lemma crctab_1021_entries: "crctab_1021 = map (crc_entry 0x1021) [0..<256]"
proof -
  have "[0..<8] = [0, 1, 2, 3, 4, 5, 6, 7 :: nat]" by code_simp
  then have "map (crc_entry 0x1021) [0..<256] =
      xor_double 0x9188 (xor_double 0x48c4 (xor_double 0x2462 (xor_double 0x1231
        (xor_double 0x8108 (xor_double 0x4084 (xor_double 0x2042 (xor_double 0x1021 [0])))))))"
    unfolding crc_entries
    by (simp add: crc_entry_powers_1021 crc_entry_powers_1021(1) [simplified])
  also have "\<dots> = crctab_1021" by (simp add: xor_double_def crctab_1021_def)
  finally show ?thesis ..
qed

interpretation x25: crc16_table "0x1021" crctab_1021
  by unfold_locales (simp_all add: crctab_1021_entries crc_entry_def)

section \<open>The shift register on bit arrays\<close>

definition word_reg :: "u16 \<Rightarrow> u8 list" where
  "word_reg c = map (\<lambda>f. if bit c (15 - f) then 1 else 0) [0..<16]"

definition crc_input :: "bit_ptr \<Rightarrow> nat \<Rightarrow> bool list" where
  "crc_input d n = map (\<lambda>i. (d i = 1) \<noteq> (n \<le> i + 16)) [0..<n]"

lemma length_word_reg [simp]: "length (word_reg c) = 16"
  by (simp add: word_reg_def)

lemma nth_word_reg: "f < 16 \<Longrightarrow> word_reg c ! f = (if bit c (15 - f) then 1 else 0)"
  by (simp add: word_reg_def)

lemma upt_15: "[0..<15] = [0, 1, 2, 3, 4, 5, 6, 7, 8, 9, 10, 11, 12, 13, 14 :: nat]"
  and upt_16: "[0..<16] = [0, 1, 2, 3, 4, 5, 6, 7, 8, 9, 10, 11, 12, 13, 14, 15 :: nat]"
  by code_simp+

lemma bit_0x1021: "bit (0x1021 :: u16) j \<longleftrightarrow> j \<in> {0, 5, 12}"
proof -
  have "(0x1021 :: u16) = 2 ^ 12 XOR (2 ^ 5 XOR 2 ^ 0)" by simp
  then show ?thesis by (simp only: bit_xor_iff bit_exp_iff) auto
qed

lemma crcPolynome_nth: "f < 15 \<Longrightarrow> crcPolynome ! f = (if f = 3 \<or> f = 10 then 1 else 0)"
  by (auto simp: crcPolynome_def numeral_eq_Suc less_Suc_eq)

lemma bit_crc_shift:
  "bit (crc_shift poly c) j \<longleftrightarrow> (bit poly j \<and> bit c 15) \<noteq> (0 < j \<and> j < 16 \<and> bit c (j - 1))"
  by (auto simp: crc_shift_def bit_xor_iff bit_push_bit_iff Suc_le_eq)

lemma reg_step:
  assumes "x \<le> 1"
  shows "crc_reg_step (word_reg c) x = word_reg (crc_bit 0x1021 c (x = 1))"
proof -
  define c' where "c' = c XOR (if x = 1 then 0x8000 else 0)"
  have x: "x = 0 \<or> x = 1" using assms by (simp only: bit_cases)
  have top: "(word_reg c ! 0 XOR x = 1) \<longleftrightarrow> bit c' 15"
    using x by (auto simp: nth_word_reg c'_def bit_xor_iff bit_0x8000)
  have low: "bit c' j \<longleftrightarrow> bit c j" if "j < 15" for j
    using that by (auto simp: c'_def bit_xor_iff bit_0x8000 simp del: bit_numeral_word_iff)
  note st = crc_reg_step_def [of "word_reg c" x, unfolded top]
  have nth: "crc_reg_step (word_reg c) x ! f = word_reg (crc_shift 0x1021 c') ! f" if "f < 16" for f
  proof (cases "f = 15")
    case True
    then show ?thesis
      by (simp add: st nth_append nth_word_reg bit_crc_shift bit_0x1021)
  next
    case False
    with that have f: "f < 15" "14 - f < 15" "15 - f - 1 = 14 - f" "15 - (f + 1) = 14 - f" "15 - f < 16" by auto
    have "bit (0x1021 :: u16) (15 - f) \<longleftrightarrow> f = 3 \<or> f = 10" using f(1) by (simp only: bit_0x1021) auto
    with f low [OF f(2)] show ?thesis
      by (simp add: st nth_append nth_word_reg bit_crc_shift crcPolynome_nth del: bit_numeral_word_iff)
  qed
  have "length (crc_reg_step (word_reg c) x) = 16" by (simp add: crc_reg_step_def)
  with nth show ?thesis
    by (simp add: list_eq_iff_nth_eq crc_bit_def c'_def [symmetric])
qed

lemma word_reg_zero: "sum_list (map unat (word_reg c)) = 0 \<longleftrightarrow> c = 0"
proof -
  have "sum_list (map unat (word_reg c)) = 0 \<longleftrightarrow> (\<forall>f<16. \<not> bit c (15 - f))"
    by (auto simp: word_reg_def sum_list_eq_0_iff)
  also have "\<dots> \<longleftrightarrow> c = 0"
  proof
    assume *: "\<forall>f<16. \<not> bit c (15 - f)"
    show "c = 0"
    proof (rule bit_word_eqI)
      fix n assume "n < LENGTH(16)"
      with * [rule_format, of "15 - n"] show "bit c n = bit 0 n" by simp
    qed
  qed simp
  finally show ?thesis .
qed

lemma check_bits_register:
  assumes "is_bits d 0 n"
  shows "check_CRC_bits d n \<longleftrightarrow> foldl (crc_bit 0x1021) 0xffff (crc_input d n) = 0"
proof -
  define inv where "inv = (\<lambda>i. if n \<le> i + 16 then 1 else 0 :: u8)"
  have bit: "d i XOR inv i \<le> 1" "(d i XOR inv i = 1) \<longleftrightarrow> (d i = 1) \<noteq> (n \<le> i + 16)" if "i < n" for i
  proof -
    have "d i \<le> 1" using assms that by (simp add: is_bits_def)
    then have "d i = 0 \<or> d i = 1" by (simp only: bit_cases)
    then show "d i XOR inv i \<le> 1" "(d i XOR inv i = 1) \<longleftrightarrow> (d i = 1) \<noteq> (n \<le> i + 16)"
      by (auto simp: inv_def)
  qed
  have start: "replicate 16 1 = word_reg 0xffff" by (simp add: word_reg_def upt_16 numeral_eq_Suc)
  have run: "foldl (\<lambda>b i. crc_reg_step b (d i XOR inv i)) (word_reg c) [0..<m] =
      word_reg (foldl (crc_bit 0x1021) c (map (\<lambda>i. (d i = 1) \<noteq> (n \<le> i + 16)) [0..<m]))" if "m \<le> n" for m c
    using that by (induction m) (simp_all add: reg_step bit)
  show ?thesis
    using run [of n "0xffff"]
    by (simp only: check_CRC_bits_def Let_def crc_input_def start inv_def order.refl word_reg_zero)
qed

lemma crc_input_bytes:
  "crc_input (bits_of_bytes p) (8 * (n + 2)) =
    concat (map (byte_bits \<circ> p) [0..<n]) @ map Not (byte_bits (p n) @ byte_bits (p (n + 1)))"
proof -
  have bits: "map (\<lambda>i. bits_of_bytes p i = 1) [8 * j..<8 * j + 8] = byte_bits (p j)" for j
  proof -
    have "(bits_of_bytes p (8 * j + i) = 1) \<longleftrightarrow> bit (p j) (7 - i)" if "i < 8" for i
      using that by (simp add: bits_of_bytes_def and_one_eq bit_iff_odd drop_bit_eq_div odd_iff_mod_2_eq_one)
    then show ?thesis by (simp add: byte_bits_def list_eq_iff_nth_eq)
  qed
  have body: "map (\<lambda>i. bits_of_bytes p i = 1) [0..<8 * m] = concat (map (byte_bits \<circ> p) [0..<m])" for m
  proof (induction m)
    case (Suc m)
    have "[0..<8 * Suc m] = [0..<8 * m] @ [8 * m..<8 * m + 8]"
      using upt_split [of 0 "8 * m" "8 * Suc m"] by (simp add: add.commute)
    with Suc show ?case by (simp add: bits)
  qed simp
  have tail: "map (\<lambda>i. bits_of_bytes p i = 1) [8 * n..<8 * (n + 2)] = byte_bits (p n) @ byte_bits (p (n + 1))"
  proof -
    have "[8 * n..<8 * (n + 2)] = [8 * n..<8 * n + 8] @ [8 * (n + 1)..<8 * (n + 1) + 8]"
      using upt_split [of "8 * n" "8 * n + 8" "8 * (n + 2)"] by (simp add: ac_simps)
    then show ?thesis by (simp only: map_append bits)
  qed
  have "[0..<8 * (n + 2)] = [0..<8 * n] @ [8 * n..<8 * (n + 2)]"
    by (rule upt_split) simp_all
  then have "crc_input (bits_of_bytes p) (8 * (n + 2)) =
      map (\<lambda>i. bits_of_bytes p i = 1) [0..<8 * n] @
      map Not (map (\<lambda>i. bits_of_bytes p i = 1) [8 * n..<8 * (n + 2)])"
    by (simp add: crc_input_def)
  then show ?thesis by (simp only: body tail)
qed

lemma calc_crc_bits:
  "calc_crc p n = NOT (foldl (crc_bit 0x1021) 0xffff (concat (map (byte_bits \<circ> p) [0..<n])))"
proof -
  have "foldl (\<lambda>crc i. crc_table_step crctab_1021 crc (p i)) c js =
      foldl (crc_table_step crctab_1021) c (map p js)" for c js
    by (simp add: foldl_map)
  then show ?thesis by (simp only: calc_crc_def x25.table_bytes map_map)
qed

lemma msb_word_inverted:
  "msb_word (map Not (byte_bits a @ byte_bits b)) = NOT (push_bit 8 (ucast a) OR ucast b)"
proof (rule bit_word_eqI)
  fix n assume "n < LENGTH(16)"
  then show "bit (msb_word (map Not (byte_bits a @ byte_bits b))) n =
      bit (NOT (push_bit 8 (ucast a) OR ucast b) :: u16) n"
    by (cases "8 \<le> n")
      (auto simp: bit_msb_word byte_bits_def bit_simps nth_append Suc_diff_le dest: bit_imp_le_length)
qed

lemma crc_zeros: "foldl (crc_bit poly) c (replicate n False) = (crc_shift poly ^^ n) c"
  by (induction n arbitrary: c) (simp_all add: crc_bit_def funpow_swap1)

text \<open>A difference confined to 16 positions leaves a non-zero register.\<close>

lemma crc_burst_nonzero:
  assumes "bit poly 0" and "\<And>i. i < length x \<Longrightarrow> x ! i \<Longrightarrow> s \<le> i \<and> i < s + 16" and "k < length x" and "x ! k"
  shows "foldl (crc_bit poly) 0 x \<noteq> 0"
proof
  assume zero: "foldl (crc_bit poly) 0 x = 0"
  define y where "y = take 16 (drop s x)"
  have s: "s \<le> k" "k < s + 16" using assms by auto
  have pre: "take s x = replicate s False"
  proof -
    have "\<not> x ! i" if "i < s" for i using assms(2) [of i] that s(1) assms(3) by auto
    then show ?thesis using s(1) assms(3) by (simp add: list_eq_iff_nth_eq)
  qed
  have post: "drop (s + 16) x = replicate (length x - (s + 16)) False"
  proof -
    have "\<not> x ! (s + 16 + i)" if "i < length x - (s + 16)" for i
      using assms(2) [of "s + 16 + i"] that by linarith
    then show ?thesis by (simp add: list_eq_iff_nth_eq)
  qed
  have "x = take s x @ y @ drop (s + 16) x"
    unfolding y_def by (metis add.commute append_take_drop_id drop_drop)
  with zero have "(crc_shift poly ^^ (length x - (s + 16))) (foldl (crc_bit poly) 0 y) = 0"
    by (metis crc_shift_pow_zero crc_zeros foldl_append post pre)
  then have "foldl (crc_bit poly) 0 y = 0" by (rule crc_shift_pow_inj [OF assms(1)])
  then have "(crc_shift poly ^^ length y) (msb_word y) = 0" 
    by (simp add: crc_bits_linear y_def)
  then have "msb_word y = 0" by (rule crc_shift_pow_inj [OF assms(1)])
  moreover have "bit (msb_word y) (15 - (k - s))"
  proof -
    have "15 - (15 - (k - s)) = k - s" "k - s < length x - s" "k - s < 16" using s assms(3) by auto
    then show ?thesis using assms(4) s(1) by (simp add: bit_msb_word y_def)
  qed
  ultimately show False by simp
qed

section \<open>Properties\<close>

text \<open>
  C29: The table-driven byte CRC equals the bit-serial CRC with generator \<open>x^16 + x^12 + x^5 + 1\<close>, start
  value all ones and complemented result, for every message; all 256 table constants of the source
  enter here.
\<close>

theorem calc_crc_serial:
  "calc_crc p n = NOT (foldl (crc_bit 0x1021) 0xffff (concat (map (byte_bits \<circ> p) [0..<n])))"
  by (rule calc_crc_bits)

text \<open>
  The two checks of the source agree: the shift register run over the unpacked bits of a message
  with its two CRC bytes accepts exactly when the table-driven byte check accepts.
\<close>

theorem check_bits_bytes: "check_CRC_bits (bits_of_bytes p) (8 * (n + 2)) = check_crc_bytes p n"
proof -
  define c where "c = foldl (crc_bit 0x1021) 0xffff (concat (map (byte_bits \<circ> p) [0..<n]))"
  define t where "t = (push_bit 8 (ucast (p n)) OR ucast (p (n + 1)) :: u16)"
  let ?tail = "map Not (byte_bits (p n) @ byte_bits (p (n + 1)))"
  have len: "length ?tail = 16" by (simp add: byte_bits_def)
  have odd: "bit (0x1021 :: u16) 0" by simp
  have "check_CRC_bits (bits_of_bytes p) (8 * (n + 2)) \<longleftrightarrow> foldl (crc_bit 0x1021) c ?tail = 0"
    by (simp only: check_bits_register is_bits_of_bytes crc_input_bytes foldl_append c_def)
  also have "\<dots> \<longleftrightarrow> (crc_shift 0x1021 ^^ 16) (c XOR NOT t) = 0"
    by (simp only: crc_bits_linear len order.refl msb_word_inverted t_def)
  also have "\<dots> \<longleftrightarrow> c XOR NOT t = 0"
    using crc_shift_pow_inj [OF odd] crc_shift_pow_zero by metis
  also have "\<dots> \<longleftrightarrow> t XOR NOT c = 0"
    by (simp add: bit_eq_iff bit_simps) blast
  also have "\<dots> \<longleftrightarrow> check_crc_bytes p n"
    by (simp only: check_crc_bytes_def Let_def t_def c_def calc_crc_bits)
  finally show ?thesis .
qed

text \<open>
  C28: Error detection of the bit-array check: if it accepts a block, it rejects every block that
  differs from it in a non-empty set of bits lying within 16 consecutive positions.
\<close>

theorem check_bits_burst:
  assumes "is_bits d 0 n" and "is_bits e 0 n" and "check_CRC_bits d n"
    and "\<forall>i<n. d i \<noteq> e i \<longrightarrow> s \<le> i \<and> i < s + 16" and "k < n" and "d k \<noteq> e k"
  shows "\<not> check_CRC_bits e n"
proof -
  define x where "x = map (\<lambda>i. (d i = 1) \<noteq> (e i = 1)) [0..<n]"
  have de: "(d i = 1) \<noteq> (e i = 1) \<longleftrightarrow> d i \<noteq> e i" if "i < n" for i
  proof -
    have "d i \<le> 1" "e i \<le> 1" using assms(1,2) that by (auto simp: is_bits_def)
    then show ?thesis by (auto simp: bit_cases)
  qed
  define f where "f = (\<lambda>i. (d i = 1) \<noteq> (n \<le> i + 16))"
  define g where "g = (\<lambda>i. (e i = 1) \<noteq> (n \<le> i + 16))"
  have lin: "foldl (crc_bit 0x1021) (c XOR c') (map (\<lambda>i. f i \<noteq> g i) js) =
      foldl (crc_bit 0x1021) c (map f js) XOR foldl (crc_bit 0x1021) c' (map g js)" for js c c'
    by (induction js arbitrary: c c') (simp_all only: list.map foldl.simps crc_bit_xor)
  have "x = map (\<lambda>i. f i \<noteq> g i) [0..<n]" by (auto simp: x_def f_def g_def)
  with lin [of "0xffff" "0xffff" "[0..<n]"] have "foldl (crc_bit 0x1021) 0 x =
      foldl (crc_bit 0x1021) 0xffff (crc_input d n) XOR foldl (crc_bit 0x1021) 0xffff (crc_input e n)"
    by (simp only: f_def [symmetric] g_def [symmetric] crc_input_def xor_self_eq)
  moreover have "foldl (crc_bit 0x1021) 0 x \<noteq> 0"
    by (rule crc_burst_nonzero [where s = s and k = k])
      (use assms(4-6) de in \<open>auto simp: x_def\<close>)
  ultimately show ?thesis using assms(1-3) by (simp add: check_bits_register)
qed

theorem check_bits_burst_witness:
  "\<exists>d e :: bit_ptr. check_CRC_bits d 24 \<and> d 3 \<noteq> e 3 \<and> \<not> check_CRC_bits e 24"
proof -
  define p where "p = (\<lambda>i :: nat. if i = 0 then 0x41 else if i = 1 then 0x46 else 0xea :: u8)"
  define d where "d = bits_of_bytes p"
  define e where "e = d(3 := d 3 XOR 1, 9 := d 9 XOR 1)"
  have "check_crc_bytes p 1" unfolding p_def by code_simp
  then have c: "check_CRC_bits d 24" using check_bits_bytes [of p 1] by (simp add: d_def)
  have bits: "is_bits d 0 24" by (simp add: d_def)
  then have d3: "d 3 = 0 \<or> d 3 = 1" and "d 9 = 0 \<or> d 9 = 1" by (simp_all add: is_bits_def bit_cases)
  with bits have "is_bits e 0 24" by (auto simp: is_bits_def e_def)
  moreover have "\<forall>i<24. d i \<noteq> e i \<longrightarrow> 3 \<le> i \<and> i < 3 + 16" by (auto simp: e_def)
  moreover have ne: "d 3 \<noteq> e 3" using d3 by (auto simp: e_def)
  ultimately have "\<not> check_CRC_bits e 24"
    by (intro check_bits_burst [OF bits _ c, of e 3 3]) simp_all
  with c ne show ?thesis by blast
qed

end
