(* ===== verification/Fic_Decoder.thy ===== *)
theory Fic_Decoder
  imports Punctured_Codes Fib_Properties Crc
begin

text \<open>
  The decoder of the fast information channel, \<^verbatim>\<open>src/src/base/decoder/fic_decoder.cpp\<close>: the three OFDM
  symbols of a frame that carry it are cut into four blocks of 2304 soft bits, each block is
  de-punctured, Viterbi decoded and freed from the energy dispersal, and each of its three FIBs goes to
  the FIB decoder when its CRC is right.  Assertions of the source are the value None.

  The FIB decoder reads the FIB through a pointer and does not check its end, so the model gives it the
  memory behind the FIB: the rest of the frame's bits and the member that follows them, the dispersal
  sequence.  What the source leaves uninitialised is an argument of the constructor.  The clock is an
  argument, indexed by the block and the FIB.  The dump file is the list of blocks written to it.
\<close>

section \<open>The code\<close>

definition cViterbiBlockSize :: nat where
  "cViterbiBlockSize = 3072 + 24"

record fic_decoder =
  fc_FibDecoder :: fib_decoder
  fc_FibBitsEntireFrame :: "u8 list"
  fc_PRBS :: "u8 list"
  fc_FicViterbiSoftInput :: "int list"
  fc_PunctureTable :: "bool list"
  fc_ViterbiBlockAddresses :: "nat list"
  fc_ViterbiBlock :: "int list"
  fc_FicValid :: "bool list"
  fc_Index :: nat
  fc_FicIdx :: nat
  fc_FicBlock :: nat
  fc_FicErrors :: nat
  fc_FicBits :: nat
  fc_FicDecodeSuccessRatio :: int
  fc_IsRunning :: bool
  fc_FicDump :: "nat option"
  fc_written :: "(nat \<times> u8 list) list"
  fc_signals :: "(int \<times> nat \<times> nat) list"

text \<open>One code bit of the constructor's loops: puncture table, addresses and position so far.\<close>

definition fic_note :: "nat list \<Rightarrow> bool list \<times> nat list \<times> nat \<Rightarrow> nat \<Rightarrow> bool list \<times> nat list \<times> nat" where
  "fic_note PI = (\<lambda>(table, addrs, loc) k.
     if PI ! (k mod 32) \<noteq> 0 then (table[loc := True], addrs @ [loc], loc + 1) else (table, addrs, loc + 1))"

definition fic_tables :: "bool list \<times> nat list \<times> nat" where
  "fic_tables =
     (let s = (replicate cViterbiBlockSize False, [], 0);
          s = foldl (\<lambda>s i. foldl (fic_note (get_PI_codes 16)) s [0..<32 * 4]) s [0..<21];
          s = foldl (\<lambda>s i. foldl (fic_note (get_PI_codes 15)) s [0..<32 * 4]) s [0..<3]
      in foldl (fic_note (get_PI_codes 8)) s [0..<24])"

definition FicDecoder :: "u8 list \<Rightarrow> int list \<Rightarrow> fic_decoder" where
  "FicDecoder bits soft =
     (let (table, addrs, _) = fic_tables in
      \<lparr>fc_FibDecoder = FibDecoder, fc_FibBitsEntireFrame = bits, fc_PRBS = disperse 768 (replicate 9 1),
       fc_FicViterbiSoftInput = soft, fc_PunctureTable = table, fc_ViterbiBlockAddresses = addrs,
       fc_ViterbiBlock = replicate cViterbiBlockSize 0, fc_FicValid = replicate 4 False, fc_Index = 0, fc_FicIdx = 0,
       fc_FicBlock = 0, fc_FicErrors = 0, fc_FicBits = 0, fc_FicDecodeSuccessRatio = 0, fc_IsRunning = False,
       fc_FicDump = None, fc_written = [], fc_signals = []\<rparr>)"

text \<open>
  The pointer to one FIB, with what lies behind it: the rest of the frame bits and the member declared after them. Behind these the
  memory is unknown; the model has zeros there.
\<close>

definition fib_memory :: "fic_decoder \<Rightarrow> nat \<Rightarrow> bit_ptr" where
  "fib_memory s off =
     (\<lambda>i. let mem = fc_FibBitsEntireFrame s @ fc_PRBS s in if off + i < length mem then mem ! (off + i) else 0)"

definition dump_byte :: "bit_ptr \<Rightarrow> nat \<Rightarrow> u8" where
  "dump_byte ipOneFibBits j = foldl (\<lambda>b k. (push_bit 1 b AND 0xFE) OR ipOneFibBits (8 * j + k)) 0 [0..<8]"

definition dump_fib_to_file :: "nat \<Rightarrow> bit_ptr \<Rightarrow> fic_decoder \<Rightarrow> fic_decoder" where
  "dump_fib_to_file file ipOneFibBits s =
     s\<lparr>fc_written := fc_written s @ [(file, map (dump_byte ipOneFibBits) [0..<cFibSizeVitOut div 8])]\<rparr>"

text \<open>The body of the loop over the FIBs of a block.\<close>

definition process_one_fib :: "qt_codec \<Rightarrow> (nat \<Rightarrow> nat \<Rightarrow> nat) \<Rightarrow> nat \<Rightarrow> fic_decoder \<Rightarrow> nat \<Rightarrow> fic_decoder option" where
  "process_one_fib qt clock iFicIdx s fibIdx =
     (let oneFib = fib_memory s (iFicIdx * cFicSizeVitOut + fibIdx * cFibSizeVitOut);
          ratio = fc_FicDecodeSuccessRatio s
      in if check_CRC_bits oneFib cFibSizeVitOut
         then
           let s = (case fc_FicDump s of None \<Rightarrow> s | Some file \<Rightarrow> dump_fib_to_file file oneFib s)
           in (case process_FIB qt (clock iFicIdx fibIdx) oneFib (fc_FibDecoder s) of
                 None \<Rightarrow> None
               | Some fd \<Rightarrow> Some (s\<lparr>fc_FibDecoder := fd,
                   fc_FicDecodeSuccessRatio := if ratio < 10 then ratio + 1 else ratio\<rparr>))
         else Some (s\<lparr>fc_FicValid := (fc_FicValid s)[iFicIdx := False],
                fc_FicDecodeSuccessRatio := if ratio > 0 then ratio - 1 else ratio\<rparr>))"

text \<open>De-puncturing, decoding, error statistics and energy dispersal of one block.\<close>

definition decode_fic :: "nat \<Rightarrow> fic_decoder \<Rightarrow> fic_decoder" where
  "decode_fic iFicIdx s =
     (let block = fold (\<lambda>k block. block[fc_ViterbiBlockAddresses s ! k := fc_FicViterbiSoftInput s ! k])
            [0..<length (fc_ViterbiBlockAddresses s)] (fc_ViterbiBlock s);
          decoded = deconvolve cFicSizeVitOut block;
          (bits, errors) = calculate_BER cFicSizeVitOut block (fc_PunctureTable s) decoded (fc_FicBits s, fc_FicErrors s);
          s = s\<lparr>fc_ViterbiBlock := block, fc_FicBits := bits, fc_FicErrors := errors, fc_FicBlock := fc_FicBlock s + 1\<rparr>;
          s = (if fc_FicBlock s = 40
               then s\<lparr>fc_signals := fc_signals s @ [(fc_FicDecodeSuccessRatio s * 10, errors, bits)], fc_FicBlock := 0,
                      fc_FicErrors := errors div 2, fc_FicBits := bits div 2\<rparr>
               else s)
      in s\<lparr>fc_FibBitsEntireFrame :=
             blit (iFicIdx * cFicSizeVitOut) (xor_list (map of_bool decoded) (fc_PRBS s)) (fc_FibBitsEntireFrame s)\<rparr>)"

definition process_fic_input :: "qt_codec \<Rightarrow> (nat \<Rightarrow> nat \<Rightarrow> nat) \<Rightarrow> nat \<Rightarrow> fic_decoder \<Rightarrow> fic_decoder option" where
  "process_fic_input qt clock iFicIdx s =
     (if \<not> iFicIdx < 4 then None
      else if \<not> fc_IsRunning s then Some s
      else
        let s = decode_fic iFicIdx s;
            s = s\<lparr>fc_FicValid := (fc_FicValid s)[iFicIdx := True]\<rparr>
        in foldl (\<lambda>s fibIdx. Option.bind s (\<lambda>s. process_one_fib qt clock iFicIdx s fibIdx)) (Some s) [0..<cFibPerFic])"

text \<open>The loop over the soft bits of a symbol.\<close>

fun fic_bits_loop :: "qt_codec \<Rightarrow> (nat \<Rightarrow> nat \<Rightarrow> nat) \<Rightarrow> int list \<Rightarrow> fic_decoder \<Rightarrow> fic_decoder option" where
  "fic_bits_loop qt clock [] s = Some s"
| "fic_bits_loop qt clock (x # xs) s =
     (let s = s\<lparr>fc_FicViterbiSoftInput := (fc_FicViterbiSoftInput s)[fc_Index s := x], fc_Index := fc_Index s + 1\<rparr>
      in if fc_Index s \<ge> cFicSizeVitIn
         then (case process_fic_input qt clock (fc_FicIdx s) s of
                 None \<Rightarrow> None
               | Some s \<Rightarrow> fic_bits_loop qt clock xs (s\<lparr>fc_Index := 0, fc_FicIdx := fc_FicIdx s + 1\<rparr>))
         else fic_bits_loop qt clock xs s)"

definition fic_process_block :: "qt_codec \<Rightarrow> (nat \<Rightarrow> nat \<Rightarrow> nat) \<Rightarrow> int list \<Rightarrow> nat \<Rightarrow> fic_decoder \<Rightarrow> fic_decoder option" where
  "fic_process_block qt clock iOfdmSoftBits iOfdmSymbIdx s =
     (if length iOfdmSoftBits \<noteq> c2K \<or> \<not> (1 \<le> iOfdmSymbIdx \<and> iOfdmSymbIdx \<le> 3) then None
      else
        let s = (if iOfdmSymbIdx = 1 then s\<lparr>fc_Index := 0, fc_FicIdx := 0\<rparr> else s)
        in fic_bits_loop qt clock iOfdmSoftBits s)"

definition fic_stop :: "fic_decoder \<Rightarrow> fic_decoder" where
  "fic_stop s = s\<lparr>fc_FibDecoder := disconnect_channel (fc_FibDecoder s), fc_IsRunning := False\<rparr>"

definition fic_restart :: "fic_decoder \<Rightarrow> fic_decoder" where
  "fic_restart s = s\<lparr>fc_FicDecodeSuccessRatio := 0, fc_FibDecoder := connect_channel (fc_FibDecoder s), fc_IsRunning := True\<rparr>"

definition start_fic_dump :: "nat \<Rightarrow> fic_decoder \<Rightarrow> fic_decoder" where
  "start_fic_dump f s = (if fc_FicDump s \<noteq> None then s else s\<lparr>fc_FicDump := Some f\<rparr>)"

definition stop_fic_dump :: "fic_decoder \<Rightarrow> fic_decoder" where
  "stop_fic_dump s = s\<lparr>fc_FicDump := None\<rparr>"

definition get_fib_bits :: "fic_decoder \<Rightarrow> u8 list \<times> bool list" where
  "get_fib_bits s = (fc_FibBitsEntireFrame s, fc_FicValid s)"

definition get_fic_decode_ratio_percent :: "fic_decoder \<Rightarrow> int" where
  "get_fic_decode_ratio_percent s = fc_FicDecodeSuccessRatio s * 10"

definition reset_fic_decode_success_ratio :: "fic_decoder \<Rightarrow> fic_decoder" where
  "reset_fic_decode_success_ratio s = s\<lparr>fc_FicDecodeSuccessRatio := 0\<rparr>"

section \<open>The tables\<close>

definition puncture_table :: "nat list \<Rightarrow> bool list" where
  "puncture_table addrs = map (\<lambda>p. p \<in> set addrs) [0..<cViterbiBlockSize]"

lemma puncture_table_note: "(puncture_table addrs)[loc := True] = puncture_table (addrs @ [loc])"
proof (rule nth_equalityI)
  fix i assume "i < length ((puncture_table addrs)[loc := True])"
  then show "(puncture_table addrs)[loc := True] ! i = puncture_table (addrs @ [loc]) ! i"
    by (cases "i = loc") (simp_all add: puncture_table_def)
qed (simp add: puncture_table_def)

text \<open>The tables of the FIC are built like those of a protection handler.\<close>

definition with_table :: "nat \<times> nat list \<Rightarrow> bool list \<times> nat list \<times> nat" where
  "with_table = (\<lambda>(c, as). (puncture_table as, as, c))"

lemma fic_note_sim: "fic_note v (with_table s) k = with_table (note_address v s k)"
  by (cases s) (simp add: fic_note_def with_table_def note_address_def puncture_table_note)

lemma fic_notes_sim: "foldl (fic_note v) (with_table s) ks = with_table (foldl (note_address v) s ks)"
  by (induction ks arbitrary: s) (simp_all add: fic_note_sim)

lemma fic_blocks_sim:
  "foldl (\<lambda>s i. foldl (fic_note v) s [0..<128]) (with_table s) [0..<n] = with_table (extract_viterbi_block_addresses (int n) v s)"
proof -
  have "foldl (\<lambda>s i. foldl (fic_note v) s [0..<128]) (with_table s) is =
      with_table (foldl (\<lambda>s i. foldl (note_address v) s [0..<128]) s is)" for "is"
    by (induction "is" arbitrary: s) (simp_all add: fic_notes_sim)
  then show ?thesis by (simp add: extract_viterbi_block_addresses_def)
qed

definition fic_addresses :: "nat list" where
  "fic_addresses = snd (extract_tail (extract_viterbi_block_addresses 3 (get_PI_codes 15)
     (extract_viterbi_block_addresses 21 (get_PI_codes 16) (0, []))))"

lemma fic_tables_eq: "\<exists>loc. fic_tables = (puncture_table fic_addresses, fic_addresses, loc)"
proof -
  have "(replicate cViterbiBlockSize False, [], 0) = with_table (0, [])"
    by (simp add: with_table_def puncture_table_def map_replicate_const)
  then have "fic_tables = with_table (extract_tail (extract_viterbi_block_addresses 3 (get_PI_codes 15)
     (extract_viterbi_block_addresses 21 (get_PI_codes 16) (0, []))))"
    using fic_blocks_sim [of "get_PI_codes 16" "(0, [])" 21]
      fic_blocks_sim [of "get_PI_codes 15" "extract_viterbi_block_addresses 21 (get_PI_codes 16) (0, [])" 3]
    by (simp add: fic_tables_def fic_notes_sim extract_tail_def)
  then show ?thesis unfolding fic_addresses_def with_table_def case_prod_beta by blast
qed

lemma fic_table_state: "table_state (96 * 32 + 24) 2304 (extract_tail (extract_viterbi_block_addresses 3 (get_PI_codes 15)
     (extract_viterbi_block_addresses 21 (get_PI_codes 16) (0, []))))"
  using eep_sections [of 16 15 21 3] by simp

interpretation fic: deconvolver fic_addresses 768
proof -
  let ?s1 = "extract_viterbi_block_addresses 21 (get_PI_codes 16) (0, [])"
  let ?s2 = "extract_viterbi_block_addresses 3 (get_PI_codes 15) ?s1"
  have "covers ?s1 \<and> 32 dvd fst ?s1" by (intro covers_extract covers_start) (simp_all add: PI_useful)
  then have "covers ?s2 \<and> 32 dvd fst ?s2" by (intro covers_extract) (simp_all add: PI_useful)
  then have "covers (extract_tail ?s2)" by (simp add: covers_tail)
  from table_deconvolver [OF fic_table_state this] show "deconvolver fic_addresses 768" by (simp add: fic_addresses_def)
qed

lemma length_fic_addresses: "length fic_addresses = 2304"
  using fic_table_state by (simp add: table_state_def fic_addresses_def case_prod_beta)

section \<open>The state between operations\<close>

definition fic_prot :: "int list \<Rightarrow> protection" where
  "fic_prot block = (Protection 32)\<lparr>viterbiBlockAddresses := fic_addresses, viterbiBlock := block\<rparr>"

text \<open>What one block of soft bits decodes to, on its own.\<close>

definition fic_decoded :: "int list \<Rightarrow> u8 list" where
  "fic_decoded soft = decoded_frame (fic_prot (replicate 3096 0)) (disperseVector 768) soft"

definition fic_inv :: "qt_codec \<Rightarrow> fic_decoder \<Rightarrow> bool" where
  "fic_inv qt s \<longleftrightarrow> fib_reachable qt (fc_FibDecoder s) \<and>
     length (fc_FibBitsEntireFrame s) = 3072 \<and> is_bit_list (fc_FibBitsEntireFrame s) \<and>
     fc_PRBS s = disperseVector 768 \<and> length (fc_FicViterbiSoftInput s) = 2304 \<and>
     fc_ViterbiBlockAddresses s = fic_addresses \<and> fc_PunctureTable s = puncture_table fic_addresses \<and>
     prot_ok (fic_prot (fc_ViterbiBlock s)) \<and> length (fc_FicValid s) = 4 \<and> fc_Index s \<le> 2304 \<and>
     fc_FicBlock s < 40 \<and> fc_FicErrors s \<le> fc_FicBits s \<and> fc_FicBits s \<le> 2304 * (40 + fc_FicBlock s) \<and>
     0 \<le> fc_FicDecodeSuccessRatio s \<and> fc_FicDecodeSuccessRatio s \<le> 10"

lemma fic_prot_ok: "prot_ok (fic_prot block) \<longleftrightarrow>
    length block = 3096 \<and> (\<forall>p<3096. p \<notin> set fic_addresses \<longrightarrow> block ! p = 0)"
proof -
  have "\<forall>a\<in>set fic_addresses. a < 3096" using fic.inside by simp
  then show ?thesis using fic.increasing by (auto simp: prot_ok_def fic_prot_def Protection_def)
qed

lemma fic_inv_start:
  assumes "length bits = 3072" and "is_bit_list bits" and "length soft = 2304"
  shows "fic_inv qt (FicDecoder bits soft)"
proof -
  obtain loc where t: "fic_tables = (puncture_table fic_addresses, fic_addresses, loc)" using fic_tables_eq by blast
  show ?thesis using assms
    by (simp add: FicDecoder_def t fic_inv_def fic_prot_ok disperseVector_def cViterbiBlockSize_def fib_reachable.start)
qed

section \<open>One block\<close>

lemma hits_table:
  assumes "sorted_wrt (<) as" and "\<forall>a\<in>set as. a < n"
  shows "length (filter (\<lambda>p. p \<in> set as) [0..<n]) = length as"
proof -
  have "filter (\<lambda>p. p \<in> set as) [0..<n] = as"
    by (rule sorted_distinct_set_unique) (use assms in \<open>auto simp: strict_sorted_iff sorted_wrt_filter\<close>)
  then show ?thesis by simp
qed

lemma fic_ber:
  assumes "length out = 768"
  shows "\<exists>e\<le>2304. calculate_BER 768 block (puncture_table fic_addresses) out (bits, errors) = (bits + 2304, errors + e)"
proof -
  let ?t = "puncture_table fic_addresses"
  have t: "filter (\<lambda>p. ?t ! p \<and> Q p) [0..<3096] = filter (\<lambda>p. p \<in> set fic_addresses \<and> Q p) [0..<3096]" for Q
    by (rule filter_cong) (simp_all add: puncture_table_def cViterbiBlockSize_def)
  have n: "length (filter (\<lambda>p. p \<in> set fic_addresses) [0..<3096]) = 2304"
    using hits_table [OF fic.increasing, of 3096] fic.inside length_fic_addresses by simp
  have "length (filter (\<lambda>p. p \<in> set fic_addresses \<and> Q p) [0..<3096]) \<le> 2304" for Q
  proof -
    have "filter (\<lambda>p. p \<in> set fic_addresses \<and> Q p) [0..<3096] = filter Q (filter (\<lambda>p. p \<in> set fic_addresses) [0..<3096])"
      by (simp add: conj_commute)
    then show ?thesis using n length_filter_le [of Q "filter (\<lambda>p. p \<in> set fic_addresses) [0..<3096]"] by simp
  qed
  moreover note ber_loop [OF assms order.refl, of block ?t bits errors]
  ultimately show ?thesis using t [of "\<lambda>_. True"] t n by (auto simp: calculate_BER_def hits_def)
qed

lemma length_fic_decoded: "length (fic_decoded v) = 768" "is_bit_list (fic_decoded v)"
proof -
  have "length (deconvolve n syms) = n" for n syms
    using arg_cong [OF deconvolve_survivor [of syms n], of length] by simp
  then show "length (fic_decoded v) = 768"
    by (simp add: fic_decoded_def decoded_frame_def protection_deconvolve_def depuncture_def fic_prot_def Protection_def
        disperseVector_bits)
  show "is_bit_list (fic_decoded v)" unfolding fic_decoded_def decoded_frame_def
    by (rule is_bit_xor [OF is_bit_of_bool disperseVector_bits(1)])
qed

lemma is_bit_blit: "is_bit_list xs \<Longrightarrow> is_bit_list ys \<Longrightarrow> is_bit_list (blit i ys xs)"
  by (auto simp: is_bit_list_def blit_def dest: in_set_takeD in_set_dropD)

text \<open>Decoding a block does not depend on the blocks before, and keeps the invariant.\<close>

lemma decode_fic_ok:
  assumes inv: "fic_inv qt s" and i: "i < 4"
  defines "s' \<equiv> decode_fic i s"
  shows "fic_inv qt s'" and "fc_FibBitsEntireFrame s' = blit (i * 768) (fic_decoded (fc_FicViterbiSoftInput s)) (fc_FibBitsEntireFrame s)"
    and "fc_FibDecoder s' = fc_FibDecoder s" "fc_FicValid s' = fc_FicValid s" "fc_FicDecodeSuccessRatio s' = fc_FicDecodeSuccessRatio s"
    "fc_IsRunning s' = fc_IsRunning s" "fc_Index s' = fc_Index s" "fc_FicIdx s' = fc_FicIdx s" "fc_FicDump s' = fc_FicDump s"
    "fc_written s' = fc_written s"
proof -
  define block where "block = viterbiBlock (depuncture (fic_prot (fc_ViterbiBlock s)) (fc_FicViterbiSoftInput s))"
  have p: "prot_ok (fic_prot (fc_ViterbiBlock s))" using inv by (simp add: fic_inv_def)
  have z: "prot_ok (fic_prot (replicate 3096 0))" by (simp add: fic_prot_ok)
  have b: "block = fold (\<lambda>k block. block[fc_ViterbiBlockAddresses s ! k := fc_FicViterbiSoftInput s ! k])
      [0..<length (fc_ViterbiBlockAddresses s)] (fc_ViterbiBlock s)"
    using inv by (simp add: block_def depuncture_def fic_prot_def fic_inv_def)
  have pb: "prot_ok (fic_prot block)"
    using depuncture_ok(1) [OF p, of "fc_FicViterbiSoftInput s"] by (simp add: block_def depuncture_def fic_prot_def)
  have "block = viterbiBlock (depuncture (fic_prot (replicate 3096 0)) (fc_FicViterbiSoftInput s))"
    unfolding block_def by (rule depuncture_unique [OF p z]) (simp_all add: fic_prot_def)
  then have dec: "xor_list (map of_bool (deconvolve 768 block)) (disperseVector 768) = fic_decoded (fc_FicViterbiSoftInput s)"
    by (simp add: fic_decoded_def decoded_frame_def protection_deconvolve_def Let_def depuncture_def fic_prot_def Protection_def)
  obtain e where e: "e \<le> 2304" "calculate_BER 768 block (puncture_table fic_addresses) (deconvolve 768 block)
      (fc_FicBits s, fc_FicErrors s) = (fc_FicBits s + 2304, fc_FicErrors s + e)"
    using fic_ber [OF length_deconvolve] by blast
  have tables: "fc_PunctureTable s = puncture_table fic_addresses" "fc_PRBS s = disperseVector 768"
    "fc_ViterbiBlockAddresses s = fic_addresses" using inv by (simp_all add: fic_inv_def)
  have s': "s' = (let t = s\<lparr>fc_ViterbiBlock := block, fc_FicBits := fc_FicBits s + 2304, fc_FicErrors := fc_FicErrors s + e,
        fc_FicBlock := fc_FicBlock s + 1,
        fc_FibBitsEntireFrame := blit (i * 768) (fic_decoded (fc_FicViterbiSoftInput s)) (fc_FibBitsEntireFrame s)\<rparr> in
      if fc_FicBlock s + 1 = 40
      then t\<lparr>fc_signals := fc_signals s @ [(fc_FicDecodeSuccessRatio s * 10, fc_FicErrors s + e, fc_FicBits s + 2304)], fc_FicBlock := 0,
             fc_FicErrors := (fc_FicErrors s + e) div 2, fc_FicBits := (fc_FicBits s + 2304) div 2\<rparr>
      else t)"
    unfolding s'_def decode_fic_def Let_def b [symmetric] cFicSizeVitOut_def tables(1) e(2) prod.case
    by (simp add: tables(2) dec)
  have "is_bit_list (fc_FibBitsEntireFrame s)" "length (fc_FibBitsEntireFrame s) = 3072" using inv by (simp_all add: fic_inv_def)
  then have bits: "is_bit_list (blit (i * 768) (fic_decoded (fc_FicViterbiSoftInput s)) (fc_FibBitsEntireFrame s))"
    "length (blit (i * 768) (fic_decoded (fc_FicViterbiSoftInput s)) (fc_FibBitsEntireFrame s)) = 3072"
    using i length_fic_decoded by (simp_all add: is_bit_blit length_blit)
  have "(fc_FicErrors s + e) div 2 \<le> (fc_FicBits s + 2304) div 2" using inv e(1) by (intro div_le_mono) (simp add: fic_inv_def)
  then show "fic_inv qt s'" using inv pb bits e(1) unfolding s' Let_def by (auto simp: fic_inv_def)
  show "fc_FibBitsEntireFrame s' = blit (i * 768) (fic_decoded (fc_FicViterbiSoftInput s)) (fc_FibBitsEntireFrame s)"
    "fc_FibDecoder s' = fc_FibDecoder s" "fc_FicValid s' = fc_FicValid s" "fc_FicDecodeSuccessRatio s' = fc_FicDecodeSuccessRatio s"
    "fc_IsRunning s' = fc_IsRunning s" "fc_Index s' = fc_Index s" "fc_FicIdx s' = fc_FicIdx s" "fc_FicDump s' = fc_FicDump s"
    "fc_written s' = fc_written s"
    unfolding s' by (simp_all add: Let_def)
qed

section \<open>The FIBs of a block\<close>

text \<open>The memory seen from offset \<open>off\<close>, the CRC gate in front of the FIB decoder, the saturating ratio.\<close>

definition mem_at :: "u8 list \<Rightarrow> nat \<Rightarrow> bit_ptr" where
  "mem_at mem off = (\<lambda>i. if off + i < length mem then mem ! (off + i) else 0)"

definition fib_gate :: "qt_codec \<Rightarrow> nat \<Rightarrow> bit_ptr \<Rightarrow> fib_decoder \<Rightarrow> fib_decoder option" where
  "fib_gate qt now fib fd = (if check_CRC_bits fib 256 then process_FIB qt now fib fd else Some fd)"

definition saturate :: "bool \<Rightarrow> int \<Rightarrow> int" where
  "saturate ok r = (if ok then min 10 (r + 1) else max 0 (r - 1))"

lemma fib_memory_eq: "fib_memory s off = mem_at (fc_FibBitsEntireFrame s @ fc_PRBS s) off"
  by (simp add: fib_memory_def mem_at_def Let_def)

lemma mem_at_bits: "is_bit_list mem \<Longrightarrow> fib_bits (mem_at mem off)"
  unfolding fib_bits_def mem_at_def
proof
  fix i assume "is_bit_list mem"
  then have "off + i < length mem \<Longrightarrow> mem ! (off + i) = 0 \<or> mem ! (off + i) = 1" by (simp add: is_bit_list_def)
  then show "(if off + i < length mem then mem ! (off + i) else 0) \<le> 1" by auto
qed

lemma crc_cong:
  assumes "fib_bits d" and "fib_bits e" and "\<And>i. i < n \<Longrightarrow> d i = e i"
  shows "check_CRC_bits d n = check_CRC_bits e n"
proof -
  have "is_bits d 0 n" "is_bits e 0 n" using assms(1,2) by (simp_all add: fib_bits_def is_bits_def)
  moreover have "crc_input d n = crc_input e n" using assms(3) by (simp add: crc_input_def)
  ultimately show ?thesis by (simp add: check_bits_register)
qed

text \<open>What the blocks leave unchanged.\<close>

definition fic_same :: "fic_decoder \<Rightarrow> fic_decoder \<Rightarrow> bool" where
  "fic_same s s' \<longleftrightarrow> fc_IsRunning s' = fc_IsRunning s \<and> fc_Index s' = fc_Index s \<and> fc_FicIdx s' = fc_FicIdx s"

lemma process_one_fib_ok:
  fixes j :: nat
  assumes inv: "fic_inv qt s" and i: "i < 4"
  defines "fib \<equiv> mem_at (fc_FibBitsEntireFrame s @ disperseVector 768) (i * 768 + j * 256)"
  shows "\<exists>s'. process_one_fib qt clock i s j = Some s' \<and> fic_inv qt s' \<and> fic_same s s' \<and>
    fc_FibBitsEntireFrame s' = fc_FibBitsEntireFrame s \<and>
    fc_FicValid s' = (if check_CRC_bits fib 256 then fc_FicValid s else (fc_FicValid s)[i := False]) \<and>
    fib_gate qt (clock i j) fib (fc_FibDecoder s) = Some (fc_FibDecoder s') \<and>
    fc_FicDecodeSuccessRatio s' = saturate (check_CRC_bits fib 256) (fc_FicDecodeSuccessRatio s)"
proof -
  have prbs: "fc_PRBS s = disperseVector 768" and r: "fib_reachable qt (fc_FibDecoder s)" using inv by (simp_all add: fic_inv_def)
  have "is_bit_list (fc_FibBitsEntireFrame s @ disperseVector 768)"
    using inv disperseVector_bits(1) [of 768] by (auto simp: fic_inv_def is_bit_list_def)
  then have bits: "fib_bits fib" unfolding fib_def by (rule mem_at_bits)
  obtain fd where fd: "process_FIB qt (clock i j) fib (fc_FibDecoder s) = Some fd"
    using process_FIB_total [OF reachable_inv [OF r] bits, of qt "clock i j"] by blast
  then have rd: "fib_reachable qt fd"
    using fib_reachable.step [OF r fib_step.step_FIB [OF bits]] by blast
  have m: "fib_memory s (i * cFicSizeVitOut + j * cFibSizeVitOut) = fib"
    by (simp add: fib_memory_eq fib_def prbs cFicSizeVitOut_def cFibSizeVitOut_def cFibPerFic_def)
  have ratio: "0 \<le> fc_FicDecodeSuccessRatio s" "fc_FicDecodeSuccessRatio s \<le> 10" using inv by (simp_all add: fic_inv_def)
  have c: "cFibSizeVitOut = 256" by (simp add: cFicSizeVitOut_def cFibSizeVitOut_def cFibPerFic_def)
  note u = process_one_fib_def [of qt clock i s j, unfolded Let_def m, unfolded c]
  define t where "t = (case fc_FicDump s of None \<Rightarrow> s | Some file \<Rightarrow> dump_fib_to_file file fib s)"
  have t: "fc_FibDecoder t = fc_FibDecoder s" "fic_inv qt t" "fic_same s t" "fc_FibBitsEntireFrame t = fc_FibBitsEntireFrame s"
    "fc_FicValid t = fc_FicValid s" using inv
    by (auto simp: t_def dump_fib_to_file_def fic_inv_def fic_same_def split: option.splits)
  define good where "good = t\<lparr>fc_FibDecoder := fd, fc_FicDecodeSuccessRatio := saturate True (fc_FicDecodeSuccessRatio s)\<rparr>"
  define bad where "bad = s\<lparr>fc_FicValid := (fc_FicValid s)[i := False],
      fc_FicDecodeSuccessRatio := saturate False (fc_FicDecodeSuccessRatio s)\<rparr>"
  show ?thesis
  proof (cases "check_CRC_bits fib 256")
    case True
    then have "process_one_fib qt clock i s j = Some good"
      unfolding u t_def [symmetric] t(1) fd using ratio by (simp add: good_def saturate_def)
    moreover have "fic_inv qt good" using t(2) rd ratio by (simp add: good_def fic_inv_def saturate_def)
    moreover have "fic_same s good" using t(3) by (simp add: good_def fic_same_def)
    ultimately show ?thesis using True t(4,5) fd by (simp add: good_def fib_gate_def)
  next
    case False
    then have "process_one_fib qt clock i s j = Some bad"
      unfolding u using ratio by (simp add: bad_def saturate_def)
    moreover have "fic_inv qt bad" using inv ratio by (simp add: bad_def fic_inv_def saturate_def)
    moreover have "fic_same s bad" by (simp add: bad_def fic_same_def)
    ultimately show ?thesis using False by (simp add: bad_def fib_gate_def)
  qed
qed

lemma upt_3: "[0..<3] = [0, 1, 2 :: nat]"
  by (simp add: upt_rec)

lemma process_fic_ok:
  assumes inv: "fic_inv qt s" and i: "i < 4" and run: "fc_IsRunning s"
  defines "bits \<equiv> blit (i * 768) (fic_decoded (fc_FicViterbiSoftInput s)) (fc_FibBitsEntireFrame s)"
  defines "fib j \<equiv> mem_at (bits @ disperseVector 768) (i * 768 + j * 256)"
  shows "\<exists>s'. process_fic_input qt clock i s = Some s' \<and> fic_inv qt s' \<and> fic_same s s' \<and>
    fc_FibBitsEntireFrame s' = bits \<and>
    fc_FicValid s' = (fc_FicValid s)[i := \<forall>j<3. check_CRC_bits (fib j) 256] \<and>
    foldl (\<lambda>fd j. Option.bind fd (fib_gate qt (clock i j) (fib j))) (Some (fc_FibDecoder s)) [0..<3] = Some (fc_FibDecoder s') \<and>
    fc_FicDecodeSuccessRatio s' = foldl (\<lambda>r j. saturate (check_CRC_bits (fib j) 256) r) (fc_FicDecodeSuccessRatio s) [0..<3]"
proof -
  define s0 where "s0 = (decode_fic i s)\<lparr>fc_FicValid := (fc_FicValid (decode_fic i s))[i := True]\<rparr>"
  note dec = decode_fic_ok [OF inv i]
  have s0: "fic_inv qt s0" "fic_same s s0" "fc_FibBitsEntireFrame s0 = bits" "fc_FicValid s0 = (fc_FicValid s)[i := True]"
    "fc_FibDecoder s0 = fc_FibDecoder s" "fc_FicDecodeSuccessRatio s0 = fc_FicDecodeSuccessRatio s"
    using dec by (auto simp: s0_def fic_inv_def fic_same_def bits_def)
  obtain s1 where s1: "process_one_fib qt clock i s0 0 = Some s1" "fic_inv qt s1" "fic_same s0 s1" "fc_FibBitsEntireFrame s1 = bits"
    "fc_FicValid s1 = (if check_CRC_bits (fib 0) 256 then fc_FicValid s0 else (fc_FicValid s0)[i := False])"
    "fib_gate qt (clock i 0) (fib 0) (fc_FibDecoder s0) = Some (fc_FibDecoder s1)"
    "fc_FicDecodeSuccessRatio s1 = saturate (check_CRC_bits (fib 0) 256) (fc_FicDecodeSuccessRatio s0)"
    using process_one_fib_ok [OF s0(1) i, where clock = clock and j = 0] unfolding s0(3) fib_def by blast
  obtain s2 where s2: "process_one_fib qt clock i s1 1 = Some s2" "fic_inv qt s2" "fic_same s1 s2" "fc_FibBitsEntireFrame s2 = bits"
    "fc_FicValid s2 = (if check_CRC_bits (fib 1) 256 then fc_FicValid s1 else (fc_FicValid s1)[i := False])"
    "fib_gate qt (clock i 1) (fib 1) (fc_FibDecoder s1) = Some (fc_FibDecoder s2)"
    "fc_FicDecodeSuccessRatio s2 = saturate (check_CRC_bits (fib 1) 256) (fc_FicDecodeSuccessRatio s1)"
    using process_one_fib_ok [OF s1(2) i, where clock = clock and j = 1] unfolding s1(4) fib_def by blast
  obtain s3 where s3: "process_one_fib qt clock i s2 2 = Some s3" "fic_inv qt s3" "fic_same s2 s3" "fc_FibBitsEntireFrame s3 = bits"
    "fc_FicValid s3 = (if check_CRC_bits (fib 2) 256 then fc_FicValid s2 else (fc_FicValid s2)[i := False])"
    "fib_gate qt (clock i 2) (fib 2) (fc_FibDecoder s2) = Some (fc_FibDecoder s3)"
    "fc_FicDecodeSuccessRatio s3 = saturate (check_CRC_bits (fib 2) 256) (fc_FicDecodeSuccessRatio s2)"
    using process_one_fib_ok [OF s2(2) i, where clock = clock and j = 2] unfolding s2(4) fib_def by blast
  have "process_fic_input qt clock i s = Some s3"
    using i run s1(1) s2(1) s3(1)
    by (simp add: process_fic_input_def s0_def Let_def cFibPerFic_def upt_3)
  moreover have "fic_same s s3" using s0(2) s1(3) s2(3) s3(3) by (simp add: fic_same_def)
  moreover have "(\<forall>j<3. check_CRC_bits (fib j) 256) \<longleftrightarrow>
      check_CRC_bits (fib 0) 256 \<and> check_CRC_bits (fib 1) 256 \<and> check_CRC_bits (fib 2) 256"
    by (auto simp: less_Suc_eq numeral_eq_Suc)
  then have "fc_FicValid s3 = (fc_FicValid s)[i := \<forall>j<3. check_CRC_bits (fib j) 256]"
    using s0(4) s1(5) s2(5) s3(5) by simp
  ultimately show ?thesis
    using s3(2,4) s0(5,6) s1(6,7) s2(6,7) s3(6,7) by (auto simp: upt_3)
qed

section \<open>The symbols of a frame\<close>

text \<open>Soft bits below the block size are collected; a full block is processed.\<close>

definition fic_feed :: "qt_codec \<Rightarrow> (nat \<Rightarrow> nat \<Rightarrow> nat) \<Rightarrow> int list \<Rightarrow> fic_decoder \<Rightarrow> fic_decoder option" where
  "fic_feed qt clock v s =
     map_option (\<lambda>s. s\<lparr>fc_Index := 0, fc_FicIdx := fc_FicIdx s + 1\<rparr>)
       (process_fic_input qt clock (fc_FicIdx s) (s\<lparr>fc_FicViterbiSoftInput := v, fc_Index := 2304\<rparr>))"

lemma cFicSizeVitIn_eq: "cFicSizeVitIn = 2304" "c2K = 3072"
  by (simp_all add: cFicSizeVitIn_def c2K_def cK_def)

lemma collect_block:
  assumes "length (fc_FicViterbiSoftInput s) = 2304" and "fc_Index s + length xs = 2304" and "xs \<noteq> []"
  shows "fic_bits_loop qt clock (xs @ rest) s =
    Option.bind (fic_feed qt clock (take (fc_Index s) (fc_FicViterbiSoftInput s) @ xs) s) (fic_bits_loop qt clock rest)"
  using assms
proof (induction xs arbitrary: s)
  case (Cons x xs)
  let ?t = "s\<lparr>fc_FicViterbiSoftInput := (fc_FicViterbiSoftInput s)[fc_Index s := x], fc_Index := fc_Index s + 1\<rparr>"
  have k: "fc_Index s < 2304" using Cons.prems(2) by simp
  have take: "take (Suc (fc_Index s)) ((fc_FicViterbiSoftInput s)[fc_Index s := x]) =
      take (fc_Index s) (fc_FicViterbiSoftInput s) @ [x]"
    using k Cons.prems(1) by (simp add: take_Suc_conv_app_nth)
  show ?case
  proof (cases "xs = []")
    case True
    then have e: "Suc (fc_Index s) = 2304" using Cons.prems(2) by simp
    have full: "(fc_FicViterbiSoftInput s)[fc_Index s := x] = take (fc_Index s) (fc_FicViterbiSoftInput s) @ [x]"
      using take e Cons.prems(1) by simp
    have "?t = s\<lparr>fc_FicViterbiSoftInput := take (fc_Index s) (fc_FicViterbiSoftInput s) @ [x], fc_Index := 2304\<rparr>"
      using e full by simp
    then show ?thesis using True e
      by (simp add: cFicSizeVitIn_eq fic_feed_def bind_map_option Let_def split: option.splits Option.bind_split)
  next
    case False
    then have lt: "Suc (fc_Index s) < 2304" using Cons.prems(2) by (cases xs) simp_all
    have "fic_bits_loop qt clock (xs @ rest) ?t =
      Option.bind (fic_feed qt clock (take (fc_Index ?t) (fc_FicViterbiSoftInput ?t) @ xs) ?t) (fic_bits_loop qt clock rest)"
      using Cons.prems by (intro Cons.IH [OF _ _ False]) simp_all
    moreover have "fic_feed qt clock v ?t = fic_feed qt clock v s" for v by (simp add: fic_feed_def)
    ultimately show ?thesis using lt take by (simp add: cFicSizeVitIn_eq Let_def)
  qed
qed simp

lemma fic_bits_append:
  "fic_bits_loop qt clock (xs @ ys) s = Option.bind (fic_bits_loop qt clock xs s) (fic_bits_loop qt clock ys)"
  by (induction qt clock xs s rule: fic_bits_loop.induct) (auto simp: Let_def split: option.splits)

lemma fic_feed_ok:
  assumes inv: "fic_inv qt s" and i: "fc_FicIdx s < 4" and run: "fc_IsRunning s" and v: "length v = 2304"
  defines "i \<equiv> fc_FicIdx s"
  defines "bits \<equiv> blit (i * 768) (fic_decoded v) (fc_FibBitsEntireFrame s)"
  defines "fib j \<equiv> mem_at (bits @ disperseVector 768) (i * 768 + j * 256)"
  shows "\<exists>s'. fic_feed qt clock v s = Some s' \<and> fic_inv qt s' \<and> fc_IsRunning s' \<and> fc_Index s' = 0 \<and> fc_FicIdx s' = i + 1 \<and>
    fc_FibBitsEntireFrame s' = bits \<and>
    fc_FicValid s' = (fc_FicValid s)[i := \<forall>j<3. check_CRC_bits (fib j) 256] \<and>
    foldl (\<lambda>fd j. Option.bind fd (fib_gate qt (clock i j) (fib j))) (Some (fc_FibDecoder s)) [0..<3] = Some (fc_FibDecoder s') \<and>
    fc_FicDecodeSuccessRatio s' = foldl (\<lambda>r j. saturate (check_CRC_bits (fib j) 256) r) (fc_FicDecodeSuccessRatio s) [0..<3]"
proof -
  let ?t = "s\<lparr>fc_FicViterbiSoftInput := v, fc_Index := 2304\<rparr>"
  have "fic_inv qt ?t" using inv v by (simp add: fic_inv_def)
  from process_fic_ok [OF this, of "fc_FicIdx s" clock] obtain s' where
    p: "process_fic_input qt clock i ?t = Some s'" and s': "fic_inv qt s'" "fic_same ?t s'" "fc_FibBitsEntireFrame s' = bits"
    "fc_FicValid s' = (fc_FicValid s)[i := \<forall>j<3. check_CRC_bits (fib j) 256]"
    "foldl (\<lambda>fd j. Option.bind fd (fib_gate qt (clock i j) (fib j))) (Some (fc_FibDecoder s)) [0..<3] = Some (fc_FibDecoder s')"
    "fc_FicDecodeSuccessRatio s' = foldl (\<lambda>r j. saturate (check_CRC_bits (fib j) 256) r) (fc_FicDecodeSuccessRatio s) [0..<3]"
    using i run by (auto simp: i_def fib_def bits_def)
  define t' where "t' = s'\<lparr>fc_Index := 0, fc_FicIdx := fc_FicIdx s' + 1\<rparr>"
  have "fic_feed qt clock v s = Some t'" using p by (simp add: fic_feed_def i_def t'_def)
  moreover have "fic_inv qt t'" using s'(1) by (simp add: t'_def fic_inv_def)
  moreover have "fc_IsRunning t' \<and> fc_Index t' = 0 \<and> fc_FicIdx t' = i + 1"
    using s'(2) run by (simp add: t'_def fic_same_def i_def)
  ultimately show ?thesis using s'(3-6) by (simp add: t'_def)
qed

text \<open>The frame's bits after \<open>k\<close> blocks, and the memory the FIB decoder sees for FIB \<open>j\<close> of block \<open>i\<close>.\<close>

definition frame_bits :: "int list list \<Rightarrow> u8 list \<Rightarrow> nat \<Rightarrow> u8 list" where
  "frame_bits vs old k = concat (map fic_decoded (take k vs)) @ drop (768 * k) old"

definition frame_fib :: "int list list \<Rightarrow> u8 list \<Rightarrow> nat \<Rightarrow> nat \<Rightarrow> bit_ptr" where
  "frame_fib vs old i j = mem_at (frame_bits vs old (Suc i) @ disperseVector 768) (i * 768 + j * 256)"

definition frame_fibs :: "nat \<Rightarrow> (nat \<times> nat) list" where
  "frame_fibs k = concat (map (\<lambda>i. map (Pair i) [0..<3]) [0..<k])"

lemma length_decoded_blocks: "k \<le> length vs \<Longrightarrow> length (concat (map fic_decoded (take k vs))) = 768 * k"
  by (induction k) (simp_all add: take_Suc_conv_app_nth length_fic_decoded)

lemma frame_bits_step:
  assumes "k < length vs" and "length vs = 4" and "length old = 3072"
  shows "blit (k * 768) (fic_decoded (vs ! k)) (frame_bits vs old k) = frame_bits vs old (Suc k)"
proof -
  have l: "length (concat (map fic_decoded (take k vs))) = k * 768" using length_decoded_blocks [of k vs] assms(1) by simp
  show ?thesis unfolding frame_bits_def blit_def
    using assms by (simp add: l take_Suc_conv_app_nth length_fic_decoded add.commute)
qed

lemma frame_fibs_Suc:
  "foldl f a (frame_fibs (Suc k)) = foldl (\<lambda>a j. f a (k, j)) (foldl f a (frame_fibs k)) [0..<3]"
  by (simp add: frame_fibs_def foldl_map)

lemma frame_blocks:
  assumes inv: "fic_inv qt s" and run: "fc_IsRunning s" and start: "fc_Index s = 0" "fc_FicIdx s = 0"
    and vs: "length vs = 4" "\<forall>v\<in>set vs. length v = 2304" and k: "k \<le> 4"
  defines "old \<equiv> fc_FibBitsEntireFrame s"
  defines "fib \<equiv> frame_fib vs old"
  shows "\<exists>s'. fic_bits_loop qt clock (concat (take k vs)) s = Some s' \<and> fic_inv qt s' \<and> fc_IsRunning s' \<and> fc_Index s' = 0 \<and>
    fc_FicIdx s' = k \<and> fc_FibBitsEntireFrame s' = frame_bits vs old k \<and>
    fc_FicValid s' = map (\<lambda>i. \<forall>j<3. check_CRC_bits (fib i j) 256) [0..<k] @ drop k (fc_FicValid s) \<and>
    foldl (\<lambda>fd (i, j). Option.bind fd (fib_gate qt (clock i j) (fib i j))) (Some (fc_FibDecoder s)) (frame_fibs k) =
      Some (fc_FibDecoder s') \<and>
    fc_FicDecodeSuccessRatio s' =
      foldl (\<lambda>r (i, j). saturate (check_CRC_bits (fib i j) 256) r) (fc_FicDecodeSuccessRatio s) (frame_fibs k)"
  using k
proof (induction k)
  case 0
  then show ?case using inv run start by (simp add: frame_fibs_def frame_bits_def old_def)
next
  case (Suc k)
  have k: "k < length vs" "k < 4" using Suc.prems vs(1) by simp_all
  let ?P = "\<lambda>k s'. fic_inv qt s' \<and> fc_IsRunning s' \<and> fc_Index s' = 0 \<and>
    fc_FicIdx s' = k \<and> fc_FibBitsEntireFrame s' = frame_bits vs old k \<and>
    fc_FicValid s' = map (\<lambda>i. \<forall>j<3. check_CRC_bits (fib i j) 256) [0..<k] @ drop k (fc_FicValid s) \<and>
    foldl (\<lambda>fd (i, j). Option.bind fd (fib_gate qt (clock i j) (fib i j))) (Some (fc_FibDecoder s)) (frame_fibs k) =
      Some (fc_FibDecoder s') \<and>
    fc_FicDecodeSuccessRatio s' =
      foldl (\<lambda>r (i, j). saturate (check_CRC_bits (fib i j) 256) r) (fc_FicDecodeSuccessRatio s) (frame_fibs k)"
  obtain t where lt: "fic_bits_loop qt clock (concat (take k vs)) s = Some t" and t: "?P k t"
    using Suc by auto
  have v: "length (vs ! k) = 2304" using vs(2) k by simp
  have old: "length old = 3072" using inv by (simp add: old_def fic_inv_def)
  from fic_feed_ok [of qt t "vs ! k" clock, unfolded t [THEN conjunct2, THEN conjunct2, THEN conjunct2, THEN conjunct1]
      t [THEN conjunct2, THEN conjunct2, THEN conjunct2, THEN conjunct2, THEN conjunct1] frame_bits_step [OF k(1) vs(1) old]
      frame_fib_def [symmetric], folded fib_def]
  obtain s' where f: "fic_feed qt clock (vs ! k) t = Some s'" and s': "fic_inv qt s'" "fc_IsRunning s'" "fc_Index s' = 0"
    "fc_FicIdx s' = k + 1" "fc_FibBitsEntireFrame s' = frame_bits vs old (Suc k)"
    "fc_FicValid s' = (fc_FicValid t)[k := \<forall>j<3. check_CRC_bits (fib k j) 256]"
    "foldl (\<lambda>fd j. Option.bind fd (fib_gate qt (clock k j) (fib k j))) (Some (fc_FibDecoder t)) [0..<3] = Some (fc_FibDecoder s')"
    "fc_FicDecodeSuccessRatio s' = foldl (\<lambda>r j. saturate (check_CRC_bits (fib k j) 256) r) (fc_FicDecodeSuccessRatio t) [0..<3]"
    using t k(2) v by blast
  have soft: "length (fc_FicViterbiSoftInput t) = 2304" "length (fc_FicValid s) = 4" using t inv by (simp_all add: fic_inv_def)
  have "vs ! k \<noteq> []" using v by auto
  then have "fic_bits_loop qt clock (vs ! k) t = Some s'"
    using collect_block [OF soft(1), of "vs ! k" qt clock "[]"] f t v by auto
  then have "fic_bits_loop qt clock (concat (take (Suc k) vs)) s = Some s'"
    using k lt by (simp add: take_Suc_conv_app_nth fic_bits_append)
  moreover have "fc_FicValid s' = map (\<lambda>i. \<forall>j<3. check_CRC_bits (fib i j) 256) [0..<Suc k] @ drop (Suc k) (fc_FicValid s)"
    using s'(6) t k(2) soft(2) by (simp add: list_update_append Cons_nth_drop_Suc [symmetric])
  moreover have "foldl (\<lambda>fd (i, j). Option.bind fd (fib_gate qt (clock i j) (fib i j))) (Some (fc_FibDecoder s)) (frame_fibs (Suc k)) =
      Some (fc_FibDecoder s')"
    unfolding frame_fibs_Suc using s'(7) t by simp
  moreover have "fc_FicDecodeSuccessRatio s' =
      foldl (\<lambda>r (i, j). saturate (check_CRC_bits (fib i j) 256) r) (fc_FicDecodeSuccessRatio s) (frame_fibs (Suc k))"
    unfolding frame_fibs_Suc using s'(8) t by simp
  ultimately show ?case using s'(1-5) by auto
qed

section \<open>Reachable states\<close>

text \<open>
  Events: a symbol arrives, the decoder is stopped or restarted, the dump file is opened or closed, the
  success ratio is reset, or the FIB decoder takes a step of its own (a timer, the user interface).
\<close>

inductive fic_step :: "qt_codec \<Rightarrow> fic_decoder \<Rightarrow> fic_decoder \<Rightarrow> bool" for qt where
  symbol: "fic_process_block qt clock bits idx s = Some s' \<Longrightarrow> fic_step qt s s'"
| stop: "fic_step qt s (fic_stop s)"
| restart: "fic_step qt s (fic_restart s)"
| start_dump: "fic_step qt s (start_fic_dump f s)"
| stop_dump: "fic_step qt s (stop_fic_dump s)"
| reset: "fic_step qt s (reset_fic_decode_success_ratio s)"
| fib: "fib_step qt (fc_FibDecoder s) fd \<Longrightarrow> fic_step qt s (s\<lparr>fc_FibDecoder := fd\<rparr>)"

inductive fic_reachable :: "qt_codec \<Rightarrow> fic_decoder \<Rightarrow> bool" for qt where
  init: "length bits = 3072 \<Longrightarrow> is_bit_list bits \<Longrightarrow> length soft = 2304 \<Longrightarrow> fic_reachable qt (FicDecoder bits soft)"
| step: "fic_reachable qt s \<Longrightarrow> fic_step qt s s' \<Longrightarrow> fic_reachable qt s'"

lemma process_fic_inv:
  assumes "fic_inv qt s" and "process_fic_input qt clock i s = Some s'"
  shows "fic_inv qt s' \<and> fc_Index s' = fc_Index s"
proof -
  have i: "i < 4" using assms(2) by (simp add: process_fic_input_def split: if_splits)
  show ?thesis
  proof (cases "fc_IsRunning s")
    case True
    then show ?thesis using process_fic_ok [OF assms(1) i True, of clock] assms(2) by (auto simp: fic_same_def)
  next
    case False
    then show ?thesis using assms i by (simp add: process_fic_input_def)
  qed
qed

lemma fic_bits_loop_inv:
  "fic_bits_loop qt clock xs s = Some s' \<Longrightarrow> fic_inv qt s \<Longrightarrow> fc_Index s < 2304 \<Longrightarrow> fic_inv qt s' \<and> fc_Index s' < 2304"
proof (induction qt clock xs s rule: fic_bits_loop.induct)
  case (2 qt clock x xs s)
  let ?t = "s\<lparr>fc_FicViterbiSoftInput := (fc_FicViterbiSoftInput s)[fc_Index s := x], fc_Index := fc_Index s + 1\<rparr>"
  have t: "fic_inv qt ?t" using 2(4,5) by (simp add: fic_inv_def)
  show ?case
  proof (cases "fc_Index ?t \<ge> cFicSizeVitIn")
    case True
    then obtain u where u: "process_fic_input qt clock (fc_FicIdx ?t) ?t = Some u"
      "fic_bits_loop qt clock xs (u\<lparr>fc_Index := 0, fc_FicIdx := fc_FicIdx u + 1\<rparr>) = Some s'"
      using 2(3) by (auto simp: Let_def split: option.splits)
    moreover have "fic_inv qt (u\<lparr>fc_Index := 0, fc_FicIdx := fc_FicIdx u + 1\<rparr>)"
      using process_fic_inv [OF t u(1)] by (simp add: fic_inv_def)
    ultimately show ?thesis using 2(1) [OF refl True u(1)] by simp
  next
    case False
    then have "fc_Index ?t < 2304" by (simp add: cFicSizeVitIn_eq)
    then show ?thesis using 2(2) [OF refl False] 2(3) t False by (simp add: Let_def)
  qed
qed simp

lemma fic_step_inv: "fic_step qt s s' \<Longrightarrow> fic_inv qt s \<and> fc_Index s < 2304 \<Longrightarrow> fic_inv qt s' \<and> fc_Index s' < 2304"
proof (induction rule: fic_step.induct)
  case (symbol clock bits idx s s')
  define t where "t = (if idx = 1 then s\<lparr>fc_Index := 0, fc_FicIdx := 0\<rparr> else s)"
  have "fic_bits_loop qt clock bits t = Some s'"
    using symbol.hyps by (simp add: fic_process_block_def t_def split: if_splits)
  moreover have "fic_inv qt t" "fc_Index t < 2304" using symbol.prems by (simp_all add: t_def fic_inv_def)
  ultimately show ?case by (rule fic_bits_loop_inv)
qed (auto simp: fic_inv_def fic_stop_def fic_restart_def start_fic_dump_def stop_fic_dump_def reset_fic_decode_success_ratio_def
    intro: fib_reachable.step fib_step.intros)

lemma fic_reachable_inv: "fic_reachable qt s \<Longrightarrow> fic_inv qt s \<and> fc_Index s < 2304"
proof (induction rule: fic_reachable.induct)
  case (init bits soft)
  have "fc_Index (FicDecoder bits soft) = 0" by (simp add: FicDecoder_def case_prod_beta)
  then show ?case using fic_inv_start [OF init, of qt] by simp
qed (rule fic_step_inv)

text \<open>A whole frame.\<close>

definition fic_slices :: "int list \<Rightarrow> int list list" where
  "fic_slices bs = map (\<lambda>i. take 2304 (drop (2304 * i) bs)) [0..<4]"

lemma fic_slices_4:
  assumes "length bs = 9216"
  shows "length (fic_slices bs) = 4" "\<forall>v\<in>set (fic_slices bs). length v = 2304" "concat (fic_slices bs) = bs"
proof -
  show "length (fic_slices bs) = 4" by (simp add: fic_slices_def)
  show "\<forall>v\<in>set (fic_slices bs). length v = 2304" using assms by (auto simp: fic_slices_def)
  have "concat (map (\<lambda>i. take 2304 (drop (2304 * i) bs)) [0..<k]) = take (2304 * k) bs" for k
  proof (induction k)
    case (Suc k)
    then show ?case using take_add [of "2304 * k" 2304 bs] by (simp add: add.commute)
  qed simp
  from this [of 4] show "concat (fic_slices bs) = bs" using assms by (simp add: fic_slices_def)
qed

lemma three_symbols:
  assumes b: "length b1 = 3072" "length b2 = 3072" "length b3 = 3072"
    and run: "fic_bits_loop qt clock (b1 @ b2 @ b3) (s\<lparr>fc_Index := 0, fc_FicIdx := 0\<rparr>) = Some s'"
  shows "\<exists>s1 s2. fic_process_block qt clock b1 1 s = Some s1 \<and> fic_process_block qt clock b2 2 s1 = Some s2 \<and>
    fic_process_block qt clock b3 3 s2 = Some s'"
  using run b by (auto simp: fic_bits_append fic_process_block_def cFicSizeVitIn_eq bind_eq_Some_conv)

lemma frame_ok:
  assumes inv: "fic_inv qt s" and run: "fc_IsRunning s"
    and b: "length b1 = 3072" "length b2 = 3072" "length b3 = 3072"
  defines "vs \<equiv> fic_slices (b1 @ b2 @ b3)"
  defines "fib \<equiv> frame_fib vs (fc_FibBitsEntireFrame s)"
  shows "\<exists>s1 s2 s'. fic_process_block qt clock b1 1 s = Some s1 \<and> fic_process_block qt clock b2 2 s1 = Some s2 \<and>
    fic_process_block qt clock b3 3 s2 = Some s' \<and>
    get_fib_bits s' = (concat (map fic_decoded vs), map (\<lambda>i. \<forall>j<3. check_CRC_bits (fib i j) 256) [0..<4]) \<and>
    foldl (\<lambda>fd (i, j). Option.bind fd (fib_gate qt (clock i j) (fib i j))) (Some (fc_FibDecoder s)) (frame_fibs 4) =
      Some (fc_FibDecoder s') \<and>
    fc_FicDecodeSuccessRatio s' =
      foldl (\<lambda>r (i, j). saturate (check_CRC_bits (fib i j) 256) r) (fc_FicDecodeSuccessRatio s) (frame_fibs 4)"
proof -
  let ?s = "s\<lparr>fc_Index := 0, fc_FicIdx := 0\<rparr>"
  have vs: "length vs = 4" "\<forall>v\<in>set vs. length v = 2304" "concat vs = b1 @ b2 @ b3"
    unfolding vs_def using b by (intro fic_slices_4; simp)+
  have "fic_inv qt ?s" using inv by (simp add: fic_inv_def)
  from frame_blocks [OF this _ _ _ vs(1,2) order.refl, where clock = clock]
  obtain s' where s': "fic_bits_loop qt clock (concat (take 4 vs)) ?s = Some s'" "fic_inv qt s'"
    "fc_FibBitsEntireFrame s' = frame_bits vs (fc_FibBitsEntireFrame s) 4"
    "fc_FicValid s' = map (\<lambda>i. \<forall>j<3. check_CRC_bits (fib i j) 256) [0..<4] @ drop 4 (fc_FicValid s)"
    "foldl (\<lambda>fd (i, j). Option.bind fd (fib_gate qt (clock i j) (fib i j))) (Some (fc_FibDecoder s)) (frame_fibs 4) =
      Some (fc_FibDecoder s')"
    "fc_FicDecodeSuccessRatio s' =
      foldl (\<lambda>r (i, j). saturate (check_CRC_bits (fib i j) 256) r) (fc_FicDecodeSuccessRatio s) (frame_fibs 4)"
    using run unfolding fib_def by auto
  have l: "length (fc_FicValid s) = 4" "length (fc_FibBitsEntireFrame s) = 3072" using inv by (simp_all add: fic_inv_def)
  have "fic_bits_loop qt clock (b1 @ b2 @ b3) ?s = Some s'" using s'(1) vs by simp
  from three_symbols [OF b this] obtain s1 s2 where "fic_process_block qt clock b1 1 s = Some s1"
    "fic_process_block qt clock b2 2 s1 = Some s2" "fic_process_block qt clock b3 3 s2 = Some s'" by blast
  moreover have "get_fib_bits s' = (concat (map fic_decoded vs), map (\<lambda>i. \<forall>j<3. check_CRC_bits (fib i j) 256) [0..<4])"
    using s'(3,4) vs(1) l by (simp add: get_fib_bits_def frame_bits_def)
  ultimately show ?thesis using s'(5,6) by blast
qed

lemma fic_recovers:
  assumes "length msg = 768" and "is_bit_list msg" and "carries fic_addresses (scramble msg) v"
  shows "fic_decoded v = msg"
proof -
  have "fst (protection_deconvolve (fic_prot (replicate 3096 0)) v) = scramble msg"
    by (rule fic.protection_recovers) (use assms in \<open>simp_all add: fic_prot_ok\<close>, simp_all add: fic_prot_def Protection_def)
  then show ?thesis using unscramble [OF assms(2)] assms(1) by (simp add: fic_decoded_def decoded_frame_def)
qed

lemma saturate_all: "r \<le> 10 \<Longrightarrow> foldl (\<lambda>r p. saturate True r) r xs = min 10 (r + int (length xs))"
  by (induction xs arbitrary: r) (simp_all add: saturate_def)

lemma nth_concat_blocks:
  assumes "\<forall>x\<in>set xs. length x = n" and "i < length xs" and "k < n"
  shows "concat xs ! (i * n + k) = xs ! i ! k"
  using assms
proof (induction xs arbitrary: i)
  case (Cons x xs)
  then show ?case by (cases i) (simp_all add: nth_append)
qed simp

lemma frame_fib_crc:
  assumes vs: "length vs = 4" and old: "is_bit_list old" and i: "i < 4" and j: "j < 3"
  shows "check_CRC_bits (frame_fib vs old i j) 256 = check_CRC_bits (mem_at (fic_decoded (vs ! i)) (j * 256)) 256"
proof (rule crc_cong)
  let ?xs = "map fic_decoded (take (Suc i) vs)"
  have "is_bit_list (concat ?xs)" using length_fic_decoded(2) by (fastforce simp: is_bit_list_def)
  then have "is_bit_list (frame_bits vs old (Suc i) @ disperseVector 768)"
    using old disperseVector_bits(1) [of 768] by (auto simp: is_bit_list_def frame_bits_def dest: in_set_dropD)
  then show "fib_bits (frame_fib vs old i j)" unfolding frame_fib_def by (rule mem_at_bits)
  show "fib_bits (mem_at (fic_decoded (vs ! i)) (j * 256))" by (rule mem_at_bits [OF length_fic_decoded(2)])
  fix k :: nat assume k: "k < 256"
  have jk: "j * 256 + k < 768" using j k by simp
  have xs: "length ?xs = Suc i" "\<forall>x\<in>set ?xs. length x = 768" using i vs length_fic_decoded(1) by auto
  have l: "length (concat ?xs) = 768 * Suc i" using length_decoded_blocks [of "Suc i" vs] i vs by simp
  have "concat ?xs ! (i * 768 + (j * 256 + k)) = fic_decoded (vs ! i) ! (j * 256 + k)"
    using nth_concat_blocks [OF xs(2) _ jk, of i] xs(1) i vs by simp
  then show "frame_fib vs old i j k = mem_at (fic_decoded (vs ! i)) (j * 256) k"
    using jk l by (simp add: frame_fib_def mem_at_def frame_bits_def nth_append length_fic_decoded add.assoc)
qed

section \<open>Dumped FIBs\<close>

lemma dump_step: "bit ((push_bit 1 b AND 0xFE) OR x) q = (if q = 0 then x = 1 else q < 8 \<and> bit b (q - 1))"
  if "x \<le> 1" for b x :: u8
proof -
  have "(0xFE :: u8) = push_bit 1 (mask 7)" by (simp add: mask_eq_exp_minus_1 push_bit_eq_mult)
  then have m: "bit (0xFE :: u8) q \<longleftrightarrow> 0 < q \<and> q < 8" by (simp only: bit_push_bit_iff bit_mask_iff) (auto simp: bit_simps)
  have "bit (push_bit 1 b) q \<longleftrightarrow> 0 < q \<and> q < 8 \<and> bit b (q - 1)"
    by (simp only: bit_push_bit_iff) (auto simp: bit_simps)
  then show ?thesis using that unfolding bit_or_iff bit_and_iff m bit_cases by (auto simp: bit_1_iff)
qed

lemma dump_byte_bits:
  assumes "\<And>i. d i \<le> 1"
  shows "k < 8 \<Longrightarrow> bit (dump_byte d j) (7 - k) = (d (8 * j + k) = 1)"
proof -
  have "bit (foldl (\<lambda>b k. (push_bit 1 b AND 0xFE) OR d (8 * j + k)) 0 [0..<m]) q = (d (8 * j + (m - 1 - q)) = 1)"
    if "m \<le> 8" "q < m" for m q
    using that
  proof (induction m arbitrary: q)
    case (Suc m)
    then show ?case using dump_step [OF assms] by (cases q) simp_all
  qed simp
  from this [of 8 "7 - k"] show ?thesis if "k < 8" using that by (simp add: dump_byte_def)
qed

lemma fic_example:
  "fic_reachable qt (fic_restart (FicDecoder (replicate 3072 0) (replicate 2304 0))) \<and>
   fc_IsRunning (fic_restart (FicDecoder (replicate 3072 0) (replicate 2304 0)))"
  using fic_reachable.step [OF fic_reachable.init fic_step.restart, of "replicate 3072 0" "replicate 2304 0"]
  by (simp add: is_bit_list_def fic_restart_def)

section \<open>Properties\<close>

text \<open>
  C6: The fast information channel, end to end: in every reachable state of a running decoder, whatever
  four blocks of 768 bits a transmitter disperses, encodes and punctures into the three symbols of a
  frame, if the soft bits arrive with the right sign and a strength of at least 56, the frame's bits are
  exactly the bits sent and a block is valid exactly when its three FIBs have a right CRC.  If they all
  have, the success ratio shows 100 percent.
\<close>

theorem fic_received:
  assumes "fic_reachable qt s" and "fc_IsRunning s"
    and "length b1 = 3072" and "length b2 = 3072" and "length b3 = 3072" and "length msgs = 4"
    and "\<forall>i<4. length (msgs ! i) = 768 \<and> is_bit_list (msgs ! i) \<and>
      carries fic_addresses (scramble (msgs ! i)) (take 2304 (drop (2304 * i) (b1 @ b2 @ b3)))"
  shows "\<exists>s1 s2 s'. fic_process_block qt clock b1 1 s = Some s1 \<and> fic_process_block qt clock b2 2 s1 = Some s2 \<and>
    fic_process_block qt clock b3 3 s2 = Some s' \<and>
    get_fib_bits s' = (concat msgs, map (\<lambda>i. \<forall>j<3. check_CRC_bits (mem_at (msgs ! i) (j * 256)) 256) [0..<4]) \<and>
    ((\<forall>i<4. \<forall>j<3. check_CRC_bits (mem_at (msgs ! i) (j * 256)) 256) \<longrightarrow> get_fic_decode_ratio_percent s' = 100)"
proof -
  let ?vs = "fic_slices (b1 @ b2 @ b3)"
  let ?fib = "frame_fib ?vs (fc_FibBitsEntireFrame s)"
  have inv: "fic_inv qt s" using fic_reachable_inv [OF assms(1)] by simp
  then have old: "is_bit_list (fc_FibBitsEntireFrame s)" and ratio: "0 \<le> fc_FicDecodeSuccessRatio s" "fc_FicDecodeSuccessRatio s \<le> 10"
    by (simp_all add: fic_inv_def)
  have vs: "length ?vs = 4" by (simp add: fic_slices_def)
  have dec: "fic_decoded (?vs ! i) = msgs ! i" if "i < 4" for i
    using assms(7) that by (intro fic_recovers) (simp_all add: fic_slices_def)
  have "map fic_decoded ?vs = msgs" using dec vs assms(6) by (intro nth_equalityI) simp_all
  then have bits: "concat (map fic_decoded ?vs) = concat msgs" by simp
  have crc: "check_CRC_bits (?fib i j) 256 = check_CRC_bits (mem_at (msgs ! i) (j * 256)) 256" if "i < 4" "j < 3" for i j
    using frame_fib_crc [OF vs old that] dec [OF that(1)] by simp
  then have valid: "map (\<lambda>i. \<forall>j<3. check_CRC_bits (?fib i j) 256) [0..<4] =
      map (\<lambda>i. \<forall>j<3. check_CRC_bits (mem_at (msgs ! i) (j * 256)) 256) [0..<4]" by simp
  have all: "foldl (\<lambda>r (i, j). saturate (check_CRC_bits (?fib i j) 256) r) (fc_FicDecodeSuccessRatio s) (frame_fibs 4) = 10"
    if "\<forall>i<4. \<forall>j<3. check_CRC_bits (mem_at (msgs ! i) (j * 256)) 256"
  proof -
    have "foldl (\<lambda>r (i, j). saturate (check_CRC_bits (?fib i j) 256) r) (fc_FicDecodeSuccessRatio s) (frame_fibs 4) =
        foldl (\<lambda>r p. saturate True r) (fc_FicDecodeSuccessRatio s) (frame_fibs 4)"
      by (rule foldl_cong) (use that crc in \<open>auto simp: frame_fibs_def\<close>)
    moreover have "length (frame_fibs 4) = 12" by (simp add: frame_fibs_def length_concat sum_list_triv comp_def)
    ultimately show ?thesis using saturate_all [OF ratio(2), of "frame_fibs 4"] ratio by simp
  qed
  show ?thesis
    using frame_ok [OF inv assms(2-5), of clock] all unfolding bits valid get_fic_decode_ratio_percent_def by fastforce
qed

theorem fic_received_witness:
  "let qt = \<lparr>fromUtf16 = \<lambda>b n. take n b, fromUtf8 = \<lambda>b n. take n b\<rparr>; clock = \<lambda>_ _. 5;
     m = transmit fic_addresses (scramble (replicate 768 1)); bs = m @ m @ m @ m;
     s = fic_restart (FicDecoder (replicate 3072 0) (replicate 2304 0))
   in \<exists>s1 s2 s'. fic_process_block qt clock (take 3072 bs) 1 s = Some s1 \<and>
     fic_process_block qt clock (take 3072 (drop 3072 bs)) 2 s1 = Some s2 \<and>
     fic_process_block qt clock (drop 6144 bs) 3 s2 = Some s' \<and> fst (get_fib_bits s') = concat (replicate 4 (replicate 768 1))"
proof -
  define m where "m = transmit fic_addresses (scramble (replicate 768 1))"
  define bs where "bs = m @ m @ m @ m"
  have m: "length m = 2304" by (simp add: m_def transmit_def length_fic_addresses)
  have bs: "take 3072 bs @ take 3072 (drop 3072 bs) @ drop 6144 bs = bs"
    using append_take_drop_id [of 3072 bs] append_take_drop_id [of 3072 "drop 3072 bs"] by simp
  have "take 2304 (drop (2304 * i) bs) = m" if "i < 4" for i
  proof -
    have "i = 0 \<or> i = 1 \<or> i = 2 \<or> i = 3" using that by auto
    then show ?thesis using m by (auto simp: bs_def)
  qed
  then have "\<forall>i<4. length (replicate 4 (replicate 768 1) ! i) = 768 \<and> is_bit_list (replicate 4 (replicate 768 1) ! i) \<and>
      carries fic_addresses (scramble (replicate 4 (replicate 768 1) ! i))
        (take 2304 (drop (2304 * i) (take 3072 bs @ take 3072 (drop 3072 bs) @ drop 6144 bs)))"
    unfolding bs by (auto simp: is_bit_list_def m_def transmit_carries)
  from fic_received [OF fic_example [THEN conjunct1] fic_example [THEN conjunct2] _ _ _ _ this,
      of "\<lparr>fromUtf16 = \<lambda>b n. take n b, fromUtf8 = \<lambda>b n. take n b\<rparr>" "\<lambda>_ _. 5"]
  show ?thesis unfolding Let_def m_def [symmetric] bs_def [symmetric] using m by (fastforce simp: bs_def)
qed

text \<open>
  C21: What a frame does to the FIB decoder: in every reachable state of a running decoder and for any
  soft bits, the three symbols are decoded in four blocks, each on its own, and the FIB decoder processes
  exactly the FIBs with a right CRC, in order, each with the memory that follows it.
\<close>

theorem fic_frame:
  assumes "fic_reachable qt s" and "fc_IsRunning s"
    and "length b1 = 3072" and "length b2 = 3072" and "length b3 = 3072"
  shows "let vs = fic_slices (b1 @ b2 @ b3); fib = frame_fib vs (fc_FibBitsEntireFrame s) in
    \<exists>s1 s2 s'. fic_process_block qt clock b1 1 s = Some s1 \<and> fic_process_block qt clock b2 2 s1 = Some s2 \<and>
    fic_process_block qt clock b3 3 s2 = Some s' \<and> fc_FibBitsEntireFrame s' = concat (map fic_decoded vs) \<and>
    Some (fc_FibDecoder s') = foldl (\<lambda>fd (i, j). Option.bind fd (\<lambda>fd. if check_CRC_bits (fib i j) 256
        then process_FIB qt (clock i j) (fib i j) fd else Some fd)) (Some (fc_FibDecoder s)) (frame_fibs 4)"
  using frame_ok [OF fic_reachable_inv [OF assms(1), THEN conjunct1] assms(2-5), of clock]
  by (auto simp: Let_def get_fib_bits_def fib_gate_def [abs_def])

theorem fic_frame_witness:
  "\<exists>s1. fic_process_block \<lparr>fromUtf16 = \<lambda>b n. take n b, fromUtf8 = \<lambda>b n. take n b\<rparr> (\<lambda>_ _. 5) (replicate 3072 (- 7)) 1
    (fic_restart (FicDecoder (replicate 3072 0) (replicate 2304 0))) = Some s1"
  using fic_frame [OF fic_example [THEN conjunct1] fic_example [THEN conjunct2], of "replicate 3072 (- 7)" "replicate 3072 0"
      "replicate 3072 0" "\<lparr>fromUtf16 = \<lambda>b n. take n b, fromUtf8 = \<lambda>b n. take n b\<rparr>" "\<lambda>_ _. 5"]
  by (auto simp: Let_def)

text \<open>
  C22: Invariant of the FIC decoder: in every reachable state the success ratio lies in 0 to 10, the write
  index inside the block buffer, the frame's bits are bits, the counters of the error statistics stay
  below 184320 and never count more errors than bits, and the FIB decoder's state is reachable.
\<close>

theorem fic_bounds:
  assumes "fic_reachable qt s"
  shows "0 \<le> fc_FicDecodeSuccessRatio s \<and> fc_FicDecodeSuccessRatio s \<le> 10 \<and> fc_Index s < 2304 \<and>
    length (fc_FibBitsEntireFrame s) = 3072 \<and> is_bit_list (fc_FibBitsEntireFrame s) \<and>
    fc_FicErrors s \<le> fc_FicBits s \<and> fc_FicBits s < 184320 \<and> fib_reachable qt (fc_FibDecoder s)"
  using fic_reachable_inv [OF assms] by (simp add: fic_inv_def)

theorem fic_bounds_witness:
  "fc_FicBits (fic_restart (FicDecoder (replicate 3072 0) (replicate 2304 0))) < 184320"
  using fic_bounds [OF fic_example [THEN conjunct1]] by blast

text \<open>
  The bytes a FIB is dumped as contain exactly its bits, the first bit in the most significant
  place: reading them back bit by bit gives the FIB.
\<close>

theorem dump_roundtrip:
  assumes "fib_bits d"
  shows "bits_of_bytes (dump_byte d) i = d i"
proof -
  have d: "d k \<le> 1" for k using assms by (simp add: fib_bits_def)
  have "d i = 0 \<or> d i = 1" using d [of i] by (simp only: bit_cases)
  moreover have "bit (dump_byte d (i div 8)) (7 - i mod 8) = (d i = 1)"
    using dump_byte_bits [OF d, where k = "i mod 8" and j = "i div 8"] by simp
  ultimately show ?thesis
    by (auto simp: bits_of_bytes_def bit_iff_odd_drop_bit and_one_eq odd_iff_mod_2_eq_one even_iff_mod_2_eq_zero)
qed

theorem dump_roundtrip_witness: "bits_of_bytes (dump_byte (\<lambda>i. if even i then 1 else 0)) 77 = 0"
  using dump_roundtrip [of "\<lambda>i. if even i then 1 else 0" 77] by (simp add: fib_bits_def)

end
