(* ===== verification/Freq_Interleaver.thy ===== *)
theory Freq_Interleaver
  imports Dab_Constants
begin

text \<open>
  The frequency interleaver, \<^verbatim>\<open>src/src/base/ofdm/freq_interleaver.cpp\<close>: the table that maps the index of
  a carrier to its place in the spectrum, built from a linear congruential sequence.  The theory shows
  that the sequence visits every residue, so the table is a bijection from the 1536 carriers to the
  places -768 to 768 without 0.
\<close>

section \<open>The code\<close>

definition cTu :: nat where "cTu = 2048"

text \<open>The values of \<open>tmp\<close>; \<open>cTu\<close> of them are computed.\<close>

fun mapper_seq :: "nat \<Rightarrow> nat \<Rightarrow> nat" where
  "mapper_seq iV1 0 = 0"
| "mapper_seq iV1 (Suc i) = (13 * mapper_seq iV1 i + iV1) mod cTu"

text \<open>Writing at a growing index; an index beyond the table is the exception of \<^verbatim>\<open>at\<close>.\<close>

fun mapper_fill :: "nat \<Rightarrow> nat \<Rightarrow> nat list \<Rightarrow> nat \<Rightarrow> int list \<Rightarrow> int list option" where
  "mapper_fill iLwb iUpb [] index table = Some table"
| "mapper_fill iLwb iUpb (t # ts) index table =
     (if t = cTu div 2 then mapper_fill iLwb iUpb ts index table
      else if t < iLwb \<or> t > iUpb then mapper_fill iLwb iUpb ts index table
      else if index \<ge> length table then None
      else mapper_fill iLwb iUpb ts (index + 1) (table[index := int t - int (cTu div 2)]))"

definition createMapper :: "nat \<Rightarrow> nat \<Rightarrow> nat \<Rightarrow> int list \<Rightarrow> int list option" where
  "createMapper iV1 iLwb iUpb table = mapper_fill iLwb iUpb (map (mapper_seq iV1) [0..<cTu]) 0 table"

definition FreqInterleaver :: "int list option" where
  "FreqInterleaver = createMapper 511 256 (256 + cK) (replicate cTu 0)"

definition map_k_to_fft_bin :: "int list \<Rightarrow> nat \<Rightarrow> int" where
  "map_k_to_fft_bin table k = table ! k"

section \<open>The sequence\<close>

text \<open>Sums of powers of 13: their divisibility by powers of two is that of the number of terms.\<close>

definition psum :: "nat \<Rightarrow> nat" where
  "psum d = (\<Sum>i<d. 13 ^ i)"

lemma psum_add: "psum (a + b) = psum a + 13 ^ a * psum b"
  by (induction b) (simp_all add: psum_def power_add algebra_simps)

lemma psum_odd: "odd d \<Longrightarrow> odd (psum d)"
proof -
  have "odd (psum d) = odd d" by (induction d) (simp_all add: psum_def)
  then show "odd d \<Longrightarrow> odd (psum d)" by simp
qed

lemma psum_dvd: "2 ^ m dvd psum d \<Longrightarrow> 2 ^ m dvd d"
proof (induction m arbitrary: d)
  case (Suc m)
  have "even (psum d)" using Suc.prems by (auto dest: dvd_mult_left)
  then have "even d" using psum_odd [of d] by blast
  then obtain e where e: "d = 2 * e" by (elim evenE)
  have "psum d = psum e * (1 + 13 ^ e)" using psum_add [of e e] unfolding e mult_2 by (simp add: algebra_simps)
  moreover obtain q :: nat where q: "1 + 13 ^ e = 2 * q" "odd q"
  proof -
    have "13 ^ e mod 4 = (1 :: nat)" using power_mod [of "13 :: nat" 4 e] by simp
    then have "(1 + 13 ^ e) mod 4 = (2 :: nat)" using mod_add_right_eq [of "1 :: nat" "13 ^ e" 4] by simp
    then obtain q where "1 + 13 ^ e = 4 * q + (2 :: nat)" by (metis mult_div_mod_eq)
    then show ?thesis by (intro that [of "2 * q + 1"]) simp_all
  qed
  ultimately have "psum d = 2 * (psum e * q)" by (simp only: mult.left_commute)
  then have "2 ^ m dvd psum e * q" using Suc.prems by simp
  moreover have "coprime (2 ^ m) q" using q(2) by simp
  ultimately have "2 ^ m dvd psum e" by (simp add: coprime_dvd_mult_left_iff)
  from Suc.IH [OF this] show ?case by (simp add: e)
qed simp

lemma mapper_seq_psum: "mapper_seq v n = (v * psum n) mod 2048"
proof (induction n)
  case (Suc n)
  have "psum (Suc n) = 13 * psum n + 1" using psum_add [of 1 n] by (simp add: psum_def)
  then have "v * psum (Suc n) = 13 * (v * psum n) + v" by (simp add: algebra_simps)
  then show ?case using Suc by (simp add: cTu_def) (metis mod_add_left_eq mod_mult_right_eq)
qed (simp add: psum_def)

lemma mapper_seq_less: "i < j \<Longrightarrow> j < 2048 \<Longrightarrow> odd v \<Longrightarrow> mapper_seq v i \<noteq> mapper_seq v j"
proof
  assume a: "i < j" "j < 2048" "odd v" and "mapper_seq v i = mapper_seq v j"
  then have "(v * psum j) mod 2048 = (v * psum i) mod 2048" by (simp add: mapper_seq_psum)
  moreover have j: "psum j = psum i + 13 ^ i * psum (j - i)" using psum_add [of i "j - i"] a(1) by simp
  then have "v * psum i \<le> v * psum j" by simp
  ultimately have "2048 dvd v * psum j - v * psum i" by (simp add: mod_eq_dvd_iff_nat)
  also have "v * psum j - v * psum i = v * 13 ^ i * psum (j - i)" by (simp add: j algebra_simps)
  finally have "2 ^ 11 dvd v * 13 ^ i * psum (j - i)" by simp
  moreover have "coprime (2 ^ 11) (v * 13 ^ i)"
    by (simp only: coprime_mult_right_iff coprime_power_left_iff coprime_power_right_iff coprime_left_2_iff_odd)
      (use a(3) in simp)
  ultimately have "2 ^ 11 dvd psum (j - i)" by (simp add: coprime_dvd_mult_right_iff)
  then have "2048 dvd j - i" using psum_dvd [of 11 "j - i"] by simp
  then show False using a(1,2) by (auto dest: dvd_imp_le)
qed

lemma mapper_seq_set: "odd v \<Longrightarrow> distinct (map (mapper_seq v) [0..<2048]) \<and> set (map (mapper_seq v) [0..<2048]) = {..<2048}"
proof -
  assume v: "odd v"
  have "inj_on (mapper_seq v) {..<2048}"
    by (rule linorder_inj_onI') (use mapper_seq_less [OF _ _ v] in auto)
  moreover have "mapper_seq v ` {..<2048} \<subseteq> {..<2048}" by (auto simp: mapper_seq_psum)
  ultimately have "mapper_seq v ` {..<2048} = {..<2048}" by (intro endo_inj_surj) simp_all
  with \<open>inj_on (mapper_seq v) {..<2048}\<close> show ?thesis by (simp add: distinct_map atLeast0LessThan)
qed

section \<open>The table\<close>

definition in_band :: "nat \<Rightarrow> nat \<Rightarrow> nat \<Rightarrow> bool" where
  "in_band lwb upb t \<longleftrightarrow> t \<noteq> cTu div 2 \<and> lwb \<le> t \<and> t \<le> upb"

lemma mapper_fill_eq:
  "index + length (filter (in_band lwb upb) ts) \<le> length table \<Longrightarrow> mapper_fill lwb upb ts index table =
    Some (blit index (map (\<lambda>t. int t - int (cTu div 2)) (filter (in_band lwb upb) ts)) table)"
proof (induction lwb upb ts index table rule: mapper_fill.induct)
  case (2 lwb upb t ts index table)
  show ?case
  proof (cases "in_band lwb upb t")
    case True
    let ?v = "int t - int (cTu div 2)" and ?vs = "map (\<lambda>t. int t - int (cTu div 2)) (filter (in_band lwb upb) ts)"
    have i: "index < length table" using 2(4) True by simp
    have "blit (index + 1) ?vs (table[index := ?v]) = blit index (?v # ?vs) table"
      using i 2(4) True by (simp add: blit_def take_Suc_conv_app_nth)
    moreover have "t \<noteq> cTu div 2" "\<not> (t < lwb \<or> t > upb)" "\<not> index \<ge> length table"
      using True i by (auto simp: in_band_def)
    moreover from this have "mapper_fill lwb upb (t # ts) index table = mapper_fill lwb upb ts (index + 1) (table[index := ?v])"
      by simp
    ultimately show ?thesis using 2(3) 2(4) True by simp
  next
    case False
    then have "t = cTu div 2 \<or> t \<noteq> cTu div 2 \<and> (t < lwb \<or> t > upb)" by (auto simp: in_band_def)
    then show ?thesis using 2(1,2,4) False by (elim disjE) simp_all
  qed
qed simp

lemma band_card: "length (filter (in_band 256 1792) (map (mapper_seq 511) [0..<2048])) = 1536"
proof -
  let ?ts = "map (mapper_seq 511) [0..<2048]"
  have d: "distinct ?ts" "set ?ts = {..<2048}" using mapper_seq_set [of 511] by simp_all
  have "length (filter (in_band 256 1792) ?ts) = card (set (filter (in_band 256 1792) ?ts))"
    using d(1) by (simp only: distinct_card distinct_filter)
  also have "set (filter (in_band 256 1792) ?ts) = {256..1792} - {1024}"
    unfolding set_filter d(2) by (auto simp: in_band_def cTu_def)
  finally show ?thesis by simp
qed

section \<open>Properties\<close>

text \<open>
  C40: The frequency interleaver is built without leaving its table, and its map is a bijection from the
  1536 carriers to the places -768 to 768 of the spectrum without the centre.
\<close>

theorem interleaver_bijective:
  "\<exists>table. FreqInterleaver = Some table \<and> bij_betw (map_k_to_fft_bin table) {..<cK} ({- 768..768} - {0})"
proof -
  let ?ts = "filter (in_band 256 1792) (map (mapper_seq 511) [0..<2048])"
  let ?vs = "map (\<lambda>t. int t - 1024) ?ts"
  define table where "table = blit 0 ?vs (replicate 2048 0)"
  have n: "length ?vs = 1536" using band_card by simp
  have "FreqInterleaver = Some table"
    using mapper_fill_eq [of 0 256 1792 "map (mapper_seq 511) [0..<2048]" "replicate 2048 0"] band_card
    by (simp add: FreqInterleaver_def createMapper_def cTu_def cK_def table_def)
  moreover have "bij_betw (map_k_to_fft_bin table) {..<1536} ({- 768..768} - {0})"
  proof -
    have tab: "map_k_to_fft_bin table k = ?vs ! k" if "k < 1536" for k
      using that n nth_append [of ?vs _ k] by (simp add: map_k_to_fft_bin_def table_def blit_def)
    have d: "distinct (map (mapper_seq 511) [0..<2048])" "set (map (mapper_seq 511) [0..<2048]) = {..<2048}"
      using mapper_seq_set [of 511] by simp_all
    have "distinct ?vs" using d(1) by (auto simp: distinct_map inj_on_def intro: distinct_filter)
    moreover have "set ?vs = {- 768..768} - {0}"
    proof -
      have "set ?vs = (\<lambda>t. int t - 1024) ` ({256..1792} - {1024})"
        unfolding set_map set_filter d(2) [unfolded set_map] by (intro arg_cong2 [where f = "(`)"]) (auto simp: in_band_def cTu_def)
      also have "\<dots> = {- 768..768} - {0}"
      proof (intro set_eqI iffI)
        fix x :: int assume "x \<in> {- 768..768} - {0}"
        then show "x \<in> (\<lambda>t. int t - 1024) ` ({256..1792} - {1024})" by (intro image_eqI [of _ _ "nat (x + 1024)"]) auto
      qed auto
      finally show ?thesis .
    qed
    ultimately have "bij_betw ((!) ?vs) {..<1536} ({- 768..768} - {0})"
      using n by (intro bij_betw_nth) simp_all
    moreover have "bij_betw (map_k_to_fft_bin table) {..<1536} ({- 768..768} - {0}) =
        bij_betw ((!) ?vs) {..<1536} ({- 768..768} - {0})"
      by (rule bij_betw_cong) (use tab in simp)
    ultimately show ?thesis by simp
  qed
  ultimately show ?thesis by (auto simp: cK_def)
qed

end
