(* ===== verification/Data_Processor.thy ===== *)
theory Data_Processor
  imports Bit_Extractors Crc Dab_Constants
begin

text \<open>
  Packet mode data, \<^verbatim>\<open>src/src/base/backend/data/data_processor.cpp\<close>: a frame of a sub-channel is cut into
  packets, the packets of the selected address are checked and assembled to MSC data groups, and each
  complete group goes to the handler of the service.  The handlers are other components: the model
  records which one was created and the groups it received.
\<close>

section \<open>The code\<close>

datatype data_handler = JournalineDataHandler | VirtualDataHandler | TdcDataHandler | IpDataHandler | MotDataHandler

record data_processor =
  dp_BitRate :: int
  dp_DSCTy :: nat
  dp_AppType :: int
  dp_PacketAddress :: int
  dp_DGflag :: nat
  dp_FEC_scheme :: int
  dp_DataHandler :: data_handler
  dp_ExpectedIndex :: nat
  dp_FirstPacket :: bool
  dp_SeriesVec :: "u8 list"
  dp_PacketState :: nat
  dp_groups :: "u8 list list"

definition choose_data_handler :: "nat \<Rightarrow> int \<Rightarrow> data_handler" where
  "choose_data_handler DSCTy AppType =
     (if DSCTy = 5
      then (if AppType = 0x44a then JournalineDataHandler
            else if AppType = 1500 then VirtualDataHandler
            else if AppType = 4 then TdcDataHandler
            else VirtualDataHandler)
      else if DSCTy = 44 then JournalineDataHandler
      else if DSCTy = 59 then IpDataHandler
      else if DSCTy = 60 then MotDataHandler
      else VirtualDataHandler)"

text \<open>The first user application is read without a check; an empty vector is the value None.\<close>

definition DataProcessor :: "SPacketData \<Rightarrow> data_processor option" where
  "DataProcessor ipPD =
     (if pd_appTypeVec ipPD = [] then None
      else
        let DSCTy = nat (pd_DSCTy ipPD mod 256); AppType = hd (pd_appTypeVec ipPD)
        in Some \<lparr>dp_BitRate = sd_bitRate ipPD, dp_DSCTy = DSCTy, dp_AppType = AppType,
             dp_PacketAddress = pd_PacketAddress ipPD, dp_DGflag = nat (pd_DGflag ipPD mod 256),
             dp_FEC_scheme = pd_FEC_scheme ipPD, dp_DataHandler = choose_data_handler DSCTy AppType,
             dp_ExpectedIndex = 0, dp_FirstPacket = True, dp_SeriesVec = [], dp_PacketState = 0, dp_groups = []\<rparr>)"

definition add_MSC_data_group :: "u8 list \<Rightarrow> data_processor \<Rightarrow> data_processor" where
  "add_MSC_data_group g s = s\<lparr>dp_groups := dp_groups s @ [g]\<rparr>"

definition handle_packet :: "data_processor \<Rightarrow> bit_ptr \<Rightarrow> data_processor" where
  "handle_packet s data =
     (let packetLengthBytes = (unat (getBits_2 data 0) + 1) * 24;
          continuityIndex = unat (getBits_2 data 2);
          firstLast = unat (getBits_2 data 4);
          address = uint (getBits data 6 10);
          usefulLength = unat (getBits_7 data 17);
          useful = map (\<lambda>i. data (24 + i)) [0..<usefulLength * 8]
      in if dp_PacketAddress s \<noteq> address then s
         else if continuityIndex \<noteq> dp_ExpectedIndex s then s\<lparr>dp_ExpectedIndex := 0\<rparr>
         else
           let s = s\<lparr>dp_FirstPacket := False, dp_ExpectedIndex := (dp_ExpectedIndex s + 1) mod 4\<rparr>
           in if \<not> check_CRC_bits data (packetLengthBytes * 8) then s
              else if dp_PacketState s = 0
              then (if firstLast = 2 then s\<lparr>dp_PacketState := 1, dp_SeriesVec := useful\<rparr>
                    else if firstLast = 3 then add_MSC_data_group useful (s\<lparr>dp_SeriesVec := useful\<rparr>)
                    else s\<lparr>dp_SeriesVec := []\<rparr>)
              else if dp_PacketState s = 1
              then (if firstLast = 0 then s\<lparr>dp_SeriesVec := dp_SeriesVec s @ useful\<rparr>
                    else if firstLast = 1
                    then (add_MSC_data_group (dp_SeriesVec s @ useful) (s\<lparr>dp_SeriesVec := dp_SeriesVec s @ useful\<rparr>))
                           \<lparr>dp_PacketState := 0\<rparr>
                    else if firstLast = 2 then s\<lparr>dp_PacketState := 1, dp_SeriesVec := useful\<rparr>
                    else s\<lparr>dp_PacketState := 0, dp_SeriesVec := []\<rparr>)
              else s)"

function handle_packets :: "data_processor \<Rightarrow> bit_ptr \<Rightarrow> int \<Rightarrow> data_processor" where
  "handle_packets s data lengthBits =
     (let pLengthBits = (unat (getBits_2 data 0) + 1) * 24 * 8
      in if lengthBits < int pLengthBits then s
         else
           let s = handle_packet s data; lengthBits = lengthBits - int pLengthBits
           in if lengthBits < 2 then s
              else handle_packets s (\<lambda>i. data (pLengthBits + i)) lengthBits)"
  by pat_completeness auto
termination
proof (relation "measure (\<lambda>(_, _, n). nat n)")
  fix s data lengthBits and n :: nat and t :: data_processor and m :: int
  assume "n = (unat (getBits_2 data 0) + 1) * 24 * 8" and "\<not> lengthBits < int n" and "m = lengthBits - int n" and "\<not> m < 2"
  moreover from this(1) have "0 < n" by simp
  ultimately have "m < lengthBits" "0 < lengthBits" by linarith+
  then show "((t, \<lambda>i. data (n + i), m), (s, data, lengthBits)) \<in> measure (\<lambda>(_, _, n). nat n)" by simp
qed simp

declare handle_packets.simps [simp del]

text \<open>The stream without data groups is only checked; the result of the check is not used.\<close>

definition add_to_frame :: "data_processor \<Rightarrow> u8 list \<Rightarrow> data_processor" where
  "add_to_frame s outV =
     (if dp_DSCTy s = 5 \<and> dp_DGflag s \<noteq> 0 then s
      else handle_packets s (\<lambda>i. if i < length outV then outV ! i else 0) (24 * dp_BitRate s))"

section \<open>Packets\<close>

definition pk_bits :: "bit_ptr \<Rightarrow> nat" where "pk_bits d = (unat (getBits_2 d 0) + 1) * 192"
definition pk_index :: "bit_ptr \<Rightarrow> nat" where "pk_index d = unat (getBits_2 d 2)"
definition pk_flags :: "bit_ptr \<Rightarrow> nat" where "pk_flags d = unat (getBits_2 d 4)"
definition pk_address :: "bit_ptr \<Rightarrow> int" where "pk_address d = uint (getBits d 6 10)"
definition pk_payload :: "bit_ptr \<Rightarrow> u8 list" where "pk_payload d = map (\<lambda>i. d (24 + i)) [0..<unat (getBits_7 d 17) * 8]"

definition pk_good :: "bit_ptr \<Rightarrow> bool" where "pk_good d \<longleftrightarrow> check_CRC_bits d (pk_bits d)"

lemmas pk_defs = pk_bits_def pk_index_def pk_flags_def pk_address_def pk_payload_def pk_good_def

text \<open>The handling of a packet in terms of its fields.\<close>

lemma handle_packet_cases:
  "handle_packet s d =
     (if dp_PacketAddress s \<noteq> pk_address d then s
      else if pk_index d \<noteq> dp_ExpectedIndex s then s\<lparr>dp_ExpectedIndex := 0\<rparr>
      else
        let t = s\<lparr>dp_FirstPacket := False, dp_ExpectedIndex := (dp_ExpectedIndex s + 1) mod 4\<rparr>
        in if \<not> pk_good d then t
           else if dp_PacketState s = 0
           then (if pk_flags d = 2 then t\<lparr>dp_PacketState := 1, dp_SeriesVec := pk_payload d\<rparr>
                 else if pk_flags d = 3 then add_MSC_data_group (pk_payload d) (t\<lparr>dp_SeriesVec := pk_payload d\<rparr>)
                 else t\<lparr>dp_SeriesVec := []\<rparr>)
           else if dp_PacketState s = 1
           then (if pk_flags d = 0 then t\<lparr>dp_SeriesVec := dp_SeriesVec s @ pk_payload d\<rparr>
                 else if pk_flags d = 1
                 then (add_MSC_data_group (dp_SeriesVec s @ pk_payload d) (t\<lparr>dp_SeriesVec := dp_SeriesVec s @ pk_payload d\<rparr>))
                        \<lparr>dp_PacketState := 0\<rparr>
                 else if pk_flags d = 2 then t\<lparr>dp_PacketState := 1, dp_SeriesVec := pk_payload d\<rparr>
                 else t\<lparr>dp_PacketState := 0, dp_SeriesVec := []\<rparr>)
           else t)"
proof -
  have n: "(n + 1) * 24 * 8 = (n + 1) * 192" for n :: nat by simp
  show ?thesis unfolding handle_packet_def pk_defs Let_def n
    by (cases s) (simp only: data_processor.simps add_MSC_data_group_def)
qed

lemma handle_packet_address [frame_simps]: "dp_PacketAddress (handle_packet s d) = dp_PacketAddress s"
  unfolding handle_packet_cases Let_def add_MSC_data_group_def by simp

lemma other_addresses:
  "foldl handle_packet s ps = foldl handle_packet s (filter (\<lambda>d. pk_address d = dp_PacketAddress s) ps)"
proof (induction ps arbitrary: s)
  case (Cons d ps)
  have "handle_packet s d = s" if "pk_address d \<noteq> dp_PacketAddress s"
    using that by (simp add: handle_packet_cases)
  then show ?case using Cons [of "handle_packet s d"] by (simp add: frame_simps)
qed simp

text \<open>Packets that arrive without loss: continuity indices in sequence from \<open>e\<close> on, CRCs right.\<close>

fun in_sequence :: "nat \<Rightarrow> bit_ptr list \<Rightarrow> bool" where
  "in_sequence e [] = True"
| "in_sequence e (d # ds) \<longleftrightarrow> pk_index d = e \<and> pk_good d \<and> in_sequence ((e + 1) mod 4) ds"

text \<open>The packets of one data group.\<close>

definition group_packets :: "bit_ptr list \<Rightarrow> bool" where
  "group_packets us \<longleftrightarrow> (\<exists>d. us = [d] \<and> pk_flags d = 3) \<or>
     (\<exists>f ms l. us = f # ms @ [l] \<and> pk_flags f = 2 \<and> (\<forall>m\<in>set ms. pk_flags m = 0) \<and> pk_flags l = 1)"

text \<open>The expected index after \<open>k\<close> packets.\<close>

definition index_after :: "nat \<Rightarrow> nat \<Rightarrow> nat" where
  "index_after e k = (if k = 0 then e else (e + k) mod 4)"

lemma index_after_Suc: "index_after ((e + 1) mod 4) k = index_after e (Suc k)" "(index_after e k + 1) mod 4 = index_after e (Suc k)"
  by (simp_all add: index_after_def mod_Suc_eq mod_add_left_eq)

lemma in_sequence_append:
  "in_sequence e (ms @ ds) \<longleftrightarrow> in_sequence e ms \<and> in_sequence (index_after e (length ms)) ds"
proof (induction ms arbitrary: e)
  case (Cons m ms)
  then show ?case using index_after_Suc(1) [of e "length ms"] by simp
qed (simp add: index_after_def)

lemma intermediate_packets:
  assumes "dp_PacketState s = 1" and "in_sequence (dp_ExpectedIndex s) ms"
    and "\<forall>m\<in>set ms. pk_flags m = 0 \<and> pk_address m = dp_PacketAddress s"
  defines "t \<equiv> foldl handle_packet s ms"
  shows "dp_PacketState t = 1 \<and> dp_SeriesVec t = dp_SeriesVec s @ concat (map pk_payload ms) \<and>
    dp_groups t = dp_groups s \<and> dp_PacketAddress t = dp_PacketAddress s \<and>
    dp_ExpectedIndex t = index_after (dp_ExpectedIndex s) (length ms)"
  using assms(1-3) unfolding t_def
proof (induction ms arbitrary: s)
  case (Cons m ms)
  let ?s = "s\<lparr>dp_FirstPacket := False, dp_ExpectedIndex := (dp_ExpectedIndex s + 1) mod 4,
      dp_SeriesVec := dp_SeriesVec s @ pk_payload m\<rparr>"
  have m: "handle_packet s m = ?s" using Cons.prems by (simp add: handle_packet_cases Let_def)
  have "index_after (dp_ExpectedIndex ?s) (length ms) = index_after (dp_ExpectedIndex s) (Suc (length ms))"
    using index_after_Suc(1) [of "dp_ExpectedIndex s" "length ms"] by simp
  then show ?case using Cons.IH [of ?s] Cons.prems unfolding m foldl_Cons by simp
qed (simp add: index_after_def)

lemma group_assembled:
  assumes seq: "in_sequence (dp_ExpectedIndex s) us" and grp: "group_packets us"
    and adr: "\<forall>d\<in>set us. pk_address d = dp_PacketAddress s"
    and st: "dp_PacketState s = 0 \<or> dp_PacketState s = 1 \<and> 1 < length us"
  defines "t \<equiv> foldl handle_packet s us"
  shows "dp_groups t = dp_groups s @ [concat (map pk_payload us)] \<and> dp_PacketState t = 0 \<and>
    dp_PacketAddress t = dp_PacketAddress s \<and>
    dp_ExpectedIndex t = (dp_ExpectedIndex s + length us) mod 4"
  using grp unfolding group_packets_def
proof (elim disjE exE conjE)
  fix d assume d: "us = [d]" "pk_flags d = 3"
  then show ?thesis using seq adr st
    by (simp add: t_def handle_packet_cases Let_def add_MSC_data_group_def)
next
  fix f ms l assume u: "us = f # ms @ [l]" "pk_flags f = 2" "\<forall>m\<in>set ms. pk_flags m = 0" "pk_flags l = 1"
  define s1 where "s1 = s\<lparr>dp_FirstPacket := False, dp_ExpectedIndex := (dp_ExpectedIndex s + 1) mod 4,
      dp_PacketState := 1, dp_SeriesVec := pk_payload f\<rparr>"
  have s1: "handle_packet s f = s1"
  proof -
    have "pk_address f = dp_PacketAddress s" "pk_index f = dp_ExpectedIndex s" "pk_good f" using seq adr u(1) by simp_all
    then show ?thesis using st u(2) by (elim disjE conjE) (simp_all add: handle_packet_cases Let_def s1_def)
  qed
  define s2 where "s2 = foldl handle_packet s1 ms"
  have s2: "dp_PacketState s2 = 1" "dp_SeriesVec s2 = pk_payload f @ concat (map pk_payload ms)" "dp_groups s2 = dp_groups s"
    "dp_PacketAddress s2 = dp_PacketAddress s"
    and ix: "dp_ExpectedIndex s2 = index_after (dp_ExpectedIndex s1) (length ms)"
    using intermediate_packets [of s1 ms] u seq adr by (simp_all add: s2_def s1_def in_sequence_append)
  have i1: "dp_ExpectedIndex s1 = (dp_ExpectedIndex s + 1) mod 4" by (simp add: s1_def)
  have "in_sequence (dp_ExpectedIndex s2) [l]" using seq unfolding ix i1 u(1) by (simp add: in_sequence_append)
  moreover have "dp_ExpectedIndex s2 = (dp_ExpectedIndex s + Suc (length ms)) mod 4"
    unfolding ix i1 index_after_Suc(1) by (simp add: index_after_def)
  moreover have "t = handle_packet s2 l" by (simp add: t_def u(1) s1 s2_def)
  ultimately show ?thesis using s2 u adr
    by (simp add: handle_packet_cases Let_def add_MSC_data_group_def mod_Suc_eq)
qed

section \<open>Frames of packets\<close>

text \<open>Cutting a frame: the packets it contains, each with the memory behind it.\<close>

fun cut_packets :: "bit_ptr \<Rightarrow> nat list \<Rightarrow> bit_ptr list" where
  "cut_packets d [] = []"
| "cut_packets d (n # ns) = d # cut_packets (\<lambda>i. d (n + i)) ns"

fun packet_lengths :: "bit_ptr \<Rightarrow> nat list \<Rightarrow> bool" where
  "packet_lengths d [] = True"
| "packet_lengths d (n # ns) \<longleftrightarrow> pk_bits d = n \<and> packet_lengths (\<lambda>i. d (n + i)) ns"

lemma pk_bits_pos: "192 \<le> pk_bits d"
  by (simp add: pk_bits_def)

lemma handle_packets_cut:
  "packet_lengths d ns \<Longrightarrow> ns \<noteq> [] \<Longrightarrow> handle_packets s d (int (sum_list ns)) = foldl handle_packet s (cut_packets d ns)"
proof (induction ns arbitrary: s d)
  case (Cons n ns)
  have n: "(unat (getBits_2 d 0) + 1) * 24 * 8 = n" using Cons.prems by (simp add: pk_bits_def)
  show ?case
  proof (cases "ns = []")
    case True
    then show ?thesis unfolding handle_packets.simps [of s d] Let_def n by simp
  next
    case False
    then obtain m ms where ns: "ns = m # ms" by (cases ns) auto
    then have "192 \<le> m" using Cons.prems pk_bits_pos [of "\<lambda>i. d (n + i)"] by simp
    then have "\<not> int (sum_list (n # ns)) - int n < 2" "\<not> int (sum_list (n # ns)) < int n" by (simp_all add: ns)
    then have "handle_packets s d (int (sum_list (n # ns))) =
        handle_packets (handle_packet s d) (\<lambda>i. d (n + i)) (int (sum_list (n # ns)) - int n)"
      unfolding handle_packets.simps [of s d] Let_def n by simp
    also have "int (sum_list (n # ns)) - int n = int (sum_list ns)" by simp
    finally show ?thesis using Cons.IH [of "\<lambda>i. d (n + i)" "handle_packet s d"] Cons.prems False by simp
  qed
qed simp

definition frame_ptr :: "u8 list \<Rightarrow> bit_ptr" where
  "frame_ptr outV = (\<lambda>i. if i < length outV then outV ! i else 0)"

text \<open>Frames, each with the lengths of its packets, and all their packets.\<close>

definition whole_packets :: "int \<Rightarrow> u8 list \<times> nat list \<Rightarrow> bool" where
  "whole_packets rate = (\<lambda>(outV, ns). ns \<noteq> [] \<and> 24 * rate = int (sum_list ns) \<and> packet_lengths (frame_ptr outV) ns)"

definition all_packets :: "(u8 list \<times> nat list) list \<Rightarrow> bit_ptr list" where
  "all_packets frames = concat (map (\<lambda>(outV, ns). cut_packets (frame_ptr outV) ns) frames)"

lemma handle_packet_const [frame_simps]:
  "dp_BitRate (handle_packet s d) = dp_BitRate s" "dp_DSCTy (handle_packet s d) = dp_DSCTy s"
  "dp_DGflag (handle_packet s d) = dp_DGflag s"
  unfolding handle_packet_cases Let_def add_MSC_data_group_def by simp_all

lemma handle_packets_const:
  "dp_BitRate (foldl handle_packet s ps) = dp_BitRate s" "dp_DSCTy (foldl handle_packet s ps) = dp_DSCTy s"
  "dp_DGflag (foldl handle_packet s ps) = dp_DGflag s"
  by (induction ps arbitrary: s) (simp_all add: frame_simps)

lemma frames_to_packets:
  assumes "dp_DSCTy s \<noteq> 5 \<or> dp_DGflag s = 0" and "list_all (whole_packets (dp_BitRate s)) frames"
  shows "foldl add_to_frame s (map fst frames) = foldl handle_packet s (all_packets frames)"
  using assms
proof (induction frames arbitrary: s)
  case (Cons f frames)
  obtain outV ns where f: "f = (outV, ns)" by fastforce
  have "add_to_frame s outV = handle_packets s (frame_ptr outV) (int (sum_list ns))"
    using Cons.prems unfolding add_to_frame_def f by (auto simp: whole_packets_def frame_ptr_def)
  also have "\<dots> = foldl handle_packet s (cut_packets (frame_ptr outV) ns)"
    using Cons.prems by (intro handle_packets_cut) (simp_all add: whole_packets_def f)
  finally show ?case using Cons.IH [of "add_to_frame s outV"] Cons.prems
    by (simp add: all_packets_def f handle_packets_const)
qed (simp add: all_packets_def)

lemma groups_assembled:
  assumes "in_sequence (dp_ExpectedIndex s) (concat gss)" and "list_all group_packets gss"
    and "\<forall>d\<in>set (concat gss). pk_address d = dp_PacketAddress s"
    and "dp_PacketState s = 0 \<or> dp_PacketState s = 1 \<and> gss \<noteq> [] \<and> 1 < length (hd gss)"
  shows "dp_groups (foldl handle_packet s (concat gss)) = dp_groups s @ map (\<lambda>us. concat (map pk_payload us)) gss \<and>
    dp_PacketState (foldl handle_packet s (concat gss)) = 0"
  using assms
proof (induction gss arbitrary: s)
  case (Cons us gss)
  define t where "t = foldl handle_packet s us"
  have "us \<noteq> []" using Cons.prems(2) by (auto simp: group_packets_def)
  have t: "dp_groups t = dp_groups s @ [concat (map pk_payload us)]" "dp_PacketState t = 0"
    "dp_PacketAddress t = dp_PacketAddress s" "dp_ExpectedIndex t = (dp_ExpectedIndex s + length us) mod 4"
    using group_assembled [of s us] Cons.prems by (simp_all add: t_def in_sequence_append)
  have "in_sequence (dp_ExpectedIndex t) (concat gss)"
    using Cons.prems(1) \<open>us \<noteq> []\<close> by (simp add: in_sequence_append t(4) index_after_def)
  with Cons.IH [of t] Cons.prems t show ?case by (simp add: t_def [symmetric])
qed simp

lemma stream_assembled:
  assumes "dp_DSCTy s \<noteq> 5 \<or> dp_DGflag s = 0" and "list_all (whole_packets (dp_BitRate s)) frames"
    and "concat gss = filter (\<lambda>d. pk_address d = dp_PacketAddress s) (all_packets frames)"
    and "in_sequence (dp_ExpectedIndex s) (concat gss)" and "list_all group_packets gss"
    and "dp_PacketState s = 0 \<or> dp_PacketState s = 1 \<and> gss \<noteq> [] \<and> 1 < length (hd gss)"
  shows "dp_groups (foldl add_to_frame s (map fst frames)) = dp_groups s @ map (\<lambda>us. concat (map pk_payload us)) gss \<and>
    dp_PacketState (foldl add_to_frame s (map fst frames)) = 0"
proof -
  have "foldl add_to_frame s (map fst frames) = foldl handle_packet s (concat gss)"
    unfolding frames_to_packets [OF assms(1,2)] assms(3) by (rule other_addresses)
  moreover have "\<forall>d\<in>set (concat gss). pk_address d = dp_PacketAddress s" unfolding assms(3) by simp
  ultimately show ?thesis using groups_assembled [OF assms(4,5) _ assms(6)] by simp
qed

text \<open>
  A service joined in the middle of a transmission: the packets up to the first continuity index the new
  processor expects are dropped, and what follows of an interrupted data group is passed over.
\<close>

lemma unsynchronised_packets:
  assumes "dp_ExpectedIndex s = 0" and "\<forall>d\<in>set ls. pk_index d \<noteq> 0"
  shows "foldl handle_packet s ls = s"
  using assms(2)
proof (induction ls)
  case (Cons d ls)
  have "handle_packet s d = s" using Cons.prems assms(1) by (cases s) (simp add: handle_packet_cases)
  with Cons show ?case by simp
qed simp

lemma remaining_packets:
  assumes "dp_PacketState s = 0" and "in_sequence (dp_ExpectedIndex s) ms"
    and "\<forall>m\<in>set ms. pk_flags m < 2 \<and> pk_address m = dp_PacketAddress s"
  defines "t \<equiv> foldl handle_packet s ms"
  shows "dp_PacketState t = 0 \<and> dp_groups t = dp_groups s \<and> dp_PacketAddress t = dp_PacketAddress s \<and>
    dp_ExpectedIndex t = index_after (dp_ExpectedIndex s) (length ms)"
  using assms(1-3) unfolding t_def
proof (induction ms arbitrary: s)
  case (Cons m ms)
  let ?s = "s\<lparr>dp_FirstPacket := False, dp_ExpectedIndex := (dp_ExpectedIndex s + 1) mod 4, dp_SeriesVec := []\<rparr>"
  have m: "handle_packet s m = ?s" using Cons.prems by (simp add: handle_packet_cases Let_def)
  have "index_after (dp_ExpectedIndex ?s) (length ms) = index_after (dp_ExpectedIndex s) (Suc (length ms))"
    using index_after_Suc(1) [of "dp_ExpectedIndex s" "length ms"] by simp
  then show ?case using Cons.IH [of ?s] Cons.prems unfolding m foldl_Cons by simp
qed (simp add: index_after_def)

lemma joined_stream_assembled:
  assumes "dp_DSCTy s \<noteq> 5 \<or> dp_DGflag s = 0" and "list_all (whole_packets (dp_BitRate s)) frames"
    and pks: "ls @ ms @ concat gss = filter (\<lambda>d. pk_address d = dp_PacketAddress s) (all_packets frames)"
    and "\<forall>d\<in>set ls. pk_index d \<noteq> 0" and seq: "in_sequence 0 (ms @ concat gss)"
    and "\<forall>m\<in>set ms. pk_flags m < 2" and "list_all group_packets gss"
    and "dp_ExpectedIndex s = 0" and "dp_PacketState s = 0"
  shows "dp_groups (foldl add_to_frame s (map fst frames)) = dp_groups s @ map (\<lambda>us. concat (map pk_payload us)) gss"
proof -
  define t where "t = foldl handle_packet s ms"
  have adr: "\<forall>d\<in>set ms \<union> set (concat gss). pk_address d = dp_PacketAddress s"
    using arg_cong [OF pks, where f = set] by auto
  have t: "dp_PacketState t = 0" "dp_groups t = dp_groups s" "dp_PacketAddress t = dp_PacketAddress s"
    "dp_ExpectedIndex t = index_after 0 (length ms)"
    using remaining_packets [of s ms] assms(6,8,9) seq adr by (simp_all add: t_def in_sequence_append)
  have "foldl add_to_frame s (map fst frames) = foldl handle_packet s (ls @ ms @ concat gss)"
    unfolding frames_to_packets [OF assms(1,2)] pks by (rule other_addresses)
  also have "\<dots> = foldl handle_packet t (concat gss)"
    by (simp add: t_def unsynchronised_packets [OF assms(8,4)])
  finally show ?thesis using groups_assembled [of t gss] assms(7) t seq adr by (simp add: in_sequence_append)
qed

section \<open>Properties\<close>

text \<open>
  C16: Packet mode: a stream of frames that consist of packets, in which the packets of the selected
  address arrive without loss (continuity indices in sequence, CRCs right) and make up data groups
  (each a single packet, or a first one, intermediate ones and a last one): the handler receives exactly
  these groups, in order, each the concatenated useful data of its packets, wherever groups span frames
  and whatever packets of other addresses lie between.
\<close>

theorem packet_groups:
  assumes "dp_DSCTy s \<noteq> 5 \<or> dp_DGflag s = 0" and "list_all (whole_packets (dp_BitRate s)) frames"
    and "concat gss = filter (\<lambda>d. pk_address d = dp_PacketAddress s) (all_packets frames)"
    and "in_sequence (dp_ExpectedIndex s) (concat gss)" and "list_all group_packets gss"
    and "dp_PacketState s = 0 \<or> dp_PacketState s = 1 \<and> gss \<noteq> [] \<and> 1 < length (hd gss)"
  shows "dp_groups (foldl add_to_frame s (map fst frames)) = dp_groups s @ map (\<lambda>us. concat (map pk_payload us)) gss \<and>
    dp_PacketState (foldl add_to_frame s (map fst frames)) = 0"
  by (rule stream_assembled [OF assms])

definition packet_frame :: "u8 list" where
  "packet_frame =
     [0, 0, 0, 0, 1, 1, 0, 0, 0, 0, 0, 0, 0, 0, 0, 1, 0, 0, 0, 0, 0, 0, 0, 1, 0, 1, 0, 0, 0, 0, 0, 1] @
     replicate 144 0 @
     [0, 1, 1, 0, 0, 1, 1, 0, 1, 0, 0, 0, 0, 1, 1, 1]"

lemma packet_frame_sequence: "in_sequence 0 [frame_ptr packet_frame] \<and> pk_bits (frame_ptr packet_frame) = 192 \<and>
    pk_address (frame_ptr packet_frame) = 1 \<and> pk_flags (frame_ptr packet_frame) = 3 \<and> pk_payload (frame_ptr packet_frame) = [0, 1, 0, 0, 0, 0, 0, 1]"
  by code_simp

theorem packet_groups_witness:
  "dp_groups (foldl add_to_frame \<lparr>dp_BitRate = 8, dp_DSCTy = 60, dp_AppType = 0, dp_PacketAddress = 1, dp_DGflag = 0,
       dp_FEC_scheme = 0, dp_DataHandler = MotDataHandler, dp_ExpectedIndex = 0, dp_FirstPacket = True,
       dp_SeriesVec = [], dp_PacketState = 0, dp_groups = []\<rparr> [packet_frame]) = [[0, 1, 0, 0, 0, 0, 0, 1]]"
proof -
  let ?s = "\<lparr>dp_BitRate = 8, dp_DSCTy = 60, dp_AppType = 0, dp_PacketAddress = 1, dp_DGflag = 0,
       dp_FEC_scheme = 0, dp_DataHandler = MotDataHandler, dp_ExpectedIndex = 0, dp_FirstPacket = True,
       dp_SeriesVec = [], dp_PacketState = 0, dp_groups = []\<rparr>"
  note f = packet_frame_sequence
  have "group_packets [frame_ptr packet_frame]" using f by (simp add: group_packets_def)
  with f packet_groups [of ?s "[(packet_frame, [192])]" "[[frame_ptr packet_frame]]"]
  show ?thesis by (simp add: whole_packets_def all_packets_def)
qed

text \<open>
  A service joined late: a packet with the continuity index 3, the last packet of a data group with the index 0,
  and a data group in a single packet with the index 1.
\<close>

definition late_frame :: "u8 list" where
  "late_frame = [0, 0, 1, 1, 0, 0, 0, 0, 0, 0, 0, 0, 0, 0, 0, 1] @ replicate 176 0"

definition rest_frame :: "u8 list" where
  "rest_frame =
     [0, 0, 0, 0, 0, 1, 0, 0, 0, 0, 0, 0, 0, 0, 0, 1, 0, 0, 0, 0, 0, 0, 0, 1, 0, 1, 0, 0, 0, 0, 0, 1] @
     replicate 144 0 @
     [0, 0, 1, 1, 1, 0, 0, 0, 0, 0, 1, 0, 0, 1, 0, 0]"

definition group_frame :: "u8 list" where
  "group_frame =
     [0, 0, 0, 1, 1, 1, 0, 0, 0, 0, 0, 0, 0, 0, 0, 1, 0, 0, 0, 0, 0, 0, 0, 1, 1, 0, 0, 0, 0, 0, 1, 0] @
     replicate 144 0 @
     [1, 1, 1, 1, 1, 0, 1, 0, 0, 1, 1, 1, 1, 1, 0, 0]"

abbreviation joined_frames :: "u8 list list" where "joined_frames \<equiv> [late_frame, rest_frame, group_frame]"

lemma late_frame_packet: "pk_bits (frame_ptr late_frame) = 192 \<and> pk_address (frame_ptr late_frame) = 1 \<and> pk_index (frame_ptr late_frame) = 3"
  by code_simp

lemma rest_frame_packet: "pk_bits (frame_ptr rest_frame) = 192 \<and> pk_address (frame_ptr rest_frame) = 1 \<and>
    in_sequence 0 [frame_ptr rest_frame] \<and> pk_flags (frame_ptr rest_frame) = 1"
  by code_simp

lemma group_frame_packet: "pk_bits (frame_ptr group_frame) = 192 \<and> pk_address (frame_ptr group_frame) = 1 \<and>
    in_sequence 1 [frame_ptr group_frame] \<and> pk_flags (frame_ptr group_frame) = 3 \<and>
    pk_payload (frame_ptr group_frame) = [1, 0, 0, 0, 0, 0, 1, 0]"
  by code_simp

lemmas joined_packets = late_frame_packet rest_frame_packet group_frame_packet

end
