(* ===== verification/Bit_Writer.thy ===== *)
theory Bit_Writer
  imports Crc
begin

text \<open>
  The bit writer of the AAC stream, \<^verbatim>\<open>src/src/base/backend/audio/bit_writer.cpp\<close>.  A writer is a vector
  of bytes and the number of bits used in its last byte; the theory shows that it is a list of bits to
  which every operation appends.
\<close>

section \<open>The code\<close>

record bit_writer =
  bw_data :: "u8 list"
  bw_byte_bits :: nat

definition Reset :: bit_writer where
  "Reset = \<lparr>bw_data = [], bw_byte_bits = 0\<rparr>"

text \<open>
  One round of the loop writes what fits into the current byte.  The number of used bits is always
  below eight, so every round writes at least one bit; with eight the loop of the source would not end,
  and the last line is not reached.
\<close>

function AddBits :: "int \<Rightarrow> nat \<Rightarrow> bit_writer \<Rightarrow> bit_writer" where
  "AddBits data_new count w =
     (if count > 0
      then
        let dat = (if bw_byte_bits w = 0 then bw_data w @ [0] else bw_data w);
            copy_bits = min count (8 - bw_byte_bits w);
            copy_data = (word_of_int (drop_bit (count - copy_bits) data_new AND drop_bit (8 - copy_bits) 0xff) :: u8);
            dat = butlast dat @ [last dat OR push_bit (8 - bw_byte_bits w - copy_bits) copy_data]
        in if copy_bits > 0
           then AddBits data_new (count - copy_bits)
                  \<lparr>bw_data = dat, bw_byte_bits = (bw_byte_bits w + copy_bits) mod 8\<rparr>
           else w
      else w)"
  by pat_completeness auto
termination by (relation "measure (\<lambda>(_, n, _). n)") auto

declare AddBits.simps [simp del]

definition AddBytes :: "u8 list \<Rightarrow> bit_writer \<Rightarrow> bit_writer" where
  "AddBytes bytes w = foldl (\<lambda>w b. AddBits (uint b) 8 w) w bytes"

definition WriteAudioMuxLengthBytes :: "bit_writer \<Rightarrow> bit_writer" where
  "WriteAudioMuxLengthBytes w =
     (let len = length (bw_data w) - 3;
          dat = bw_data w;
          dat = dat[1 := dat ! 1 OR (of_nat (drop_bit 8 len) AND 0x1f)];
          dat = dat[2 := of_nat len AND 0xff]
      in w\<lparr>bw_data := dat\<rparr>)"

section \<open>The bits written\<close>

definition bw_ok :: "bit_writer \<Rightarrow> bool" where
  "bw_ok w \<longleftrightarrow> bw_byte_bits w < 8 \<and>
     (bw_byte_bits w \<noteq> 0 \<longrightarrow> bw_data w \<noteq> [] \<and> (\<forall>i<8 - bw_byte_bits w. \<not> bit (last (bw_data w)) i))"

definition bits_of :: "u8 list \<Rightarrow> bool list" where
  "bits_of bytes = concat (map byte_bits bytes)"

definition written :: "bit_writer \<Rightarrow> bool list" where
  "written w = take (8 * length (bw_data w) - (if bw_byte_bits w = 0 then 0 else 8 - bw_byte_bits w)) (bits_of (bw_data w))"

text \<open>The lowest \<open>n\<close> bits of a number, the highest first.\<close>

definition msb_bits :: "nat \<Rightarrow> int \<Rightarrow> bool list" where
  "msb_bits n v = map (\<lambda>i. bit v (n - 1 - i)) [0..<n]"

lemma length_byte_bits [simp]: "length (byte_bits b) = 8"
  by (simp add: byte_bits_def)

lemma length_bits_of [simp]: "length (bits_of bs) = 8 * length bs"
  by (induction bs) (simp_all add: bits_of_def)

lemma bits_of_append [simp]: "bits_of (xs @ ys) = bits_of xs @ bits_of ys"
  by (simp add: bits_of_def)

lemma bits_of_single [simp]: "bits_of [b] = byte_bits b"
  by (simp add: bits_of_def)

lemma length_msb_bits [simp]: "length (msb_bits n v) = n"
  by (simp add: msb_bits_def)

lemma msb_bits_split:
  assumes "k \<le> n"
  shows "msb_bits n v = msb_bits k (drop_bit (n - k) v) @ msb_bits (n - k) v"
proof (rule nth_equalityI)
  fix i assume "i < length (msb_bits n v)"
  then show "msb_bits n v ! i = (msb_bits k (drop_bit (n - k) v) @ msb_bits (n - k) v) ! i"
    using assms by (auto simp: msb_bits_def nth_append bit_drop_bit_eq intro!: arg_cong [where f = "bit v"])
qed (use assms in simp)

lemma written_full: "bw_byte_bits w = 0 \<Longrightarrow> written w = bits_of (bw_data w)"
  by (simp add: written_def)

text \<open>One round: the bits that fit are appended.\<close>

lemma bit_copy_data:
  assumes "0 < k" and "k \<le> 8"
  shows "bit (word_of_int (v AND drop_bit (8 - k) 0xff) :: u8) i \<longleftrightarrow> i < k \<and> bit v i"
proof -
  have m: "(0xff :: int) = mask 8" by (simp add: mask_eq_exp_minus_1)
  have "drop_bit (8 - k) (0xff :: int) = mask k" using assms unfolding m by (simp add: drop_bit_mask_eq)
  then show ?thesis using assms by (auto simp: bit_word_of_int_iff bit_and_iff bit_mask_iff)
qed

lemma copy_bits_byte:
  fixes b :: u8 and v :: int
  assumes "used + k \<le> 8" and "0 < k" and "\<forall>i<8 - used. \<not> bit b i"
  defines "c \<equiv> b OR push_bit (8 - used - k) (word_of_int (v AND drop_bit (8 - k) 0xff))"
  shows "take (used + k) (byte_bits c) = take used (byte_bits b) @ msb_bits k v"
    and "\<forall>i<8 - used - k. \<not> bit c i"
proof -
  have c: "bit c i \<longleftrightarrow> bit b i \<or> (8 - used - k \<le> i \<and> i < 8 - used \<and> bit v (i - (8 - used - k)))" if "i < 8" for i
    using that assms(1,2) by (auto simp: c_def bit_or_iff bit_push_bit_iff bit_copy_data)
  show "\<forall>i<8 - used - k. \<not> bit c i" using c assms(3) by auto
  show "take (used + k) (byte_bits c) = take used (byte_bits b) @ msb_bits k v"
  proof (rule nth_equalityI)
    fix i assume "i < length (take (used + k) (byte_bits c))"
    then have i: "i < used + k" using assms(1) by simp
    then have "(take (used + k) (byte_bits c)) ! i = bit c (7 - i)" using assms(1) by (simp add: byte_bits_def)
    also have "\<dots> = (take used (byte_bits b) @ msb_bits k v) ! i"
    proof (cases "i < used")
      case True
      then show ?thesis using c [of "7 - i"] i assms(1) by (auto simp: nth_append byte_bits_def)
    next
      case False
      then have "7 - i - (8 - used - k) = k - 1 - (i - used)" "8 - used - k \<le> 7 - i" "7 - i < 8 - used" "i - used < k"
        using i assms(1) by simp_all
      then show ?thesis using c [of "7 - i"] i False assms(1,3) by (simp add: nth_append msb_bits_def)
    qed
    finally show "take (used + k) (byte_bits c) ! i = (take used (byte_bits b) @ msb_bits k v) ! i" .
  qed (use assms(1) in simp)
qed

lemma AddBits_round:
  assumes "bw_ok w" and "0 < count"
  defines "k \<equiv> min count (8 - bw_byte_bits w)"
  obtains w' where "AddBits v count w = AddBits v (count - k) w'" and "bw_ok w'"
    and "written w' = written w @ msb_bits k (drop_bit (count - k) v)" and "0 < k"
proof
  define used where "used = bw_byte_bits w"
  have u: "used < 8" "0 < k" "used + k \<le> 8" using assms by (auto simp: bw_ok_def used_def)
  define dat where "dat = (if used = 0 then bw_data w @ [0] else bw_data w)"
  define c where "c = last dat OR push_bit (8 - used - k) (word_of_int (drop_bit (count - k) v AND drop_bit (8 - k) 0xff))"
  let ?w = "\<lparr>bw_data = butlast dat @ [c], bw_byte_bits = (used + k) mod 8\<rparr>"
  show "0 < k" by (rule u(2))
  show "AddBits v count w = AddBits v (count - k) ?w"
    using assms(2) u(2) unfolding AddBits.simps [of v count w] used_def [symmetric] Let_def k_def [symmetric, folded used_def]
      dat_def [symmetric] c_def [symmetric] by simp
  have z: "\<forall>i<8 - used. \<not> bit (last dat) i" using assms(1) by (auto simp: bw_ok_def used_def dat_def)
  note cb = copy_bits_byte [OF u(3,2) z, of "drop_bit (count - k) v", folded c_def]
  have full: "used + k = 8 \<or> (used + k) mod 8 = used + k \<and> used + k \<noteq> 0" using u by (cases "used + k = 8") simp_all
  show "bw_ok ?w" using full cb(2) u by (auto simp: bw_ok_def)
  have "written w = bits_of (butlast dat) @ take used (byte_bits (last dat))"
  proof (cases "used = 0")
    case True
    then show ?thesis by (simp add: written_def used_def [symmetric] dat_def)
  next
    case False
    then have "bw_data w = butlast dat @ [last dat]" using assms(1) by (simp add: bw_ok_def used_def dat_def)
    then show ?thesis using False u(1)
      by (simp add: written_def used_def [symmetric])
  qed
  moreover have "written ?w = bits_of (butlast dat) @ take (used + k) (byte_bits c)"
    using full u by (auto simp: written_def)
  ultimately show "written ?w = written w @ msb_bits k (drop_bit (count - k) v)" using cb(1) by simp
qed

lemma AddBits_written:
  "bw_ok w \<Longrightarrow> bw_ok (AddBits v count w) \<and> written (AddBits v count w) = written w @ msb_bits count v"
proof (induction count arbitrary: w rule: less_induct)
  case (less count)
  show ?case
  proof (cases "count = 0")
    case True
    then show ?thesis using less.prems by (simp add: AddBits.simps [of v 0] msb_bits_def)
  next
    case False
    define k where "k = min count (8 - bw_byte_bits w)"
    from AddBits_round [OF less.prems, of count v, folded k_def] False obtain w' where
      w': "AddBits v count w = AddBits v (count - k) w'" "bw_ok w'"
        "written w' = written w @ msb_bits k (drop_bit (count - k) v)" "0 < k" by auto
    with less.IH [of "count - k" w'] False msb_bits_split [of k count v] show ?thesis by (simp add: k_def)
  qed
qed

lemma msb_bits_byte: "msb_bits 8 (uint (b :: u8)) = byte_bits b"
  by (auto simp: msb_bits_def byte_bits_def bit_uint_iff)

lemma AddBytes_written:
  "bw_ok w \<Longrightarrow> bw_ok (AddBytes bytes w) \<and> written (AddBytes bytes w) = written w @ bits_of bytes"
proof (induction bytes arbitrary: w)
  case (Cons b bytes)
  note a = AddBits_written [OF Cons.prems, of "uint b" 8]
  from Cons.IH [of "AddBits (uint b) 8 w"] a show ?case by (simp add: AddBytes_def bits_of_def msb_bits_byte)
qed (simp add: AddBytes_def bits_of_def)

lemma Reset_ok: "bw_ok Reset" "written Reset = []"
  by (simp_all add: Reset_def bw_ok_def written_def)

text \<open>Several fields, and the bits of the bytes: the last byte is filled up with zeros.\<close>

definition field_bits :: "(int \<times> nat) list \<Rightarrow> bool list" where
  "field_bits fs = concat (map (\<lambda>(v, n). msb_bits n v) fs)"

lemma fields_written:
  "bw_ok w \<Longrightarrow> bw_ok (foldl (\<lambda>w (v, n). AddBits v n w) w fs) \<and>
    written (foldl (\<lambda>w (v, n). AddBits v n w) w fs) = written w @ field_bits fs"
proof (induction fs arbitrary: w)
  case (Cons f fs)
  obtain v n where f: "f = (v, n)" by fastforce
  from Cons.IH [of "AddBits v n w"] AddBits_written [OF Cons.prems, of v n] show ?case by (simp add: f field_bits_def)
qed (simp add: field_bits_def)

lemma written_padded:
  assumes "bw_ok w"
  obtains k where "bits_of (bw_data w) = written w @ replicate k False" and "k < 8" and "8 * length (bw_data w) = length (written w) + k"
proof (cases "bw_byte_bits w = 0")
  case True
  then show ?thesis using that [of 0] by (simp add: written_full)
next
  case False
  define used where "used = bw_byte_bits w"
  have u: "0 < used" "used < 8" "bw_data w \<noteq> []" "\<forall>i<8 - used. \<not> bit (last (bw_data w)) i"
    using False assms by (simp_all add: bw_ok_def used_def)
  obtain bs b where d: "bw_data w = bs @ [b]" using u(3) by (cases "bw_data w" rule: rev_cases) auto
  have "drop used (byte_bits b) = replicate (8 - used) False"
    using u(1,2,4) by (intro nth_equalityI) (auto simp: byte_bits_def d)
  then have b: "byte_bits b = take used (byte_bits b) @ replicate (8 - used) False" by (metis append_take_drop_id)
  have w: "written w = bits_of bs @ take used (byte_bits b)"
    using u(1,2) by (simp add: written_def used_def [symmetric] d)
  have "bits_of (bw_data w) = written w @ replicate (8 - used) False" unfolding w d using b by simp
  moreover have "8 * length (bw_data w) = length (written w) + (8 - used)" using u(2) by (simp add: w d)
  ultimately show ?thesis using that [of "8 - used"] u(1,2) by simp
qed

text \<open>The length of the stream is written into the thirteen bits behind the sync word.\<close>

lemma mux_length_written:
  assumes "bw_data w = b0 # b1 # b2 # rest" and "\<forall>i<5. \<not> bit b1 i" and "length rest < 2 ^ 13"
  shows "bits_of (bw_data (WriteAudioMuxLengthBytes w)) =
    take 11 (bits_of (bw_data w)) @ msb_bits 13 (int (length rest)) @ bits_of rest"
proof -
  define n where "n = length rest"
  let ?c1 = "b1 OR (of_nat (drop_bit 8 n) AND 0x1f)" and ?c2 = "of_nat n AND (0xff :: u8)"
  have w: "bw_data (WriteAudioMuxLengthBytes w) = b0 # ?c1 # ?c2 # rest"
    using assms(1) by (simp add: WriteAudioMuxLengthBytes_def Let_def n_def numeral_2_eq_2)
  have m: "(0x1f :: u8) = mask 5" "(0xff :: u8) = mask 8" by (simp_all add: mask_eq_exp_minus_1)
  have c1: "bit ?c1 i \<longleftrightarrow> (if i < 5 then bit n (i + 8) else bit b1 i)" if "i < 8" for i
    using that assms(2) unfolding m
    by (auto simp: bit_or_iff bit_and_iff bit_mask_iff bit_of_nat_iff bit_drop_bit_eq ac_simps)
  have c2: "bit ?c2 i \<longleftrightarrow> bit n i" if "i < 8" for i
    using that unfolding m by (simp add: bit_and_iff bit_mask_iff bit_of_nat_iff)
  have l: "[0..<8] = [0, 1, 2, 3, 4, 5, 6, 7 :: nat]" "[0..<13] = [0, 1, 2, 3, 4, 5, 6, 7, 8, 9, 10, 11, 12 :: nat]"
    by (simp_all add: upt_rec)
  have b: "bit (int n) i = bit n i" for i by (simp add: bit_of_nat_iff)
  have "byte_bits ?c1 @ byte_bits ?c2 = take 3 (byte_bits b1) @ msb_bits 13 (int n)"
    by (simp only: byte_bits_def msb_bits_def l list.map b) (simp add: c1 c2)
  then have "bits_of (b0 # ?c1 # ?c2 # rest) = byte_bits b0 @ take 3 (byte_bits b1) @ msb_bits 13 (int n) @ bits_of rest"
    by (simp add: bits_of_def)
  then show ?thesis unfolding w assms(1) n_def by (simp add: bits_of_def)
qed

end
