(* ===== verification/Firecode.thy ===== *)
theory Firecode
  imports Crc
begin

text \<open>
  The fire code of the DAB+ super frame header, \<^verbatim>\<open>src/src/base/backend/firecode_checker.cpp\<close>: eleven
  bytes, two parity bytes followed by nine data bytes, protected by the generator
  \<open>(x^11 + 1) (x^5 + x^3 + x^2 + x + 1)\<close>.  The syndrome table is modelled as the function it stores,
  built by the four loops of the source in their order (the first entry for a syndrome wins).  The
  theory shows that the register is the bit-serial one of theory \<^verbatim>\<open>Crc\<close> for this polynomial, and that
  a correction always yields a code word.
\<close>

section \<open>The code\<close>

definition polynom :: u16 where
  "polynom = 0x782f"

definition pattern :: "u8 list" where
  "pattern = [
   17, 18, 19, 20, 21, 22, 23, 24, 25, 26, 27, 28, 30, 31, 34,
   36, 38, 40, 42, 44, 46, 50, 52, 54, 56, 60, 62, 68, 72, 76,
   84, 88, 92,100,104,108,120,124,136,152,168,184,200,216,248,
   33, 35, 37, 39, 41, 43, 45, 49, 51, 53, 55, 57, 59, 61, 63,
   66, 70, 74, 78, 82, 86, 90, 98,102,106,110,114,118,122,126,
   132,140,148,156,164,172,180,196,204,212,220,228,236,244,252,
   1,  2,  3,  4,  5,  6,  7,  8,  9, 10, 11, 12, 13, 14, 15,
   16, 29, 32, 48, 58, 64, 80, 96,112,116,128,144,160,176,192,
   208,224,232,240]"

definition fill_crc_table :: "u16 \<Rightarrow> u16 list" where
  "fill_crc_table poly =
     map (\<lambda>i. ((\<lambda>crc. if crc AND 0x8000 \<noteq> 0 then push_bit 1 crc XOR poly else push_bit 1 crc) ^^ 8)
                 (push_bit 8 (of_nat i))) [0..<256]"

definition fire_crc16 :: "u16 list \<Rightarrow> (nat \<Rightarrow> u8) \<Rightarrow> u16" where
  "fire_crc16 crc_table x =
     foldl (\<lambda>crc i. let pos = drop_bit 8 crc XOR ucast (x i) in push_bit 8 crc XOR crc_table ! unat pos)
       0 ([2..<11] @ [0..<2])"

text \<open>One entry of the syndrome table: the syndrome of an error vector, if not taken already.\<close>

definition put_syndrome :: "u16 list \<Rightarrow> (nat \<Rightarrow> u8) \<Rightarrow> nat \<Rightarrow> u8 \<Rightarrow> (u16 \<Rightarrow> u16) \<Rightarrow> u16 \<Rightarrow> u16" where
  "put_syndrome crc_table error bitpos pat st =
     (let syndrome = fire_crc16 crc_table error in
      if st syndrome = 0 then st(syndrome := push_bit 8 (of_nat bitpos) + ucast pat) else st)"

text \<open>
  One of the four loops: rows \<open>0..<rows\<close>, patterns \<open>lo..<hi\<close>, shifted right by \<open>k\<close> bits into the
  next byte.
\<close>

definition fill_shifted :: "u16 list \<Rightarrow> nat \<Rightarrow> nat \<Rightarrow> nat \<Rightarrow> nat \<Rightarrow> (u16 \<Rightarrow> u16) \<Rightarrow> u16 \<Rightarrow> u16" where
  "fill_shifted crc_table rows lo hi k st =
     fold (\<lambda>i. fold (\<lambda>j.
         put_syndrome crc_table
           ((\<lambda>_. 0)(i := drop_bit k (pattern ! j), i + 1 := push_bit (8 - k) (pattern ! j)))
           (i * 8 + k) (pattern ! j)) [lo..<hi]) [0..<rows] st"

definition fill_unshifted :: "u16 list \<Rightarrow> (u16 \<Rightarrow> u16) \<Rightarrow> u16 \<Rightarrow> u16" where
  "fill_unshifted crc_table st =
     fold (\<lambda>i. fold (\<lambda>j.
         put_syndrome crc_table ((\<lambda>_. 0)(i := pattern ! j)) (i * 8) (pattern ! j)) [0..<124]) [0..<11] st"

definition fill_syndrome_table :: "u16 list \<Rightarrow> u16 \<Rightarrow> u16" where
  "fill_syndrome_table crc_table =
     fill_shifted crc_table 10 60 90 6 (fill_shifted crc_table 10 45 75 2
       (fill_shifted crc_table 10 0 45 4 (fill_unshifted crc_table (\<lambda>_. 0))))"

record firecode =
  crc_table :: "u16 list"
  syndrome_table :: "u16 \<Rightarrow> u16"

definition FirecodeChecker :: firecode where
  "FirecodeChecker =
     \<lparr>crc_table = fill_crc_table polynom,
      syndrome_table = fill_syndrome_table (fill_crc_table polynom)\<rparr>"

definition check :: "firecode \<Rightarrow> (nat \<Rightarrow> u8) \<Rightarrow> bool" where
  "check fc x = (fire_crc16 (crc_table fc) x = 0)"

definition check_and_correct_6bits :: "firecode \<Rightarrow> (nat \<Rightarrow> u8) \<Rightarrow> bool \<times> (nat \<Rightarrow> u8)" where
  "check_and_correct_6bits fc x =
     (let syndrome = fire_crc16 (crc_table fc) x in
      if syndrome = 0 then (True, x)
      else let error = (ucast (syndrome_table fc syndrome AND 0xff) :: u8) in
        if error \<noteq> 0
        then let bitpos = unat (drop_bit 8 (syndrome_table fc syndrome));
                 x1 = x(bitpos div 8 := x (bitpos div 8) XOR drop_bit (bitpos mod 8) error);
                 x2 = x1(bitpos div 8 + 1 := x1 (bitpos div 8 + 1) XOR push_bit (8 - bitpos mod 8) error)
             in (True, x2)
        else (False, x))"

section \<open>The register\<close>

lemma shift_code: "(\<lambda>crc. if crc AND 0x8000 \<noteq> 0 then push_bit 1 crc XOR poly else push_bit 1 crc) = crc_shift poly"
proof
  fix crc :: u16
  have "(0x8000 :: u16) = 2 ^ 15" by simp
  then have "crc AND 0x8000 \<noteq> 0 \<longleftrightarrow> bit crc 15"
    by (simp only: and_exp_eq_0_iff_not_bit not_not)
  then show "(if crc AND 0x8000 \<noteq> 0 then push_bit 1 crc XOR poly else push_bit 1 crc) = crc_shift poly crc"
    by (simp only: crc_shift_def)
qed

interpretation fire: crc16_table poly "fill_crc_table poly" for poly
  by unfold_locales (simp_all add: fill_crc_table_def shift_code)

lemma fire_pos: "drop_bit 8 (crc :: u16) XOR ucast (b :: u8) = (ucast b XOR drop_bit 8 crc) AND 0xff"
proof -
  have "drop_bit 8 crc XOR ucast b = (ucast b XOR drop_bit 8 crc) AND mask 8"
    by (rule bit_word_eqI) (auto simp: bit_simps dest: bit_imp_le_length)
  then show ?thesis by (simp add: mask_eq_exp_minus_1)
qed

lemma fire_crc16_steps:
  "fire_crc16 tab x = foldl (crc_table_step tab) 0 (map x ([2..<11] @ [0..<2]))"
  by (simp only: fire_crc16_def Let_def fire_pos)
    (simp only: crc_table_step_def Let_def foldl_map xor.commute)

lemma fire_crc16_bits:
  "fire_crc16 (fill_crc_table poly) x =
    foldl (crc_bit poly) 0 (concat (map (byte_bits \<circ> x) ([2..<11] @ [0..<2])))"
  by (simp only: fire_crc16_steps fire.table_bytes map_map)

lemma fire_crc16_xor:
  "fire_crc16 (fill_crc_table poly) (\<lambda>i. x i XOR y i) =
    fire_crc16 (fill_crc_table poly) x XOR fire_crc16 (fill_crc_table poly) y"
  using fire.table_bytes_xor [of poly 0 0 x y] by (simp only: fire_crc16_steps xor_self_eq)

lemma fire_crc16_cong: "(\<And>i. i < 11 \<Longrightarrow> x i = y i) \<Longrightarrow> fire_crc16 tab x = fire_crc16 tab y"
proof -
  assume "\<And>i. i < 11 \<Longrightarrow> x i = y i"
  then have "map x ([2..<11] @ [0..<2]) = map y ([2..<11] @ [0..<2])" by auto
  then show ?thesis by (simp only: fire_crc16_steps)
qed

section \<open>The syndrome table\<close>

text \<open>The error vector an entry stands for, as the correction applies it.\<close>

definition error_vector :: "nat \<Rightarrow> u8 \<Rightarrow> nat \<Rightarrow> u8" where
  "error_vector bitpos e i =
     (if i = bitpos div 8 then drop_bit (bitpos mod 8) e else 0) XOR
     (if i = bitpos div 8 + 1 then push_bit (8 - bitpos mod 8) e else 0)"

definition entry_error :: "u16 \<Rightarrow> u8" where
  "entry_error v = ucast (v AND 0xff)"

definition entry_bit :: "u16 \<Rightarrow> nat" where
  "entry_bit v = unat (drop_bit 8 v)"

definition table_sound :: "u16 list \<Rightarrow> (u16 \<Rightarrow> u16) \<Rightarrow> bool" where
  "table_sound tab st \<longleftrightarrow> (\<forall>s. st s \<noteq> 0 \<longrightarrow>
     entry_bit (st s) \<le> 80 \<and> fire_crc16 tab (error_vector (entry_bit (st s)) (entry_error (st s))) = s)"

lemma entry_decode:
  assumes "b < 256"
  shows "entry_bit (push_bit 8 (of_nat b) + ucast e) = b" and "entry_error (push_bit 8 (of_nat b) + ucast e) = e"
proof -
  let ?v = "push_bit 8 (of_nat b) + ucast e :: u16"
  have e: "unat e < 256" using unsigned_less [of e, where 'a = nat] by simp
  have "unat (push_bit 8 (of_nat b) :: u16) = 256 * b"
    using assms by (simp add: push_bit_eq_mult unat_word_ariths unat_of_nat)
  moreover have "unat (ucast e :: u16) = unat e"
    using e by (simp only: unsigned_ucast_eq take_bit_nat_eq_self) (simp add: take_bit_nat_eq_self)
  ultimately have v: "unat ?v = 256 * b + unat e"
    using assms e by (simp add: unat_word_ariths)
  show "entry_bit ?v = b"
    unfolding entry_bit_def unat_drop_bit v using e by simp
  have "?v AND 0xff = ?v AND mask 8" by (simp add: mask_eq_exp_minus_1)
  then have "unat (?v AND 0xff) = unat e" using e by (simp only: unat_and_mask v) simp
  then have "unat (entry_error ?v) = unat e"
    using e by (simp only: entry_error_def unsigned_ucast_eq) (simp add: take_bit_nat_eq_self)
  then show "entry_error ?v = e" by (simp only: word_unat_eq_iff)
qed

lemma put_syndrome_sound:
  assumes "table_sound tab st" and "bitpos \<le> 80"
    and "\<And>i. i < 11 \<Longrightarrow> err i = error_vector bitpos pat i"
  shows "table_sound tab (put_syndrome tab err bitpos pat st)"
proof -
  have "fire_crc16 tab err = fire_crc16 tab (error_vector bitpos pat)"
    using assms(3) by (rule fire_crc16_cong)
  with assms(1,2) show ?thesis
    by (simp add: table_sound_def put_syndrome_def Let_def entry_decode)
qed

lemma fold_sound:
  "(\<And>x st. x \<in> set xs \<Longrightarrow> table_sound tab st \<Longrightarrow> table_sound tab (f x st)) \<Longrightarrow>
    table_sound tab st \<Longrightarrow> table_sound tab (fold f xs st)"
  by (induction xs arbitrary: st) simp_all

lemma fill_shifted_sound:
  assumes "table_sound tab st" and "0 < k" and "k < 8"
  shows "table_sound tab (fill_shifted tab 10 lo hi k st)"
  unfolding fill_shifted_def
proof (intro fold_sound assms(1) put_syndrome_sound)
  fix i j n assume i: "i \<in> set [0..<10]"
  then show "i * 8 + k \<le> 80" using assms(3) by simp
  have "(i * 8 + k) div 8 = i" "(i * 8 + k) mod 8 = k" using assms(3) by simp_all
  then show "((\<lambda>_. 0)(i := drop_bit k (pattern ! j), i + 1 := push_bit (8 - k) (pattern ! j))) n =
      error_vector (i * 8 + k) (pattern ! j) n"
    by (simp add: error_vector_def)
qed

lemma fill_unshifted_sound:
  assumes "table_sound tab st"
  shows "table_sound tab (fill_unshifted tab st)"
  unfolding fill_unshifted_def
proof (intro fold_sound assms put_syndrome_sound)
  fix i j n assume "i \<in> set [0..<11]"
  then show "i * 8 \<le> 80" by simp
  have "push_bit 8 (e :: u8) = 0" for e by (rule bit_word_eqI) (simp add: bit_simps)
  then show "((\<lambda>_. 0)(i := pattern ! j)) n = error_vector (i * 8) (pattern ! j) n"
    by (simp add: error_vector_def)
qed

lemma syndrome_table_sound: "table_sound tab (fill_syndrome_table tab)"
  unfolding fill_syndrome_table_def
  by (intro fill_shifted_sound fill_unshifted_sound) (simp_all add: table_sound_def)

text \<open>The first entry for a syndrome stays.\<close>

lemma put_syndrome_keeps: "st s \<noteq> 0 \<Longrightarrow> put_syndrome tab err b e st s = st s"
  by (auto simp: put_syndrome_def Let_def)

lemma fold_keeps: "(\<And>x st. st s \<noteq> 0 \<Longrightarrow> f x st s = st s) \<Longrightarrow> st s \<noteq> 0 \<Longrightarrow> fold f xs st s = (st s :: u16)"
  by (induction xs arbitrary: st) simp_all

lemma row_keeps: "st s \<noteq> 0 \<Longrightarrow> fold (\<lambda>j. put_syndrome tab (err j) b (e j)) js st s = st s"
  by (rule fold_keeps) (rule put_syndrome_keeps)

lemma rows_keep:
  "st s \<noteq> 0 \<Longrightarrow> fold (\<lambda>i. fold (\<lambda>j. put_syndrome tab (err i j) (b i) (e j)) js) rs st s = st s"
  by (rule fold_keeps) (rule row_keeps)

lemma fill_shifted_keeps: "st s \<noteq> 0 \<Longrightarrow> fill_shifted tab rows lo hi k st s = st s"
  unfolding fill_shifted_def by (rule rows_keep)

lemma first_entry: "fill_syndrome_table tab (fire_crc16 tab ((\<lambda>_. 0)(0 := 17))) = 17"
proof -
  let ?s = "fire_crc16 tab ((\<lambda>_. 0)(0 := 17))"
  let ?row = "\<lambda>i. fold (\<lambda>j. put_syndrome tab ((\<lambda>_. 0)(i := pattern ! j)) (i * 8) (pattern ! j))"
  define first where "first = put_syndrome tab ((\<lambda>_. 0)(0 := pattern ! 0)) (0 * 8) (pattern ! 0) (\<lambda>_. 0)"
  have f: "first ?s = 17" by (simp add: first_def put_syndrome_def Let_def pattern_def)
  then have row: "?row 0 [1..<124] first ?s = 17" by (subst row_keeps) simp_all
  have "[0..<11] = 0 # [1..<11]" "[0..<124] = 0 # [1..<124 :: nat]"
    by (simp_all add: upt_conv_Cons)
  then have "fill_unshifted tab (\<lambda>_. 0) = fold (\<lambda>i. ?row i [0..<124]) [1..<11] (?row 0 [1..<124] first)"
    by (simp only: fill_unshifted_def fold_simps first_def)
  then have "fill_unshifted tab (\<lambda>_. 0) ?s = 17" using row by (simp only:) (subst rows_keep; simp)
  then show ?thesis unfolding fill_syndrome_table_def by (simp add: fill_shifted_keeps)
qed

lemma first_syndrome_nonzero: "fire_crc16 (fill_crc_table polynom) ((\<lambda>_. 0)(0 := 17)) \<noteq> 0"
proof -
  have odd: "bit polynom 0" by (simp add: polynom_def)
  have "[2..<11] @ [0..<2] = [2, 3, 4, 5, 6, 7, 8, 9, 10, 0, 1 :: nat]" by code_simp
  then have "fire_crc16 (fill_crc_table polynom) ((\<lambda>_. 0)(0 := 17)) =
      (crc_shift polynom ^^ 8) ((crc_shift polynom ^^ 8) 0x1100)"
    by (simp add: fire_crc16_steps fire.table_step_shift)
  moreover have "(0x1100 :: u16) \<noteq> 0" by simp
  ultimately show ?thesis using crc_shift_pow_inj [OF odd] by metis
qed

section \<open>Properties\<close>

text \<open>
  The fire code register over the nine data bytes followed by the two parity bytes is the
  bit-serial division by the generator 0x782f: the checker accepts exactly the multiples of it.
\<close>

theorem firecode_register:
  "check FirecodeChecker x \<longleftrightarrow>
    foldl (crc_bit 0x782f) 0 (concat (map (byte_bits \<circ> x) ([2..<11] @ [0..<2]))) = 0"
  by (simp only: check_def FirecodeChecker_def firecode.simps fire_crc16_bits polynom_def)

text \<open>
  C27: Correction is sound: when the checker reports success, the corrected eleven bytes are a code
  word and differ from the received ones by at most one error pattern of eight bits starting in the
  word; when it reports failure, it leaves the received bytes unchanged.
\<close>

theorem firecode_correction:
  assumes "check_and_correct_6bits FirecodeChecker x = (ok, x')"
  shows "(ok \<longrightarrow> check FirecodeChecker x' \<and>
      (x' = x \<or> (\<exists>b e. b \<le> 80 \<and> x' = (\<lambda>i. x i XOR error_vector b e i)))) \<and>
    (\<not> ok \<longrightarrow> x' = x \<and> \<not> check FirecodeChecker x)"
proof -
  let ?fc = FirecodeChecker
  let ?tab = "fill_crc_table polynom"
  have tab: "crc_table ?fc = ?tab" by (simp add: FirecodeChecker_def)
  define s where "s = fire_crc16 ?tab x"
  define v where "v = syndrome_table ?fc s"
  define x1 where "x1 = (\<lambda>i. x i XOR error_vector (entry_bit v) (entry_error v) i)"
  have upd: "x(b div 8 := x (b div 8) XOR drop_bit (b mod 8) e,
      b div 8 + 1 := (x(b div 8 := x (b div 8) XOR drop_bit (b mod 8) e)) (b div 8 + 1) XOR
        push_bit (8 - b mod 8) e) = (\<lambda>i. x i XOR error_vector b e i)" for b e
    by (auto simp: error_vector_def)
  have code: "check_and_correct_6bits ?fc x =
      (if s = 0 then (True, x) else if entry_error v \<noteq> 0 then (True, x1) else (False, x))"
    by (simp only: check_and_correct_6bits_def Let_def tab s_def v_def entry_error_def [symmetric]
        entry_bit_def [symmetric] upd x1_def)
  have sound: "entry_bit v \<le> 80 \<and> fire_crc16 ?tab (error_vector (entry_bit v) (entry_error v)) = s"
    if "entry_error v \<noteq> 0"
  proof -
    have "v \<noteq> 0" using that by (auto simp: entry_error_def)
    then show ?thesis
      using syndrome_table_sound [of ?tab] by (simp add: table_sound_def v_def FirecodeChecker_def)
  qed
  have "fire_crc16 ?tab x1 = 0" if "entry_error v \<noteq> 0"
    using sound [OF that] by (simp only: x1_def fire_crc16_xor) (simp add: s_def)
  then have "check ?fc x \<longleftrightarrow> s = 0" and "entry_error v \<noteq> 0 \<Longrightarrow> check ?fc x1"
    by (simp_all add: check_def tab s_def)
  with assms sound show ?thesis unfolding code
    by (cases "s = 0"; cases "entry_error v = 0") (auto simp: x1_def)
qed

theorem firecode_correction_witness:
  "check_and_correct_6bits FirecodeChecker ((\<lambda>_. 0)(0 := 17)) = (True, \<lambda>_. 0) \<and>
    check FirecodeChecker (\<lambda>_. 0)"
proof -
  let ?tab = "fill_crc_table polynom"
  let ?e = "(\<lambda>_. 0)(0 := 17) :: nat \<Rightarrow> u8"
  have "syndrome_table FirecodeChecker (fire_crc16 ?tab ?e) = 17"
    by (simp only: FirecodeChecker_def firecode.simps first_entry)
  moreover have "crc_table FirecodeChecker = ?tab" by (simp add: FirecodeChecker_def)
  ultimately have c: "check_and_correct_6bits FirecodeChecker ?e = (True, \<lambda>_. 0)"
    using first_syndrome_nonzero by (simp add: check_and_correct_6bits_def Let_def fun_eq_iff)
  with firecode_correction [OF c] show ?thesis by simp
qed

end
