(* ===== verification/Galois_Field.thy ===== *)
theory Galois_Field
  imports Prelude
begin

text \<open>
  The arithmetic of GF(256) used by the Reed-Solomon codec, \<^verbatim>\<open>src/src/base/backend/galois.cpp\<close>: the
  log and antilog tables built by the constructor, and addition, multiplication, division, inversion
  and powers on elements in polynomial form and in power form.  Table entries and elements are
  natural numbers; every value stays below 512, so no 16-bit operation of the source wraps.  Locale
  \<open>finite_field\<close> states the field laws the codec relies on, and is interpreted on the table-driven
  operations for the field polynomial 0435 (octal) of the DAB+ code.
\<close>

section \<open>The code\<close>

record galois =
  mm :: nat
  gfpoly :: nat
  codeLength :: nat
  d_q :: nat
  alpha_to :: "nat list"
  index_of :: "nat list"

definition gf_next :: "nat \<Rightarrow> nat \<Rightarrow> nat \<Rightarrow> nat" where
  "gf_next symsize poly sr =
     (let sr = push_bit 1 sr;
          sr = (if sr AND push_bit symsize 1 \<noteq> 0 then sr XOR poly else sr)
      in sr AND (2 ^ symsize - 1))"

definition gf_table_step :: "nat \<Rightarrow> nat \<Rightarrow> nat \<times> nat list \<times> nat list \<Rightarrow> nat \<Rightarrow> nat \<times> nat list \<times> nat list" where
  "gf_table_step symsize poly =
     (\<lambda>(sr, index, alpha) i. (gf_next symsize poly sr, index[sr := i], alpha[i := sr]))"

definition Galois :: "nat \<Rightarrow> nat \<Rightarrow> galois" where
  "Galois symsize poly =
     (let n = 2 ^ symsize - 1;
          index0 = (replicate (n + 1) 0)[0 := n];
          alpha0 = (replicate (n + 1) 0)[n := 0];
          (sr, index, alpha) =
            foldl (gf_table_step symsize poly) (1, index0, alpha0) [0..<n]
      in \<lparr>mm = symsize, gfpoly = poly, codeLength = n, d_q = 2 ^ symsize,
          alpha_to = alpha, index_of = index\<rparr>)"

text \<open>The reduction loop; \<open>m\<close> is the symbol size, at least one bit.\<close>

function modnn_loop :: "nat \<Rightarrow> nat \<Rightarrow> nat" where
  "modnn_loop m x =
     (if 0 < m \<and> 2 ^ m - 1 \<le> x
      then let x = x - (2 ^ m - 1) in modnn_loop m (drop_bit m x + (x AND (2 ^ m - 1))) else x)"
  by pat_completeness auto

definition modnn :: "galois \<Rightarrow> nat \<Rightarrow> nat" where
  "modnn g x = modnn_loop (mm g) x"

definition add_poly :: "nat \<Rightarrow> nat \<Rightarrow> nat" where
  "add_poly a b = a XOR b"

definition poly2power :: "galois \<Rightarrow> nat \<Rightarrow> nat" where
  "poly2power g a = index_of g ! a"

definition power2poly :: "galois \<Rightarrow> nat \<Rightarrow> nat" where
  "power2poly g a = alpha_to g ! a"

definition add_power :: "galois \<Rightarrow> nat \<Rightarrow> nat \<Rightarrow> nat" where
  "add_power g a b = index_of g ! (alpha_to g ! a XOR alpha_to g ! b)"

definition multiply_power :: "galois \<Rightarrow> nat \<Rightarrow> nat \<Rightarrow> nat" where
  "multiply_power g a b = modnn g (a + b)"

definition multiply_poly :: "galois \<Rightarrow> nat \<Rightarrow> nat \<Rightarrow> nat" where
  "multiply_poly g a b =
     (if a = 0 \<or> b = 0 then 0 else alpha_to g ! multiply_power g (index_of g ! a) (index_of g ! b))"

definition divide_power :: "galois \<Rightarrow> nat \<Rightarrow> nat \<Rightarrow> nat" where
  "divide_power g a b = modnn g (d_q g - 1 + a - b)"

definition divide_poly :: "galois \<Rightarrow> nat \<Rightarrow> nat \<Rightarrow> nat" where
  "divide_poly g a b =
     (if a = 0 then 0 else alpha_to g ! divide_power g (index_of g ! a) (index_of g ! b))"

definition inverse_power :: "galois \<Rightarrow> nat \<Rightarrow> nat" where
  "inverse_power g a = d_q g - 1 - a"

definition inverse_poly :: "galois \<Rightarrow> nat \<Rightarrow> nat" where
  "inverse_poly g a = alpha_to g ! inverse_power g (index_of g ! a)"

definition pow_power :: "galois \<Rightarrow> nat \<Rightarrow> nat \<Rightarrow> nat" where
  "pow_power g a n = (if a = 0 then 0 else (a * n) mod (d_q g - 1))"

definition pow_poly :: "galois \<Rightarrow> nat \<Rightarrow> nat \<Rightarrow> nat" where
  "pow_poly g a n = alpha_to g ! pow_power g (index_of g ! a) n"

section \<open>Reduction of exponents\<close>

lemma modnn_shrinks:
  assumes "0 < m" and "2 ^ m - 1 \<le> (x::nat)"
  shows "drop_bit m (x - (2 ^ m - 1)) + ((x - (2 ^ m - 1)) AND (2 ^ m - 1)) < x"
    and "(drop_bit m (x - (2 ^ m - 1)) + ((x - (2 ^ m - 1)) AND (2 ^ m - 1))) mod (2 ^ m - 1) = x mod (2 ^ m - 1)"
proof -
  define c :: nat where "c = 2 ^ m - 1"
  define y where "y = x - c"
  have c: "0 < c" using one_less_power [of "2 :: nat" m] assms(1) unfolding c_def by linarith
  have p: "(2::nat) ^ m = Suc c" by (simp add: c_def)
  have "y AND c = take_bit m y" by (simp only: c_def take_bit_eq_mask mask_eq_exp_minus_1)
  then have eq: "drop_bit m y + (y AND c) = y div Suc c + y mod Suc c"
    by (simp only: drop_bit_eq_div take_bit_eq_mod p)
  have y: "y = y div Suc c * c + (y div Suc c + y mod Suc c)"
    using div_mult_mod_eq [of y "Suc c"] by simp
  then have "y div Suc c + y mod Suc c \<le> y" by linarith
  with assms(2) c show "drop_bit m (x - (2 ^ m - 1)) + ((x - (2 ^ m - 1)) AND (2 ^ m - 1)) < x"
    unfolding c_def [symmetric] y_def [symmetric] eq by (simp add: y_def)
  have "y mod c = (y div Suc c + y mod Suc c) mod c"
    by (subst y) (simp only: mod_mult_self3)
  moreover have "y mod c = x mod c" using assms(2) by (simp add: y_def c_def le_mod_geq)
  ultimately show "(drop_bit m (x - (2 ^ m - 1)) + ((x - (2 ^ m - 1)) AND (2 ^ m - 1))) mod (2 ^ m - 1) =
      x mod (2 ^ m - 1)"
    unfolding c_def [symmetric] y_def [symmetric] eq by simp
qed

termination modnn_loop
  by (relation "measure snd") (simp_all add: modnn_shrinks(1) [simplified] Let_def)

declare modnn_loop.simps [simp del]

lemma modnn_loop_mod: "0 < m \<Longrightarrow> modnn_loop m x = x mod (2 ^ m - 1)"
proof (induction m x rule: modnn_loop.induct)
  case (1 m x)
  show ?case
  proof (cases "2 ^ m - 1 \<le> x")
    case True
    with 1 show ?thesis by (subst modnn_loop.simps) (simp add: Let_def modnn_shrinks(2) [simplified])
  next
    case False
    then show ?thesis by (subst modnn_loop.simps) simp
  qed
qed

section \<open>The field polynomial 0435\<close>

lemma xor_lt_256: "a < 256 \<Longrightarrow> b < 256 \<Longrightarrow> a XOR b < (256::nat)"
proof -
  assume "a < 256" "b < 256"
  then have "a XOR b = take_bit 8 a XOR take_bit 8 b" by (simp add: take_bit_nat_eq_self)
  also have "\<dots> = take_bit 8 (a XOR b)" by simp
  also have "\<dots> < 2 ^ 8" by (rule take_bit_nat_less_exp)
  finally show ?thesis by simp
qed

lemma xor_eq_0_nat: "a XOR b = 0 \<longleftrightarrow> a = (b::nat)"
proof
  assume "a XOR b = 0"
  then have "(a XOR b) XOR b = 0 XOR b" by simp
  then show "a = b" by (simp add: xor.assoc)
qed simp

text \<open>Multiplication by the primitive element.\<close>

abbreviation xt :: "nat \<Rightarrow> nat" where
  "xt \<equiv> gf_next 8 285"

abbreviation G :: galois where
  "G \<equiv> Galois 8 285"

lemma xt_bits: "xt a = take_bit 8 (push_bit 1 a XOR (if bit a 7 then 285 else 0))"
proof -
  have "push_bit 1 a AND push_bit 8 1 \<noteq> 0 \<longleftrightarrow> bit a 7"
  proof -
    have "push_bit 8 (1::nat) = 2 ^ 8" by simp
    then show ?thesis by (simp only: and_exp_eq_0_iff_not_bit bit_push_bit_iff) simp
  qed
  moreover have "x AND (2 ^ 8 - 1) = take_bit 8 x" for x :: nat
    by (simp only: take_bit_eq_mask mask_eq_exp_minus_1)
  ultimately show ?thesis by (simp only: gf_next_def Let_def) (simp del: push_bit_Suc)
qed

lemma xt_less [simp]: "xt a < 256"
proof -
  have "xt a < 2 ^ 8" unfolding xt_bits by (rule take_bit_nat_less_exp)
  then show ?thesis by simp
qed

lemma xt_xor: "xt (a XOR b) = xt a XOR xt b"
  unfolding xt_bits by (auto simp: bit_eq_iff bit_simps simp del: push_bit_Suc)

lemma xt_0 [simp]: "xt 0 = 0"
  by (simp add: xt_bits)

lemma xt_pow_0 [simp]: "(xt ^^ n) 0 = 0"
  by (induction n) simp_all

lemma xt_pow_xor: "(xt ^^ n) (a XOR b) = (xt ^^ n) a XOR (xt ^^ n) b"
  by (induction n) (simp_all add: xt_xor)

lemma xt_pow_less: "a < 256 \<Longrightarrow> (xt ^^ n) a < 256"
  by (induction n) simp_all

lemma xt_code: "a < 256 \<Longrightarrow> xt a = (if a < 128 then 2 * a else (2 * a - 256) XOR 29)"
proof -
  assume a: "a < 256"
  have "bit a 7 \<longleftrightarrow> 128 \<le> a"
  proof -
    have "bit a 7 \<longleftrightarrow> odd (a div 128)" by (simp add: bit_iff_odd)
    moreover have "a div 128 = (if 128 \<le> a then 1 else 0)" using a by (auto intro: div_nat_eqI)
    ultimately show ?thesis by simp
  qed
  moreover have "take_bit 8 (push_bit 1 a) = (2 * a) mod 256"
    by (simp add: push_bit_eq_mult take_bit_eq_mod mult.commute)
  moreover have "take_bit 8 285 = (29::nat)" by (simp add: take_bit_eq_mod)
  moreover have "(2 * a) mod 256 = (if a < 128 then 2 * a else 2 * a - 256)"
    using a by (auto simp: le_mod_geq)
  ultimately show ?thesis by (simp only: xt_bits take_bit_xor if_distrib [of "take_bit 8"]) auto
qed

lemma xt_inj:
  assumes "xt a = 0" and "a < 256"
  shows "a = 0"
proof (cases "a < 128")
  case False
  have "even (xt a)" using assms(1) by simp
  with False assms(2) show ?thesis by (simp add: xt_code even_xor_iff)
qed (use assms in \<open>simp add: xt_code\<close>)

lemma xt_pow_inj: "(xt ^^ n) a = 0 \<Longrightarrow> a < 256 \<Longrightarrow> a = 0"
  by (induction n) (auto simp: xt_pow_less dest: xt_inj)

lemma funpow_15: "(f ^^ 15) x = f (f (f (f (f (f (f (f (f (f (f (f (f (f (f x))))))))))))))"
  by (simp add: numeral_eq_Suc)

lemma funpow_5_6: "(f ^^ 5) x = f (f (f (f (f x))))" "(f ^^ 6) x = f (f (f (f (f (f x)))))"
  by (simp_all add: numeral_eq_Suc)

lemma xt_15_steps:
    "(xt ^^ 15) 1 = 38"
    "(xt ^^ 15) 38 = 96"
    "(xt ^^ 15) 96 = 193"
    "(xt ^^ 15) 193 = 185"
    "(xt ^^ 15) 185 = 15"
    "(xt ^^ 15) 15 = 223"
    "(xt ^^ 15) 223 = 26"
    "(xt ^^ 15) 26 = 59"
    "(xt ^^ 15) 59 = 169"
    "(xt ^^ 15) 169 = 85"
    "(xt ^^ 15) 85 = 145"
    "(xt ^^ 15) 145 = 150"
    "(xt ^^ 15) 150 = 100"
    "(xt ^^ 15) 100 = 89"
    "(xt ^^ 15) 89 = 36"
    "(xt ^^ 15) 36 = 44"
    "(xt ^^ 15) 44 = 1"
  by (simp_all add: funpow_15 xt_code)

definition alph :: "nat \<Rightarrow> nat" where
  "alph i = (xt ^^ i) 1"

lemma alph_add: "alph (i + j) = (xt ^^ i) (alph j)"
  by (simp add: alph_def funpow_add)

lemma xt_pow_1 [simp]: "(xt ^^ i) (Suc 0) = alph i"
  by (simp add: alph_def)

lemma alph_0 [simp]: "alph 0 = 1"
  by (simp add: alph_def)

lemma alph_less: "alph i < 256"
  unfolding alph_def by (rule xt_pow_less) simp

lemma alph_nonzero: "alph i \<noteq> 0"
  using xt_pow_inj [of i 1] by auto

lemma alph_steps: "alph (15 + i) = (xt ^^ 15) (alph i)"
  by (rule alph_add)

lemma alph_values: "alph 15 = 38" "alph 51 = 10" "alph 85 = 214" "alph 255 = 1"
proof -
  have 0: "alph 15 = 38" using xt_15_steps(1) by simp
  have 1: "alph 45 = 193" using alph_steps [of 15] alph_steps [of 30] by (simp add: 0 xt_15_steps)
  have 2: "alph 75 = 15" using alph_steps [of 45] alph_steps [of 60] by (simp add: 1 xt_15_steps)
  show "alph 15 = 38" by (rule 0)
  show "alph 51 = 10" using alph_add [of 6 45] by (simp add: 1 funpow_5_6 xt_code)
  show "alph 85 = 214"
    using alph_add [of 5 80] alph_add [of 5 75] by (simp add: 2 funpow_5_6 xt_code)
  show "alph 255 = 1"
    using alph_steps [of 75] alph_steps [of 90] alph_steps [of 105] alph_steps [of 120]
      alph_steps [of 135] alph_steps [of 150] alph_steps [of 165] alph_steps [of 180]
      alph_steps [of 195] alph_steps [of 210] alph_steps [of 225] alph_steps [of 240]
    by (simp add: 2 xt_15_steps)
qed

lemma alph_period: "alph (255 * k + i) = alph i"
proof (induction k)
  case (Suc k)
  have "alph (255 * Suc k + i) = (xt ^^ (255 * k + i)) (alph 255)"
    by (simp only: alph_add [symmetric]) (simp add: ac_simps)
  with Suc show ?case by (simp add: alph_values(4))
qed simp

lemma alph_mod: "alph (i mod 255) = alph i"
  using alph_period [of "i div 255" "i mod 255"] by simp

lemma alph_mult: "alph d = 1 \<Longrightarrow> alph (d * k + i) = alph i"
proof (induction k)
  case (Suc k)
  have "alph (d * Suc k + i) = (xt ^^ (d * k + i)) (alph d)"
    by (simp only: alph_add [symmetric]) (simp add: ac_simps)
  with Suc show ?case by simp
qed simp

lemma proper_divisors_255:
  fixes g :: nat
  assumes "g dvd 255" and "g \<noteq> 255"
  shows "g dvd 15 \<or> g dvd 51 \<or> g dvd 85"
proof -
  obtain k where k: "255 = g * k" using assms(1) by (blast elim: dvdE)
  have "g \<le> 15 \<or> k \<le> 15"
  proof (rule ccontr)
    assume "\<not> (g \<le> 15 \<or> k \<le> 15)"
    then have "16 * 16 \<le> g * k" by (intro mult_le_mono) simp_all
    with k show False by simp
  qed
  then have "g \<in> {..15} \<or> k \<in> {..15}" by simp
  moreover have "{..15} = {0, 1, 2, 3, 4, 5, 6, 7, 8, 9, 10, 11, 12, 13, 14, 15 :: nat}"
    by (simp add: atMost_nat_numeral atMost_Suc insert_commute)
  ultimately consider "g \<in> {0, 1, 2, 3, 4, 5, 6, 7, 8, 9, 10, 11, 12, 13, 14, 15}"
    | "k \<in> {0, 1, 2, 3, 4, 5, 6, 7, 8, 9, 10, 11, 12, 13, 14, 15}" by argo
  then show ?thesis
  proof cases
    case 1
    with k show ?thesis by (elim insertE; simp; presburger)
  next
    case 2
    have "g = 85 \<or> g = 51 \<or> g = 17" using 2 k assms(2) by (elim insertE; simp; presburger)
    then show ?thesis by auto
  qed
qed

lemma alph_order:
  assumes "0 < d" and "d < 255"
  shows "alph d \<noteq> 1"
proof
  assume one: "alph d = 1"
  let ?g = "gcd d 255"
  obtain x y where "d * x = 255 * y + ?g" using bezout_nat [of d 255] assms(1) by auto
  with alph_mult [OF one, of x 0] alph_period [of y ?g] have g: "alph ?g = 1" by simp
  have "?g \<noteq> 255" using assms dvd_imp_le [of 255 d] by (metis gcd_dvd1 not_less)
  then have "?g dvd 15 \<or> ?g dvd 51 \<or> ?g dvd 85" by (intro proper_divisors_255) simp_all
  then obtain m where "m \<in> {15, 51, 85}" and "?g dvd m" by blast
  then obtain k where "m \<in> {15, 51, 85}" and "m = ?g * k" by (auto elim: dvdE)
  with alph_mult [OF g, of k 0] have "m \<in> {15, 51, 85}" "alph m = 1" by simp_all
  with alph_values show False by auto
qed

lemma alph_inject:
  assumes "i < 255" and "j < 255" and "alph i = alph j"
  shows "i = j"
proof (rule ccontr)
  have *: False if "i < j" "j < 255" "alph i = alph j" for i j
  proof -
    have "(xt ^^ i) (alph (j - i) XOR 1) = alph j XOR alph i"
      using that(1) by (simp add: xt_pow_xor alph_add [symmetric])
    also have "\<dots> = 0" using that(3) by simp
    finally have "alph (j - i) XOR 1 = 0"
      using xt_pow_inj [of i] xor_lt_256 [of "alph (j - i)" 1] alph_less by simp
    then have "alph (j - i) = 1" by (simp add: xor_eq_0_nat)
    moreover have "alph (j - i) \<noteq> 1" using that by (intro alph_order) simp_all
    ultimately show False by simp
  qed
  assume "i \<noteq> j"
  with assms * [of i j] * [of j i] show False by (cases "i < j") auto
qed

section \<open>The tables\<close>

definition tables_upto :: "nat \<Rightarrow> nat \<times> nat list \<times> nat list \<Rightarrow> bool" where
  "tables_upto n = (\<lambda>(sr, index, alpha). sr = alph n \<and> length index = 256 \<and> length alpha = 256 \<and>
     (\<forall>i<n. index ! alph i = i \<and> alpha ! i = alph i) \<and> index ! 0 = 255 \<and> alpha ! 255 = 0)"

lemma tables_step:
  assumes "tables_upto n r" and "n < 255"
  shows "tables_upto (Suc n) (gf_table_step 8 285 r n)"
proof -
  obtain sr idx al where r: "r = (sr, idx, al)" by (cases r) auto
  have ne: "alph i \<noteq> alph n" if "i < n" for i
    using alph_inject [of i n] that assms(2) by auto
  have sr: "sr = alph n" and len: "length idx = 256" "length al = 256"
    and tab: "\<And>i. i < n \<Longrightarrow> idx ! alph i = i \<and> al ! i = alph i" and "idx ! 0 = 255" "al ! 255 = 0"
    using assms(1) by (simp_all add: r tables_upto_def)
  have "idx[sr := n] ! alph i = i \<and> al[n := sr] ! i = alph i" if "i < Suc n" for i
    using tab [of i] ne [of i] that assms(2) alph_less [of n]
    by (cases "i = n") (simp_all add: sr len)
  moreover have "alph (Suc n) = xt (alph n)" using alph_add [of 1 n] by simp
  moreover have "idx[sr := n] ! 0 = 255" "al[n := sr] ! 255 = 0"
    using assms(2) alph_nonzero [of n] \<open>idx ! 0 = 255\<close> \<open>al ! 255 = 0\<close> by (simp_all add: sr)
  ultimately show ?thesis
    by (simp add: r tables_upto_def gf_table_step_def len sr)
qed

lemma tables_loop:
  "n \<le> 255 \<Longrightarrow>
    tables_upto n (foldl (gf_table_step 8 285) (1, (replicate 256 0)[0 := 255], replicate 256 0) [0..<n])"
proof (induction n)
  case 0
  show ?case by (simp add: tables_upto_def)
next
  case (Suc n)
  then show ?case using tables_step by simp
qed

lemma G_fields: "mm G = 8" "d_q G = 256" "codeLength G = 255"
  and G_alpha: "i < 255 \<Longrightarrow> alpha_to G ! i = alph i" and G_alpha_255: "alpha_to G ! 255 = 0"
  and G_index: "i < 255 \<Longrightarrow> index_of G ! alph i = i" and G_index_0: "index_of G ! 0 = 255"
proof -
  obtain sr idx al where
    r: "foldl (gf_table_step 8 285) (1, (replicate 256 0)[0 := 255], replicate 256 0) [0..<255] = (sr, idx, al)"
    by (cases "foldl (gf_table_step 8 285) (1, (replicate 256 0)[0 := 255], replicate 256 0) [0..<255]") auto
  have init: "(replicate 256 0)[255 := 0] = replicate 256 (0::nat)"
    by (simp add: list_eq_iff_nth_eq nth_list_update)
  have G: "G = \<lparr>mm = 8, gfpoly = 285, codeLength = 255, d_q = 256, alpha_to = al, index_of = idx\<rparr>"
  proof -
    have "(2::nat) ^ 8 - 1 = 255" "(255::nat) + 1 = 256" "(2::nat) ^ 8 = 256" by simp_all
    then show ?thesis by (simp only: Galois_def Let_def init r prod.case)
  qed
  have t: "tables_upto 255 (sr, idx, al)" using tables_loop [of 255] unfolding r by simp
  show "mm G = 8" "d_q G = 256" "codeLength G = 255" by (simp_all add: G)
  show "i < 255 \<Longrightarrow> alpha_to G ! i = alph i" "alpha_to G ! 255 = 0"
    "i < 255 \<Longrightarrow> index_of G ! alph i = i" "index_of G ! 0 = 255"
    using t by (simp_all add: G tables_upto_def)
qed

lemma alph_surj:
  assumes "0 < a" and "a < 256"
  obtains i where "i < 255" and "a = alph i"
proof -
  have "inj_on alph {..<255}" by (auto simp: inj_on_def intro: alph_inject)
  then have "card (alph ` {..<255}) = 255" by (simp add: card_image)
  moreover have "alph ` {..<255} \<subseteq> {1..<256}"
    using alph_less alph_nonzero by (auto simp: Suc_le_eq)
  ultimately have "alph ` {..<255} = {1..<256}" by (intro card_subset_eq) simp_all
  with assms that show thesis by (metis Suc_le_eq One_nat_def atLeastLessThan_iff imageE lessThan_iff)
qed

lemma G_modnn: "modnn G x = x mod 255"
  by (simp add: modnn_def G_fields modnn_loop_mod)

text \<open>Multiplication by an element is a power of the multiplication by the primitive one.\<close>

lemma multiply_alph:
  assumes "b < 256"
  shows "multiply_poly G (alph i) b = (xt ^^ i) b"
proof (cases "b = 0")
  case True
  then show ?thesis by (simp add: multiply_poly_def)
next
  case False
  then obtain j where j: "j < 255" "b = alph j" using assms alph_surj [of b] by auto
  have i: "index_of G ! alph i = i mod 255"
    using G_index [of "i mod 255"] by (simp add: alph_mod)
  show ?thesis
    using False j alph_nonzero [of i] G_alpha [of "(i mod 255 + j) mod 255"]
    by (simp add: multiply_poly_def multiply_power_def G_modnn i G_index alph_mod mod_add_left_eq)
      (simp add: alph_mod [of "i + j", symmetric] mod_add_left_eq alph_add [symmetric])
qed

section \<open>The field interface\<close>

text \<open>
  What the codec relies on: a commutative field on the numbers below \<open>q\<close> whose addition is exclusive
  or, with a multiplicative inverse.  The lemmas evaluate polynomials by Horner's rule, highest
  coefficient first.
\<close>

locale xor_field =
  fixes q :: nat and mul :: "nat \<Rightarrow> nat \<Rightarrow> nat" and inv :: "nat \<Rightarrow> nat"
  assumes one_less: "1 < q"
    and xor_closed: "a < q \<Longrightarrow> b < q \<Longrightarrow> a XOR b < q"
    and mul_closed: "a < q \<Longrightarrow> b < q \<Longrightarrow> mul a b < q"
    and mul_comm: "a < q \<Longrightarrow> b < q \<Longrightarrow> mul a b = mul b a"
    and mul_assoc: "a < q \<Longrightarrow> b < q \<Longrightarrow> c < q \<Longrightarrow> mul (mul a b) c = mul a (mul b c)"
    and mul_one: "a < q \<Longrightarrow> mul 1 a = a"
    and mul_zero: "mul 0 a = 0"
    and mul_xor: "a < q \<Longrightarrow> b < q \<Longrightarrow> c < q \<Longrightarrow> mul a (b XOR c) = mul a b XOR mul a c"
    and mul_inv: "0 < a \<Longrightarrow> a < q \<Longrightarrow> mul a (inv a) = 1"
    and inv_closed: "0 < a \<Longrightarrow> a < q \<Longrightarrow> inv a < q"
begin

definition horner :: "nat \<Rightarrow> nat list \<Rightarrow> nat" where
  "horner r xs = foldl (\<lambda>s x. mul s r XOR x) 0 xs"

lemma horner_Nil [simp]: "horner r [] = 0"
  by (simp add: horner_def)

lemma horner_snoc: "horner r (xs @ [x]) = mul (horner r xs) r XOR x"
  by (simp add: horner_def)

lemma horner_closed: "r < q \<Longrightarrow> \<forall>x\<in>set xs. x < q \<Longrightarrow> horner r xs < q"
  using one_less by (induction xs rule: rev_induct) (simp_all add: horner_snoc mul_closed xor_closed)

lemma mul_xor_left: "a < q \<Longrightarrow> b < q \<Longrightarrow> c < q \<Longrightarrow> mul (a XOR b) c = mul a c XOR mul b c"
  using mul_xor [of c a b] by (simp add: mul_comm xor_closed)

lemma mul_zero_right: "a < q \<Longrightarrow> mul a 0 = 0"
  using mul_comm [of a 0] mul_zero one_less by simp

text \<open>Powers by repeated multiplication.\<close>

fun pw :: "nat \<Rightarrow> nat \<Rightarrow> nat" where
  "pw r 0 = 1"
| "pw r (Suc n) = mul (pw r n) r"

lemma pw_closed: "r < q \<Longrightarrow> pw r n < q"
  using one_less by (induction n) (simp_all add: mul_closed)

lemma horner_append:
  assumes "r < q" and "\<forall>x\<in>set xs. x < q" and "\<forall>y\<in>set ys. y < q"
  shows "horner r (xs @ ys) = mul (horner r xs) (pw r (length ys)) XOR horner r ys"
  using assms(3)
proof (induction ys rule: rev_induct)
  case Nil
  have "horner r xs < q" using assms by (simp add: horner_closed)
  then have "mul (horner r xs) 1 = horner r xs" using mul_comm mul_one one_less by metis
  then show ?case by simp
next
  case (snoc y ys)
  have "horner r xs < q" "pw r (length ys) < q" "horner r ys < q"
    using assms snoc.prems by (simp_all add: horner_closed pw_closed)
  with snoc assms(1) show ?case
    by (simp add: horner_snoc mul_xor_left mul_closed mul_assoc xor.assoc flip: append_assoc)
qed

lemma horner_Cons:
  assumes "r < q" and "x < q" and "\<forall>y\<in>set xs. y < q"
  shows "horner r (x # xs) = mul x (pw r (length xs)) XOR horner r xs"
  using horner_append [of r "[x]" xs] assms by (simp add: horner_def mul_zero)

lemma horner_xor:
  assumes "r < q" and "\<forall>x\<in>set xs. x < q" and "\<forall>y\<in>set ys. y < q" and "length xs = length ys"
  shows "horner r (map2 (XOR) xs ys) = horner r xs XOR horner r ys"
  using assms(4,2,3)
proof (induction xs ys rule: list_induct2)
  case (Cons x xs y ys)
  have *: "\<forall>z\<in>set (map2 (XOR) xs ys). z < q"
    using Cons.prems by (auto simp: in_set_zip xor_closed)
  from Cons * assms(1) show ?case
    by (simp add: horner_Cons xor_closed mul_xor_left pw_closed ac_simps)
qed simp

lemma horner_scale:
  assumes "r < q" and "c < q" and "\<forall>x\<in>set xs. x < q"
  shows "horner r (map (mul c) xs) = mul c (horner r xs)"
  using assms(3)
proof (induction xs rule: rev_induct)
  case Nil
  then show ?case using assms(2) by (simp add: mul_zero_right)
next
  case (snoc x xs)
  with assms(1,2) show ?case
    by (simp add: horner_snoc mul_xor mul_closed mul_assoc horner_closed)
qed

end

lemma below_256_cases:
  assumes "a < 256"
  obtains "a = 0" | i where "i < 255" and "a = alph i"
  using assms alph_surj [of a] by (cases "a = 0") auto

lemma multiply_zero [simp]: "multiply_poly G 0 a = 0" "multiply_poly G a 0 = 0"
  by (simp_all add: multiply_poly_def)

lemma multiply_alph_alph: "multiply_poly G (alph i) (alph j) = alph (i + j)"
  by (simp add: multiply_alph alph_less alph_add)

lemma inverse_alph: "i < 255 \<Longrightarrow> inverse_poly G (alph i) = (if i = 0 then 0 else alph (255 - i))"
  by (auto simp: inverse_poly_def inverse_power_def G_fields G_index G_alpha G_alpha_255)

lemma divide_alph: "i < 255 \<Longrightarrow> j < 255 \<Longrightarrow> divide_poly G (alph i) (alph j) = alph (255 + i - j)"
  using G_alpha [of "(255 + i - j) mod 255"] alph_nonzero [of i]
  by (simp add: divide_poly_def divide_power_def G_fields G_index G_modnn alph_mod)

interpretation gf: xor_field 256 "multiply_poly G" "divide_poly G 1"
proof (unfold_locales, goal_cases)
  case 1
  then show ?case by simp
next
  case (2 a b)
  then show ?case by (rule xor_lt_256)
next
  case (3 a b)
  then show ?case by (elim below_256_cases [of a]) (simp_all add: multiply_alph xt_pow_less)
next
  case (4 a b)
  then show ?case
    by (elim below_256_cases)
      (simp_all add: multiply_alph_alph add.commute)
next
  case (5 a b c)
  then show ?case
    by (elim below_256_cases)
      (simp_all add: multiply_alph_alph add.assoc)
next
  case (6 a)
  then show ?case using multiply_alph [of a 0] by simp
next
  case (7 a)
  then show ?case by simp
next
  case (8 a b c)
  then show ?case
    by (elim below_256_cases [of a]) (simp_all add: multiply_alph xor_lt_256 xt_pow_xor)
next
  case (9 a)
  then show ?case
    using divide_alph [of 0] alph_period [of 1 0] 
    by (elim below_256_cases [of a]) (simp_all add: multiply_alph_alph)
next
  case (10 a)
  then show ?case
    using divide_alph [of 0] by (elim below_256_cases [of a]) (simp_all add: alph_less)
qed

section \<open>Properties\<close>

text \<open>
  The exponent reduction loop of the tables computes the remainder modulo \<open>2 ^ m - 1\<close> and
  terminates, for every symbol size of at least one bit.
\<close>

theorem modnn_correct: "0 < mm g \<Longrightarrow> modnn g x = x mod (2 ^ mm g - 1)"
  by (simp add: modnn_def modnn_loop_mod)

theorem modnn_correct_witness: "modnn (Galois 8 285) 1000 = 1000 mod (2 ^ mm (Galois 8 285) - 1)"
  by (rule modnn_correct) (simp add: G_fields)

text \<open>
  C33: The table-driven operations for the field polynomial 0435 are the arithmetic of a field with 256
  elements: multiplication is commutative, associative and distributes over exclusive or, one is
  neutral, division inverts multiplication, and the log table inverts the antilog table on all 255
  non-zero elements.
\<close>

theorem galois_field_laws:
  assumes "a < 256" and "b < 256" and "c < 256"
  defines "m \<equiv> multiply_poly (Galois 8 285)"
  shows "m a b < 256 \<and> m a b = m b a \<and> m (m a b) c = m a (m b c) \<and>
    m a (add_poly b c) = add_poly (m a b) (m a c) \<and> m 1 a = a \<and>
    (b \<noteq> 0 \<longrightarrow> m (divide_poly (Galois 8 285) a b) b = a) \<and>
    (a \<noteq> 0 \<longrightarrow> poly2power (Galois 8 285) a < 255 \<and>
       power2poly (Galois 8 285) (poly2power (Galois 8 285) a) = a)"
proof -
  have div: "m (divide_poly G a b) b = a" if nz: "b \<noteq> 0"
  proof -
    obtain j where j: "j < 255" "b = alph j" by (rule alph_surj [of b]) (use nz assms(2) in simp_all)
    show ?thesis
    proof (cases "a = 0")
      case True
      then show ?thesis by (simp add: divide_poly_def m_def)
    next
      case False
      obtain i where "i < 255" "a = alph i" by (rule alph_surj [of a]) (use False assms(1) in simp_all)
      with j alph_period [of 1 i] show ?thesis by (simp add: m_def divide_alph multiply_alph_alph)
    qed
  qed
  moreover have "poly2power G a < 255 \<and> power2poly G (poly2power G a) = a" if nz: "a \<noteq> 0"
  proof -
    obtain i where "i < 255" "a = alph i" by (rule alph_surj [of a]) (use nz assms(1) in simp_all)
    then show ?thesis by (simp add: poly2power_def power2poly_def G_index G_alpha)
  qed
  ultimately show ?thesis
    using assms(1-3) gf.mul_closed gf.mul_comm gf.mul_assoc gf.mul_xor gf.mul_one
    by (simp add: add_poly_def m_def)
qed

theorem galois_field_laws_witness:
  "multiply_poly (Galois 8 285) 7 (add_poly 200 9) =
   add_poly (multiply_poly (Galois 8 285) 7 200) (multiply_poly (Galois 8 285) 7 9)"
  using galois_field_laws [of 7 200 9] by simp

end
