(* ===== verification/Reed_Solomon.thy ===== *)
theory Reed_Solomon
  imports Galois_Field
begin

text \<open>
  The shortened Reed-Solomon codec of the DAB+ super frames, \<^verbatim>\<open>src/src/base/backend/reed_solomon.cpp\<close>:
  the generator polynomial, the systematic encoder, and the decoder with syndromes, Berlekamp-Massey
  iteration, Chien search and Forney's formula.  Symbols are natural numbers below 256, the working
  arrays of the source are lists of their length.  The theory shows that every word the encoder
  produces has zero syndromes, so that the decoder returns the data with no error reported, for every
  amount of shortening.
\<close>

section \<open>The code\<close>

record reed_solomon =
  myGalois :: galois
  symsize :: nat
  rs_codeLength :: nat
  generator :: "nat list"
  nroots :: nat
  fcr :: nat
  prim :: nat
  iprim :: nat

text \<open>The search for the inverse of \<open>prim\<close>; its fuel is the number of candidates that can differ.\<close>

fun iprim_loop :: "nat \<Rightarrow> nat \<Rightarrow> nat \<Rightarrow> nat \<Rightarrow> nat option" where
  "iprim_loop 0 p n ip = None"
| "iprim_loop (Suc fuel) p n ip = (if ip mod p \<noteq> 0 then iprim_loop fuel p n (ip + n) else Some ip)"

definition generator_term :: "galois \<Rightarrow> nat \<Rightarrow> nat \<Rightarrow> nat list \<Rightarrow> nat list" where
  "generator_term g root j gen =
     gen[j := (if gen ! j \<noteq> 0
               then add_poly (gen ! (j - 1))
                      (power2poly g (multiply_power g (poly2power g (gen ! j)) root))
               else gen ! (j - 1))]"

definition generator_round :: "galois \<Rightarrow> nat \<Rightarrow> nat \<Rightarrow> nat list \<Rightarrow> nat list" where
  "generator_round g root i gen =
     (let gen = gen[i + 1 := 1];
          gen = fold (generator_term g root) (rev [1..<i + 1]) gen
      in gen[0 := power2poly g (multiply_power g root (poly2power g (gen ! 0)))])"

definition generator_poly :: "galois \<Rightarrow> nat \<Rightarrow> nat \<Rightarrow> nat list" where
  "generator_poly g root0 n =
     fold (\<lambda>i. generator_round g (root0 + i) i) [0..<n] ((replicate (n + 1) 0)[0 := 1])"

definition ReedSolomon :: "nat \<Rightarrow> nat \<Rightarrow> nat \<Rightarrow> nat \<Rightarrow> nat \<Rightarrow> reed_solomon option" where
  "ReedSolomon sz poly first pr n =
     (let g = Galois sz poly; len = 2 ^ sz - 1 in
      case iprim_loop pr pr len 1 of
        None \<Rightarrow> None
      | Some ip \<Rightarrow> Some \<lparr>myGalois = g, symsize = sz, rs_codeLength = len,
          generator = map (poly2power g) (generator_poly g (first * pr) n),
          nroots = n, fcr = first, prim = pr, iprim = ip div pr\<rparr>)"

definition encode_step :: "reed_solomon \<Rightarrow> nat \<Rightarrow> nat list \<Rightarrow> nat list" where
  "encode_step rs x bb =
     (let g = myGalois rs;
          feedback = poly2power g (add_poly x (bb ! 0));
          bb1 = (if feedback \<noteq> rs_codeLength rs
                 then fold (\<lambda>j bb. bb[j := add_poly (bb ! j)
                        (power2poly g (multiply_power g feedback (generator rs ! (nroots rs - j))))])
                        [1..<nroots rs] bb
                 else bb)
      in drop 1 bb1 @
         [if feedback \<noteq> rs_codeLength rs
          then power2poly g (multiply_power g feedback (generator rs ! 0)) else 0])"

definition encode_rs :: "reed_solomon \<Rightarrow> nat list \<Rightarrow> nat list" where
  "encode_rs rs xs =
     foldl (\<lambda>bb i. encode_step rs (xs ! i) bb) (replicate (nroots rs) 0)
       [0..<rs_codeLength rs - nroots rs]"

definition enc :: "reed_solomon \<Rightarrow> nat list \<Rightarrow> nat \<Rightarrow> nat list" where
  "enc rs r cutlen =
     (let rf = replicate cutlen 0 @ take (rs_codeLength rs - cutlen) r
      in drop cutlen (take (rs_codeLength rs - nroots rs) rf) @ encode_rs rs rf)"

definition getSyndrome :: "reed_solomon \<Rightarrow> nat list \<Rightarrow> nat \<Rightarrow> nat" where
  "getSyndrome rs xs root =
     foldl (\<lambda>syn j.
         if syn = 0 then xs ! j
         else let g = myGalois rs;
                  uu1 = pow_power g (multiply_power g (fcr rs) root) (prim rs)
              in add_poly (xs ! j) (power2poly g (multiply_power g (poly2power g syn) uu1)))
       (xs ! 0) [1..<rs_codeLength rs]"

definition computeSyndromes :: "reed_solomon \<Rightarrow> nat list \<Rightarrow> bool \<times> nat list" where
  "computeSyndromes rs xs =
     (let syndromes = map (getSyndrome rs xs) [0..<nroots rs]
      in (foldl (OR) 0 syndromes = 0, syndromes))"

definition add_scaled :: "galois \<Rightarrow> nat \<Rightarrow> nat list \<Rightarrow> nat list \<Rightarrow> nat list" where
  "add_scaled g error Lambda Corrector =
     map2 (\<lambda>l c. add_poly l (multiply_poly g error c)) Lambda Corrector"

text \<open>One Berlekamp-Massey iteration on the length, both polynomials and the discrepancy.\<close>

definition berlekamp_step ::
  "reed_solomon \<Rightarrow> nat list \<Rightarrow> nat \<Rightarrow> nat \<times> nat list \<times> nat list \<times> nat \<Rightarrow> nat \<times> nat list \<times> nat list \<times> nat" where
  "berlekamp_step rs syndromes K = (\<lambda>(L, Lambda, Corrector, error).
     let g = myGalois rs;
         oldLambda = Lambda;
         Lambda = add_scaled g error Lambda Corrector;
         (L, Corrector) =
           (if 2 * L < K \<and> error \<noteq> 0
            then (K - L, map (\<lambda>x. divide_poly g x error) oldLambda) else (L, Corrector));
         Corrector = 0 # butlast Corrector;
         error = foldl (\<lambda>e i. add_poly e (multiply_poly g (syndromes ! (K - i)) (Lambda ! i)))
                   (syndromes ! K) [1..<K + 1]
     in (L, Lambda, Corrector, error))"

definition computeLambda :: "reed_solomon \<Rightarrow> nat list \<Rightarrow> nat \<times> nat list" where
  "computeLambda rs syndromes =
     (let g = myGalois rs; n = nroots rs; zero = replicate n 0;
          (L, Lambda, Corrector, error) =
            foldl (\<lambda>s K. berlekamp_step rs syndromes K s)
              (0, zero[0 := 1], zero[1 := 1], syndromes ! 0) [1..<n];
          Lambda = add_scaled g error Lambda Corrector;
          deg_lambda = foldl (\<lambda>d i. if Lambda ! i \<noteq> 0 then i else d) 0 [0..<n]
      in (deg_lambda, map (poly2power g) Lambda))"

text \<open>One position of the Chien search: the evaluated polynomial and the updated work register.\<close>

definition chien_eval :: "reed_solomon \<Rightarrow> nat \<Rightarrow> nat list \<Rightarrow> nat \<times> nat list" where
  "chien_eval rs deg_lambda work =
     foldl (\<lambda>(result, work) j.
         if work ! j \<noteq> rs_codeLength rs
         then let g = myGalois rs; w = multiply_power g (work ! j) j
              in (add_poly result (power2poly g w), work[j := w])
         else (result, work))
       (1, work) (rev [1..<deg_lambda + 1])"

definition computeErrors :: "reed_solomon \<Rightarrow> nat list \<Rightarrow> nat \<Rightarrow> (nat \<times> nat) list option" where
  "computeErrors rs Lambda deg_lambda =
     (let (work, table) =
            foldl (\<lambda>(work, table) i.
                let (result, work) = chien_eval rs deg_lambda work;
                    k = iprim rs - 1 + (i - 1) * iprim rs
                in (work, if result \<noteq> 0 then table else table @ [(i mod 256, k mod 256)]))
              (Lambda, []) [1..<rs_codeLength rs + 1]
      in if length table \<noteq> deg_lambda then None else Some table)"

definition computeOmega :: "reed_solomon \<Rightarrow> nat list \<Rightarrow> nat list \<Rightarrow> nat \<Rightarrow> nat \<times> nat list" where
  "computeOmega rs syndromes lam deg_lambda =
     (let g = myGalois rs; n = nroots rs;
          coeff = (\<lambda>i. foldl (\<lambda>tmp j.
              if poly2power g (syndromes ! (i - j)) \<noteq> rs_codeLength rs \<and> lam ! j \<noteq> rs_codeLength rs
              then add_poly tmp (power2poly g
                     (multiply_power g (poly2power g (syndromes ! (i - j))) (lam ! j)))
              else tmp) 0 (rev [0..<min deg_lambda i + 1]));
          deg_omega = foldl (\<lambda>d i. if coeff i \<noteq> 0 then i else d) 0 [0..<n]
      in (deg_omega, map (\<lambda>i. poly2power g (coeff i)) [0..<n] @ [rs_codeLength rs]))"

text \<open>Numerator and denominator of Forney's formula at an inverse root, and the error value.\<close>

definition eval_terms :: "reed_solomon \<Rightarrow> nat list \<Rightarrow> nat \<Rightarrow> (nat \<times> nat) list \<Rightarrow> nat" where
  "eval_terms rs coeffs root idx =
     foldl (\<lambda>acc (i, e).
         if coeffs ! i \<noteq> rs_codeLength rs
         then let g = myGalois rs in
              add_poly acc (power2poly g (multiply_power g (coeffs ! i) (pow_power g e root)))
         else acc) 0 idx"

definition forney_num1 :: "reed_solomon \<Rightarrow> nat list \<Rightarrow> nat \<Rightarrow> nat \<Rightarrow> nat" where
  "forney_num1 rs omega omega_degree root =
     eval_terms rs omega root (map (\<lambda>i. (i, i)) (rev [0..<omega_degree + 1]))"

definition forney_num2 :: "reed_solomon \<Rightarrow> nat \<Rightarrow> nat" where
  "forney_num2 rs root =
     (let g = myGalois rs in
      power2poly g (multiply_power g (pow_power g root (divide_power g (fcr rs) 1)) (rs_codeLength rs)))"

definition forney_den :: "reed_solomon \<Rightarrow> nat list \<Rightarrow> nat \<Rightarrow> nat \<Rightarrow> nat" where
  "forney_den rs Lambda lambda_degree root =
     eval_terms rs Lambda root
       (map (\<lambda>i. (2 * i + 1, 2 * i)) (rev [0..<min lambda_degree (nroots rs - 1) div 2 + 1]))"

fun apply_errors ::
  "reed_solomon \<Rightarrow> nat list \<Rightarrow> nat \<Rightarrow> nat list \<Rightarrow> nat \<Rightarrow> (nat \<times> nat) list \<Rightarrow> int \<Rightarrow> nat list \<Rightarrow> int \<times> nat list" where
  "apply_errors rs Lambda lambda_degree omega omega_degree [] rootCount xs = (rootCount, xs)"
| "apply_errors rs Lambda lambda_degree omega omega_degree ((root, loc) # table) rootCount xs =
     (let g = myGalois rs;
          num1 = forney_num1 rs omega omega_degree root;
          num2 = forney_num2 rs root;
          den = forney_den rs Lambda lambda_degree root
      in if den = 0 then (-1, xs)
         else if num1 \<noteq> 0
         then if loc \<ge> rs_codeLength rs - nroots rs
              then apply_errors rs Lambda lambda_degree omega omega_degree table (rootCount - 1) xs
              else let tmp1 = rs_codeLength rs - poly2power g den;
                       tmp2 = multiply_power g (poly2power g num1) (poly2power g num2);
                       tmp2 = multiply_power g tmp2 tmp1;
                       corr = power2poly g tmp2
                   in apply_errors rs Lambda lambda_degree omega omega_degree table rootCount
                        (xs[loc := add_poly (xs ! loc) corr])
         else apply_errors rs Lambda lambda_degree omega omega_degree table rootCount xs)"

definition decode_rs :: "reed_solomon \<Rightarrow> nat list \<Rightarrow> int \<times> nat list" where
  "decode_rs rs xs =
     (let (clean, syndromes) = computeSyndromes rs xs in
      if clean then (0, xs)
      else let (lambda_degree, Lambda) = computeLambda rs syndromes in
        case computeErrors rs Lambda lambda_degree of
          None \<Rightarrow> (-1, xs)
        | Some table \<Rightarrow>
            let (omega_degree, omega) = computeOmega rs syndromes Lambda lambda_degree
            in apply_errors rs Lambda lambda_degree omega omega_degree (rev table)
                 (int (length table)) xs)"

definition dec :: "reed_solomon \<Rightarrow> nat list \<Rightarrow> nat \<Rightarrow> int \<times> nat list" where
  "dec rs r cutlen =
     (let rf = replicate cutlen 0 @ take (rs_codeLength rs - cutlen) r;
          (ret, rf) = decode_rs rs rf
      in (ret, drop cutlen (take (rs_codeLength rs - nroots rs) rf)))"

section \<open>The generator polynomial\<close>

lemma power_mul:
  assumes "0 < a" and "a < 256"
  shows "power2poly G (multiply_power G (poly2power G a) i) = multiply_poly G a (alph i)"
proof -
  obtain j where j: "j < 255" "a = alph j" by (rule alph_surj [OF assms])
  have "power2poly G (multiply_power G j i) = alph (j + i)"
    using G_alpha [of "(j + i) mod 255"] by (simp add: power2poly_def multiply_power_def G_modnn alph_mod)
  with j show ?thesis by (simp add: poly2power_def G_index multiply_alph_alph)
qed

lemma mul_alph: "a < 256 \<Longrightarrow> multiply_poly G a (alph i) = (xt ^^ i) a"
  using gf.mul_comm [of a "alph i"] by (simp add: alph_less multiply_alph)

lemma generator_term_val:
  "gen ! j < 256 \<Longrightarrow> generator_term G root j gen = gen[j := gen ! (j - 1) XOR (xt ^^ root) (gen ! j)]"
  by (simp add: generator_term_def add_poly_def power_mul mul_alph)

lemma generator_low_val:
  assumes "0 < a" and "a < 256"
  shows "power2poly G (multiply_power G root (poly2power G a)) = (xt ^^ root) a"
proof -
  have "multiply_power G root (poly2power G a) = multiply_power G (poly2power G a) root"
    by (simp add: multiply_power_def add.commute)
  then show ?thesis using assms by (simp add: power_mul mul_alph)
qed

lemma funpow_small:
  "(f ^^ 0) x = x"
  "(f ^^ 1) x = f x"
  "(f ^^ 2) x = f (f x)"
  "(f ^^ 3) x = f (f (f x))"
  "(f ^^ 4) x = f (f (f (f x)))"
  "(f ^^ 5) x = f (f (f (f (f x))))"
  "(f ^^ 6) x = f (f (f (f (f (f x)))))"
  "(f ^^ 7) x = f (f (f (f (f (f (f x))))))"
  "(f ^^ 8) x = f (f (f (f (f (f (f (f x)))))))"
  "(f ^^ 9) x = f (f (f (f (f (f (f (f (f x))))))))"
  by (simp_all add: numeral_eq_Suc)

lemma upt_small:
  "rev [Suc 0..<2] = [1]"
  "rev [Suc 0..<3] = [2, 1]"
  "rev [Suc 0..<4] = [3, 2, 1]"
  "rev [Suc 0..<5] = [4, 3, 2, 1]"
  "rev [Suc 0..<6] = [5, 4, 3, 2, 1]"
  "rev [Suc 0..<7] = [6, 5, 4, 3, 2, 1]"
  "rev [Suc 0..<8] = [7, 6, 5, 4, 3, 2, 1]"
  "rev [Suc 0..<9] = [8, 7, 6, 5, 4, 3, 2, 1]"
  "rev [Suc 0..<10] = [9, 8, 7, 6, 5, 4, 3, 2, 1]"
  by (simp_all add: upt_rec)

lemma alph_small:
  "alph 1 = 2" "alph 2 = 4" "alph 3 = 8" "alph 4 = 16" "alph 5 = 32" "alph 6 = 64" "alph 7 = 128"
  "alph 8 = 29" "alph 9 = 58"
  by (simp_all add: alph_def funpow_small xt_code del: xt_pow_1)

lemma generator_rounds:
  "generator_round G 0 0 [1, 0, 0, 0, 0, 0, 0, 0, 0, 0, 0] = [1, 1, 0, 0, 0, 0, 0, 0, 0, 0, 0]"
  "generator_round G 1 1 [1, 1, 0, 0, 0, 0, 0, 0, 0, 0, 0] = [2, 3, 1, 0, 0, 0, 0, 0, 0, 0, 0]"
  "generator_round G 2 2 [2, 3, 1, 0, 0, 0, 0, 0, 0, 0, 0] = [8, 14, 7, 1, 0, 0, 0, 0, 0, 0, 0]"
  "generator_round G 3 3 [8, 14, 7, 1, 0, 0, 0, 0, 0, 0, 0] = [64, 120, 54, 15, 1, 0, 0, 0, 0, 0, 0]"
  "generator_round G 4 4 [64, 120, 54, 15, 1, 0, 0, 0, 0, 0, 0] = [116, 147, 63, 198, 31, 1, 0, 0, 0, 0, 0]"
  "generator_round G 5 5 [116, 147, 63, 198, 31, 1, 0, 0, 0, 0, 0] = [38, 227, 32, 218, 1, 63, 1, 0, 0, 0, 0]"
  "generator_round G 6 6 [38, 227, 32, 218, 1, 63, 1, 0, 0, 0, 0] = [117, 68, 11, 164, 154, 122, 127, 1, 0, 0, 0]"
  "generator_round G 7 7 [117, 68, 11, 164, 154, 122, 127, 1, 0, 0, 0] = [24, 200, 173, 239, 54, 81, 11, 255, 1, 0, 0]"
  "generator_round G 8 8 [24, 200, 173, 239, 54, 81, 11, 255, 1, 0, 0] = [37, 197, 232, 164, 235, 245, 158, 207, 226, 1, 0]"
  "generator_round G 9 9 [37, 197, 232, 164, 235, 245, 158, 207, 226, 1, 0] = [193, 157, 113, 95, 94, 199, 111, 159, 194, 216, 1]"
  by (simp_all add: generator_round_def Let_def upt_small generator_term_val generator_low_val
      funpow_small xt_code alph_small)

definition gen10 :: "nat list" where
  "gen10 = [193, 157, 113, 95, 94, 199, 111, 159, 194, 216, 1]"

lemma upt_10: "[0..<10] = [0, 1, 2, 3, 4, 5, 6, 7, 8, 9 :: nat]"
  by (simp add: upt_rec)

lemma generator_poly_10: "generator_poly G 0 10 = gen10"
proof -
  have "(replicate (10 + 1) 0)[0 := 1] = [1, 0, 0, 0, 0, 0, 0, 0, 0, 0, 0 :: nat]"
    by (simp add: numeral_eq_Suc)
  then show ?thesis
    by (simp only: generator_poly_def upt_10 fold_simps add_0 generator_rounds gen10_def)
qed

text \<open>The ten consecutive powers from \<open>alph 0\<close> on are roots of the generator.\<close>

fun eval_xt :: "nat \<Rightarrow> nat \<Rightarrow> nat list \<Rightarrow> nat" where
  "eval_xt i s [] = s"
| "eval_xt i s (x # xs) = eval_xt i ((xt ^^ i) s XOR x) xs"

lemma horner_eval_xt:
  assumes "\<forall>x\<in>set xs. x < 256"
  shows "gf.horner (alph i) xs = eval_xt i 0 xs"
proof -
  have "s < 256 \<Longrightarrow> foldl (\<lambda>s x. multiply_poly G s (alph i) XOR x) s xs = eval_xt i s xs" for s
    using assms by (induction xs arbitrary: s) (simp_all add: mul_alph xor_lt_256 xt_pow_less)
  from this [of 0] show ?thesis by (simp add: gf.horner_def)
qed

lemma gen10_evals:
  "eval_xt 0 0 (rev gen10) = 0"
  "eval_xt 1 0 (rev gen10) = 0"
  "eval_xt 2 0 (rev gen10) = 0"
  "eval_xt 3 0 (rev gen10) = 0"
  "eval_xt 4 0 (rev gen10) = 0"
  "eval_xt 5 0 (rev gen10) = 0"
  "eval_xt 6 0 (rev gen10) = 0"
  "eval_xt 7 0 (rev gen10) = 0"
  "eval_xt 8 0 (rev gen10) = 0"
  "eval_xt 9 0 (rev gen10) = 0"
  by (simp_all add: gen10_def funpow_small xt_code alph_small flip: numeral_3_eq_3)

lemma gen10_roots: "i < 10 \<Longrightarrow> gf.horner (alph i) (rev gen10) = 0"
proof -
  have "\<forall>x\<in>set (rev gen10). x < 256" by (simp add: gen10_def)
  note val = horner_eval_xt [OF this]
  have "\<forall>i\<in>set [0, 1, 2, 3, 4, 5, 6, 7, 8, 9]. gf.horner (alph i) (rev gen10) = 0"
    by (simp only: val gen10_evals list.set ball_simps simp_thms)
  moreover assume "i < 10"
  then have "i \<in> set [0..<10]" by simp
  ultimately show ?thesis unfolding upt_10 by blast
qed

section \<open>The encoder\<close>

lemma xor_cancel: "(a XOR b) XOR a = (b :: nat)"
  by (simp add: xor.commute [of a b] xor.assoc)

lemma xor_cancel_middle: "(a XOR b) XOR (c XOR b) = a XOR (c :: nat)"
proof -
  have "b XOR (b XOR c) = c" by (simp flip: xor.assoc)
  then show ?thesis by (simp only: xor.assoc xor.commute [of c b])
qed

lemma map2_xor_less:
  "\<forall>x\<in>set xs. x < 256 \<Longrightarrow> \<forall>y\<in>set ys. y < 256 \<Longrightarrow> \<forall>z\<in>set (map2 (XOR) xs ys). z < (256 :: nat)"
  by (auto simp: in_set_zip xor_lt_256)


text \<open>The codec of the program: default arguments of the constructor.\<close>

lemma ReedSolomon_default:
  assumes "ReedSolomon 8 285 0 1 10 = Some rs"
  shows "myGalois rs = G" and "rs_codeLength rs = 255" and "nroots rs = 10" and "fcr rs = 0"
    and "prim rs = 1" and "iprim rs = 1" and "generator rs = map (poly2power G) gen10"
proof -
  have "iprim_loop 1 1 255 1 = Some 1" by simp
  moreover have "(2::nat) ^ 8 - 1 = 255" by simp
  ultimately have "rs = \<lparr>myGalois = G, symsize = 8, rs_codeLength = 255,
      generator = map (poly2power G) gen10, nroots = 10, fcr = 0, prim = 1, iprim = 1\<rparr>"
    using assms by (simp add: ReedSolomon_def Let_def generator_poly_10)
  then show "myGalois rs = G" and "rs_codeLength rs = 255" and "nroots rs = 10" and "fcr rs = 0"
    and "prim rs = 1" and "iprim rs = 1" and "generator rs = map (poly2power G) gen10"
    by simp_all
qed

lemma ReedSolomon_exists: "\<exists>rs. ReedSolomon 8 285 0 1 10 = Some rs"
  by (simp add: ReedSolomon_def Let_def)

text \<open>
  One encoder step is the shift register step with the generator's coefficients in polynomial form.
\<close>

definition shift_register :: "nat \<Rightarrow> nat list \<Rightarrow> nat list" where
  "shift_register x bb =
     map2 (XOR) (drop 1 bb @ [0]) (map (multiply_poly G (x XOR bb ! 0)) (drop 1 (rev gen10)))"

lemma gen10_nonzero: "j < 11 \<Longrightarrow> 0 < gen10 ! j \<and> gen10 ! j < 256"
proof -
  have "\<forall>x\<in>set gen10. 0 < x \<and> x < 256" by (simp add: gen10_def)
  moreover assume "j < 11"
  then have "gen10 ! j \<in> set gen10" by (intro nth_mem) (simp add: gen10_def)
  ultimately show ?thesis by blast
qed

lemma fold_update_map:
  "fold (\<lambda>j bb. bb[j := f j (bb ! j)]) [m..<n] xs =
    map (\<lambda>j. if m \<le> j \<and> j < n then f j (xs ! j) else xs ! j) [0..<length xs]"
proof (induction n)
  case 0
  show ?case by (simp add: map_nth)
next
  case (Suc n)
  show ?case
  proof (cases "m \<le> n")
    case True
    let ?ys = "map (\<lambda>j. if m \<le> j \<and> j < n then f j (xs ! j) else xs ! j) [0..<length xs]"
    have "fold (\<lambda>j bb. bb[j := f j (bb ! j)]) [m..<Suc n] xs = ?ys[n := f n (?ys ! n)]"
      using True Suc by simp
    also have "\<dots> = map (\<lambda>j. if m \<le> j \<and> j < Suc n then f j (xs ! j) else xs ! j) [0..<length xs]"
    proof (rule nth_equalityI)
      fix j assume "j < length (?ys[n := f n (?ys ! n)])"
      then show "?ys[n := f n (?ys ! n)] ! j =
          map (\<lambda>j. if m \<le> j \<and> j < Suc n then f j (xs ! j) else xs ! j) [0..<length xs] ! j"
        using True by (cases "j = n") auto
    qed simp
    finally show ?thesis .
  next
    case False
    then have "map (\<lambda>j. if m \<le> j \<and> j < Suc n then f j (xs ! j) else xs ! j) [0..<length xs] =
        map ((!) xs) [0..<length xs]" by (intro map_cong) auto
    with False show ?thesis by (simp add: map_nth)
  qed
qed

lemma encode_step_register:
  assumes "ReedSolomon 8 285 0 1 10 = Some rs" and "length bb = 10" and "x < 256" and "\<forall>b\<in>set bb. b < 256"
  shows "encode_step rs x bb = shift_register x bb"
proof -
  note rs = ReedSolomon_default [OF assms(1)]
  have len: "length gen10 = 11" by (simp add: gen10_def)
  define f where "f = x XOR bb ! 0"
  have "bb ! 0 < 256" using assms(2,4) by (simp add: nth_mem)
  then have f: "f < 256" using assms(3) by (simp add: f_def xor_lt_256)
  have coeff: "power2poly G (multiply_power G (poly2power G f) (generator rs ! j)) = multiply_poly G f (gen10 ! j)"
    if nz: "f \<noteq> 0" and j: "j < 11" for j
  proof -
    obtain k where k: "k < 255" "gen10 ! j = alph k"
      by (rule alph_surj [of "gen10 ! j"]) (use gen10_nonzero [OF j] in simp_all)
    have "generator rs ! j = k" using j k by (simp add: rs len) (simp add: poly2power_def G_index)
    then show ?thesis using power_mul [of f k] f nz k by simp
  qed
  have log: "poly2power G f \<noteq> 255 \<longleftrightarrow> f \<noteq> 0"
  proof (cases "f = 0")
    case True
    then show ?thesis by (simp add: poly2power_def G_index_0)
  next
    case False
    obtain k where "k < 255" "f = alph k" by (rule alph_surj [of f]) (use f False in simp_all)
    with False show ?thesis by (simp add: poly2power_def G_index)
  qed
  have rg: "drop 1 (rev gen10) ! j = gen10 ! (9 - j)" if "j < 10" for j
    using that by (simp add: rev_nth len)
  show ?thesis
  proof (cases "f = 0")
    case True
    then show ?thesis using assms(2)
      by (auto simp: encode_step_def shift_register_def Let_def rs add_poly_def list_eq_iff_nth_eq
          poly2power_def G_index_0 len nth_append simp flip: f_def)
  next
    case False
    define bb1 where "bb1 = map (\<lambda>j. if 1 \<le> j \<and> j < 10
      then bb ! j XOR power2poly G (multiply_power G (poly2power G f) (generator rs ! (10 - j)))
      else bb ! j) [0..<10]"
    have step: "encode_step rs x bb = drop 1 bb1 @ [multiply_poly G f (gen10 ! 0)]"
    proof -
      have "fold (\<lambda>j bb. bb[j := bb ! j XOR
          power2poly G (multiply_power G (poly2power G f) (generator rs ! (10 - j)))]) [1..<10] bb = bb1"
        unfolding bb1_def assms(2) [symmetric]
        by (rule fold_update_map [of "\<lambda>j b. b XOR
          power2poly G (multiply_power G (poly2power G f) (generator rs ! (length bb - j)))"])
      then show ?thesis
        using False log coeff [of 0] by (simp add: encode_step_def Let_def rs add_poly_def f_def)
    qed
    show ?thesis
    proof (rule nth_equalityI)
      show "length (encode_step rs x bb) = length (shift_register x bb)"
        by (simp add: step bb1_def shift_register_def assms(2) len)
      fix i assume "i < length (encode_step rs x bb)"
      then have i: "i < 10" by (simp add: step bb1_def)
      have sr: "shift_register x bb ! i = (drop 1 bb @ [0]) ! i XOR multiply_poly G f (gen10 ! (9 - i))"
        using i rg [OF i] by (simp add: shift_register_def assms(2) len f_def)
      show "encode_step rs x bb ! i = shift_register x bb ! i"
      proof (cases "i < 9")
        case True
        then have "bb1 ! (1 + i) = bb ! (1 + i) XOR multiply_poly G f (gen10 ! (9 - i))"
          using coeff [of "10 - (1 + i)"] False by (simp add: bb1_def)
        with True show ?thesis unfolding sr step by (simp add: nth_append bb1_def assms(2))
      next
        case False
        with i have "i = 9" by simp
        then show ?thesis unfolding sr step by (simp add: nth_append bb1_def assms(2))
      qed
    qed
  qed
qed

lemma shift_register_eval:
  assumes "length bb = 10" and "x < 256" and "\<forall>b\<in>set bb. b < 256" and "i < 10"
  shows "gf.horner (alph i) (shift_register x bb) =
    multiply_poly G (gf.horner (alph i) bb) (alph i) XOR multiply_poly G x (gf.pw (alph i) 10)"
proof -
  let ?r = "alph i"
  let ?g = "drop 1 (rev gen10)"
  define f where "f = x XOR bb ! 0"
  obtain b0 bs where bb: "bb = b0 # bs" using assms(1) by (cases bb) auto
  have b: "b0 < 256" "\<forall>b\<in>set bs. b < 256" "length bs = 9" using assms(1,3) by (auto simp: bb)
  have f: "f < 256" using assms(2) b by (simp add: f_def bb xor_lt_256)
  have g: "\<forall>x\<in>set ?g. x < 256" "length ?g = 10" by (simp_all add: gen10_def)
  have r: "?r < 256" by (rule alph_less)
  have p: "gf.pw ?r 9 < 256" "gf.pw ?r 10 < 256" "gf.horner ?r bs < 256"
    using r b by (simp_all add: gf.pw_closed gf.horner_closed)
  have p10: "gf.pw ?r 10 = multiply_poly G (gf.pw ?r 9) ?r" using gf.pw.simps(2) [of ?r 9] by simp
  have "rev gen10 = 1 # ?g" by (simp add: gen10_def)
  then have "gf.horner ?r (1 # ?g) = 0" using gen10_roots [OF assms(4)] by (simp only:)
  then have "gf.pw ?r 10 XOR gf.horner ?r ?g = 0"
    using gf.horner_Cons [OF r _ g(1), of 1] g(2) p by (simp add: gf.mul_one [simplified])
  then have gr: "gf.horner ?r ?g = gf.pw ?r 10" by (simp only: xor_eq_0_nat)
  have "gf.horner ?r (shift_register x bb) =
      gf.horner ?r (bs @ [0]) XOR gf.horner ?r (map (multiply_poly G f) ?g)"
    unfolding shift_register_def f_def [symmetric]
    by (subst gf.horner_xor [OF r]) (use b g f in \<open>auto simp: bb gf.mul_closed\<close>)
  also have "gf.horner ?r (map (multiply_poly G f) ?g) = multiply_poly G f (gf.pw ?r 10)"
    by (simp only: gf.horner_scale [OF r f g(1)] gr)
  also have "gf.horner ?r (bs @ [0]) = multiply_poly G (gf.horner ?r bs) ?r"
    by (simp add: gf.horner_snoc)
  also have "gf.horner ?r bs = gf.horner ?r bb XOR multiply_poly G b0 (gf.pw ?r 9)"
    using gf.horner_Cons [OF r b(1,2)] b(3) by (simp only: bb xor_cancel)
  also have "multiply_poly G f (gf.pw ?r 10) =
      multiply_poly G x (gf.pw ?r 10) XOR multiply_poly G b0 (gf.pw ?r 10)"
    using assms(2) b p by (simp add: f_def bb gf.mul_xor_left)
  also have "multiply_poly G (gf.horner ?r bb XOR multiply_poly G b0 (gf.pw ?r 9)) ?r =
      multiply_poly G (gf.horner ?r bb) ?r XOR multiply_poly G b0 (gf.pw ?r 10)"
    using b p r assms(3) gf.mul_xor_left [of "gf.horner ?r bb" "multiply_poly G b0 (gf.pw ?r 9)" ?r]
    by (simp add: gf.mul_closed gf.horner_closed gf.mul_assoc p10)
  finally show ?thesis by (simp only: xor_cancel_middle)
qed

lemma shift_register_closed:
  assumes "length bb = 10" and "x < 256" and "\<forall>b\<in>set bb. b < 256"
  shows "length (shift_register x bb) = 10" and "\<forall>b\<in>set (shift_register x bb). b < 256"
proof -
  have g: "\<forall>x\<in>set (drop 1 (rev gen10)). x < 256" "length (drop 1 (rev gen10)) = 10"
    by (simp_all add: gen10_def)
  have "x XOR bb ! 0 < 256" using assms by (simp add: xor_lt_256)
  with g(1) have m: "\<forall>y\<in>set (map (multiply_poly G (x XOR bb ! 0)) (drop 1 (rev gen10))). y < 256"
    by (auto simp del: One_nat_def intro: gf.mul_closed)
  have "\<forall>y\<in>set (drop 1 bb @ [0]). y < 256" using assms(3) by (auto dest: in_set_dropD)
  with m show "\<forall>b\<in>set (shift_register x bb). b < 256"
    unfolding shift_register_def by (intro map2_xor_less)
  show "length (shift_register x bb) = 10"
    using assms(1) g(2) by (simp add: shift_register_def)
qed

lemma encode_rs_eval:
  assumes "ReedSolomon 8 285 0 1 10 = Some rs" and "length xs = 255" and "\<forall>x\<in>set xs. x < 256" and "i < 10"
  shows "length (encode_rs rs xs) = 10" and "\<forall>b\<in>set (encode_rs rs xs). b < 256"
    and "gf.horner (alph i) (encode_rs rs xs) =
      multiply_poly G (gf.horner (alph i) (take 245 xs)) (gf.pw (alph i) 10)"
proof -
  let ?r = "alph i"
  have r: "?r < 256" "gf.pw ?r 10 < 256" by (simp_all add: alph_less gf.pw_closed)
  define bbs where "bbs = (\<lambda>k. foldl (\<lambda>bb j. encode_step rs (xs ! j) bb) (replicate 10 0) [0..<k])"
  have inv: "length (bbs k) = 10 \<and> (\<forall>b\<in>set (bbs k). b < 256) \<and>
      gf.horner ?r (bbs k) = multiply_poly G (gf.horner ?r (take k xs)) (gf.pw ?r 10)" if "k \<le> 245" for k
    using that
  proof (induction k)
    case 0
    have "gf.horner ?r (replicate n 0) = 0" for n
      by (induction n) (simp_all add: replicate_append_same [symmetric] gf.horner_snoc)
    then show ?case by (simp add: bbs_def)
  next
    case (Suc k)
    then have IH: "length (bbs k) = 10" "\<forall>b\<in>set (bbs k). b < 256"
      "gf.horner ?r (bbs k) = multiply_poly G (gf.horner ?r (take k xs)) (gf.pw ?r 10)" by simp_all
    have x: "xs ! k < 256" "k < length xs" using Suc.prems assms(2,3) by simp_all
    have step: "bbs (Suc k) = shift_register (xs ! k) (bbs k)"
      using encode_step_register [OF assms(1) IH(1) x(1) IH(2)] by (simp add: bbs_def)
    have t: "gf.horner ?r (take k xs) < 256" using assms(3) r by (auto intro!: gf.horner_closed dest: in_set_takeD)
    have "gf.horner ?r (take (Suc k) xs) = multiply_poly G (gf.horner ?r (take k xs)) ?r XOR xs ! k"
      using x(2) by (simp add: take_Suc_conv_app_nth gf.horner_snoc)
    then have "multiply_poly G (gf.horner ?r (take (Suc k) xs)) (gf.pw ?r 10) =
        multiply_poly G (multiply_poly G (gf.horner ?r (take k xs)) (gf.pw ?r 10)) ?r XOR
        multiply_poly G (xs ! k) (gf.pw ?r 10)"
    proof -
      let ?H = "gf.horner ?r (take k xs)"
      have "multiply_poly G (multiply_poly G ?H ?r) (gf.pw ?r 10) = multiply_poly G ?H (multiply_poly G ?r (gf.pw ?r 10))"
        by (rule gf.mul_assoc [OF t r])
      also have "multiply_poly G ?r (gf.pw ?r 10) = multiply_poly G (gf.pw ?r 10) ?r" by (rule gf.mul_comm [OF r])
      also have "multiply_poly G ?H \<dots> = multiply_poly G (multiply_poly G ?H (gf.pw ?r 10)) ?r"
        by (rule gf.mul_assoc [OF t r(2,1), symmetric])
      finally have swap: "multiply_poly G (multiply_poly G ?H ?r) (gf.pw ?r 10) =
        multiply_poly G (multiply_poly G ?H (gf.pw ?r 10)) ?r" .
      have "multiply_poly G ?H ?r < 256" by (rule gf.mul_closed [OF t r(1)])
      from gf.mul_xor_left [OF this x(1) r(2)] show ?thesis
        by (simp only: swap \<open>gf.horner ?r (take (Suc k) xs) = multiply_poly G ?H ?r XOR xs ! k\<close>)
    qed
    then have "gf.horner ?r (bbs (Suc k)) = multiply_poly G (gf.horner ?r (take (Suc k) xs)) (gf.pw ?r 10)"
      by (simp only: step shift_register_eval [OF IH(1) x(1) IH(2) assms(4)] IH(3))
    with shift_register_closed [OF IH(1) x(1) IH(2)] show ?case by (simp only: step simp_thms)
  qed
  have "encode_rs rs xs = bbs 245"
    by (simp add: encode_rs_def bbs_def ReedSolomon_default [OF assms(1)])
  with inv [of 245] show "length (encode_rs rs xs) = 10" and "\<forall>b\<in>set (encode_rs rs xs). b < 256"
    and "gf.horner (alph i) (encode_rs rs xs) =
      multiply_poly G (gf.horner (alph i) (take 245 xs)) (gf.pw (alph i) 10)"
    by simp_all
qed

section \<open>Syndromes\<close>

lemma getSyndrome_horner:
  assumes "ReedSolomon 8 285 0 1 10 = Some rs" and "length xs = 255" and "\<forall>x\<in>set xs. x < 256" and "i < 10"
  shows "getSyndrome rs xs i = gf.horner (alph i) xs"
proof -
  note rs = ReedSolomon_default [OF assms(1)]
  have uu: "pow_power G (multiply_power G 0 i) 1 = i"
    using assms(4) by (simp add: pow_power_def multiply_power_def G_modnn G_fields)
  define F where "F = (\<lambda>syn x. if syn = 0 then x
      else add_poly x (power2poly G (multiply_power G (poly2power G syn) i)))"
  have F: "F syn x = multiply_poly G syn (alph i) XOR x" if "syn < 256" for syn x
    using that by (simp add: F_def add_poly_def power_mul xor.commute)
  have run: "foldl (\<lambda>syn j. F syn (xs ! j)) (xs ! 0) [1..<Suc n] = gf.horner (alph i) (take (Suc n) xs)"
    if "n < 255" for n
    using that
  proof (induction n)
    case 0
    then show ?case using assms(2) by (simp add: take_Suc_conv_app_nth gf.horner_def)
  next
    case (Suc n)
    have "gf.horner (alph i) (take (Suc n) xs) < 256"
      using assms(3) alph_less by (auto intro!: gf.horner_closed dest: in_set_takeD)
    moreover have "take (Suc (Suc n)) xs = take (Suc n) xs @ [xs ! Suc n]"
      using Suc.prems assms(2) by (intro take_Suc_conv_app_nth) simp
    ultimately show ?case using Suc by (simp add: F gf.horner_snoc)
  qed
  have "getSyndrome rs xs i = foldl (\<lambda>syn j. F syn (xs ! j)) (xs ! 0) [1..<Suc 254]"
    unfolding getSyndrome_def rs Let_def uu F_def by simp
  then show ?thesis using run [of 254] assms(2) by simp
qed

lemma foldl_or_zero: "(\<forall>x\<in>set xs. x = 0) \<Longrightarrow> foldl (OR) 0 xs = (0 :: nat)"
  by (induction xs rule: rev_induct) simp_all

lemma codeword_syndromes:
  assumes "ReedSolomon 8 285 0 1 10 = Some rs" and "length xs = 255" and "\<forall>x\<in>set xs. x < 256" and i: "i < 10"
  shows "gf.horner (alph i) (take 245 xs @ encode_rs rs xs) = 0"
proof -
  note e = encode_rs_eval [OF assms(1-3) i]
  have d: "\<forall>x\<in>set (take 245 xs). x < 256" using assms(3) by (auto dest: in_set_takeD)
  show ?thesis using e gf.horner_append [OF alph_less d e(2)] by simp
qed

lemma codeword_clean:
  assumes "ReedSolomon 8 285 0 1 10 = Some rs" and "length xs = 255" and "\<forall>x\<in>set xs. x < 256"
  shows "decode_rs rs (take 245 xs @ encode_rs rs xs) = (0, take 245 xs @ encode_rs rs xs)"
proof -
  let ?w = "take 245 xs @ encode_rs rs xs"
  note rs = ReedSolomon_default [OF assms(1)]
  note e = encode_rs_eval [OF assms]
  have "getSyndrome rs ?w i = 0" if i: "i < 10" for i
  proof -
    have "getSyndrome rs ?w i = gf.horner (alph i) ?w"
      using e(1,2) [OF i] assms(2,3) by (intro getSyndrome_horner [OF assms(1) _ _ i]) (auto dest: in_set_takeD)
    then show ?thesis using codeword_syndromes [OF assms i] by simp
  qed
  then have "foldl (OR) 0 (map (getSyndrome rs ?w) [0..<nroots rs]) = 0"
    by (intro foldl_or_zero) (simp add: rs)
  then show ?thesis by (simp add: decode_rs_def computeSyndromes_def Let_def)
qed

lemma rs_identity:
  assumes "ReedSolomon 8 285 0 1 10 = Some rs" and "cutlen \<le> 245" and "length r = 255 - cutlen"
    and "\<forall>x\<in>set r. x < 256"
  shows "dec rs (enc rs r cutlen) cutlen = (0, take (245 - cutlen) r)"
proof -
  note rs = ReedSolomon_default [OF assms(1)]
  define rf where "rf = replicate cutlen 0 @ r"
  have rf: "length rf = 255" "\<forall>x\<in>set rf. x < 256" using assms by (auto simp: rf_def)
  have len: "length (encode_rs rs rf) = 10" by (rule encode_rs_eval(1) [OF assms(1) rf, of 0]) simp
  have enc: "enc rs r cutlen = take (245 - cutlen) r @ encode_rs rs rf"
    using assms(2,3) by (simp add: enc_def rs Let_def rf_def)
  have "replicate cutlen 0 @ take (255 - cutlen) (enc rs r cutlen) = take 245 rf @ encode_rs rs rf"
    using assms(2,3) len by (simp add: enc rf_def)
  then have "dec rs (enc rs r cutlen) cutlen = (0, drop cutlen (take 245 (take 245 rf @ encode_rs rs rf)))"
    using codeword_clean [OF assms(1) rf] by (simp only: dec_def rs Let_def prod.case) simp
  also have "drop cutlen (take 245 (take 245 rf @ encode_rs rs rf)) = take (245 - cutlen) r"
    using assms(2,3) rf(1) by (simp add: rf_def)
  finally show ?thesis .
qed

lemma enc_bytes:
  assumes "ReedSolomon 8 285 0 1 10 = Some rs" and "cutlen \<le> 245" and "length r = 255 - cutlen"
    and "\<forall>x\<in>set r. x < 256"
  shows "length (enc rs r cutlen) = 255 - cutlen \<and> (\<forall>x\<in>set (enc rs r cutlen). x < 256) \<and>
    take (245 - cutlen) (enc rs r cutlen) = take (245 - cutlen) r"
proof -
  note rs = ReedSolomon_default [OF assms(1)]
  define rf where "rf = replicate cutlen 0 @ r"
  have rf: "length rf = 255" "\<forall>x\<in>set rf. x < 256" using assms by (auto simp: rf_def)
  note e = encode_rs_eval [OF assms(1) rf, of 0]
  have "enc rs r cutlen = take (245 - cutlen) r @ encode_rs rs rf"
    using assms(2,3) by (simp add: enc_def rs Let_def rf_def)
  moreover have "\<forall>x\<in>set (take (245 - cutlen) r). x < 256" using assms(4) by (auto dest: in_set_takeD)
  ultimately show ?thesis using e assms(2,3) by auto
qed

end
