(* ===== verification/Key_Equation.thy ===== *)
theory Key_Equation
  imports Complex_Main
begin

text \<open>
  The algebra behind the Reed-Solomon decoder, over any field: linear recurrences and the iteration of
  Berlekamp and Massey, and the key equation that ties the recurrence of the syndromes to the places
  and values of the errors.  Polynomials are functions from exponents to coefficients.
\<close>

section \<open>Recurrences\<close>

text \<open>The coefficient of \<open>z ^ k\<close> in the product of \<open>P\<close> and the power series \<open>S\<close>.\<close>

definition conv :: "(nat \<Rightarrow> 'a::field) \<Rightarrow> (nat \<Rightarrow> 'a) \<Rightarrow> nat \<Rightarrow> 'a" where
  "conv P S k = (\<Sum>i\<le>k. P i * S (k - i))"

definition degree_le :: "(nat \<Rightarrow> 'a::field) \<Rightarrow> nat \<Rightarrow> bool" where
  "degree_le P n \<longleftrightarrow> (\<forall>i>n. P i = 0)"

text \<open>\<open>P\<close> is a recurrence of length \<open>L\<close> for the first \<open>n\<close> elements of \<open>S\<close>.\<close>

definition recurrence :: "(nat \<Rightarrow> 'a::field) \<Rightarrow> nat \<Rightarrow> (nat \<Rightarrow> 'a) \<Rightarrow> nat \<Rightarrow> bool" where
  "recurrence P L S n \<longleftrightarrow> P 0 = 1 \<and> degree_le P L \<and> (\<forall>k. L \<le> k \<and> k < n \<longrightarrow> conv P S k = 0)"

definition shift :: "(nat \<Rightarrow> 'a::field) \<Rightarrow> nat \<Rightarrow> 'a" where
  "shift P i = (case i of 0 \<Rightarrow> 0 | Suc j \<Rightarrow> P j)"

lemma conv_shift: "conv (shift P) S k = (case k of 0 \<Rightarrow> 0 | Suc j \<Rightarrow> conv P S j)"
  by (cases k) (simp_all add: conv_def shift_def sum.atMost_Suc_shift del: sum.atMost_Suc)

lemma conv_linear:
  "conv (\<lambda>i. P i - c * Q i) S k = conv P S k - c * conv Q S k" "conv (\<lambda>i. P i / c) S k = conv P S k / c"
  by (simp_all add: conv_def sum_subtractf sum_distrib_left sum_divide_distrib algebra_simps)

lemma conv_degree:
  assumes "degree_le P n" "n \<le> k"
  shows "conv P S k = (\<Sum>i\<le>n. P i * S (k - i))"
  unfolding conv_def using assms by (intro sum.mono_neutral_right) (auto simp: degree_le_def)

text \<open>
  A recurrence that fails at \<open>k\<close> forces every recurrence that does not fail to be long: both count the
  same double sum.
\<close>

lemma recurrence_length:
  assumes "recurrence Q L S k" "conv Q S k \<noteq> 0" "recurrence P l S n" "k < n"
  shows "k + 1 \<le> l + L"
proof (rule ccontr)
  assume "\<not> k + 1 \<le> l + L"
  then have k: "l + L \<le> k"
    by simp
  have Q: "degree_le Q L" and P: "degree_le P l" "P 0 = 1"
    using assms(1,3) by (simp_all add: recurrence_def)
  have "(\<Sum>i\<le>L. \<Sum>p\<le>l. Q i * (P p * S (k - i - p))) = 0"
  proof (rule sum.neutral, rule ballI)
    fix i assume "i \<in> {..L}"
    then have "l \<le> k - i" "k - i < n"
      using k assms(4) by auto
    then have "conv P S (k - i) = 0"
      using assms(3) by (simp add: recurrence_def)
    then show "(\<Sum>p\<le>l. Q i * (P p * S (k - i - p))) = 0"
      using conv_degree [OF P(1) \<open>l \<le> k - i\<close>] by (simp flip: sum_distrib_left)
  qed
  moreover have "(\<Sum>i\<le>L. \<Sum>p\<le>l. Q i * (P p * S (k - i - p))) = (\<Sum>p\<le>l. P p * conv Q S (k - p))"
  proof -
    have "(\<Sum>i\<le>L. Q i * (P p * S (k - i - p))) = P p * conv Q S (k - p)" if "p \<le> l" for p
    proof -
      have "L \<le> k - p" "\<And>i. k - i - p = k - p - i"
        using that k by auto
      then show ?thesis
        using conv_degree [OF Q, of "k - p"] by (simp add: sum_distrib_left algebra_simps)
    qed
    then show ?thesis
      by (subst sum.swap) simp
  qed
  moreover have "(\<Sum>p\<le>l. P p * conv Q S (k - p)) = conv Q S k"
  proof -
    have "conv Q S (k - p) = 0" if "p \<in> {..l} - {0}" for p
      using that k assms(1) by (auto simp: recurrence_def)
    then have "(\<Sum>p\<le>l. P p * conv Q S (k - p)) = (\<Sum>p\<in>{0}. P p * conv Q S (k - p))"
      by (intro sum.mono_neutral_right) auto
    then show ?thesis
      using P(2) by simp
  qed
  ultimately show False
    using assms(2) by simp
qed

section \<open>The iteration of Berlekamp and Massey\<close>

text \<open>
  Length, recurrence, corrector and discrepancy; the corrector is a multiple of the recurrence before
  the last change of the length, moved so that it repairs the current discrepancy.
\<close>

type_synonym 'a bm = "nat \<times> (nat \<Rightarrow> 'a) \<times> (nat \<Rightarrow> 'a) \<times> 'a"

definition bm_start :: "(nat \<Rightarrow> 'a::field) \<Rightarrow> 'a bm" where
  "bm_start S = (0, (\<lambda>i. if i = 0 then 1 else 0), (\<lambda>i. if i = 1 then 1 else 0), S 0)"

definition bm_step :: "(nat \<Rightarrow> 'a::field) \<Rightarrow> nat \<Rightarrow> 'a bm \<Rightarrow> 'a bm" where
  "bm_step S K = (\<lambda>(L, P, C, e).
     let P' = (\<lambda>i. P i - e * C i);
         (L', C') = (if 2 * L < K \<and> e \<noteq> 0 then (K - L, \<lambda>i. P i / e) else (L, C))
     in (L', P', shift C', conv P' S K))"

text \<open>Before the first change of the length everything is zero; afterwards the corrector has discrepancy one.\<close>

definition bm_inv :: "(nat \<Rightarrow> 'a::field) \<Rightarrow> nat \<Rightarrow> 'a bm \<Rightarrow> bool" where
  "bm_inv S k = (\<lambda>(L, P, C, e). recurrence P L S k \<and> e = conv P S k \<and> L \<le> k \<and> C 0 = 0 \<and> degree_le C (k + 1 - L) \<and>
     (if L = 0 then C = (\<lambda>i. if i = k + 1 then 1 else 0)
      else conv C S k = 1 \<and> (\<forall>j. k + 1 - L \<le> j \<and> j < k \<longrightarrow> conv C S j = 0)))"

lemma bm_start_inv: "bm_inv S 0 (bm_start S)"
  by (auto simp: bm_inv_def bm_start_def recurrence_def degree_le_def conv_def)

lemma shift_degree: "degree_le C n \<Longrightarrow> degree_le (shift C) (Suc n)"
  by (auto simp: degree_le_def shift_def split: nat.splits)

lemma degree_le_mono: "degree_le P m \<Longrightarrow> m \<le> n \<Longrightarrow> degree_le P n"
  by (simp add: degree_le_def)

lemma corrected_recurrence:
  assumes "recurrence P L S k" "e = conv P S k" "C 0 = 0" "degree_le C (k + 1 - L)" "L \<le> L'"
    and c: "e \<noteq> 0 \<Longrightarrow> k + 1 - L \<le> L'" "\<And>j. e \<noteq> 0 \<Longrightarrow> L' \<le> j \<Longrightarrow> j < k \<Longrightarrow> conv C S j = 0" "e \<noteq> 0 \<Longrightarrow> L' \<le> k \<Longrightarrow> conv C S k = 1"
  shows "recurrence (\<lambda>i. P i - e * C i) L' S (Suc k)"
proof -
  have P: "P 0 = 1" "degree_le P L" "\<And>j. L \<le> j \<Longrightarrow> j < k \<Longrightarrow> conv P S j = 0"
    using assms(1) by (auto simp: recurrence_def)
  have "conv P S j - e * conv C S j = 0" if j: "L' \<le> j" "j < Suc k" for j
  proof (cases "j = k")
    case True
    then show ?thesis
      using c(3) j assms(2) by (cases "e = 0") simp_all
  next
    case False
    then show ?thesis
      using c(2) [of j] P(3) [of j] j assms(5) by (cases "e = 0") simp_all
  qed
  moreover have "degree_le (\<lambda>i. P i - e * C i) L'"
    using P(2) assms(4,5) c(1) by (cases "e = 0") (auto simp: degree_le_def)
  ultimately show ?thesis
    using P(1) assms(3) by (simp add: recurrence_def conv_linear)
qed

lemma bm_step_inv:
  assumes "bm_inv S k (L, P, C, e)"
  shows "bm_inv S (Suc k) (bm_step S (Suc k) (L, P, C, e))"
proof -
  let ?P = "\<lambda>i. P i - e * C i"
  have P: "recurrence P L S k" "e = conv P S k" "L \<le> k" "C 0 = 0" "degree_le C (k + 1 - L)"
    and C: "L = 0 \<Longrightarrow> C = (\<lambda>i. if i = k + 1 then 1 else 0)" "L \<noteq> 0 \<Longrightarrow> conv C S k = 1"
      "\<And>j. L \<noteq> 0 \<Longrightarrow> k + 1 - L \<le> j \<Longrightarrow> j < k \<Longrightarrow> conv C S j = 0"
    using assms by (auto simp: bm_inv_def split: if_splits)
  have k: "Suc (k + 1 - L) = Suc k + 1 - L"
    using P(3) by simp
  show ?thesis
  proof (cases "2 * L < Suc k \<and> e \<noteq> 0")
    case True
    have "recurrence ?P (Suc k - L) S (Suc k)"
      using True C P by (intro corrected_recurrence [where L = L]) auto
    moreover have "degree_le (shift (\<lambda>i. P i / e)) (Suc L)"
      using P(1) by (intro shift_degree) (simp add: recurrence_def degree_le_def)
    moreover have "conv (shift (\<lambda>i. P i / e)) S (Suc k) = 1"
      using True P(2) by (simp add: conv_shift conv_linear)
    moreover have "conv (shift (\<lambda>i. P i / e)) S j = 0" if "Suc L \<le> j" "j < Suc k" for j
      using that P(1) by (cases j) (auto simp: conv_shift conv_linear recurrence_def)
    ultimately show ?thesis
      using True P(3) by (auto simp: bm_inv_def bm_step_def Let_def shift_def)
  next
    case False
    have "recurrence ?P L S (Suc k)"
      using False C P by (intro corrected_recurrence [where L = L]) auto
    moreover have "degree_le (shift C) (Suc k + 1 - L)"
      using shift_degree [OF P(5)] by (simp only: k)
    moreover have "shift C = (\<lambda>i. if i = Suc k + 1 then 1 else 0)" if "L = 0"
      using C(1) [OF that] by (auto simp: shift_def split: nat.splits)
    moreover have "conv (shift C) S (Suc k) = 1" if "L \<noteq> 0"
      using C(2) [OF that] by (simp add: conv_shift)
    moreover have "conv (shift C) S j = 0" if "L \<noteq> 0" "Suc k + 1 - L \<le> j" "j < Suc k" for j
      using C(3) [OF that(1), of "j - 1"] that by (cases j) (auto simp: conv_shift)
    ultimately show ?thesis
      using False P(3) by (auto simp: bm_inv_def bm_step_def Let_def shift_def split: if_splits)
  qed
qed

definition bm_run :: "(nat \<Rightarrow> 'a::field) \<Rightarrow> nat \<Rightarrow> 'a bm" where
  "bm_run S k = fold (bm_step S) [1..<Suc k] (bm_start S)"

lemma bm_run_Suc: "bm_run S (Suc k) = bm_step S (Suc k) (bm_run S k)"
  by (simp add: bm_run_def)

text \<open>The length never exceeds that of any recurrence for the whole sequence.\<close>

lemma bm_minimal:
  assumes "recurrence Q l S n" "k < n"
  shows "bm_inv S k (bm_run S k) \<and> fst (bm_run S k) \<le> l"
  using assms(2)
proof (induction k)
  case 0
  then show ?case
    using bm_start_inv [of S] by (simp add: bm_run_def bm_start_def)
next
  case (Suc k)
  obtain L P C e where r: "bm_run S k = (L, P, C, e)"
    by (cases "bm_run S k")
  then have inv: "bm_inv S k (L, P, C, e)" "L \<le> l"
    using Suc by auto
  then have "e \<noteq> 0 \<Longrightarrow> k + 1 \<le> l + L"
    using recurrence_length [OF _ _ assms(1), of P L k] Suc.prems by (auto simp: bm_inv_def)
  then show ?case
    using bm_step_inv [OF inv(1)] inv(2) by (auto simp: bm_run_Suc r bm_step_def Let_def)
qed

definition bm_result :: "(nat \<Rightarrow> 'a::field) \<Rightarrow> nat \<Rightarrow> nat \<Rightarrow> 'a" where
  "bm_result S n = (case bm_run S (n - 1) of (L, P, C, e) \<Rightarrow> \<lambda>i. P i - e * C i)"

lemma bm_result_recurrence:
  assumes "recurrence Q l S n" "0 < n"
  shows "\<exists>L\<le>l. recurrence (bm_result S n) L S n"
proof -
  obtain L P C e where r: "bm_run S (n - 1) = (L, P, C, e)"
    by (cases "bm_run S (n - 1)")
  have inv: "bm_inv S (n - 1) (L, P, C, e)" "L \<le> l"
    using bm_minimal [OF assms(1), of "n - 1"] assms(2) r by simp_all
  have e: "e \<noteq> 0 \<Longrightarrow> n \<le> l + L"
    using recurrence_length [OF _ _ assms(1), of P L "n - 1"] inv(1) assms(2) by (auto simp: bm_inv_def)
  have "bm_inv S (Suc (n - 1)) (bm_step S (Suc (n - 1)) (L, P, C, e))"
    by (rule bm_step_inv [OF inv(1)])
  then have "recurrence (\<lambda>i. P i - e * C i) (if 2 * L < n \<and> e \<noteq> 0 then n - L else L) S n"
    using assms(2) by (auto simp: bm_step_def bm_inv_def Let_def split: if_splits)
  moreover have "bm_result S n = (\<lambda>i. P i - e * C i)"
    unfolding bm_result_def r by simp
  moreover have "(if 2 * L < n \<and> e \<noteq> 0 then n - L else L) \<le> l"
    using inv(2) e by auto
  ultimately show ?thesis
    by metis
qed

section \<open>Sums of powers\<close>

lemma vandermonde:
  fixes a X :: "'b \<Rightarrow> 'a::field"
  assumes "finite A" "inj_on X A" "\<And>t. t < card A \<Longrightarrow> (\<Sum>i\<in>A. a i * X i ^ t) = 0" "i \<in> A"
  shows "a i = 0"
  using assms
proof (induction A arbitrary: a i rule: finite_induct)
  case (insert b A)
  have "a j * (X j - X b) = 0" if "j \<in> A" for j
  proof (rule insert.IH [OF _ _ that])
    show "(\<Sum>i\<in>A. a i * (X i - X b) * X i ^ t) = 0" if "t < card A" for t
    proof -
      have "(\<Sum>i\<in>insert b A. a i * X i ^ Suc t) - X b * (\<Sum>i\<in>insert b A. a i * X i ^ t) = 0"
        using insert.prems(2) [of t] insert.prems(2) [of "Suc t"] insert.hyps that by simp
      also have "(\<Sum>i\<in>insert b A. a i * X i ^ Suc t) - X b * (\<Sum>i\<in>insert b A. a i * X i ^ t) =
          (\<Sum>i\<in>insert b A. a i * (X i - X b) * X i ^ t)"
        by (simp add: sum_distrib_left sum_subtractf [symmetric] algebra_simps del: sum.insert)
      finally show ?thesis
        using insert.hyps by simp
    qed
  qed (use insert.prems(1) in auto)
  moreover have "X j \<noteq> X b" if "j \<in> A" for j
    using insert.prems(1) insert.hyps(2) that by (metis inj_on_insert imageI insert_Diff_single Diff_insert_absorb)
  ultimately have z: "a j = 0" if "j \<in> A" for j
    using that by simp
  then have "(\<Sum>i\<in>A. a i * X i ^ 0) = 0"
    by (intro sum.neutral) simp
  then have "a b = 0"
    using insert.prems(2) [of 0] insert.hyps by simp
  then show ?case
    using z insert.prems(3) by auto
qed simp

lemma root_bound:
  fixes c :: "nat \<Rightarrow> 'a::field"
  assumes "finite A" "n < card A" "\<And>x. x \<in> A \<Longrightarrow> (\<Sum>i\<le>n. c i * x ^ i) = 0" "i \<le> n"
  shows "c i = 0"
  using assms
proof (induction n arbitrary: A c i)
  case 0
  then obtain x where "x \<in> A"
    by (metis card.empty ex_in_conv less_nat_zero_code)
  then show ?case
    using 0 by fastforce
next
  case (Suc n)
  obtain a where a: "a \<in> A"
    using Suc.prems(2) by (metis card.empty ex_in_conv less_nat_zero_code)
  define b where "b = (\<lambda>j. \<Sum>i=Suc j..Suc n. c i * a ^ (i - j - 1))"
  have card: "n < card (A - {a})"
    using a Suc.prems(1,2) by simp
  have "(\<Sum>j\<le>n. b j * x ^ j) = 0" if "x \<in> A - {a}" for x
  proof -
    have "(x - a) * (\<Sum>j<Suc n. b j * x ^ j) = (\<Sum>i\<le>Suc n. c i * x ^ i) - (\<Sum>i\<le>Suc n. c i * a ^ i)"
      using polyfun_diff [of "Suc n" c x a] by (simp add: b_def)
    also have "\<dots> = 0"
      using Suc.prems(3) a that by simp
    finally show ?thesis
      using that by (simp add: lessThan_Suc_atMost)
  qed
  then have "b n = 0"
    using Suc.IH [OF _ card, of b n] Suc.prems(1) by simp
  then have top: "c (Suc n) = 0"
    by (simp add: b_def)
  then have "(\<Sum>i\<le>n. c i * x ^ i) = 0" if "x \<in> A - {a}" for x
    using Suc.prems(3) [of x] that by simp
  then have "\<And>i. i \<le> n \<Longrightarrow> c i = 0"
    using Suc.IH [OF _ card, of c] Suc.prems(1) by simp
  then show ?case
    using top Suc.prems(4) by (cases "i = Suc n") auto
qed

section \<open>Errors and syndromes\<close>

text \<open>
  Errors at the places \<open>E\<close> with locators \<open>X\<close> and values \<open>Y\<close> give the syndromes \<open>S\<close>.  The polynomial
  with the inverse locators as roots is a recurrence for them, and so is the result of the iteration;
  the latter then has the same roots.
\<close>

definition syndromes_of :: "'b set \<Rightarrow> ('b \<Rightarrow> 'a::field) \<Rightarrow> ('b \<Rightarrow> 'a) \<Rightarrow> nat \<Rightarrow> 'a" where
  "syndromes_of E X Y k = (\<Sum>i\<in>E. Y i * X i ^ k)"

definition peval :: "(nat \<Rightarrow> 'a::field) \<Rightarrow> nat \<Rightarrow> 'a \<Rightarrow> 'a" where
  "peval P n z = (\<Sum>i\<le>n. P i * z ^ i)"

lemma conv_syndromes:
  assumes "\<And>i. i \<in> E \<Longrightarrow> X i \<noteq> 0" "degree_le P n" "n \<le> k"
  shows "conv P (syndromes_of E X Y) k = (\<Sum>i\<in>E. Y i * X i ^ k * peval P n (1 / X i))"
proof -
  have "conv P (syndromes_of E X Y) k = (\<Sum>p\<le>n. \<Sum>i\<in>E. P p * (Y i * X i ^ (k - p)))"
    unfolding conv_degree [OF assms(2,3)] by (simp add: syndromes_of_def sum_distrib_left)
  also have "\<dots> = (\<Sum>i\<in>E. \<Sum>p\<le>n. P p * (Y i * X i ^ (k - p)))"
    by (rule sum.swap)
  also have "\<dots> = (\<Sum>i\<in>E. Y i * X i ^ k * peval P n (1 / X i))"
  proof (rule sum.cong [OF refl])
    fix i assume i: "i \<in> E"
    have "X i ^ (k - p) = X i ^ k * (1 / X i) ^ p" if "p \<le> n" for p
      using assms(1) [OF i] assms(3) that by (simp add: power_diff power_divide)
    then show "(\<Sum>p\<le>n. P p * (Y i * X i ^ (k - p))) = Y i * X i ^ k * peval P n (1 / X i)"
      unfolding peval_def sum_distrib_left by (intro sum.cong) (simp_all add: algebra_simps)
  qed
  finally show ?thesis .
qed

fun locator :: "'a::field list \<Rightarrow> nat \<Rightarrow> 'a" where
  "locator [] = (\<lambda>i. if i = 0 then 1 else 0)"
| "locator (x # xs) = (\<lambda>i. locator xs i - x * shift (locator xs) i)"

lemma locator_degree: "degree_le (locator xs) (length xs) \<and> locator xs 0 = 1"
  by (induction xs) (auto simp: degree_le_def shift_def split: nat.splits)

lemma locator_eval: "peval (locator xs) (length xs) z = (\<Prod>x\<leftarrow>xs. 1 - x * z)"
proof (induction xs)
  case (Cons x xs)
  let ?P = "locator xs" and ?n = "length xs"
  have "?P (Suc ?n) = 0"
    using locator_degree [of xs] by (simp add: degree_le_def)
  moreover have "(\<Sum>i\<le>Suc ?n. shift ?P i * z ^ i) = z * (\<Sum>i\<le>?n. ?P i * z ^ i)"
    by (simp add: sum.atMost_Suc_shift shift_def sum_distrib_left algebra_simps del: sum.atMost_Suc)
  moreover have "peval (locator (x # xs)) (Suc ?n) z = (\<Sum>i\<le>Suc ?n. ?P i * z ^ i) - x * (\<Sum>i\<le>Suc ?n. shift ?P i * z ^ i)"
    unfolding peval_def by (simp only: locator.simps left_diff_distrib sum_subtractf sum_distrib_left mult.assoc)
  ultimately show ?case
    using Cons by (simp add: peval_def algebra_simps)
qed (simp add: peval_def)

lemma locator_recurrence:
  assumes "finite E" "\<And>i. i \<in> E \<Longrightarrow> X i \<noteq> 0"
  shows "\<exists>P. recurrence P (card E) (syndromes_of E X Y) n"
proof -
  obtain es where es: "set es = E" "distinct es"
    using assms(1) finite_distinct_list by blast
  let ?P = "locator (map X es)"
  have n: "length (map X es) = card E"
    using es distinct_card by fastforce
  have "conv ?P (syndromes_of E X Y) k = 0" if "card E \<le> k" for k
  proof -
    have "peval ?P (card E) (1 / X i) = 0" if "i \<in> E" for i
      using that assms(2) es locator_eval [of "map X es" "1 / X i"] unfolding n by (auto simp: prod_list_zero_iff)
    then show ?thesis
      using conv_syndromes [where E = E and X = X and Y = Y and P = ?P, OF assms(2) _ that] locator_degree [of "map X es"]
      unfolding n by simp
  qed
  then show ?thesis
    using locator_degree [of "map X es"] unfolding n by (auto simp: recurrence_def)
qed

text \<open>What a decoder needs to know of a recurrence \<open>P\<close> for the syndromes.\<close>

lemma recurrence_roots:
  assumes E: "finite E" "inj_on X E" "\<And>i. i \<in> E \<Longrightarrow> X i \<noteq> 0" "\<And>i. i \<in> E \<Longrightarrow> Y i \<noteq> 0"
    and P: "recurrence P L (syndromes_of E X Y) n" "L \<le> card E" "2 * card E \<le> n"
  shows "degree_le P (card E)" "peval P (card E) z = 0 \<longleftrightarrow> (\<exists>i\<in>E. z = 1 / X i)" "P (card E) \<noteq> 0"
proof -
  let ?n = "card E"
  show deg: "degree_le P ?n"
    using P(1,2) by (simp add: recurrence_def degree_le_def)
  have P0: "P 0 = 1"
    using P(1) by (simp add: recurrence_def)
  have roots: "peval P ?n (1 / X i) = 0" if "i \<in> E" for i
  proof -
    have "(\<Sum>j\<in>E. (Y j * X j ^ ?n * peval P ?n (1 / X j)) * X j ^ t) = 0" if "t < ?n" for t
    proof -
      have "conv P (syndromes_of E X Y) (?n + t) = 0"
        using P that by (simp add: recurrence_def)
      moreover have "conv P (syndromes_of E X Y) (?n + t) = (\<Sum>j\<in>E. Y j * X j ^ (?n + t) * peval P ?n (1 / X j))"
        using E(3) deg by (intro conv_syndromes) simp_all
      ultimately show ?thesis
        by (simp add: power_add algebra_simps)
    qed
    from vandermonde [OF E(1,2) this \<open>i \<in> E\<close>] show ?thesis
      using E(3,4) [OF \<open>i \<in> E\<close>] by simp
  qed
  let ?R = "(\<lambda>i. 1 / X i) ` E"
  have card: "card ?R = ?n"
    using E(2,3) by (intro card_image) (auto simp: inj_on_def)
  show "peval P ?n z = 0 \<longleftrightarrow> (\<exists>i\<in>E. z = 1 / X i)"
  proof
    assume z: "peval P ?n z = 0"
    show "\<exists>i\<in>E. z = 1 / X i"
    proof (rule ccontr)
      assume "\<not> (\<exists>i\<in>E. z = 1 / X i)"
      then have "?n < card (insert z ?R)"
        using E(1) card by (subst card_insert_disjoint) auto
      then have "P 0 = 0"
        using root_bound [of "insert z ?R" ?n P 0] z roots E(1) by (auto simp: peval_def)
      then show False
        using P0 by simp
    qed
  qed (use roots in auto)
  show "P ?n \<noteq> 0"
  proof
    assume top: "P ?n = 0"
    show False
    proof (cases "?n")
      case 0
      then show ?thesis
        using top P0 by simp
    next
      case (Suc m)
      then have "(\<Sum>i\<le>m. P i * x ^ i) = 0" if "x \<in> ?R" for x
        using roots that top by (auto simp: peval_def)
      then have "P 0 = 0"
        using root_bound [of ?R m P 0] E(1) card Suc by simp
      then show ?thesis
        using P0 by simp
    qed
  qed
qed

section \<open>Error values\<close>

text \<open>The quotient of \<open>P\<close> by \<open>1 - x z\<close>, coefficient by coefficient.\<close>

definition quotient :: "(nat \<Rightarrow> 'a::field) \<Rightarrow> 'a \<Rightarrow> nat \<Rightarrow> 'a" where
  "quotient P x k = (\<Sum>p\<le>k. P p * x ^ (k - p))"

lemma quotient_Suc: "quotient P x (Suc k) = P (Suc k) + x * quotient P x k"
proof -
  have "(\<Sum>p\<le>k. P p * x ^ (Suc k - p)) = x * (\<Sum>p\<le>k. P p * x ^ (k - p))"
    unfolding sum_distrib_left by (intro sum.cong) (simp_all add: Suc_diff_le)
  then show ?thesis
    by (simp add: quotient_def)
qed

lemma quotient_0 [simp]: "quotient P x 0 = P 0"
  by (simp add: quotient_def)

lemma quotient_top: "x \<noteq> 0 \<Longrightarrow> quotient P x n = x ^ n * peval P n (1 / x)"
  unfolding quotient_def peval_def sum_distrib_left
  by (intro sum.cong) (simp_all add: power_diff power_divide)

lemma quotient_product: "(1 - x * z) * (\<Sum>k\<le>m. quotient P x k * z ^ k) = peval P m z - x * quotient P x m * z ^ Suc m"
proof (induction m)
  case (Suc m)
  have "(1 - x * z) * (\<Sum>k\<le>Suc m. quotient P x k * z ^ k) =
      (1 - x * z) * (\<Sum>k\<le>m. quotient P x k * z ^ k) + (1 - x * z) * quotient P x (Suc m) * z ^ Suc m"
    by (simp add: algebra_simps)
  also have "\<dots> = peval P (Suc m) z - x * quotient P x (Suc m) * z ^ Suc (Suc m)"
    unfolding Suc.IH by (simp add: quotient_Suc peval_def algebra_simps)
  finally show ?case .
qed (simp add: peval_def algebra_simps)

lemma derivative_partial:
  fixes P :: "nat \<Rightarrow> 'a::field" and x :: 'a
  assumes "x \<noteq> 0"
  defines "u \<equiv> \<lambda>k. quotient P x k * (1 / x) ^ k"
  shows "(\<Sum>k\<le>m. of_nat k * P k * (1 / x) ^ (k - 1)) = x * (of_nat m * u m - (\<Sum>k<m. u k))"
proof (induction m)
  case (Suc m)
  have "P (Suc m) * (1 / x) ^ m = x * (u (Suc m) - u m)"
    using assms(1) by (simp add: u_def quotient_Suc field_simps)
  then have "of_nat (Suc m) * P (Suc m) * (1 / x) ^ (Suc m - 1) = of_nat (Suc m) * (x * (u (Suc m) - u m))"
    by (simp add: mult.assoc)
  then show ?case
    unfolding sum.atMost_Suc Suc.IH by (simp add: algebra_simps)
qed simp

definition derivative_at :: "(nat \<Rightarrow> 'a::field) \<Rightarrow> nat \<Rightarrow> 'a \<Rightarrow> 'a" where
  "derivative_at P n z = (\<Sum>k\<le>n. of_nat k * P k * z ^ (k - 1))"

lemma forney:
  assumes E: "finite E" "inj_on X E" "\<And>i. i \<in> E \<Longrightarrow> X i \<noteq> 0" "\<And>i. i \<in> E \<Longrightarrow> Y i \<noteq> 0"
    and P: "P 0 = 1" "\<And>i. i \<in> E \<Longrightarrow> peval P (card E) (1 / X i) = 0" and j: "j \<in> E"
  defines "omega \<equiv> (\<Sum>k<card E. conv P (syndromes_of E X Y) k * (1 / X j) ^ k)"
  shows "omega \<noteq> 0" "derivative_at P (card E) (1 / X j) \<noteq> 0" "omega * X j / derivative_at P (card E) (1 / X j) = - Y j"
proof -
  let ?n = "card E" and ?z = "1 / X j"
  define T where "T = (\<lambda>i z. \<Sum>k<?n. quotient P (X i) k * z ^ k)"
  have top: "quotient P (X i) ?n = 0" if "i \<in> E" for i
    using quotient_top [of "X i" P ?n] E(3) P(2) that by simp
  have T: "(1 - X i * z) * T i z = peval P ?n z" if "i \<in> E" for i z
    using quotient_product [of "X i" z P ?n] top [OF that] by (simp add: T_def lessThan_Suc_atMost [symmetric])
  have other: "T i ?z = 0" if "i \<in> E" "i \<noteq> j" for i
  proof -
    have "X i \<noteq> X j"
      using E(2) that j by (auto simp: inj_on_def)
    then have "1 - X i * ?z \<noteq> 0"
      using E(3) [OF j] by simp
    then show ?thesis
      using T [OF that(1), of ?z] P(2) [OF j] by auto
  qed
  have n: "0 < ?n"
    using E(1) j by (metis card_gt_0_iff empty_iff)
  have Tj: "T j ?z \<noteq> 0"
  proof
    assume zero: "T j ?z = 0"
    let ?R = "(\<lambda>i. 1 / X i) ` E"
    have "card ?R = ?n"
      using E(2,3) by (intro card_image) (auto simp: inj_on_def)
    moreover have "T j (1 / X i) = 0" if "i \<in> E" for i
    proof (cases "i = j")
      case False
      then have "1 - X j * (1 / X i) \<noteq> 0"
        using E(2) E(3) [OF that] that j by (auto simp: inj_on_def)
      then show ?thesis
        using T [OF j, of "1 / X i"] P(2) [OF that] by auto
    qed (use zero in simp)
    ultimately have "quotient P (X j) 0 = 0"
      using root_bound [of ?R "?n - 1" "quotient P (X j)" 0] E(1) n
      by (auto simp: T_def lessThan_Suc_atMost [symmetric])
    then show False
      using P(1) by simp
  qed
  have "conv P (syndromes_of E X Y) k = (\<Sum>i\<in>E. Y i * quotient P (X i) k)" for k
    unfolding conv_def syndromes_of_def quotient_def sum_distrib_left
    by (subst sum.swap) (simp add: algebra_simps)
  then have "omega = (\<Sum>k<?n. \<Sum>i\<in>E. Y i * quotient P (X i) k * ?z ^ k)"
    by (simp add: omega_def sum_distrib_right)
  also have "\<dots> = (\<Sum>i\<in>E. Y i * T i ?z)"
    unfolding T_def sum_distrib_left by (subst sum.swap) (simp add: mult.assoc)
  also have "\<dots> = (\<Sum>i\<in>{j}. Y i * T i ?z)"
    using E(1) j other by (intro sum.mono_neutral_right) auto
  finally have om: "omega = Y j * T j ?z"
    by simp
  then show "omega \<noteq> 0"
    using E(4) [OF j] Tj by simp
  have d: "derivative_at P ?n ?z = - (X j * T j ?z)"
    using derivative_partial [OF E(3) [OF j], of P ?n] top [OF j] by (simp add: derivative_at_def T_def)
  then show "derivative_at P ?n ?z \<noteq> 0"
    using E(3) [OF j] Tj by simp
  show "omega * X j / derivative_at P ?n ?z = - Y j"
    unfolding om d using E(3) [OF j] Tj by (simp add: field_simps)
qed

end
