(* ===== verification/Rs_Correction.thy ===== *)
theory Rs_Correction
  imports Reed_Solomon Key_Equation
begin

text \<open>
  The Reed-Solomon decoder corrects up to five wrong bytes.  The bytes with the table-driven operations
  form a field, given here as a type; each stage of the decoder is then related to its counterpart in
  the algebra of the key equation: the iteration on lists to the one on polynomials, the search for
  roots to the evaluation at all powers of the primitive element, and the two sums of the last stage to
  the error values.
\<close>

section \<open>The field of the bytes\<close>

typedef gf = "{..<256 :: nat}" morphisms val gf_of
  by (rule exI [of _ 0]) simp

lemma val_less [simp]: "val a < 256"
  using val [of a] by simp

lemma val_gf_of [simp]: "x < 256 \<Longrightarrow> val (gf_of x) = x"
  by (simp add: gf_of_inverse)

lemma gf_of_val [simp]: "gf_of (val a) = a"
  by (rule val_inverse)

lemma gf_of_inject_byte: "x < 256 \<Longrightarrow> y < 256 \<Longrightarrow> gf_of x = gf_of y \<longleftrightarrow> x = y"
  by (simp add: gf_of_inject)

instantiation gf :: field
begin

definition zero_gf :: gf where "zero_gf = gf_of 0"
definition one_gf :: gf where "one_gf = gf_of 1"
definition plus_gf :: "gf \<Rightarrow> gf \<Rightarrow> gf" where "plus_gf a b = gf_of (val a XOR val b)"
definition uminus_gf :: "gf \<Rightarrow> gf" where "uminus_gf a = a"
definition minus_gf :: "gf \<Rightarrow> gf \<Rightarrow> gf" where "minus_gf a b = gf_of (val a XOR val b)"
definition times_gf :: "gf \<Rightarrow> gf \<Rightarrow> gf" where "times_gf a b = gf_of (multiply_poly G (val a) (val b))"
definition inverse_gf :: "gf \<Rightarrow> gf" where "inverse_gf a = (if a = gf_of 0 then gf_of 0 else gf_of (divide_poly G 1 (val a)))"
definition divide_gf :: "gf \<Rightarrow> gf \<Rightarrow> gf" where "divide_gf a b = a * inverse b"

instance
proof
  fix a b c :: gf
  note defs = zero_gf_def one_gf_def plus_gf_def uminus_gf_def minus_gf_def times_gf_def inverse_gf_def divide_gf_def
  have m: "multiply_poly G (val x) (val y) < 256" for x y
    by (rule gf.mul_closed) simp_all
  have nz: "0 < val x" if "x \<noteq> gf_of 0" for x
    using that by (metis gf_of_val neq0_conv)
  show "a + b + c = a + (b + c)" "a + b = b + a" "0 + a = a" "- a + a = 0" "a - b = a + - b"
    by (simp_all add: defs xor_lt_256 ac_simps)
  show "a * b * c = a * (b * c)" "a * b = b * a" "1 * a = a" "(a + b) * c = a * c + b * c"
    using gf.mul_assoc [of "val a" "val b" "val c"] gf.mul_comm [of "val a" "val b"] gf.mul_one [of "val a"]
      gf.mul_xor_left [of "val a" "val b" "val c"]
    by (simp_all add: defs m xor_lt_256)
  show "(0 :: gf) \<noteq> 1"
    by (simp add: defs gf_of_inject_byte)
  show "inverse a * a = 1" if "a \<noteq> 0"
  proof -
    have "0 < val a"
      using that nz by (simp add: zero_gf_def)
    then show ?thesis
      using that gf.mul_inv [of "val a"] gf.mul_comm [of "val a" "divide_poly G 1 (val a)"] gf.inv_closed [of "val a"]
      by (simp add: defs)
  qed
  show "a div b = a * inverse b" "inverse (0 :: gf) = 0"
    by (simp_all add: defs)
qed

end

text \<open>The operations of the code on bytes.\<close>

lemma gf_of_xor: "x < 256 \<Longrightarrow> y < 256 \<Longrightarrow> gf_of (x XOR y) = gf_of x + gf_of y"
  by (simp add: plus_gf_def)

lemma gf_of_mul: "x < 256 \<Longrightarrow> y < 256 \<Longrightarrow> gf_of (multiply_poly G x y) = gf_of x * gf_of y"
  by (simp add: times_gf_def)

lemma gf_minus: "a - b = a + b" "- a = a" for a b :: gf
  by (simp_all add: minus_gf_def plus_gf_def uminus_gf_def)

lemma gf_of_0 [simp]: "gf_of 0 = 0" and gf_of_1: "gf_of (Suc 0) = 1"
  by (simp_all add: zero_gf_def one_gf_def)

lemma gf_of_eq_0: "x < 256 \<Longrightarrow> gf_of x = 0 \<longleftrightarrow> x = 0"
  using gf_of_inject_byte [of x 0] by simp

definition prim_elem :: gf where
  "prim_elem = gf_of (alph 1)"

lemma gf_of_alph: "gf_of (alph i) = prim_elem ^ i"
proof (induction i)
  case (Suc i)
  have "gf_of (alph (Suc i)) = gf_of (multiply_poly G (alph 1) (alph i))"
    using multiply_alph_alph [of 1 i] by simp
  then show ?case
    using Suc alph_less by (simp add: gf_of_mul prim_elem_def)
qed (simp add: gf_of_1)

lemma prim_nonzero: "prim_elem ^ i \<noteq> 0"
  using alph_nonzero [of i] alph_less [of i] by (simp add: gf_of_eq_0 flip: gf_of_alph)

lemma prim_period: "prim_elem ^ 255 = 1"
  using alph_values(4) by (simp add: gf_of_1 flip: gf_of_alph)

lemma prim_inject: "i < 255 \<Longrightarrow> j < 255 \<Longrightarrow> prim_elem ^ i = prim_elem ^ j \<longleftrightarrow> i = j"
  using alph_inject [of i j] alph_less by (auto simp: gf_of_inject_byte simp flip: gf_of_alph)

lemma prim_mod: "prim_elem ^ (i mod 255) = prim_elem ^ i"
  using alph_mod [of i] by (simp flip: gf_of_alph)

text \<open>Logarithms: 255 stands for the logarithm of zero.\<close>

lemma log_zero: "poly2power G 0 = 255"
  by (simp add: poly2power_def G_index_0)

lemma log_power:
  assumes "0 < x" "x < 256"
  shows "poly2power G x < 255" "prim_elem ^ poly2power G x = gf_of x"
proof -
  obtain i where "i < 255" "x = alph i"
    by (rule alph_surj [OF assms])
  then show "poly2power G x < 255" "prim_elem ^ poly2power G x = gf_of x"
    by (simp_all add: poly2power_def G_index gf_of_alph)
qed

lemma log_255: "x < 256 \<Longrightarrow> poly2power G x = 255 \<longleftrightarrow> x = 0"
  using log_power(1) [of x] log_zero by (cases "x = 0") auto

lemma antilog: "gf_of (power2poly G (i mod 255)) = prim_elem ^ i" "power2poly G (i mod 255) < 256"
  using G_alpha [of "i mod 255"] alph_less [of "i mod 255"] by (simp_all add: power2poly_def gf_of_alph prim_mod)

lemma divide_byte:
  assumes "x < 256" "0 < y" "y < 256"
  shows "gf_of (divide_poly G x y) = gf_of x / gf_of y" "divide_poly G x y < 256"
proof -
  have "divide_poly G x y < 256 \<and> multiply_poly G (divide_poly G x y) y = x"
  proof (cases "x = 0")
    case False
    obtain i where i: "i < 255" "x = alph i"
      by (rule alph_surj [of x]) (use False assms in simp_all)
    obtain j where j: "j < 255" "y = alph j"
      by (rule alph_surj [OF assms(2,3)])
    show ?thesis
      using i j alph_period [of 1 i] by (simp add: divide_alph alph_less multiply_alph_alph)
  qed (simp add: divide_poly_def)
  then show "gf_of (divide_poly G x y) = gf_of x / gf_of y" "divide_poly G x y < 256"
    using gf_of_mul [of "divide_poly G x y" y] gf_of_eq_0 [of y] assms by (auto simp: field_simps)
qed

section \<open>The locator polynomial\<close>

text \<open>A list of bytes as the coefficients of a polynomial, of which the code keeps \<open>n\<close>.\<close>

definition coeffs :: "nat list \<Rightarrow> nat \<Rightarrow> (nat \<Rightarrow> gf) \<Rightarrow> bool" where
  "coeffs xs n P \<longleftrightarrow> length xs = n \<and> (\<forall>x\<in>set xs. x < 256) \<and> (\<forall>i<n. gf_of (xs ! i) = P i)"

lemma coeffs_nth: "coeffs xs n P \<Longrightarrow> i < n \<Longrightarrow> xs ! i < 256 \<and> gf_of (xs ! i) = P i"
  by (auto simp: coeffs_def)

lemma coeffs_add_scaled:
  assumes "coeffs xs n P" "coeffs ys n C" "x < 256"
  shows "coeffs (add_scaled G x xs ys) n (\<lambda>i. P i - gf_of x * C i)"
proof -
  have "add_scaled G x xs ys ! i < 256 \<and> gf_of (add_scaled G x xs ys ! i) = P i - gf_of x * C i" if "i < n" for i
    using assms that coeffs_nth [OF assms(1) that] coeffs_nth [OF assms(2) that]
    by (simp add: add_scaled_def add_poly_def coeffs_def gf_minus gf_of_xor gf_of_mul gf.mul_closed xor_lt_256)
  moreover have "length (add_scaled G x xs ys) = n"
    using assms by (simp add: add_scaled_def coeffs_def)
  ultimately show ?thesis
    by (auto simp: coeffs_def in_set_conv_nth)
qed

lemma coeffs_divide:
  assumes "coeffs xs n P" "0 < x" "x < 256"
  shows "coeffs (map (\<lambda>y. divide_poly G y x) xs) n (\<lambda>i. P i / gf_of x)"
  using assms by (auto simp: coeffs_def divide_byte)

lemma coeffs_shift:
  assumes "coeffs xs n P" "0 < n"
  shows "coeffs (0 # butlast xs) n (shift P)"
proof -
  have "gf_of ((0 # butlast xs) ! i) = shift P i" if "i < n" for i
    using assms that by (cases i) (auto simp: coeffs_def shift_def nth_butlast)
  then show ?thesis
    using assms by (auto simp: coeffs_def dest: in_set_butlastD)
qed

lemma xor_sum:
  assumes "x < 256" "\<And>i. i \<in> set is' \<Longrightarrow> f i < 256"
  shows "foldl (\<lambda>e i. e XOR f i) x is' < 256 \<and> gf_of (foldl (\<lambda>e i. e XOR f i) x is') = gf_of x + (\<Sum>i\<leftarrow>is'. gf_of (f i))"
  using assms
proof (induction is' arbitrary: x)
  case (Cons i is')
  then show ?case
    using Cons.IH [of "x XOR f i"] by (simp add: xor_lt_256 gf_of_xor add.assoc)
qed simp

definition bm_related :: "nat \<times> nat list \<times> nat list \<times> nat \<Rightarrow> gf bm \<Rightarrow> bool" where
  "bm_related = (\<lambda>(L, Lambda, Corrector, err) (L', P, C, e).
     L = L' \<and> coeffs Lambda 10 P \<and> coeffs Corrector 10 C \<and> err < 256 \<and> gf_of err = e)"

lemma berlekamp_related:
  assumes rs: "ReedSolomon 8 285 0 1 10 = Some rs" and S: "coeffs syn 10 S" and K: "0 < K" "K < 10"
    and r: "bm_related (L, Lambda, Corrector, err) (L, P, C, gf_of err)" "P 0 = 1" "C 0 = 0"
  shows "bm_related (berlekamp_step rs syn K (L, Lambda, Corrector, err)) (bm_step S K (L, P, C, gf_of err))"
proof -
  let ?P = "\<lambda>i. P i - gf_of err * C i" and ?Lambda = "add_scaled G err Lambda Corrector"
  have rel: "coeffs Lambda 10 P" "coeffs Corrector 10 C" "err < 256"
    using r(1) by (simp_all add: bm_related_def)
  have new: "coeffs ?Lambda 10 ?P"
    by (rule coeffs_add_scaled [OF rel])
  let ?f = "\<lambda>i. multiply_poly G (syn ! (K - i)) (?Lambda ! i)"
  have f: "?f i < 256" "gf_of (?f i) = ?P i * S (K - i)" if "i < 10" for i
  proof -
    have *: "syn ! (K - i) < 256" "gf_of (syn ! (K - i)) = S (K - i)" "?Lambda ! i < 256" "gf_of (?Lambda ! i) = ?P i"
      using coeffs_nth [OF S, of "K - i"] coeffs_nth [OF new that] K(2) by auto
    show "?f i < 256"
      using * by (intro gf.mul_closed)
    show "gf_of (?f i) = ?P i * S (K - i)"
      using * by (simp only: gf_of_mul mult.commute)
  qed
  let ?err = "foldl (\<lambda>e i. add_poly e (?f i)) (syn ! K) [1..<K + 1]"
  have "?err < 256 \<and> gf_of ?err = gf_of (syn ! K) + (\<Sum>i\<leftarrow>[1..<K + 1]. gf_of (?f i))"
    unfolding add_poly_def using coeffs_nth [OF S K(2)] f(1) K(2) by (intro xor_sum) auto
  moreover have "(\<Sum>i\<leftarrow>[1..<K + 1]. gf_of (?f i)) = (\<Sum>i=1..K. ?P i * S (K - i))"
    unfolding interv_sum_list_conv_sum_set_nat set_upt Suc_eq_plus1 [symmetric] atLeastLessThanSuc_atLeastAtMost
    using f(2) K(2) by (intro sum.cong) auto
  moreover have "conv ?P S K = S K + (\<Sum>i=1..K. ?P i * S (K - i))"
    unfolding conv_def using r(2,3) by (simp add: atMost_atLeast0 sum.atLeast_Suc_atMost)
  ultimately have err: "?err < 256" "gf_of ?err = conv ?P S K"
    using coeffs_nth [OF S K(2)] by simp_all
  have "err \<noteq> 0 \<longleftrightarrow> gf_of err \<noteq> 0"
    using rel(3) gf_of_eq_0 by simp
  note cond = this
  have step: "berlekamp_step rs syn K (L, Lambda, Corrector, err) =
      (let (L, Corrector) = (if 2 * L < K \<and> err \<noteq> 0 then (K - L, map (\<lambda>x. divide_poly G x err) Lambda) else (L, Corrector))
       in (L, ?Lambda, 0 # butlast Corrector, ?err))"
    unfolding berlekamp_step_def ReedSolomon_default [OF rs] Let_def prod.case ..
  have step': "bm_step S K (L, P, C, gf_of err) =
      (let (L, C) = (if 2 * L < K \<and> err \<noteq> 0 then (K - L, \<lambda>i. P i / gf_of err) else (L, C)) in (L, ?P, shift C, conv ?P S K))"
    unfolding bm_step_def Let_def prod.case cond ..
  show ?thesis
  proof (cases "2 * L < K \<and> err \<noteq> 0")
    case True
    then have "coeffs (0 # butlast (map (\<lambda>x. divide_poly G x err) Lambda)) 10 (shift (\<lambda>i. P i / gf_of err))"
      using rel by (intro coeffs_shift coeffs_divide) simp_all
    then show ?thesis
      unfolding step step' using True new err by (simp only: bm_related_def if_True Let_def prod.case simp_thms)
  next
    case False
    have "coeffs (0 # butlast Corrector) 10 (shift C)"
      using rel by (intro coeffs_shift) simp_all
    then show ?thesis
      unfolding step step' using False new err by (simp only: bm_related_def if_False Let_def prod.case simp_thms)
  qed
qed

text \<open>The whole iteration, and its result as logarithms with its degree.\<close>

lemma berlekamp_run:
  assumes rs: "ReedSolomon 8 285 0 1 10 = Some rs" and S: "coeffs syn 10 S" and Q: "recurrence Q l S 10" and k: "k < 10"
  shows "bm_related (foldl (\<lambda>s K. berlekamp_step rs syn K s) (0, (replicate 10 0)[0 := 1], (replicate 10 0)[1 := 1], syn ! 0) [1..<Suc k])
    (bm_run S k)"
  using k
proof (induction k)
  case 0
  then show ?case
    using coeffs_nth [OF S, of 0]
    by (auto simp: bm_run_def bm_start_def bm_related_def coeffs_def nth_list_update gf_of_1 dest!: set_update_subset_insert [THEN subsetD])
next
  case (Suc k)
  let ?s = "foldl (\<lambda>s K. berlekamp_step rs syn K s) (0, (replicate 10 0)[0 := 1], (replicate 10 0)[1 := 1], syn ! 0) [1..<Suc k]"
  obtain L Lambda Corrector err where s: "?s = (L, Lambda, Corrector, err)"
    by (cases ?s)
  obtain P C where b: "bm_run S k = (L, P, C, gf_of err)"
    using Suc s by (cases "bm_run S k") (auto simp: bm_related_def)
  have "P 0 = 1" "C 0 = 0"
    using bm_minimal [OF Q, of k] Suc.prems by (auto simp: b bm_inv_def recurrence_def)
  then have "bm_related (berlekamp_step rs syn (Suc k) (L, Lambda, Corrector, err)) (bm_step S (Suc k) (L, P, C, gf_of err))"
    using Suc s b by (intro berlekamp_related [OF rs S]) auto
  then show ?case
    using s by (simp add: bm_run_Suc b)
qed

lemma last_nonzero:
  assumes "f m \<noteq> (0 :: nat)" "\<And>i. m < i \<Longrightarrow> i < n \<Longrightarrow> f i = 0" "m < n"
  shows "foldl (\<lambda>d i. if f i \<noteq> 0 then i else d) 0 [0..<n] = m"
  using assms
proof (induction n)
  case (Suc n)
  show ?case
  proof (cases "m = n")
    case False
    then show ?thesis
      using Suc by simp
  qed (use Suc.prems in simp)
qed simp

lemma computeLambda_result:
  assumes rs: "ReedSolomon 8 285 0 1 10 = Some rs" and S: "coeffs syn 10 S" and Q: "recurrence Q l S 10"
    and n: "n < 10" "degree_le (bm_result S 10) n" "bm_result S 10 n \<noteq> 0"
  shows "\<exists>Lambda. computeLambda rs syn = (n, map (poly2power G) Lambda) \<and> coeffs Lambda 10 (bm_result S 10)"
proof -
  let ?s = "foldl (\<lambda>s K. berlekamp_step rs syn K s) (0, (replicate 10 0)[0 := 1], (replicate 10 0)[1 := 1], syn ! 0) [1..<10]"
  obtain L Lambda Corrector err where s: "?s = (L, Lambda, Corrector, err)"
    by (cases ?s)
  obtain L' P C e where b: "bm_run S 9 = (L', P, C, e)"
    by (cases "bm_run S 9")
  have "bm_related ?s (bm_run S 9)"
    using berlekamp_run [OF rs S Q, of 9] by simp
  then have rel: "coeffs Lambda 10 P" "coeffs Corrector 10 C" "err < 256" "gf_of err = e"
    unfolding s b by (simp_all add: bm_related_def)
  let ?Lambda = "add_scaled G err Lambda Corrector"
  have "bm_result S 10 = (\<lambda>i. P i - e * C i)"
    using b by (simp add: bm_result_def)
  then have c: "coeffs ?Lambda 10 (bm_result S 10)"
    using coeffs_add_scaled [OF rel(1-3)] rel(4) by simp
  have "foldl (\<lambda>d i. if ?Lambda ! i \<noteq> 0 then i else d) 0 [0..<10] = n"
  proof (rule last_nonzero)
    show "?Lambda ! n \<noteq> 0"
      using n(3) coeffs_nth [OF c n(1)] by (cases "?Lambda ! n = 0") auto
    show "?Lambda ! i = 0" if "n < i" "i < 10" for i
      using n(2) coeffs_nth [OF c that(2)] that gf_of_eq_0 by (auto simp: degree_le_def)
  qed (use n(1) in simp)
  then show ?thesis
    using c s by (auto simp: computeLambda_def Let_def ReedSolomon_default [OF rs])
qed

section \<open>The search for roots\<close>

text \<open>The work register after \<open>i\<close> positions: the logarithms of the terms of the polynomial at the power \<open>i\<close>.\<close>

definition work_at :: "nat list \<Rightarrow> nat \<Rightarrow> nat \<Rightarrow> nat \<Rightarrow> nat" where
  "work_at Lambda n i j =
     (if 0 < j \<and> j \<le> n \<and> Lambda ! j \<noteq> 0 then (poly2power G (Lambda ! j) + i * j) mod 255 else poly2power G (Lambda ! j))"

definition chien_step :: "nat \<times> nat list \<Rightarrow> nat \<Rightarrow> nat \<times> nat list" where
  "chien_step = (\<lambda>(result, work) j.
     if work ! j \<noteq> 255
     then let w = multiply_power G (work ! j) j in (add_poly result (power2poly G w), work[j := w])
     else (result, work))"

lemma chien_terms:
  assumes "coeffs Lambda 10 P" "distinct js" "\<And>j. j \<in> set js \<Longrightarrow> 0 < j \<and> j \<le> n" "n < 10" "length W = 10" "x < 256"
    and "\<And>j. j \<in> set js \<Longrightarrow> W ! j = work_at Lambda n i j"
  shows "case foldl chien_step (x, W) js of (x', W') \<Rightarrow> x' < 256 \<and>
    gf_of x' = gf_of x + (\<Sum>j\<leftarrow>js. P j * (prim_elem ^ Suc i) ^ j) \<and> length W' = 10 \<and>
    (\<forall>j<10. W' ! j = (if j \<in> set js then work_at Lambda n (Suc i) j else W ! j))"
  using assms(2,3,5,6,7)
proof (induction js arbitrary: x W)
  case (Cons j js)
  have j: "0 < j" "j \<le> n" "j < 10"
    using Cons.prems(2) [of j] assms(4) by auto
  have l: "Lambda ! j < 256" "gf_of (Lambda ! j) = P j"
    using coeffs_nth [OF assms(1) j(3)] by auto
  define x1 W1 where "x1 = fst (chien_step (x, W) j)" and "W1 = snd (chien_step (x, W) j)"
  have step: "x1 < 256 \<and> gf_of x1 = gf_of x + P j * (prim_elem ^ Suc i) ^ j \<and> W1 = W[j := work_at Lambda n (Suc i) j]"
  proof (cases "Lambda ! j = 0")
    case True
    then have "W ! j = 255" "work_at Lambda n (Suc i) j = 255" "P j = 0"
      using Cons.prems(5) [of j] l by (simp_all add: work_at_def log_zero)
    then show ?thesis
      using Cons.prems(3,4) j list_update_id [of W j] by (simp add: x1_def W1_def chien_step_def)
  next
    case False
    let ?log = "poly2power G (Lambda ! j)"
    have W: "W ! j = (?log + i * j) mod 255"
      using Cons.prems(5) [of j] False j by (simp add: work_at_def)
    then have "W ! j \<noteq> 255"
      using mod_less_divisor [of 255 "?log + i * j"] by linarith
    moreover have m: "multiply_power G (W ! j) j = (?log + Suc i * j) mod 255"
      by (simp add: multiply_power_def G_modnn W mod_simps add.assoc add.commute)
    moreover have "prim_elem ^ (?log + Suc i * j) = P j * (prim_elem ^ Suc i) ^ j"
    proof -
      have "prim_elem ^ ?log = P j"
        using log_power(2) [of "Lambda ! j"] False l by simp
      then show ?thesis
        by (simp only: power_add power_mult)
    qed
    ultimately show ?thesis
      using Cons.prems(4) False j antilog [of "?log + Suc i * j"]
      by (simp add: x1_def W1_def chien_step_def Let_def add_poly_def gf_of_xor xor_lt_256 work_at_def del: power_Suc)
  qed
  have run: "foldl chien_step (x, W) (j # js) = foldl chien_step (x1, W1) js"
    by (simp add: x1_def W1_def)
  have "case foldl chien_step (x1, W1) js of (x', W') \<Rightarrow> x' < 256 \<and>
      gf_of x' = gf_of x1 + (\<Sum>j\<leftarrow>js. P j * (prim_elem ^ Suc i) ^ j) \<and> length W' = 10 \<and>
      (\<forall>k<10. W' ! k = (if k \<in> set js then work_at Lambda n (Suc i) k else W1 ! k))"
  proof (rule Cons.IH)
    show "W1 ! k = work_at Lambda n i k" if "k \<in> set js" for k
    proof -
      have "k \<noteq> j"
        using that Cons.prems(1) by auto
      then show ?thesis
        using Cons.prems(5) [of k] step that by simp
    qed
  qed (use Cons.prems step in auto)
  then show ?case
    unfolding run using Cons.prems(1,3) step j by (auto simp: nth_list_update add.assoc split: prod.splits)
qed simp

lemma chien_position:
  assumes rs: "ReedSolomon 8 285 0 1 10 = Some rs" and c: "coeffs Lambda 10 P" "n < 10" "P 0 = 1"
  shows "\<exists>x<256. gf_of x = peval P n (prim_elem ^ Suc i) \<and>
    chien_eval rs n (map (work_at Lambda n i) [0..<10]) = (x, map (work_at Lambda n (Suc i)) [0..<10])"
proof -
  let ?W = "map (work_at Lambda n i) [0..<10]" and ?js = "rev [1..<n + 1]"
  obtain x W where run: "foldl chien_step (1, ?W) ?js = (x, W)"
    by (cases "foldl chien_step (1, ?W) ?js")
  have "case foldl chien_step (1, ?W) ?js of (x', W') \<Rightarrow> x' < 256 \<and>
    gf_of x' = gf_of 1 + (\<Sum>j\<leftarrow>?js. P j * (prim_elem ^ Suc i) ^ j) \<and> length W' = 10 \<and>
    (\<forall>j<10. W' ! j = (if j \<in> set ?js then work_at Lambda n (Suc i) j else ?W ! j))"
    using c(2) by (intro chien_terms [OF c(1)]) auto
  then have x: "x < 256" "gf_of x = 1 + (\<Sum>j\<leftarrow>?js. P j * (prim_elem ^ Suc i) ^ j)" and
    W: "length W = 10" "\<And>j. j < 10 \<Longrightarrow> W ! j = (if j \<in> set ?js then work_at Lambda n (Suc i) j else ?W ! j)"
    unfolding run by (simp_all add: gf_of_1 del: power_Suc)
  have "(\<Sum>j\<leftarrow>?js. P j * (prim_elem ^ Suc i) ^ j) = (\<Sum>j=1..n. P j * (prim_elem ^ Suc i) ^ j)"
    unfolding rev_map [symmetric] sum_list_rev interv_sum_list_conv_sum_set_nat set_upt
    by (simp add: atLeastLessThanSuc_atLeastAtMost)
  then have "gf_of x = peval P n (prim_elem ^ Suc i)"
    using x(2) c(3) by (simp add: peval_def atMost_atLeast0 sum.atLeast_Suc_atMost)
  moreover have "W = map (work_at Lambda n (Suc i)) [0..<10]"
    using W by (intro nth_equalityI) (auto simp: work_at_def)
  moreover have "chien_eval rs n ?W = foldl chien_step (1, ?W) ?js"
    unfolding chien_eval_def chien_step_def ReedSolomon_default [OF rs] Let_def ..
  ultimately show ?thesis
    using x(1) run by auto
qed

lemma computeErrors_table:
  assumes rs: "ReedSolomon 8 285 0 1 10 = Some rs" and c: "coeffs Lambda 10 P" "n < 10" "P 0 = 1"
  defines "table \<equiv> map (\<lambda>i. (i, i - 1)) (filter (\<lambda>i. peval P n (prim_elem ^ i) = 0) [1..<256])"
  shows "computeErrors rs (map (poly2power G) Lambda) n = (if length table \<noteq> n then None else Some table)"
proof -
  let ?f = "\<lambda>(work, table) i. let (result, work) = chien_eval rs n work; k = 1 - 1 + (i - 1) * 1
    in (work, if result \<noteq> 0 then table else table @ [(i mod 256, k mod 256)])"
  let ?W = "\<lambda>i. map (work_at Lambda n i) [0..<10]"
  have run: "foldl ?f (?W 0, []) [1..<Suc m] = (?W m, map (\<lambda>i. (i, i - 1)) (filter (\<lambda>i. peval P n (prim_elem ^ i) = 0) [1..<Suc m]))"
    if "m < 256" for m
    using that
  proof (induction m)
    case (Suc m)
    obtain x where x: "x < 256" "gf_of x = peval P n (prim_elem ^ Suc m)" "chien_eval rs n (?W m) = (x, ?W (Suc m))"
      using chien_position [OF rs c, of m] by blast
    have "x = 0 \<longleftrightarrow> peval P n (prim_elem ^ Suc m) = 0"
      using gf_of_eq_0 [OF x(1)] x(2) by simp
    then show ?case
      using Suc x(3) by (simp del: power_Suc)
  qed simp
  have "map (poly2power G) Lambda = ?W 0"
  proof (rule nth_equalityI)
    fix j assume "j < length (map (poly2power G) Lambda)"
    then have j: "j < 10"
      using c(1) by (simp add: coeffs_def)
    then show "map (poly2power G) Lambda ! j = ?W 0 ! j"
      using c(1) log_power(1) [of "Lambda ! j"] coeffs_nth [OF c(1) j] by (simp add: coeffs_def work_at_def)
  qed (use c(1) in \<open>simp add: coeffs_def\<close>)
  then have "computeErrors rs (map (poly2power G) Lambda) n =
      (let (work, table) = foldl ?f (?W 0, []) [1..<Suc 255] in if length table \<noteq> n then None else Some table)"
    unfolding computeErrors_def ReedSolomon_default [OF rs] by simp
  then show ?thesis
    using run [of 255] by (simp add: table_def)
qed

section \<open>The error values\<close>

lemma foldl_xor_if:
  "foldl (\<lambda>tmp j. if b j then add_poly tmp (f j) else tmp) x js = foldl (\<lambda>e j. e XOR (if b j then f j else 0)) x js"
  by (intro foldl_cong refl) (simp add: add_poly_def)

lemma log_product:
  assumes "x < 256" "y < 256"
  defines "t \<equiv> if poly2power G x \<noteq> 255 \<and> poly2power G y \<noteq> 255
    then power2poly G (multiply_power G (poly2power G x) (poly2power G y)) else 0"
  shows "t < 256" "gf_of t = gf_of x * gf_of y"
proof -
  have "t < 256 \<and> gf_of t = gf_of x * gf_of y"
  proof (cases "x = 0 \<or> y = 0")
    case False
    then show ?thesis
      using assms antilog [of "poly2power G x + poly2power G y"] log_power(2) [of x] log_power(2) [of y]
      by (simp add: t_def log_255 multiply_power_def G_modnn power_add)
  qed (auto simp: t_def log_zero)
  then show "t < 256" "gf_of t = gf_of x * gf_of y"
    by simp_all
qed

lemma omega_coefficient:
  assumes "coeffs syn 10 S" "coeffs Lambda 10 P" "degree_le P n" "n < 10" "i < 10"
  defines "x \<equiv> foldl (\<lambda>tmp j. if poly2power G (syn ! (i - j)) \<noteq> 255 \<and> map (poly2power G) Lambda ! j \<noteq> 255
      then add_poly tmp (power2poly G (multiply_power G (poly2power G (syn ! (i - j))) (map (poly2power G) Lambda ! j)))
      else tmp) 0 (rev [0..<min n i + 1])"
  shows "x < 256 \<and> gf_of x = conv P S i"
proof -
  let ?t = "\<lambda>j. if poly2power G (syn ! (i - j)) \<noteq> 255 \<and> map (poly2power G) Lambda ! j \<noteq> 255
      then power2poly G (multiply_power G (poly2power G (syn ! (i - j))) (map (poly2power G) Lambda ! j)) else 0"
  have t: "?t j < 256" "gf_of (?t j) = P j * S (i - j)" if "j < min n i + 1" for j
  proof -
    have j: "j < 10" "i - j < 10"
      using that assms(4,5) by auto
    have *: "syn ! (i - j) < 256" "gf_of (syn ! (i - j)) = S (i - j)" "Lambda ! j < 256" "gf_of (Lambda ! j) = P j" "j < length Lambda"
      using coeffs_nth [OF assms(1) j(2)] coeffs_nth [OF assms(2) j(1)] assms(2) j(1) by (auto simp: coeffs_def)
    show "?t j < 256" "gf_of (?t j) = P j * S (i - j)"
      unfolding nth_map [OF *(5)]
      using log_product [OF *(1,3)] unfolding *(2,4) mult.commute [of "S (i - j)"] .
  qed
  have "x < 256 \<and> gf_of x = gf_of 0 + (\<Sum>j\<leftarrow>rev [0..<min n i + 1]. gf_of (?t j))"
    unfolding x_def foldl_xor_if by (intro xor_sum t(1)) auto
  moreover have "(\<Sum>j\<leftarrow>rev [0..<min n i + 1]. gf_of (?t j)) = (\<Sum>j\<in>{0..<min n i + 1}. P j * S (i - j))"
    unfolding rev_map [symmetric] sum_list_rev interv_sum_list_conv_sum_set_nat set_upt using t(2) by (intro sum.cong) auto
  moreover have "\<dots> = conv P S i"
    unfolding conv_def using assms(3) by (intro sum.mono_neutral_left) (auto simp: degree_le_def)
  ultimately show ?thesis
    by simp
qed

lemma eval_terms_sum:
  assumes rs: "ReedSolomon 8 285 0 1 10 = Some rs"
    and c: "\<And>i e. (i, e) \<in> set idx \<Longrightarrow> cs ! i = poly2power G (c i) \<and> c i < 256"
  shows "eval_terms rs cs rt idx < 256 \<and>
    gf_of (eval_terms rs cs rt idx) = (\<Sum>(i, e)\<leftarrow>idx. gf_of (c i) * (prim_elem ^ rt) ^ e)"
proof -
  let ?t = "\<lambda>(i, e). if cs ! i \<noteq> 255 then power2poly G (multiply_power G (cs ! i) (pow_power G e rt)) else 0"
  have t: "?t x < 256 \<and> gf_of (?t x) = (case x of (i, e) \<Rightarrow> gf_of (c i) * (prim_elem ^ rt) ^ e)" if x: "x \<in> set idx" for x
  proof -
    obtain i e where ie: "x = (i, e)"
      by (cases x)
    then have i: "cs ! i = poly2power G (c i)" "c i < 256"
      using c x by auto
    have "(cs ! i + pow_power G e rt) mod 255 = (cs ! i + rt * e) mod 255"
      by (simp add: pow_power_def G_fields mod_simps mult.commute)
    then have "gf_of (power2poly G (multiply_power G (cs ! i) (pow_power G e rt))) = prim_elem ^ (cs ! i) * (prim_elem ^ rt) ^ e"
        "power2poly G (multiply_power G (cs ! i) (pow_power G e rt)) < 256"
      using antilog [of "cs ! i + rt * e"] by (simp_all add: multiply_power_def G_modnn power_add power_mult)
    then show ?thesis
      using i log_power [of "c i"] by (cases "c i = 0") (simp_all add: ie log_zero)
  qed
  have "eval_terms rs cs rt idx = foldl (\<lambda>acc x. acc XOR ?t x) 0 idx"
    unfolding eval_terms_def ReedSolomon_default [OF rs] Let_def
    by (intro foldl_cong refl) (simp add: add_poly_def split: prod.split)
  moreover have "(\<Sum>x\<leftarrow>idx. gf_of (?t x)) = (\<Sum>(i, e)\<leftarrow>idx. gf_of (c i) * (prim_elem ^ rt) ^ e)"
    using t by (intro arg_cong [where f = sum_list] map_cong refl) simp
  ultimately show ?thesis
    using xor_sum [of 0 idx ?t] t by simp
qed

lemma forney_numerator:
  assumes rs: "ReedSolomon 8 285 0 1 10 = Some rs" and "0 < rt" "rt < 256"
  shows "forney_num2 rs rt < 256 \<and> gf_of (forney_num2 rs rt) = 1 / prim_elem ^ rt"
proof -
  have "divide_power G 0 1 = 254"
    by (simp add: divide_power_def G_modnn G_fields)
  then have n: "forney_num2 rs rt = power2poly G ((rt * 254 + 255) mod 255)"
    unfolding forney_num2_def ReedSolomon_default [OF rs] Let_def multiply_power_def G_modnn pow_power_def G_fields
    using assms(2) by (simp add: mod_simps)
  have "prim_elem ^ (rt * 254 + 255) * prim_elem ^ rt = (prim_elem ^ 255) ^ (rt + 1)"
    by (simp flip: power_add power_mult) (simp add: algebra_simps)
  then have "prim_elem ^ (rt * 254 + 255) * prim_elem ^ rt = 1"
    by (simp only: prim_period power_one)
  then show ?thesis
    using antilog [of "rt * 254 + 255"] prim_nonzero [of rt] by (simp add: n field_simps)
qed

lemma highest_nonzero:
  fixes f :: "nat \<Rightarrow> nat" and n :: nat
  defines "d \<equiv> foldl (\<lambda>d i. if f i \<noteq> 0 then i else d) 0 [0..<n]"
  shows "d \<le> n - 1" "d < i \<Longrightarrow> i < n \<Longrightarrow> f i = 0"
proof -
  have "foldl (\<lambda>d i. if f i \<noteq> 0 then i else d) 0 [0..<n] \<le> n - 1 \<and>
    (\<forall>i. foldl (\<lambda>d i. if f i \<noteq> 0 then i else d) 0 [0..<n] < i \<and> i < n \<longrightarrow> f i = 0)"
    by (induction n) (auto simp: less_Suc_eq)
  then show "d \<le> n - 1" "d < i \<Longrightarrow> i < n \<Longrightarrow> f i = 0"
    by (auto simp: d_def)
qed

lemma computeOmega_result:
  assumes rs: "ReedSolomon 8 285 0 1 10 = Some rs" and c: "coeffs syn 10 S" "coeffs Lambda 10 P" "degree_le P n" "n < 10"
  shows "\<exists>d omega. computeOmega rs syn (map (poly2power G) Lambda) n = (d, map (poly2power G) omega @ [255]) \<and>
    coeffs omega 10 (conv P S) \<and> d < 10 \<and> (\<forall>i. d < i \<and> i < 10 \<longrightarrow> conv P S i = 0)"
proof -
  define coeff where "coeff = (\<lambda>i. foldl (\<lambda>tmp j. if poly2power G (syn ! (i - j)) \<noteq> 255 \<and> map (poly2power G) Lambda ! j \<noteq> 255
      then add_poly tmp (power2poly G (multiply_power G (poly2power G (syn ! (i - j))) (map (poly2power G) Lambda ! j)))
      else tmp) 0 (rev [0..<min n i + 1]))"
  have coeff: "coeff i < 256 \<and> gf_of (coeff i) = conv P S i" if "i < 10" for i
    unfolding coeff_def by (rule omega_coefficient [OF c that])
  define d where "d = foldl (\<lambda>d i. if coeff i \<noteq> 0 then i else d) 0 [0..<10]"
  have "computeOmega rs syn (map (poly2power G) Lambda) n = (d, map (poly2power G) (map coeff [0..<10]) @ [255])"
    unfolding computeOmega_def ReedSolomon_default [OF rs] Let_def coeff_def d_def by simp
  moreover have "coeffs (map coeff [0..<10]) 10 (conv P S)"
    using coeff by (auto simp: coeffs_def)
  moreover have "conv P S i = 0" if "d < i" "i < 10" for i
    using coeff [OF that(2)] highest_nonzero(2) [of coeff 10 i] that by (simp add: d_def)
  moreover have "d < 10"
    using highest_nonzero(1) [of coeff 10] by (simp add: d_def)
  ultimately show ?thesis
    by blast
qed

text \<open>In characteristic two the derivative keeps the odd coefficients, as the code sums them.\<close>

lemma of_nat_gf: "of_nat k = (if odd k then 1 else 0 :: gf)"
proof (induction k)
  case (Suc k)
  have "(1 :: gf) + 1 = 0"
    using gf_minus(1) [of 1 1] by simp
  then show ?case
    using Suc by simp
qed simp

lemma derivative_odd:
  assumes "degree_le P n"
  shows "derivative_at P n z = (\<Sum>i\<le>n div 2. P (2 * i + 1) * (z :: gf) ^ (2 * i))"
proof -
  have odds: "(\<Sum>k\<le>2 * m + 1. of_nat k * P k * z ^ (k - 1)) = (\<Sum>i\<le>m. P (2 * i + 1) * z ^ (2 * i))" for m
  proof (induction m)
    case (Suc m)
    have "(\<Sum>k\<le>2 * Suc m + 1. of_nat k * P k * z ^ (k - 1)) =
        (\<Sum>k\<le>2 * m + 1. of_nat k * P k * z ^ (k - 1)) + P (2 * Suc m + 1) * z ^ (2 * Suc m)"
      by (simp add: of_nat_gf del: of_nat_add of_nat_Suc power_Suc)
    then show ?case
      using Suc by simp
  qed (simp add: of_nat_gf)
  have "derivative_at P n z = (\<Sum>k\<le>2 * (n div 2) + 1. of_nat k * P k * z ^ (k - 1))"
    unfolding derivative_at_def using assms by (intro sum.mono_neutral_left) (auto simp: degree_le_def)
  then show ?thesis
    using odds by simp
qed

lemma forney_den_result:
  assumes rs: "ReedSolomon 8 285 0 1 10 = Some rs" and c: "coeffs Lambda 10 P" "degree_le P n" "n < 9"
  shows "forney_den rs (map (poly2power G) Lambda) n rt < 256 \<and>
    gf_of (forney_den rs (map (poly2power G) Lambda) n rt) = derivative_at P n (prim_elem ^ rt)"
proof -
  let ?idx = "map (\<lambda>i. (2 * i + 1, 2 * i)) (rev [0..<n div 2 + 1])" and ?cs = "map (poly2power G) Lambda"
  have i: "i < 10" if "(i, e) \<in> set ?idx" for i e
    using that c(3) by auto
  have "eval_terms rs ?cs rt ?idx < 256 \<and>
      gf_of (eval_terms rs ?cs rt ?idx) = (\<Sum>(i, e)\<leftarrow>?idx. gf_of (Lambda ! i) * (prim_elem ^ rt) ^ e)"
    using c(1) i coeffs_nth [OF c(1)] by (intro eval_terms_sum [OF rs]) (force simp: coeffs_def)
  moreover have "(\<Sum>(i, e)\<leftarrow>?idx. gf_of (Lambda ! i) * (prim_elem ^ rt) ^ e) =
      (\<Sum>i\<leftarrow>rev [0..<n div 2 + 1]. gf_of (Lambda ! (2 * i + 1)) * (prim_elem ^ rt) ^ (2 * i))"
    by (simp add: comp_def)
  moreover have "\<dots> = (\<Sum>i\<le>n div 2. P (2 * i + 1) * (prim_elem ^ rt) ^ (2 * i))"
    unfolding rev_map [symmetric] sum_list_rev interv_sum_list_conv_sum_set_nat set_upt
    using coeffs_nth [OF c(1)] c(3) by (intro sum.cong) auto
  moreover have "forney_den rs ?cs n rt = eval_terms rs ?cs rt ?idx"
    using c(3) by (simp add: forney_den_def ReedSolomon_default [OF rs] min_def)
  ultimately show ?thesis
    using derivative_odd [OF c(2)] by simp
qed

lemma forney_num1_result:
  assumes rs: "ReedSolomon 8 285 0 1 10 = Some rs" and c: "coeffs omega 10 W" "d < 10"
    and W: "\<And>i. d < i \<Longrightarrow> i < 10 \<Longrightarrow> W i = 0" "\<And>i. m \<le> i \<Longrightarrow> i < 10 \<Longrightarrow> W i = 0" "m \<le> 10"
  shows "forney_num1 rs (map (poly2power G) omega @ [255]) d rt < 256 \<and>
    gf_of (forney_num1 rs (map (poly2power G) omega @ [255]) d rt) = (\<Sum>k<m. W k * (prim_elem ^ rt) ^ k)"
proof -
  let ?idx = "map (\<lambda>i. (i, i)) (rev [0..<d + 1])" and ?cs = "map (poly2power G) omega @ [255]" and ?z = "prim_elem ^ rt"
  have "eval_terms rs ?cs rt ?idx < 256 \<and> gf_of (eval_terms rs ?cs rt ?idx) = (\<Sum>(i, e)\<leftarrow>?idx. gf_of (omega ! i) * ?z ^ e)"
    using c coeffs_nth [OF c(1)] by (intro eval_terms_sum [OF rs]) (force simp: coeffs_def nth_append)
  moreover have "(\<Sum>(i, e)\<leftarrow>?idx. gf_of (omega ! i) * ?z ^ e) = (\<Sum>i\<leftarrow>rev [0..<d + 1]. gf_of (omega ! i) * ?z ^ i)"
    by (simp add: comp_def)
  moreover have "\<dots> = (\<Sum>i\<in>{0..<d + 1}. W i * ?z ^ i)"
    unfolding rev_map [symmetric] sum_list_rev interv_sum_list_conv_sum_set_nat set_upt
    using coeffs_nth [OF c(1)] c(2) by (intro sum.cong) auto
  moreover have "\<dots> = (\<Sum>i<10. W i * ?z ^ i)"
    using c(2) W(1) by (intro sum.mono_neutral_left) auto
  moreover have "\<dots> = (\<Sum>k<m. W k * ?z ^ k)"
    using W(2,3) by (intro sum.mono_neutral_right) auto
  ultimately show ?thesis
    by (simp add: forney_num1_def)
qed

text \<open>The quotient of the code's three factors through their logarithms.\<close>

lemma forney_quotient:
  assumes "0 < a" "a < 256" "0 < b" "b < 256" "0 < c" "c < 256"
  defines "q \<equiv> power2poly G (multiply_power G (multiply_power G (poly2power G a) (poly2power G b)) (255 - poly2power G c))"
  shows "q < 256" "gf_of q = gf_of a * gf_of b / gf_of c"
proof -
  let ?n = "poly2power G a + poly2power G b + (255 - poly2power G c)"
  have q: "q = power2poly G (?n mod 255)"
    by (simp add: q_def multiply_power_def G_modnn mod_simps)
  have "prim_elem ^ (255 - poly2power G c) * prim_elem ^ poly2power G c = 1"
    using log_power(1) [OF assms(5,6)] prim_period by (simp flip: power_add)
  then have "prim_elem ^ (255 - poly2power G c) = 1 / gf_of c"
    using log_power(2) [OF assms(5,6)] prim_nonzero [of "poly2power G c"] by (simp add: field_simps)
  then show "q < 256" "gf_of q = gf_of a * gf_of b / gf_of c"
    using antilog [of ?n] log_power(2) [OF assms(1,2)] log_power(2) [OF assms(3,4)] by (simp_all add: q power_add)
qed

section \<open>The corrected word\<close>

definition correct :: "(nat \<Rightarrow> gf) \<Rightarrow> nat \<Rightarrow> nat list \<Rightarrow> nat list" where
  "correct Y j xs = (if j < 245 then xs[j := xs ! j XOR val (Y j)] else xs)"

lemma apply_errors_result:
  assumes rs: "ReedSolomon 8 285 0 1 10 = Some rs"
    and f: "\<And>j. j \<in> set js \<Longrightarrow> 0 < forney_num1 rs omega d (Suc j) \<and> forney_num1 rs omega d (Suc j) < 256 \<and>
      0 < forney_num2 rs (Suc j) \<and> forney_num2 rs (Suc j) < 256 \<and> 0 < forney_den rs Lambda n (Suc j) \<and> forney_den rs Lambda n (Suc j) < 256 \<and>
      gf_of (forney_num1 rs omega d (Suc j)) * gf_of (forney_num2 rs (Suc j)) / gf_of (forney_den rs Lambda n (Suc j)) = Y j"
  shows "apply_errors rs Lambda n omega d (map (\<lambda>j. (Suc j, j)) js) count xs =
    (count - int (length (filter (\<lambda>j. 245 \<le> j) js)), fold (correct Y) js xs)"
  using f
proof (induction js arbitrary: count xs)
  case (Cons j js)
  let ?a = "forney_num1 rs omega d (Suc j)" and ?b = "forney_num2 rs (Suc j)" and ?c = "forney_den rs Lambda n (Suc j)"
  let ?q = "power2poly G (multiply_power G (multiply_power G (poly2power G ?a) (poly2power G ?b)) (255 - poly2power G ?c))"
  have v: "0 < ?a" "?a < 256" "0 < ?b" "?b < 256" "0 < ?c" "?c < 256" "gf_of ?a * gf_of ?b / gf_of ?c = Y j"
    using Cons.prems [of j] by auto
  have "gf_of ?q = Y j" "?q < 256"
    using forney_quotient [OF v(1-6)] v(7) by simp_all
  then have "?q = val (Y j)"
    by (metis val_gf_of)
  moreover have "?a \<noteq> 0" "?c \<noteq> 0"
    using v by simp_all
  moreover have "apply_errors rs Lambda n omega d (map (\<lambda>j. (Suc j, j)) js) count' xs' =
      (count' - int (length (filter (\<lambda>j. 245 \<le> j) js)), fold (correct Y) js xs')" for count' xs'
    using Cons.prems by (intro Cons.IH) simp
  ultimately show ?case
    by (simp add: ReedSolomon_default [OF rs] Let_def correct_def [of Y j] add_poly_def)
qed simp

lemma fold_correct:
  assumes "distinct js"
  shows "length (fold (correct Y) js xs) = length xs"
    "i < length xs \<Longrightarrow> fold (correct Y) js xs ! i = (if i \<in> set js \<and> i < 245 then xs ! i XOR val (Y i) else xs ! i)"
proof -
  show "length (fold (correct Y) js xs) = length xs" for xs
    by (induction js arbitrary: xs) (simp_all add: correct_def)
  show "fold (correct Y) js xs ! i = (if i \<in> set js \<and> i < 245 then xs ! i XOR val (Y i) else xs ! i)"
    if "i < length xs" for xs
    using assms that
  proof (induction js arbitrary: xs)
    case (Cons j js)
    then have "fold (correct Y) js (correct Y j xs) ! i =
        (if i \<in> set js \<and> i < 245 then correct Y j xs ! i XOR val (Y i) else correct Y j xs ! i)"
      by (intro Cons.IH) (simp_all add: correct_def)
    then show ?case
      using Cons.prems by (cases "i = j") (auto simp: correct_def [of Y j])
  qed simp
qed

text \<open>The syndromes of a received word are the power sums of its errors.\<close>

lemma horner_sum:
  assumes "r < 256" "\<forall>x\<in>set xs. x < 256"
  shows "gf_of (gf.horner r xs) = (\<Sum>i<length xs. gf_of (xs ! i) * gf_of r ^ (length xs - 1 - i))"
  using assms(2)
proof (induction xs rule: rev_induct)
  case (snoc x xs)
  have h: "gf.horner r xs < 256"
    using snoc.prems assms(1) by (intro gf.horner_closed) auto
  have "gf_of (gf.horner r (xs @ [x])) = gf_of (gf.horner r xs) * gf_of r + gf_of x"
    using h snoc.prems assms(1) by (simp add: gf.horner_snoc gf_of_xor gf_of_mul gf.mul_closed)
  also have "gf_of (gf.horner r xs) * gf_of r = (\<Sum>i<length xs. gf_of ((xs @ [x]) ! i) * gf_of r ^ (length xs - i))"
  proof -
    have "gf_of r ^ (length xs - 1 - i) * gf_of r = gf_of r ^ (length xs - i)" if "i < length xs" for i
      using that by (simp add: Suc_diff_Suc flip: power_Suc2)
    then show ?thesis
      using snoc by (simp add: sum_distrib_right mult.assoc nth_append)
  qed
  finally show ?case
    by simp
qed simp

definition error_positions :: "nat list \<Rightarrow> nat list \<Rightarrow> nat set" where
  "error_positions ws cs = {i. i < length cs \<and> ws ! i \<noteq> cs ! i}"

lemma received_syndromes:
  assumes cs: "length cs = 255" "\<forall>x\<in>set cs. x < 256" "\<And>k. k < 10 \<Longrightarrow> gf.horner (alph k) cs = 0"
    and ws: "length ws = 255" "\<forall>x\<in>set ws. x < 256" and k: "k < 10"
  shows "gf_of (gf.horner (alph k) ws) =
    syndromes_of (error_positions ws cs) (\<lambda>i. prim_elem ^ (254 - i)) (\<lambda>i. gf_of (ws ! i XOR cs ! i)) k"
proof -
  let ?z = "\<lambda>i. (prim_elem ^ k) ^ (254 - i)"
  have "gf_of (gf.horner (alph k) ws) = (\<Sum>i<255. gf_of (ws ! i) * ?z i)"
    and "0 = (\<Sum>i<255. gf_of (cs ! i) * ?z i)"
    using horner_sum [OF alph_less ws(2), of k] horner_sum [OF alph_less cs(2), of k] cs(1,3) ws(1) k by (simp_all add: gf_of_alph)
  then have "gf_of (gf.horner (alph k) ws) = (\<Sum>i<255. gf_of (ws ! i) * ?z i) + (\<Sum>i<255. gf_of (cs ! i) * ?z i)"
    by simp
  also have "\<dots> = (\<Sum>i<255. gf_of (ws ! i XOR cs ! i) * ?z i)"
    unfolding sum.distrib [symmetric] using cs ws by (intro sum.cong) (auto simp: gf_of_xor algebra_simps)
  also have "\<dots> = (\<Sum>i\<in>error_positions ws cs. gf_of (ws ! i XOR cs ! i) * ?z i)"
    using cs(1) by (intro sum.mono_neutral_right) (auto simp: error_positions_def)
  also have "\<dots> = syndromes_of (error_positions ws cs) (\<lambda>i. prim_elem ^ (254 - i)) (\<lambda>i. gf_of (ws ! i XOR cs ! i)) k"
    unfolding syndromes_of_def by (simp add: mult.commute flip: power_mult)
  finally show ?thesis .
qed

text \<open>The inverse of a locator is the power at which the search finds it.\<close>

lemma locator_power:
  assumes "0 < i" "i < 256" "j < 255"
  shows "prim_elem ^ i = 1 / prim_elem ^ (254 - j) \<longleftrightarrow> i = Suc j"
proof -
  have "prim_elem ^ i = 1 / prim_elem ^ (254 - j) \<longleftrightarrow> prim_elem ^ (i + (254 - j)) = 1"
    using prim_nonzero [of "254 - j"] by (simp add: field_simps power_add)
  also have "\<dots> \<longleftrightarrow> prim_elem ^ ((i + (254 - j)) mod 255) = prim_elem ^ 0"
    by (simp add: prim_mod)
  also have "\<dots> \<longleftrightarrow> (i + (254 - j)) mod 255 = 0"
    by (rule prim_inject) simp_all
  also have "\<dots> \<longleftrightarrow> i = Suc j"
  proof
    assume "(i + (254 - j)) mod 255 = 0"
    then obtain m where "i + (254 - j) = 255 * m"
      by auto
    then have "i + (254 - j) = 255 * m" "0 < m" "m < 2"
      using assms by (auto intro: Nat.gr0I)
    then show "i = Suc j"
      using assms by (simp add: less_2_cases_iff)
  qed (use assms in simp)
  finally show ?thesis .
qed

lemma locator_inj: "E \<subseteq> {..<255} \<Longrightarrow> inj_on (\<lambda>i. prim_elem ^ (254 - i)) E"
proof (rule inj_onI)
  fix x y assume E: "E \<subseteq> {..<255}" "x \<in> E" "y \<in> E" "prim_elem ^ (254 - x) = prim_elem ^ (254 - y)"
  have "254 - x = 254 - y" "x < 255" "y < 255"
    using prim_inject [of "254 - x" "254 - y"] E by auto
  then show "x = y"
    by simp
qed

text \<open>The stages together, on a word of full length with at most five wrong bytes.\<close>

lemma error_table:
  assumes P: "\<And>z. peval P n z = 0 \<longleftrightarrow> (\<exists>j\<in>E. z = 1 / prim_elem ^ (254 - j))" and E: "E \<subseteq> {..<255}"
  shows "map (\<lambda>i. (i, i - 1)) (filter (\<lambda>i. peval P n (prim_elem ^ i) = 0) [1..<256]) =
    map (\<lambda>j. (Suc j, j)) (filter (\<lambda>j. j \<in> E) [0..<255])"
proof -
  have "peval P n (prim_elem ^ Suc j) = 0 \<longleftrightarrow> j \<in> E" if "j < 255" for j
    unfolding P using E that locator_power [of "Suc j"] by (auto simp del: power_Suc)
  then have "filter (\<lambda>i. peval P n (prim_elem ^ i) = 0) (map Suc [0..<255]) = map Suc (filter (\<lambda>j. j \<in> E) [0..<255])"
    unfolding filter_map by (intro arg_cong [where f = "map Suc"] filter_cong refl) (simp add: comp_def del: power_Suc)
  then show ?thesis
    by (simp add: map_Suc_upt comp_def)
qed

lemma forney_values:
  fixes E :: "nat set"
  assumes rs: "ReedSolomon 8 285 0 1 10 = Some rs" and E: "E \<subseteq> {..<255}" "card E \<le> 5" "\<And>j. j \<in> E \<Longrightarrow> Y j \<noteq> 0"
    and P: "coeffs Lambda 10 P" "recurrence P L S 10" "L \<le> card E" "\<And>j. j \<in> E \<Longrightarrow> peval P (card E) (1 / prim_elem ^ (254 - j)) = 0"
    and S: "S = syndromes_of E (\<lambda>i. prim_elem ^ (254 - i)) Y"
    and o: "coeffs omega 10 (conv P S)" "d < 10" "\<And>i. d < i \<Longrightarrow> i < 10 \<Longrightarrow> conv P S i = 0" and j: "j \<in> E"
  defines "a \<equiv> forney_num1 rs (map (poly2power G) omega @ [255]) d (Suc j)" and "b \<equiv> forney_num2 rs (Suc j)"
    and "c \<equiv> forney_den rs (map (poly2power G) Lambda) (card E) (Suc j)"
  shows "0 < a \<and> a < 256 \<and> 0 < b \<and> b < 256 \<and> 0 < c \<and> c < 256 \<and> gf_of a * gf_of b / gf_of c = Y j"
proof -
  let ?X = "\<lambda>i. prim_elem ^ (254 - i)"
  have r: "P 0 = 1" "degree_le P (card E)" "\<And>i. card E \<le> i \<Longrightarrow> i < 10 \<Longrightarrow> conv P S i = 0"
    using P(2,3) by (auto simp: recurrence_def intro: degree_le_mono)
  have j': "j < 255"
    using j E(1) by auto
  have z: "prim_elem ^ Suc j = 1 / ?X j"
    using locator_power [of "Suc j" j] j' by simp
  have a: "a < 256" "gf_of a = (\<Sum>k<card E. conv P S k * (1 / ?X j) ^ k)"
    using forney_num1_result [OF rs o(1,2,3) r(3), where rt = "Suc j" and m = "card E"] E(2) by (simp_all add: a_def z del: power_Suc)
  have b: "b < 256" "gf_of b = ?X j"
    using forney_numerator [OF rs, of "Suc j"] j' z by (simp_all add: b_def del: power_Suc)
  have c: "c < 256" "gf_of c = derivative_at P (card E) (1 / ?X j)"
    using forney_den_result [OF rs P(1) r(2), of "Suc j"] E(2) by (simp_all add: c_def z del: power_Suc)
  have fin: "finite E"
    using E(1) finite_subset by blast
  note f = forney [where E = E and X = ?X and Y = Y and P = P and j = j, OF fin locator_inj [OF E(1)] prim_nonzero E(3) r(1) P(4) j,
      folded S, folded a(2) c(2)]
  have "gf_of a \<noteq> 0" "gf_of c \<noteq> 0" "gf_of a * gf_of b / gf_of c = Y j"
    using f by (simp_all add: b(2) gf_minus)
  moreover have "gf_of b \<noteq> 0"
    unfolding b(2) by (rule prim_nonzero)
  ultimately show ?thesis
    using a(1) b(1) c(1) by (auto intro: Nat.gr0I)
qed

lemma computeSyndromes_clean:
  assumes rs: "ReedSolomon 8 285 0 1 10 = Some rs" and "length ws = 255" "\<forall>x\<in>set ws. x < 256"
  shows "computeSyndromes rs ws =
    ((\<forall>k<10. gf.horner (alph k) ws = 0), map (\<lambda>k. gf.horner (alph k) ws) [0..<10])"
proof -
  have "foldl (OR) x xs = 0 \<longleftrightarrow> x = 0 \<and> (\<forall>y\<in>set xs. y = 0)" for x :: nat and xs
    by (induction xs arbitrary: x) (auto simp: or_eq_0_iff)
  moreover have "map (getSyndrome rs ws) [0..<10] = map (\<lambda>k. gf.horner (alph k) ws) [0..<10]"
    using getSyndrome_horner [OF assms] by simp
  ultimately show ?thesis
    by (auto simp: computeSyndromes_def ReedSolomon_default [OF rs] Let_def simp del: upt_rec_numeral)
qed

lemma decode_corrects:
  assumes rs: "ReedSolomon 8 285 0 1 10 = Some rs"
    and cs: "length cs = 255" "\<forall>x\<in>set cs. x < 256" "\<And>k. k < 10 \<Longrightarrow> gf.horner (alph k) cs = 0"
    and ws: "length ws = 255" "\<forall>x\<in>set ws. x < 256" and E: "card (error_positions ws cs) \<le> 5"
  shows "\<exists>ws'. decode_rs rs ws = (int (card {i \<in> error_positions ws cs. i < 245}), ws') \<and> take 245 ws' = take 245 cs"
proof -
  let ?E = "error_positions ws cs" and ?X = "\<lambda>i. prim_elem ^ (254 - i)" and ?Y = "\<lambda>i. gf_of (ws ! i XOR cs ! i)"
  define syn where "syn = map (\<lambda>k. gf.horner (alph k) ws) [0..<10]"
  define S where "S = syndromes_of ?E ?X ?Y"
  have byte: "ws ! i < 256" "cs ! i < 256" if "i < 255" for i
    using that cs ws by simp_all
  have E': "?E \<subseteq> {..<255}" "finite ?E"
    using cs(1) by (auto simp: error_positions_def)
  have Y: "?Y j \<noteq> 0" if "j \<in> ?E" for j
    using that byte [of j] cs(1) by (auto simp: error_positions_def gf_of_eq_0 xor_lt_256 xor_eq_0_nat)
  have syn: "coeffs syn 10 S"
    using received_syndromes [OF cs ws] ws(2) by (auto simp: coeffs_def syn_def S_def intro!: gf.horner_closed alph_less)
  have decode: "decode_rs rs ws = (if \<forall>k<10. gf.horner (alph k) ws = 0 then (0, ws)
      else let (lambda_degree, Lambda) = computeLambda rs syn in
        case computeErrors rs Lambda lambda_degree of None \<Rightarrow> (-1, ws)
        | Some table \<Rightarrow> let (omega_degree, omega) = computeOmega rs syn Lambda lambda_degree
            in apply_errors rs Lambda lambda_degree omega omega_degree (rev table) (int (length table)) ws)"
    unfolding decode_rs_def computeSyndromes_clean [OF rs ws] syn_def [symmetric] by simp
  show ?thesis
  proof (cases "\<forall>k<10. gf.horner (alph k) ws = 0")
    case True
    have "?Y j = 0" if "j \<in> ?E" for j
    proof (rule vandermonde [OF E'(2) locator_inj [OF E'(1)] _ that])
      show "(\<Sum>i\<in>?E. ?Y i * ?X i ^ t) = 0" if "t < card ?E" for t
        using received_syndromes [OF cs ws, of t] True that E by (simp add: syndromes_of_def)
    qed
    then have "?E = {}"
      using Y by blast
    then show ?thesis
      using True cs(1) ws(1) unfolding decode by (auto simp: error_positions_def list_eq_iff_nth_eq)
  next
    case False
    obtain Q where Q: "recurrence Q (card ?E) S 10"
      using locator_recurrence [OF E'(2), of ?X ?Y 10] prim_nonzero unfolding S_def by blast
    define P where "P = bm_result S 10"
    obtain L where L: "recurrence P L S 10" "L \<le> card ?E"
      using bm_result_recurrence [OF Q] unfolding P_def by auto
    have P: "degree_le P (card ?E)" "\<And>z. peval P (card ?E) z = 0 \<longleftrightarrow> (\<exists>i\<in>?E. z = 1 / ?X i)" "P (card ?E) \<noteq> 0"
      using recurrence_roots [OF E'(2) locator_inj [OF E'(1)] prim_nonzero Y L(1) [unfolded S_def] L(2)] E by simp_all
    obtain Lambda where Lambda: "computeLambda rs syn = (card ?E, map (poly2power G) Lambda)" "coeffs Lambda 10 P"
      using computeLambda_result [OF rs syn Q, of "card ?E"] P(1,3) E unfolding P_def by auto
    define js where "js = filter (\<lambda>j. j \<in> ?E) [0..<255]"
    have js: "set js = ?E" "distinct js"
      using E'(1) by (auto simp: js_def)
    then have len: "length js = card ?E"
      using distinct_card [of js] by simp
    have P0: "P 0 = 1"
      using L(1) by (simp add: recurrence_def)
    have errors: "computeErrors rs (map (poly2power G) Lambda) (card ?E) = Some (map (\<lambda>j. (Suc j, j)) js)"
      using computeErrors_table [OF rs Lambda(2) _ P0, of "card ?E"] E len
      unfolding error_table [OF P(2) E'(1)] js_def by simp
    obtain d omega where omega: "computeOmega rs syn (map (poly2power G) Lambda) (card ?E) = (d, map (poly2power G) omega @ [255])"
        "coeffs omega 10 (conv P S)" "d < 10" "\<And>i. d < i \<Longrightarrow> i < 10 \<Longrightarrow> conv P S i = 0"
      using computeOmega_result [OF rs syn Lambda(2) P(1)] E by auto
    have roots: "peval P (card ?E) (1 / ?X j) = 0" if "j \<in> ?E" for j
      using P(2) that by blast
    have "apply_errors rs (map (poly2power G) Lambda) (card ?E) (map (poly2power G) omega @ [255]) d (map (\<lambda>j. (Suc j, j)) (rev js)) (int (length js)) ws =
        (int (length js) - int (length (filter (\<lambda>j. 245 \<le> j) (rev js))), fold (correct ?Y) (rev js) ws)"
      using forney_values [OF rs E'(1) E Y Lambda(2) L roots S_def omega(2-4)] js(1) by (intro apply_errors_result [OF rs]) auto
    then have "decode_rs rs ws = (int (length js) - int (length (filter (\<lambda>j. 245 \<le> j) (rev js))), fold (correct ?Y) (rev js) ws)"
      unfolding decode if_not_P [OF False] Lambda(1) by (simp add: errors omega(1) rev_map)
    moreover have "int (length js) - int (length (filter (\<lambda>j. 245 \<le> j) (rev js))) = int (card {i \<in> ?E. i < 245})"
    proof -
      have "length js = length (filter (\<lambda>j. 245 \<le> j) js) + length (filter (\<lambda>j. j < 245) js)"
        using sum_length_filter_compl [of "\<lambda>j. 245 \<le> j" js] by (simp add: not_le)
      moreover have "length (filter (\<lambda>j. j < 245) js) = card {i \<in> ?E. i < 245}"
        using js(1,2) distinct_card [of "filter (\<lambda>j. j < 245) js"] by simp
      ultimately show ?thesis
        by (simp add: rev_filter [symmetric])
    qed
    moreover have "take 245 (fold (correct ?Y) (rev js) ws) = take 245 cs"
    proof (rule nth_equalityI)
      fix i assume "i < length (take 245 (fold (correct ?Y) (rev js) ws))"
      then have i: "i < 245"
        by simp
      then have "fold (correct ?Y) (rev js) ws ! i = (if i \<in> ?E then ws ! i XOR val (?Y i) else ws ! i)"
        using fold_correct(2) [of "rev js" i ws] js ws(1) by simp
      also have "\<dots> = cs ! i"
        using byte [of i] i cs(1) by (simp add: error_positions_def xor_lt_256 flip: xor.assoc)
      finally show "take 245 (fold (correct ?Y) (rev js) ws) ! i = take 245 cs ! i"
        using i by simp
    qed (use cs ws fold_correct(1) [of "rev js"] js(2) in simp)
    ultimately show ?thesis
      by simp
  qed
qed

lemma rs_correction:
  assumes rs: "ReedSolomon 8 285 0 1 10 = Some rs" and cut: "cutlen \<le> 245"
    and r: "length r = 255 - cutlen" "\<forall>x\<in>set r. x < 256" and w: "length w = 255 - cutlen" "\<forall>x\<in>set w. x < 256"
    and "card {i. i < 255 - cutlen \<and> w ! i \<noteq> enc rs r cutlen ! i} \<le> 5"
  shows "dec rs w cutlen = (int (card {i. i < 245 - cutlen \<and> w ! i \<noteq> r ! i}), take (245 - cutlen) r)"
proof -
  let ?rf = "replicate cutlen 0 @ r" and ?ws = "replicate cutlen 0 @ w"
  let ?cs = "take 245 ?rf @ encode_rs rs ?rf"
  have rf: "length ?rf = 255" "\<forall>x\<in>set ?rf. x < 256" and ws: "length ?ws = 255" "\<forall>x\<in>set ?ws. x < 256"
    using cut r w by auto
  note e = encode_rs_eval [OF rs rf]
  have cs: "length ?cs = 255" "\<forall>x\<in>set ?cs. x < 256" "\<And>k. k < 10 \<Longrightarrow> gf.horner (alph k) ?cs = 0"
    using e(1,2) [of 0] rf codeword_syndromes [OF rs rf] by (auto dest: in_set_takeD)
  have enc: "?cs = replicate cutlen 0 @ enc rs r cutlen"
    using cut r(1) by (simp add: enc_def ReedSolomon_default [OF rs] Let_def)
  let ?E = "{i. i < 255 - cutlen \<and> w ! i \<noteq> enc rs r cutlen ! i}"
  have E: "error_positions ?ws ?cs = (+) cutlen ` ?E"
  proof (rule set_eqI)
    fix i
    have "i \<in> error_positions ?ws ?cs \<longleftrightarrow> cutlen \<le> i \<and> i < 255 \<and> w ! (i - cutlen) \<noteq> enc rs r cutlen ! (i - cutlen)"
      using cs(1) unfolding enc by (auto simp: error_positions_def nth_append)
    also have "\<dots> \<longleftrightarrow> (\<exists>j\<in>?E. i = cutlen + j)"
      using cut by (auto intro!: exI [of _ "i - cutlen"])
    finally show "i \<in> error_positions ?ws ?cs \<longleftrightarrow> i \<in> (+) cutlen ` ?E"
      by (simp add: image_iff)
  qed
  have "card (error_positions ?ws ?cs) = card ?E"
    unfolding E by (rule card_image) simp
  then obtain ws' where dec: "decode_rs rs ?ws = (int (card {i \<in> error_positions ?ws ?cs. i < 245}), ws')" "take 245 ws' = take 245 ?cs"
    using decode_corrects [OF rs cs ws] assms(7) by auto
  have "{i \<in> error_positions ?ws ?cs. i < 245} = (+) cutlen ` {i. i < 245 - cutlen \<and> w ! i \<noteq> r ! i}"
  proof -
    have "enc rs r cutlen ! i = r ! i" if "i < 245 - cutlen" for i
      using enc_bytes [OF rs cut r] that by (metis nth_take)
    then show ?thesis
      unfolding E by (force simp: image_iff)
  qed
  then have "card {i \<in> error_positions ?ws ?cs. i < 245} = card {i. i < 245 - cutlen \<and> w ! i \<noteq> r ! i}"
    by (simp add: card_image)
  moreover have "drop cutlen (take 245 ?cs) = take (245 - cutlen) r"
    using cut rf by simp
  moreover have "dec rs w cutlen = (int (card {i \<in> error_positions ?ws ?cs. i < 245}), drop cutlen (take 245 ws'))"
    unfolding dec_def ReedSolomon_default [OF rs] Let_def using dec(1) w(1) by simp
  ultimately show ?thesis
    by (simp only: dec(2))
qed

section \<open>Properties\<close>

text \<open>
  C5: The decoder corrects up to five wrong bytes.  For every shortening, all data bytes and every
  received word of bytes that differs from the encoder's output in at most five places, wherever they
  are, the decoder returns the data bytes and the number of wrong ones among them.
\<close>

theorem rs_corrects:
  assumes rs: "ReedSolomon 8 285 0 1 10 = Some rs" and cut: "cutlen \<le> 245"
    and r: "length r = 255 - cutlen" "\<forall>x\<in>set r. x < 256" and w: "length w = 255 - cutlen" "\<forall>x\<in>set w. x < 256"
    and "card {i. i < 255 - cutlen \<and> w ! i \<noteq> enc rs r cutlen ! i} \<le> 5"
  shows "dec rs w cutlen = (int (card {i. i < 245 - cutlen \<and> w ! i \<noteq> r ! i}), take (245 - cutlen) r)"
  by (rule rs_correction [OF assms])

theorem rs_corrects_witness:
  "\<exists>rs. ReedSolomon 8 285 0 1 10 = Some rs \<and>
    dec rs ((enc rs (replicate 120 77) 135)[0 := 1, 3 := 2, 50 := 0, 110 := 4, 119 := 255]) 135 = (3, replicate 110 77)"
proof -
  obtain rs where rs: "ReedSolomon 8 285 0 1 10 = Some rs"
    using ReedSolomon_exists by blast
  let ?r = "replicate 120 (77 :: nat)"
  let ?e = "enc rs ?r 135" let ?w = "?e[0 := 1, 3 := 2, 50 := 0, 110 := 4, 119 := 255]"
  have e: "length ?e = 120" "\<forall>x\<in>set ?e. x < 256" "take 110 ?e = replicate 110 77"
    using enc_bytes [OF rs, of 135 ?r] by simp_all
  have w: "\<forall>x\<in>set ?w. x < 256"
    using e(2) by (auto dest!: set_update_subset_insert [THEN subsetD])
  have "{i. i < 255 - 135 \<and> ?w ! i \<noteq> ?e ! i} \<subseteq> {0, 3, 50, 110, 119}"
    using e(1) by (auto simp: nth_list_update split: if_splits)
  then have "card {i. i < 255 - 135 \<and> ?w ! i \<noteq> ?e ! i} \<le> card {0, 3, 50, 110, 119 :: nat}"
    by (rule card_mono [rotated]) simp
  also have "\<dots> = 5"
    by simp
  finally have five: "card {i. i < 255 - 135 \<and> ?w ! i \<noteq> ?e ! i} \<le> 5" .
  have "?e ! i = 77" if "i < 110" for i
    using e(3) that by (metis nth_replicate nth_take)
  then have "{i. i < 110 \<and> ?w ! i \<noteq> ?r ! i} = {0, 3, 50}"
    using e(1) by (auto simp: nth_list_update split: if_splits)
  then have "card {i. i < 245 - 135 \<and> ?w ! i \<noteq> ?r ! i} = 3"
    by simp
  then have "dec rs ?w 135 = (3, replicate 110 77)"
    using rs_corrects [OF rs _ _ _ _ w five] e(1) by simp
  with rs show ?thesis
    by blast
qed

end
