(* ===== verification/Mp4_Processor.thy ===== *)
theory Mp4_Processor
  imports Bit_Writer Firecode Rs_Correction
begin

text \<open>
  DAB+ audio, \<^verbatim>\<open>src/src/base/backend/audio/mp4processor.cpp\<close>, in the default build with the FDK decoder:
  five frames make a superframe, which is synchronised by the fire code, repaired by the Reed-Solomon
  code, and cut into access units that are checked and handed to the AAC decoder as LATM frames.
  What leaves the processor is a list of events in order: signals, LATM frames for the dump buffer, PAD
  fields, and calls of the AAC decoder.  The AAC decoder is a library: its return value is a function of
  everything that happened before and of the frame.  A read outside the vectors is the value None.
\<close>

section \<open>The code\<close>

record SStreamParms =
  sp_dacRate :: nat
  sp_sbrFlag :: nat
  sp_psFlag :: nat
  sp_aacChannelMode :: nat
  sp_mpegSurround :: nat
  sp_CoreChConfig :: nat
  sp_CoreSrIndex :: nat
  sp_ExtensionSrIndex :: nat

datatype mp4_event =
    show_frame_errors int
  | show_rs_errors int
  | show_aac_errors int
  | show_rs_corrections int int
  | is_stereo bool
  | put_frame_buffer "u8 list"
  | new_aac_frame
  | process_PAD "u8 list" int u8 u8
  | convert_mp4_to_pcm SStreamParms "u8 list"
  | conceal_lost_frame nat

record mp4_processor =
  m4_BitRate :: nat
  m4_RsDims :: nat
  m4_RsDecoder :: reed_solomon
  m4_FireCode :: firecode
  m4_BlockFillIndex :: nat
  m4_BlocksInBuffer :: nat
  m4_FrameCount :: int
  m4_FrameErrors :: int
  m4_RsErrors :: int
  m4_CrcErrors :: int
  m4_AacErrors :: int
  m4_AacFrames :: int
  m4_SuccessFrames :: int
  m4_SuperFrameSync :: int
  m4_GoodFrames :: int
  m4_TotalCorrections :: int
  m4_SumFrameCount :: int
  m4_SumFrameErrors :: int
  m4_SumFcErrors :: int
  m4_SumFcCorrections :: int
  m4_SumRsErrors :: int
  m4_SumCorrections :: int
  m4_SumCrcErrors :: int
  m4_Sum_good_crcs :: int
  m4_FrameByteVec :: "u8 list"
  m4_OutVec :: "u8 list"
  m4_AuStartArr :: "int list"
  m4_events :: "mp4_event list"

text \<open>The counters of 16 bits that only a signal resets wrap around.\<close>

definition i16 :: "int \<Rightarrow> int" where
  "i16 x = (x + 2 ^ 15) mod 2 ^ 16 - 2 ^ 15"

text \<open>The start table has no initial value.\<close>

definition Mp4Processor :: "nat \<Rightarrow> int list \<Rightarrow> mp4_processor option" where
  "Mp4Processor iBitRate starts =
     (case ReedSolomon 8 285 0 1 10 of
        None \<Rightarrow> None
      | Some rs \<Rightarrow> Some
          \<lparr>m4_BitRate = iBitRate, m4_RsDims = iBitRate div 8, m4_RsDecoder = rs, m4_FireCode = FirecodeChecker,
           m4_BlockFillIndex = 0, m4_BlocksInBuffer = 0, m4_FrameCount = 0, m4_FrameErrors = 0, m4_RsErrors = 0,
           m4_CrcErrors = 0, m4_AacErrors = 0, m4_AacFrames = 0, m4_SuccessFrames = 0, m4_SuperFrameSync = 0,
           m4_GoodFrames = 0, m4_TotalCorrections = 0, m4_SumFrameCount = 0, m4_SumFrameErrors = 0,
           m4_SumFcErrors = 0, m4_SumFcCorrections = 0, m4_SumRsErrors = 0, m4_SumCorrections = 0,
           m4_SumCrcErrors = 0, m4_Sum_good_crcs = 0, m4_FrameByteVec = replicate (iBitRate div 8 * 120) 0,
           m4_OutVec = replicate (iBitRate div 8 * 110) 0, m4_AuStartArr = starts, m4_events = []\<rparr>)"

definition emit_mp4 :: "mp4_event list \<Rightarrow> mp4_processor \<Rightarrow> mp4_processor" where
  "emit_mp4 evs s = s\<lparr>m4_events := m4_events s @ evs\<rparr>"

subsection \<open>The LATM frame\<close>

definition stream_config :: "SStreamParms \<Rightarrow> bit_writer \<Rightarrow> bit_writer" where
  "stream_config sp w =
     (if sp_sbrFlag sp \<noteq> 0
      then
        AddBits 0b100 3 (AddBits 0b00010 5 (AddBits (int (sp_ExtensionSrIndex sp)) 4
          (AddBits (int (sp_CoreChConfig sp)) 4 (AddBits (int (sp_CoreSrIndex sp)) 4 (AddBits 0b00101 5 w)))))
      else
        AddBits 0b100 3 (AddBits (int (sp_CoreChConfig sp)) 4
          (AddBits (int (sp_CoreSrIndex sp)) 4 (AddBits 0b00010 5 w))))"

definition build_aac_stream :: "SStreamParms \<Rightarrow> u8 list \<Rightarrow> u8 list" where
  "build_aac_stream sp iData =
     (let n = length iData;
          w = AddBits 0 13 (AddBits 0x2b7 11 Reset);
          w = AddBits 0 3 (AddBits 0 4 (AddBits 0 6 (AddBits 1 1 (AddBits 0 1 (AddBits 0 1 w)))));
          w = stream_config sp w;
          w = AddBits 0 1 (AddBits 0 1 (AddBits 0xff 8 (AddBits 0 3 w)));
          w = foldl (\<lambda>w i. AddBits 0xff 8 w) w [0..<n div 255];
          w = AddBits (int (n mod 255)) 8 w;
          w = AddBytes iData w
      in bw_data (WriteAudioMuxLengthBytes w))"

subsection \<open>Reed-Solomon\<close>

definition rs_count :: "int \<Rightarrow> mp4_processor \<Rightarrow> mp4_processor" where
  "rs_count ler s =
     (if ler < 0
      then s\<lparr>m4_RsErrors := i16 (m4_RsErrors s + 1), m4_SumRsErrors := m4_SumRsErrors s + 1\<rparr>
      else
        let s = s\<lparr>m4_TotalCorrections := m4_TotalCorrections s + ler, m4_SumCorrections := m4_SumCorrections s + ler,
                  m4_GoodFrames := m4_GoodFrames s + 1\<rparr>
        in if m4_GoodFrames s \<ge> 100
           then (emit_mp4 [show_rs_corrections (m4_TotalCorrections s) (m4_CrcErrors s)] s)
                  \<lparr>m4_TotalCorrections := 0, m4_GoodFrames := 0, m4_CrcErrors := 0\<rparr>
           else s)"

definition rs_column :: "nat \<Rightarrow> mp4_processor \<Rightarrow> nat \<Rightarrow> mp4_processor" where
  "rs_column iBase s j =
     (let dims = m4_RsDims s;
          rsIn = map (\<lambda>k. unat (m4_FrameByteVec s ! ((iBase + j + k * dims) mod (dims * 120)))) [0..<120];
          (ler, rsOut) = dec (m4_RsDecoder s) rsIn 135;
          s = rs_count ler s
      in s\<lparr>m4_OutVec := foldl (\<lambda>out k. out[j + k * dims := of_nat (rsOut ! k)]) (m4_OutVec s) [0..<110]\<rparr>)"

definition process_reed_solomon_frame :: "nat \<Rightarrow> mp4_processor \<Rightarrow> (bool \<times> mp4_processor) option" where
  "process_reed_solomon_frame iBase s =
     (let s = foldl (rs_column iBase) s [0..<m4_RsDims s]
      in if length (m4_OutVec s) < 11 then None
         else
           let (ok, x) = check_and_correct_6bits (m4_FireCode s) ((!) (m4_OutVec s));
               s = s\<lparr>m4_OutVec := map x [0..<11] @ drop 11 (m4_OutVec s)\<rparr>
           in if ok
              then Some (True, if take 11 (m4_OutVec s) \<noteq> take 11 (drop iBase (m4_FrameByteVec s))
                               then s\<lparr>m4_SumFcCorrections := m4_SumFcCorrections s + 1\<rparr> else s)
              else Some (False, s\<lparr>m4_SumFcErrors := m4_SumFcErrors s + 1\<rparr>))"

subsection \<open>Access units\<close>

definition stream_parms :: "u8 \<Rightarrow> SStreamParms" where
  "stream_parms b =
     (let dac = unat (drop_bit 6 b AND 1); sbr = unat (drop_bit 5 b AND 1); mode = unat (drop_bit 4 b AND 1)
      in \<lparr>sp_dacRate = dac, sp_sbrFlag = sbr, sp_psFlag = unat (drop_bit 3 b AND 1), sp_aacChannelMode = mode,
          sp_mpegSurround = unat (b AND 7), sp_CoreChConfig = (if mode \<noteq> 0 then 2 else 1),
          sp_CoreSrIndex = (if dac \<noteq> 0 then (if sbr \<noteq> 0 then 6 else 3) else (if sbr \<noteq> 0 then 8 else 5)),
          sp_ExtensionSrIndex = (if dac \<noteq> 0 then 3 else 5)\<rparr>)"

text \<open>The starts of the access units, and the end of the last one.\<close>

definition au_starts :: "u8 list \<Rightarrow> nat \<Rightarrow> SStreamParms \<Rightarrow> int list" where
  "au_starts out rate sp =
     (let o' = (\<lambda>i. uint (out ! i));
          hi = (\<lambda>i. o' i * 16 + uint (drop_bit 4 (out ! (i + 1))));
          lo = (\<lambda>i. uint (out ! i AND 0xf) * 256 + o' (i + 1));
          end' = int (110 * (rate div 8))
      in if 2 * sp_dacRate sp + sp_sbrFlag sp = 0 then [8, hi 3, lo 4, hi 6, end']
         else if 2 * sp_dacRate sp + sp_sbrFlag sp = 1 then [5, hi 3, end']
         else if 2 * sp_dacRate sp + sp_sbrFlag sp = 2 then [11, hi 3, lo 4, hi 6, lo 7, hi 9, end']
         else [6, hi 3, lo 4, end'])"

type_synonym aac_decoder = "mp4_event list \<Rightarrow> SStreamParms \<Rightarrow> u8 list \<Rightarrow> int"

definition conceal :: "bool \<Rightarrow> SStreamParms \<Rightarrow> mp4_processor \<Rightarrow> mp4_processor" where
  "conceal concealDropouts sp s =
     (if concealDropouts
      then emit_mp4 [conceal_lost_frame (960 * (if sp_sbrFlag sp \<noteq> 0 then 2 else 1) * 2)] s else s)"

text \<open>The PAD field of an access unit, None when it is too short or reaches past the vector.\<close>

definition au_pad :: "u8 list \<Rightarrow> nat \<Rightarrow> mp4_event list option" where
  "au_pad out start =
     (if drop_bit 5 (out ! start) AND 7 = 4
      then
        let count = unat (out ! (start + 1))
        in if count < 2 \<or> length out < start + 2 + count then None
           else Some [process_PAD (take count (drop (start + 2) out)) (int count - 3)
                        (out ! (start + count)) (out ! (start + count + 1))]
      else Some [])"

definition good_unit :: "aac_decoder \<Rightarrow> bool \<Rightarrow> SStreamParms \<Rightarrow> nat \<Rightarrow> nat \<Rightarrow> mp4_processor \<Rightarrow> mp4_processor option" where
  "good_unit aac concealDropouts sp start len s =
     (case au_pad (m4_OutVec s) start of
        None \<Rightarrow> None
      | Some pad \<Rightarrow>
          let aacStreamBuffer = build_aac_stream sp (take len (drop start (m4_OutVec s)));
              s = emit_mp4 ([put_frame_buffer aacStreamBuffer, new_aac_frame] @ pad)
                    (s\<lparr>m4_Sum_good_crcs := m4_Sum_good_crcs s + 1\<rparr>);
              aacErr = aac (m4_events s) sp aacStreamBuffer;
              s = emit_mp4 [convert_mp4_to_pcm sp aacStreamBuffer,
                            is_stereo (sp_aacChannelMode sp = 1 \<or> sp_psFlag sp = 1)] s
          in Some (if aacErr \<le> 0
                   then conceal concealDropouts sp (s\<lparr>m4_AacErrors := i16 (m4_AacErrors s + 1)\<rparr>) else s))"

definition count_unit :: "mp4_processor \<Rightarrow> mp4_processor" where
  "count_unit s =
     (if m4_AacFrames s + 1 > 25
      then (emit_mp4 [show_aac_errors (m4_AacErrors s)] s)\<lparr>m4_AacErrors := 0, m4_AacFrames := 0\<rparr>
      else s\<lparr>m4_AacFrames := m4_AacFrames s + 1\<rparr>)"

definition process_unit :: "aac_decoder \<Rightarrow> bool \<Rightarrow> SStreamParms \<Rightarrow> nat \<Rightarrow> mp4_processor \<Rightarrow> mp4_processor option" where
  "process_unit aac concealDropouts sp auIdx s =
     (let start = m4_AuStartArr s ! auIdx;
          aacFrameLen = m4_AuStartArr s ! (auIdx + 1) - start - 2
      in map_option count_unit
           (if aacFrameLen > 960 \<or> aacFrameLen < 0
            then Some (conceal concealDropouts sp (s\<lparr>m4_AacErrors := i16 (m4_AacErrors s + 1)\<rparr>))
            else if start + aacFrameLen + 2 > int (length (m4_OutVec s)) then None
            else if check_crc_bytes (\<lambda>i. m4_OutVec s ! (nat start + i)) (nat aacFrameLen)
            then good_unit aac concealDropouts sp (nat start) (nat aacFrameLen) s
            else Some (conceal concealDropouts sp
                   (s\<lparr>m4_CrcErrors := i16 (m4_CrcErrors s + 1), m4_SumCrcErrors := m4_SumCrcErrors s + 1\<rparr>))))"

fun process_units :: "aac_decoder \<Rightarrow> bool \<Rightarrow> SStreamParms \<Rightarrow> nat list \<Rightarrow> mp4_processor \<Rightarrow> mp4_processor option" where
  "process_units aac concealDropouts sp [] s = Some s"
| "process_units aac concealDropouts sp (auIdx # rest) s =
     (case process_unit aac concealDropouts sp auIdx s of
        None \<Rightarrow> None | Some s \<Rightarrow> process_units aac concealDropouts sp rest s)"

definition process_super_frame :: "aac_decoder \<Rightarrow> bool \<Rightarrow> nat \<Rightarrow> mp4_processor \<Rightarrow> (bool \<times> mp4_processor) option" where
  "process_super_frame aac concealDropouts iBase s =
     (case process_reed_solomon_frame iBase s of
        None \<Rightarrow> None
      | Some (False, s) \<Rightarrow> Some (False, s)
      | Some (True, s) \<Rightarrow>
          let sp = stream_parms (m4_OutVec s ! 2);
              starts = au_starts (m4_OutVec s) (m4_BitRate s) sp;
              s = s\<lparr>m4_AuStartArr := starts @ drop (length starts) (m4_AuStartArr s)\<rparr>
          in map_option (Pair True) (process_units aac concealDropouts sp [0..<length starts - 1] s))"

subsection \<open>Frames\<close>

definition frame_byte :: "u8 list \<Rightarrow> nat \<Rightarrow> u8" where
  "frame_byte iV i = foldl (\<lambda>temp j. push_bit 1 temp OR (iV ! (i * 8 + j) AND 1)) 0 [0..<8]"

definition super_frame_step :: "aac_decoder \<Rightarrow> bool \<Rightarrow> nat \<Rightarrow> mp4_processor \<Rightarrow> mp4_processor option" where
  "super_frame_step aac concealDropouts numBytes s =
     (if m4_SuperFrameSync s \<noteq> 0
      then
        (case process_super_frame aac concealDropouts (m4_BlockFillIndex s * numBytes) (s\<lparr>m4_BlocksInBuffer := 0\<rparr>) of
           None \<Rightarrow> None
         | Some (True, s) \<Rightarrow>
             let s = s\<lparr>m4_SuperFrameSync := 4, m4_SuccessFrames := m4_SuccessFrames s + 1\<rparr>
             in Some (if m4_SuccessFrames s > 25
                      then (emit_mp4 [show_rs_errors (m4_RsErrors s)] s)\<lparr>m4_SuccessFrames := 0, m4_RsErrors := 0\<rparr>
                      else s)
         | Some (False, s) \<Rightarrow>
             let s = s\<lparr>m4_SuperFrameSync := m4_SuperFrameSync s - 1\<rparr>
             in Some (if m4_SuperFrameSync s = 0
                      then s\<lparr>m4_BlocksInBuffer := 4, m4_FrameErrors := i16 (m4_FrameErrors s + 1),
                             m4_SumFrameErrors := m4_SumFrameErrors s + 1\<rparr>
                      else s))
      else Some s)"

text \<open>A bit rate whose frame size does not fit into 16 bits makes the indices negative.\<close>

definition mp4_add_to_frame :: "aac_decoder \<Rightarrow> bool \<Rightarrow> mp4_processor \<Rightarrow> u8 list \<Rightarrow> mp4_processor option" where
  "mp4_add_to_frame aac concealDropouts s iV =
     (let numBits = i16 (24 * int (m4_BitRate s));
          numBytes = nat numBits div 8
      in if numBits < 0 \<or> length iV < 8 * numBytes \<or>
            (m4_BlockFillIndex s + 1) * numBytes > length (m4_FrameByteVec s) then None
         else
           let s = s\<lparr>m4_FrameByteVec := blit (m4_BlockFillIndex s * numBytes) (map (frame_byte iV) [0..<numBytes]) (m4_FrameByteVec s),
                     m4_BlocksInBuffer := m4_BlocksInBuffer s + 1,
                     m4_BlockFillIndex := (m4_BlockFillIndex s + 1) mod 5, m4_SumFrameCount := m4_SumFrameCount s + 1\<rparr>
           in if m4_BlocksInBuffer s < 5 then Some s
              else if m4_BlockFillIndex s * numBytes + 11 > length (m4_FrameByteVec s) then None
              else
                let s = (if m4_FrameCount s + 1 \<ge> 25
                         then (emit_mp4 [show_frame_errors (m4_FrameErrors s)] s)\<lparr>m4_FrameCount := 0, m4_FrameErrors := 0\<rparr>
                         else s\<lparr>m4_FrameCount := m4_FrameCount s + 1\<rparr>);
                    s = (if m4_SuperFrameSync s = 0
                         then if check (m4_FireCode s) (\<lambda>i. m4_FrameByteVec s ! (m4_BlockFillIndex s * numBytes + i))
                              then s\<lparr>m4_SuperFrameSync := 4\<rparr> else s\<lparr>m4_BlocksInBuffer := 4\<rparr>
                         else s)
                in super_frame_step aac concealDropouts numBytes s)"

fun mp4_add_frames :: "aac_decoder \<Rightarrow> bool \<Rightarrow> mp4_processor \<Rightarrow> u8 list list \<Rightarrow> mp4_processor option" where
  "mp4_add_frames aac c s [] = Some s"
| "mp4_add_frames aac c s (v # vs) = (case mp4_add_to_frame aac c s v of None \<Rightarrow> None | Some s \<Rightarrow> mp4_add_frames aac c s vs)"

section \<open>Chunks\<close>

lemma concat_chunks:
  "length v = k * n \<Longrightarrow> concat (map (\<lambda>b. take n (drop (b * n) v)) [0..<k]) = v"
proof -
  have "concat (map (\<lambda>b. take n (drop (b * n) v)) [0..<m]) = take (m * n) v" for m
  proof (induction m)
    case (Suc m)
    have "Suc m * n = m * n + n" by simp
    then show ?case using Suc by (simp only: upt_Suc_append le0 map_append concat_append take_add) simp
  qed simp
  then show "length v = k * n \<Longrightarrow> ?thesis" by simp
qed

lemma length_chunk: "length v = k * n \<Longrightarrow> b < k \<Longrightarrow> length (take n (drop (b * n) v)) = n"
proof -
  assume l: "length v = k * n" and b: "b < k"
  then have "(b + 1) * n \<le> k * n" by (intro mult_le_mono1) simp
  then have "n \<le> k * n - b * n" by simp
  then show ?thesis unfolding length_take length_drop l by (rule min.absorb2)
qed

section \<open>Collecting a superframe\<close>

definition mp4_inv :: "nat \<Rightarrow> mp4_processor \<Rightarrow> bool" where
  "mp4_inv dims s \<longleftrightarrow> 0 < dims \<and> dims \<le> 170 \<and> m4_RsDims s = dims \<and> m4_BitRate s = 8 * dims \<and>
     ReedSolomon 8 285 0 1 10 = Some (m4_RsDecoder s) \<and> m4_FireCode s = FirecodeChecker \<and>
     length (m4_FrameByteVec s) = 120 * dims \<and> length (m4_OutVec s) = 110 * dims \<and>
     m4_BlockFillIndex s < 5 \<and> m4_BlocksInBuffer s < 5 \<and> 0 \<le> m4_SuperFrameSync s \<and> m4_SuperFrameSync s \<le> 4"

text \<open>A frame of bits with the bytes it stands for.\<close>

definition frame_carries :: "u8 list \<Rightarrow> u8 list \<Rightarrow> bool" where
  "frame_carries bytes iV \<longleftrightarrow> length iV = 8 * length bytes \<and> map (frame_byte iV) [0..<length bytes] = bytes"

lemma num_bytes: "0 < dims \<Longrightarrow> dims \<le> 170 \<Longrightarrow> i16 (24 * int (8 * dims)) = 192 * int dims \<and> nat (192 * int dims) div 8 = 24 * dims"
  by (simp add: i16_def nat_mult_distrib)

definition stored :: "nat \<Rightarrow> u8 list \<Rightarrow> mp4_processor \<Rightarrow> mp4_processor" where
  "stored dims bytes s = s\<lparr>m4_FrameByteVec := blit (m4_BlockFillIndex s * (24 * dims)) bytes (m4_FrameByteVec s),
     m4_BlocksInBuffer := m4_BlocksInBuffer s + 1,
     m4_BlockFillIndex := (m4_BlockFillIndex s + 1) mod 5, m4_SumFrameCount := m4_SumFrameCount s + 1\<rparr>"

lemma block_inside: "b < 5 \<Longrightarrow> b * (24 * dims) + 24 * dims \<le> 120 * dims" for b dims :: nat
proof -
  assume "b < 5"
  then have "(b + 1) * (24 * dims) \<le> 5 * (24 * dims)" by (intro mult_le_mono1) simp
  then show ?thesis by (simp add: algebra_simps)
qed

lemma frame_stored:
  assumes "mp4_inv dims s" and "frame_carries bytes iV" and "length bytes = 24 * dims" and "m4_BlocksInBuffer s < 4"
  shows "mp4_add_to_frame aac c s iV = Some (stored dims bytes s)"
proof -
  have n: "i16 (24 * int (m4_BitRate s)) = 192 * int dims" "nat (192 * int dims) div 8 = 24 * dims"
    using num_bytes [of dims] assms(1) by (simp_all add: mp4_inv_def)
  have "\<not> (m4_BlockFillIndex s + 1) * (24 * dims) > length (m4_FrameByteVec s)"
    using block_inside [of "m4_BlockFillIndex s" dims] assms(1) by (simp add: mp4_inv_def algebra_simps)
  moreover have "map (frame_byte iV) [0..<24 * dims] = bytes" "length iV = 8 * (24 * dims)"
    using assms(2,3) by (simp_all add: frame_carries_def)
  ultimately show ?thesis using assms(4) by (simp add: mp4_add_to_frame_def n stored_def Let_def)
qed

text \<open>The ring of five blocks.\<close>

lemma concat_nth_block:
  "\<forall>bs\<in>set bss. length bs = n \<Longrightarrow> f < length bss \<Longrightarrow> r < n \<Longrightarrow> concat bss ! (f * n + r) = bss ! f ! r"
proof (induction bss arbitrary: f)
  case (Cons bs bss)
  then show ?case by (cases f) (simp_all add: nth_append)
qed simp

lemma ring_index:
  fixes b f n r :: nat
  assumes "r < n"
  shows "(b * n + (f * n + r)) mod (5 * n) = (b + f) mod 5 * n + r"
proof -
  have "b * n + (f * n + r) = (b + f) * n + r" by (simp add: algebra_simps)
  moreover have "((b + f) * n + r) mod (5 * n) = (b + f) mod 5 * n + r"
  proof -
    have "(b + f) * n + r = (b + f) div 5 * (5 * n) + ((b + f) mod 5 * n + r)"
      by (metis (no_types, opaque_lifting) add.assoc div_mult_mod_eq distrib_right mult.assoc)
    moreover have "(b + f) mod 5 * n + r < 5 * n"
    proof -
      have "(b + f) mod 5 * n + r < ((b + f) mod 5 + 1) * n" using assms by simp
      also have "\<dots> \<le> 5 * n" by (intro mult_le_mono1) (simp add: Suc_leI)
      finally show ?thesis .
    qed
    ultimately show ?thesis by (metis mod_less mod_mult_self3)
  qed
  ultimately show ?thesis by (simp only:)
qed

definition block_is :: "nat \<Rightarrow> mp4_processor \<Rightarrow> nat \<Rightarrow> u8 list \<Rightarrow> bool" where
  "block_is dims s b bytes \<longleftrightarrow> (\<forall>r<24 * dims. m4_FrameByteVec s ! (b * (24 * dims) + r) = bytes ! r)"

lemma stored_inv:
  assumes "mp4_inv dims s" and "length bytes = 24 * dims" and "m4_BlocksInBuffer s < 4"
  shows "mp4_inv dims (stored dims bytes s)"
  using assms block_inside [of "m4_BlockFillIndex s" dims]
  by (simp add: mp4_inv_def stored_def length_blit)

lemma stored_fields [simp]:
  "m4_BlockFillIndex (stored dims bytes s) = (m4_BlockFillIndex s + 1) mod 5"
  "m4_BlocksInBuffer (stored dims bytes s) = m4_BlocksInBuffer s + 1"
  "m4_events (stored dims bytes s) = m4_events s" "m4_SuperFrameSync (stored dims bytes s) = m4_SuperFrameSync s"
  "m4_OutVec (stored dims bytes s) = m4_OutVec s" "m4_RsDims (stored dims bytes s) = m4_RsDims s"
  by (simp_all add: stored_def)

definition ring_ok :: "nat \<Rightarrow> mp4_processor \<Rightarrow> bool" where
  "ring_ok dims s \<longleftrightarrow> m4_BlockFillIndex s < 5 \<and> length (m4_FrameByteVec s) = 120 * dims"

lemma ring_stored: "ring_ok dims s \<Longrightarrow> length bytes = 24 * dims \<Longrightarrow> ring_ok dims (stored dims bytes s)"
  using block_inside [of "m4_BlockFillIndex s" dims] by (simp add: ring_ok_def stored_def length_blit)

lemma stored_block:
  assumes "ring_ok dims s" and "length bytes = 24 * dims" and "b < 5"
  shows "block_is dims (stored dims bytes s) b bs \<longleftrightarrow>
    (if b = m4_BlockFillIndex s then \<forall>r<24 * dims. bytes ! r = bs ! r else block_is dims s b bs)"
proof -
  let ?n = "24 * dims" and ?i = "m4_BlockFillIndex s"
  have fill: "?i < 5" "length (m4_FrameByteVec s) = 120 * dims" using assms(1) by (simp_all add: ring_ok_def)
  have "m4_FrameByteVec (stored dims bytes s) ! (b * ?n + r) =
      (if b = ?i then bytes ! r else m4_FrameByteVec s ! (b * ?n + r))" if r: "r < ?n" for r
  proof -
    have "?i * ?n \<le> b * ?n + r \<and> b * ?n + r < ?i * ?n + ?n \<longleftrightarrow> b = ?i"
    proof
      assume a: "?i * ?n \<le> b * ?n + r \<and> b * ?n + r < ?i * ?n + ?n"
      have "b = (b * ?n + r) div ?n" using r by simp
      also have "\<dots> = ?i" using a by (intro div_nat_eqI) (simp_all add: algebra_simps)
      finally show "b = ?i" .
    qed (use r in simp)
    then show ?thesis using nth_blit [of "?i * ?n" bytes "m4_FrameByteVec s" "b * ?n + r"]
        block_inside [OF fill(1), of dims] block_inside [OF assms(3), of dims] r fill(2) assms(2)
      by (auto simp: stored_def)
  qed
  then show ?thesis by (auto simp: block_is_def)
qed

lemma mod5_eq:
  fixes b f m :: nat
  assumes "f \<le> m" and "m < 5"
  shows "(b + f) mod 5 = (b + m) mod 5 \<longleftrightarrow> f = m"
proof
  assume "(b + f) mod 5 = (b + m) mod 5"
  then have "5 dvd m - f" using mod_eq_dvd_iff_nat [of "b + f" "b + m" 5] assms(1) by simp
  moreover have "m - f < 5" using assms(2) by simp
  ultimately show "f = m" using nat_dvd_not_less [of "m - f" 5] assms(1) by (cases "f < m") simp_all
qed simp

lemma stored_all:
  assumes "ring_ok dims s" and "\<forall>bs\<in>set bss. length bs = 24 * dims" and "length bss \<le> 5"
  defines "t \<equiv> fold (stored dims) bss s"
  shows "ring_ok dims t \<and> m4_BlockFillIndex t = (m4_BlockFillIndex s + length bss) mod 5 \<and>
    m4_BlocksInBuffer t = m4_BlocksInBuffer s + length bss \<and>
    (\<forall>f<length bss. block_is dims t ((m4_BlockFillIndex s + f) mod 5) (bss ! f))"
  using assms(2,3) unfolding t_def
proof (induction bss rule: rev_induct)
  case Nil
  then show ?case using assms(1) by (simp add: ring_ok_def)
next
  case (snoc bs bss)
  let ?u = "fold (stored dims) bss s" and ?b = "m4_BlockFillIndex s"
  have IH: "ring_ok dims ?u" "m4_BlockFillIndex ?u = (?b + length bss) mod 5" "m4_BlocksInBuffer ?u = m4_BlocksInBuffer s + length bss"
    "\<And>f. f < length bss \<Longrightarrow> block_is dims ?u ((?b + f) mod 5) (bss ! f)" and l: "length bs = 24 * dims" "length bss < 5"
    using snoc by simp_all
  have "block_is dims (stored dims bs ?u) ((?b + f) mod 5) ((bss @ [bs]) ! f)" if f: "f < Suc (length bss)" for f
  proof -
    have "(?b + f) mod 5 = (?b + length bss) mod 5 \<longleftrightarrow> f = length bss"
      by (rule mod5_eq) (use f l(2) in simp_all)
    then show ?thesis using stored_block [OF IH(1) l(1), of "(?b + f) mod 5" "(bss @ [bs]) ! f"] IH(2) IH(4) [of f] f
      by (auto simp: nth_append)
  qed
  then show ?case using ring_stored [OF IH(1) l(1)] IH(2,3) by (simp add: mod_Suc_eq)
qed

lemma ring_holds:
  assumes "ring_ok dims s" and "\<forall>bs\<in>set bss. length bs = 24 * dims" and "length bss = 5"
  defines "t \<equiv> fold (stored dims) bss s"
  shows "m4_BlockFillIndex t = m4_BlockFillIndex s"
    and "\<And>x. x < 120 * dims \<Longrightarrow> m4_FrameByteVec t ! ((m4_BlockFillIndex s * (24 * dims) + x) mod (dims * 120)) = concat bss ! x"
proof -
  let ?n = "24 * dims" and ?b = "m4_BlockFillIndex s"
  note a = stored_all [OF assms(1,2), folded t_def]
  show "m4_BlockFillIndex t = ?b" using a assms(1,3) by (simp add: ring_ok_def)
  fix x assume x: "x < 120 * dims"
  define f r where "f = x div ?n" and "r = x mod ?n"
  have n: "0 < ?n" using x by simp
  have fr: "x = f * ?n + r" unfolding f_def r_def by (rule div_mult_mod_eq [symmetric])
  have fr2: "r < ?n" "f < 5" using n x by (simp_all add: f_def r_def less_mult_imp_div_less)
  have "m4_FrameByteVec t ! ((?b * ?n + x) mod (5 * ?n)) = m4_FrameByteVec t ! ((?b + f) mod 5 * ?n + r)"
    unfolding fr using ring_index [OF fr2(1), of ?b f] by simp
  also have "\<dots> = bss ! f ! r" using a fr2 assms(3) by (simp add: block_is_def)
  also have "\<dots> = concat bss ! x" unfolding fr
    by (rule concat_nth_block [symmetric]) (use fr2 assms in simp_all)
  finally show "m4_FrameByteVec t ! ((?b * ?n + x) mod (dims * 120)) = concat bss ! x" by (simp add: mult.commute)
qed

section \<open>Repairing a superframe\<close>

text \<open>The transmitter: \<open>dims\<close> interleaved code words of 120 bytes.\<close>

definition rs_data :: "nat \<Rightarrow> u8 list \<Rightarrow> nat \<Rightarrow> nat list" where
  "rs_data dims D j = map (\<lambda>k. unat (D ! (j + k * dims))) [0..<110] @ replicate 10 0"

definition encode_super_frame :: "reed_solomon \<Rightarrow> nat \<Rightarrow> u8 list \<Rightarrow> u8 list" where
  "encode_super_frame rs dims D =
     map (\<lambda>i. of_nat (enc rs (rs_data dims D (i mod dims)) 135 ! (i div dims))) [0..<120 * dims]"

text \<open>A received word from which the code restores the data: at most five wrong bytes in every code word.\<close>

definition repairable :: "reed_solomon \<Rightarrow> nat \<Rightarrow> u8 list \<Rightarrow> u8 list \<Rightarrow> bool" where
  "repairable rs dims D W \<longleftrightarrow> length W = 120 * dims \<and>
     (\<forall>j<dims. card {k. k < 120 \<and> W ! (j + k * dims) \<noteq> encode_super_frame rs dims D ! (j + k * dims)} \<le> 5)"

lemma rs_word:
  assumes rs: "ReedSolomon 8 285 0 1 10 = Some rs" and j: "j < dims"
  shows "map (\<lambda>k. unat (encode_super_frame rs dims D ! (j + k * dims))) [0..<120] = enc rs (rs_data dims D j) 135"
    and "repairable rs dims D W \<Longrightarrow>
      \<exists>n. dec rs (map (\<lambda>k. unat (W ! (j + k * dims))) [0..<120]) 135 = (n, map (\<lambda>k. unat (D ! (j + k * dims))) [0..<110])"
    and "\<And>k. k < 110 \<Longrightarrow> encode_super_frame rs dims D ! (j + k * dims) = D ! (j + k * dims)"
proof -
  let ?r = "rs_data dims D j"
  have r: "length ?r = 120" "\<forall>x\<in>set ?r. x < 256" "take 110 ?r = map (\<lambda>k. unat (D ! (j + k * dims))) [0..<110]"
    using unsigned_less [where 'a = nat and 'b = 8] by (auto simp: rs_data_def simp del: upt_Suc)
  note e = enc_bytes [OF rs _ _ r(2), of 135]
  have l: "length (enc rs ?r 135) = 120" and b: "\<forall>x\<in>set (enc rs ?r 135). x < 256" and t: "take 110 (enc rs ?r 135) = take 110 ?r"
    using e r(1) by simp_all
  have w: "encode_super_frame rs dims D ! (j + k * dims) = of_nat (enc rs ?r 135 ! k)" if "k < 120" for k
  proof -
    have "j + k * dims < (k + 1) * dims" using j by simp
    also have "\<dots> \<le> 120 * dims" using that by (intro mult_le_mono1) simp
    finally show ?thesis using j by (simp add: encode_super_frame_def)
  qed
  show "map (\<lambda>k. unat (encode_super_frame rs dims D ! (j + k * dims))) [0..<120] = enc rs ?r 135"
  proof (rule nth_equalityI)
    fix k assume "k < length (map (\<lambda>k. unat (encode_super_frame rs dims D ! (j + k * dims))) [0..<120])"
    then have k: "k < 120" by simp
    then have "enc rs ?r 135 ! k < 256" using b l by simp
    then show "map (\<lambda>k. unat (encode_super_frame rs dims D ! (j + k * dims))) [0..<120] ! k = enc rs ?r 135 ! k"
      using k by (simp add: w unat_of_nat)
  qed (simp add: l)
  show "\<exists>n. dec rs (map (\<lambda>k. unat (W ! (j + k * dims))) [0..<120]) 135 = (n, map (\<lambda>k. unat (D ! (j + k * dims))) [0..<110])"
    if W: "repairable rs dims D W"
  proof -
    let ?w = "map (\<lambda>k. unat (W ! (j + k * dims))) [0..<120]"
    have eq: "?w ! k \<noteq> enc rs ?r 135 ! k \<longleftrightarrow> W ! (j + k * dims) \<noteq> encode_super_frame rs dims D ! (j + k * dims)" if "k < 120" for k
      using that b l by (simp add: w unat_of_nat word_unat_eq_iff)
    have "{k. k < 255 - 135 \<and> ?w ! k \<noteq> enc rs ?r 135 ! k} =
        {k. k < 120 \<and> W ! (j + k * dims) \<noteq> encode_super_frame rs dims D ! (j + k * dims)}"
      by (intro Collect_cong conj_cong) (simp_all only: eq, simp)
    then have "card {k. k < 255 - 135 \<and> ?w ! k \<noteq> enc rs ?r 135 ! k} \<le> 5"
      using W j by (simp add: repairable_def)
    moreover have "\<forall>x\<in>set ?w. x < 256"
      using unsigned_less [where 'a = nat and 'b = 8] by auto
    ultimately show ?thesis
      using rs_correction [OF rs _ _ r(2), of 135 ?w] r(1,3) by simp
  qed
  show "encode_super_frame rs dims D ! (j + k * dims) = D ! (j + k * dims)" if k: "k < 110" for k
  proof -
    have "enc rs ?r 135 ! k = take 110 (enc rs ?r 135) ! k" using k by simp
    also have "\<dots> = unat (D ! (j + k * dims))" unfolding t r(3) using k by simp
    finally show ?thesis using w [of k] k by simp
  qed
qed

text \<open>What the statistics leave alone, and the calls of the AAC decoder.\<close>

definition decoded :: "mp4_event list \<Rightarrow> (SStreamParms \<times> u8 list) list" where
  "decoded evs = concat (map (\<lambda>e. case e of convert_mp4_to_pcm sp b \<Rightarrow> [(sp, b)] | _ \<Rightarrow> []) evs)"

lemma decoded_append [simp]: "decoded (xs @ ys) = decoded xs @ decoded ys"
  by (simp add: decoded_def)

definition mp4_same :: "mp4_processor \<Rightarrow> mp4_processor \<Rightarrow> bool" where
  "mp4_same s t \<longleftrightarrow> m4_BitRate t = m4_BitRate s \<and> m4_RsDims t = m4_RsDims s \<and> m4_RsDecoder t = m4_RsDecoder s \<and>
     m4_FireCode t = m4_FireCode s \<and> m4_BlockFillIndex t = m4_BlockFillIndex s \<and>
     m4_BlocksInBuffer t = m4_BlocksInBuffer s \<and> m4_SuperFrameSync t = m4_SuperFrameSync s \<and>
     m4_FrameByteVec t = m4_FrameByteVec s"

lemma mp4_same_refl [simp]: "mp4_same s s"
  by (simp add: mp4_same_def)

lemma mp4_same_trans: "mp4_same s t \<Longrightarrow> mp4_same t u \<Longrightarrow> mp4_same s u"
  by (simp add: mp4_same_def)

lemma rs_count_same:
  "mp4_same s (rs_count ler s)" "m4_OutVec (rs_count ler s) = m4_OutVec s"
  "decoded (m4_events (rs_count ler s)) = decoded (m4_events s)" "m4_AuStartArr (rs_count ler s) = m4_AuStartArr s"
  by (simp_all add: rs_count_def Let_def emit_mp4_def mp4_same_def decoded_def)

lemma column_writes:
  fixes v :: "nat \<Rightarrow> u8"
  assumes "j < dims" and "length out = 110 * dims" and "m \<le> 110"
  defines "o' \<equiv> foldl (\<lambda>out k. out[j + k * dims := v k]) out [0..<m]"
  shows "length o' = 110 * dims \<and>
    (\<forall>i<110 * dims. o' ! i = (if i mod dims = j \<and> i div dims < m then v (i div dims) else out ! i))"
  using assms(3) unfolding o'_def
proof (induction m)
  case 0
  then show ?case using assms(2) by simp
next
  case (Suc m)
  let ?o = "foldl (\<lambda>out k. out[j + k * dims := v k]) out [0..<m]"
  have IH: "length ?o = 110 * dims" "\<And>i. i < 110 * dims \<Longrightarrow> ?o ! i = (if i mod dims = j \<and> i div dims < m then v (i div dims) else out ! i)"
    using Suc by simp_all
  have eq: "i = j + m * dims \<longleftrightarrow> i mod dims = j \<and> i div dims = m" for i
    using assms(1) div_mult_mod_eq [of i dims] by auto
  have "?o[j + m * dims := v m] ! i = (if i mod dims = j \<and> i div dims < Suc m then v (i div dims) else out ! i)"
    if "i < 110 * dims" for i
    using that IH eq [of i] by (cases "i = j + m * dims") (auto simp: less_Suc_eq)
  then show ?case using IH(1) by simp
qed

lemma rs_columns:
  assumes rs: "ReedSolomon 8 285 0 1 10 = Some (m4_RsDecoder s)" and dims: "m4_RsDims s = dims" "length (m4_OutVec s) = 110 * dims"
    and W: "repairable (m4_RsDecoder s) dims D W" "\<And>x. x < 120 * dims \<Longrightarrow> m4_FrameByteVec s ! ((base + x) mod (dims * 120)) = W ! x"
    and m: "m \<le> dims"
  defines "t \<equiv> foldl (rs_column base) s [0..<m]"
  shows "mp4_same s t \<and> decoded (m4_events t) = decoded (m4_events s) \<and> length (m4_OutVec t) = 110 * dims \<and>
    m4_AuStartArr t = m4_AuStartArr s \<and>
    (\<forall>i<110 * dims. i mod dims < m \<longrightarrow> m4_OutVec t ! i = D ! i)"
  using m unfolding t_def
proof (induction m)
  case (Suc m)
  let ?u = "foldl (rs_column base) s [0..<m]"
  have IH: "mp4_same s ?u" "decoded (m4_events ?u) = decoded (m4_events s)" "length (m4_OutVec ?u) = 110 * dims"
    "m4_AuStartArr ?u = m4_AuStartArr s"
    "\<And>i. i < 110 * dims \<Longrightarrow> i mod dims < m \<Longrightarrow> m4_OutVec ?u ! i = D ! i" using Suc by simp_all
  have u: "m4_RsDims ?u = dims" "m4_RsDecoder ?u = m4_RsDecoder s" "m4_FrameByteVec ?u = m4_FrameByteVec s"
    using IH(1) dims(1) by (simp_all add: mp4_same_def)
  have m: "m < dims" using Suc.prems by simp
  have "map (\<lambda>k. unat (m4_FrameByteVec ?u ! ((base + m + k * dims) mod (dims * 120)))) [0..<120] =
      map (\<lambda>k. unat (W ! (m + k * dims))) [0..<120]"
  proof (rule map_cong [OF refl])
    fix k assume "k \<in> set [0..<120 :: nat]"
    then have "m + k * dims < (k + 1) * dims" "(k + 1) * dims \<le> 120 * dims" using m by (simp, intro mult_le_mono1, simp)
    then have "m + k * dims < 120 * dims" by linarith
    from W(2) [OF this] show "unat (m4_FrameByteVec ?u ! ((base + m + k * dims) mod (dims * 120))) = unat (W ! (m + k * dims))"
      unfolding u(3) by (simp add: add.assoc)
  qed
  then obtain n where d: "dec (m4_RsDecoder ?u) (map (\<lambda>k. unat (m4_FrameByteVec ?u ! ((base + m + k * dims) mod (dims * 120)))) [0..<120]) 135 =
      (n, map (\<lambda>k. unat (D ! (m + k * dims))) [0..<110])"
    using rs_word(2) [OF rs m W(1)] unfolding u(2) by auto
  let ?out = "foldl (\<lambda>out k. out[m + k * dims := of_nat (map (\<lambda>k. unat (D ! (m + k * dims))) [0..<110] ! k)]) (m4_OutVec ?u) [0..<110]"
  have c: "rs_column base ?u m = (rs_count n ?u)\<lparr>m4_OutVec := ?out\<rparr>"
    unfolding rs_column_def Let_def u(1) d prod.case rs_count_same(2) ..
  have out: "length ?out = 110 * dims" "\<And>i. i < 110 * dims \<Longrightarrow> ?out ! i = (if i mod dims = m \<and> i div dims < 110
      then of_nat (map (\<lambda>k. unat (D ! (m + k * dims))) [0..<110] ! (i div dims)) else m4_OutVec ?u ! i)"
    using column_writes [OF m IH(3), of 110] by simp_all
  have "?out ! i = D ! i" if i: "i < 110 * dims" "i mod dims < Suc m" for i
  proof (cases "i mod dims = m")
    case True
    have "i div dims < 110" using i(1) by (simp add: less_mult_imp_div_less)
    moreover have "m + i div dims * dims = i" using True div_mult_mod_eq [of i dims] by simp
    ultimately show ?thesis using out(2) [OF i(1)] True by simp
  next
    case False
    then show ?thesis using out(2) [OF i(1)] IH(5) [OF i(1)] i(2) by simp
  qed
  moreover have "mp4_same s (rs_column base ?u m)"
    using IH(1) rs_count_same(1) [of ?u n] unfolding c by (simp add: mp4_same_def)
  ultimately show ?case using IH(2,4) out(1) rs_count_same(3,4) [of n ?u]
    by (simp add: c)
qed (simp add: dims)

lemma rs_frame:
  assumes rs: "ReedSolomon 8 285 0 1 10 = Some (m4_RsDecoder s)" and dims: "m4_RsDims s = dims" "length (m4_OutVec s) = 110 * dims" "0 < dims"
    and fc: "m4_FireCode s = FirecodeChecker" "check FirecodeChecker ((!) D)" and D: "length D = 110 * dims"
    and W: "repairable (m4_RsDecoder s) dims D W" "\<And>x. x < 120 * dims \<Longrightarrow> m4_FrameByteVec s ! ((base + x) mod (dims * 120)) = W ! x"
  obtains t where "process_reed_solomon_frame base s = Some (True, t)" and "mp4_same s t" and "m4_OutVec t = D"
    and "decoded (m4_events t) = decoded (m4_events s)"
proof -
  define u where "u = foldl (rs_column base) s [0..<m4_RsDims s]"
  have u: "mp4_same s u" "decoded (m4_events u) = decoded (m4_events s)" "length (m4_OutVec u) = 110 * dims"
    "\<And>i. i < 110 * dims \<Longrightarrow> m4_OutVec u ! i = D ! i"
    using rs_columns [OF rs dims(1,2) W order.refl] dims(1,3) by (simp_all add: u_def)
  have out: "m4_OutVec u = D" by (rule nth_equalityI) (use u(3,4) D in simp_all)
  have f: "check_and_correct_6bits (m4_FireCode u) ((!) D) = (True, (!) D)"
    using fc u(1) by (simp add: check_and_correct_6bits_def check_def mp4_same_def)
  have l: "11 \<le> length D" using D dims(3) by simp
  have "map ((!) D) [0..<11] = take 11 D" by (rule nth_equalityI) (use l in simp_all)
  then have e: "u\<lparr>m4_OutVec := map ((!) D) [0..<11] @ drop 11 D\<rparr> = u" using out by simp
  let ?t = "if take 11 D \<noteq> take 11 (drop base (m4_FrameByteVec u)) then u\<lparr>m4_SumFcCorrections := m4_SumFcCorrections u + 1\<rparr> else u"
  have "process_reed_solomon_frame base s = Some (True, ?t)"
    using l unfolding process_reed_solomon_frame_def u_def [symmetric] Let_def out f prod.case e by simp
  moreover have "mp4_same s ?t" using u(1) by (simp add: mp4_same_def)
  ultimately show ?thesis using that [of ?t] u(2) out by simp
qed

section \<open>Access units\<close>

definition unit_length_ok :: "int \<Rightarrow> int \<Rightarrow> bool" where
  "unit_length_ok a b \<longleftrightarrow> 0 \<le> b - a - 2 \<and> b - a - 2 \<le> 960"

definition unit_good :: "u8 list \<Rightarrow> int \<Rightarrow> int \<Rightarrow> bool" where
  "unit_good D a b \<longleftrightarrow> unit_length_ok a b \<and> check_crc_bytes (\<lambda>i. D ! (nat a + i)) (nat (b - a - 2))"

text \<open>Units that stay inside the vector, with PAD fields that do.\<close>

definition unit_inside :: "u8 list \<Rightarrow> int \<Rightarrow> int \<Rightarrow> bool" where
  "unit_inside D a b \<longleftrightarrow> (unit_length_ok a b \<longrightarrow> 0 \<le> a \<and> b \<le> int (length D)) \<and>
     (unit_good D a b \<longrightarrow> au_pad D (nat a) \<noteq> None)"

definition unit_stream :: "SStreamParms \<Rightarrow> u8 list \<Rightarrow> int \<Rightarrow> int \<Rightarrow> (SStreamParms \<times> u8 list) list" where
  "unit_stream sp D a b =
     (if unit_good D a b then [(sp, build_aac_stream sp (take (nat (b - a - 2)) (drop (nat a) D)))] else [])"

lemma emit_fields [simp]:
  "m4_events (emit_mp4 evs s) = m4_events s @ evs" "mp4_same s (emit_mp4 evs s) \<longleftrightarrow> True"
  "m4_OutVec (emit_mp4 evs s) = m4_OutVec s" "m4_AuStartArr (emit_mp4 evs s) = m4_AuStartArr s"
  by (simp_all add: emit_mp4_def mp4_same_def)

lemma conceal_fields:
  "mp4_same s (conceal c sp s)" "m4_OutVec (conceal c sp s) = m4_OutVec s" "m4_AuStartArr (conceal c sp s) = m4_AuStartArr s"
  "decoded (m4_events (conceal c sp s)) = decoded (m4_events s)"
  by (simp_all add: conceal_def decoded_def)

lemma count_fields:
  "mp4_same s (count_unit s)" "m4_OutVec (count_unit s) = m4_OutVec s" "m4_AuStartArr (count_unit s) = m4_AuStartArr s"
  "decoded (m4_events (count_unit s)) = decoded (m4_events s)"
  by (simp_all add: count_unit_def emit_mp4_def mp4_same_def decoded_def)

lemma au_pad_decoded: "au_pad D a = Some evs \<Longrightarrow> decoded evs = []"
  by (auto simp: au_pad_def decoded_def Let_def split: if_splits)

lemma good_unit_decoded:
  assumes "au_pad (m4_OutVec s) start \<noteq> None"
  obtains t where "good_unit aac c sp start len s = Some t" and "mp4_same s t" and "m4_OutVec t = m4_OutVec s"
    and "m4_AuStartArr t = m4_AuStartArr s"
    and "decoded (m4_events t) = decoded (m4_events s) @ [(sp, build_aac_stream sp (take len (drop start (m4_OutVec s))))]"
proof -
  obtain pad where pad: "au_pad (m4_OutVec s) start = Some pad" using assms by blast
  define b where "b = build_aac_stream sp (take len (drop start (m4_OutVec s)))"
  define u where "u = emit_mp4 ([put_frame_buffer b, new_aac_frame] @ pad) (s\<lparr>m4_Sum_good_crcs := m4_Sum_good_crcs s + 1\<rparr>)"
  define v where "v = emit_mp4 [convert_mp4_to_pcm sp b, is_stereo (sp_aacChannelMode sp = 1 \<or> sp_psFlag sp = 1)] u"
  define t where "t = (if aac (m4_events u) sp b \<le> 0 then conceal c sp (v\<lparr>m4_AacErrors := i16 (m4_AacErrors v + 1)\<rparr>) else v)"
  have v: "mp4_same s v" "m4_OutVec v = m4_OutVec s" "m4_AuStartArr v = m4_AuStartArr s"
    "decoded (m4_events v) = decoded (m4_events s) @ [(sp, b)]"
    using au_pad_decoded [OF pad] by (simp_all add: v_def u_def) (simp_all add: emit_mp4_def mp4_same_def decoded_def)
  have "good_unit aac c sp start len s = Some t"
    unfolding good_unit_def pad option.case Let_def b_def [symmetric] u_def [symmetric] v_def [symmetric] t_def ..
  moreover have "mp4_same s t \<and> m4_OutVec t = m4_OutVec s \<and> m4_AuStartArr t = m4_AuStartArr s \<and>
      decoded (m4_events t) = decoded (m4_events s) @ [(sp, b)]"
    using v conceal_fields [where s = "v\<lparr>m4_AacErrors := i16 (m4_AacErrors v + 1)\<rparr>" and c = c and sp = sp]
    by (simp add: t_def mp4_same_def)
  ultimately show ?thesis using that [of t] by (simp add: b_def)
qed

lemma process_unit_decoded:
  assumes ins: "unit_inside (m4_OutVec s) a b" and ab: "m4_AuStartArr s ! i = a" "m4_AuStartArr s ! Suc i = b"
  obtains t where "process_unit aac c sp i s = Some t" and "mp4_same s t" and "m4_OutVec t = m4_OutVec s"
    and "m4_AuStartArr t = m4_AuStartArr s" and "decoded (m4_events t) = decoded (m4_events s) @ unit_stream sp (m4_OutVec s) a b"
proof -
  let ?D = "m4_OutVec s"
  have "\<exists>u. process_unit aac c sp i s = Some (count_unit u) \<and> mp4_same s u \<and> m4_OutVec u = ?D \<and>
      m4_AuStartArr u = m4_AuStartArr s \<and> decoded (m4_events u) = decoded (m4_events s) @ unit_stream sp ?D a b"
  proof (cases "unit_length_ok a b")
    case False
    let ?u = "s\<lparr>m4_AacErrors := i16 (m4_AacErrors s + 1)\<rparr>"
    have "process_unit aac c sp i s = Some (count_unit (conceal c sp ?u))"
      using False by (auto simp: process_unit_def Let_def ab unit_length_ok_def)
    then show ?thesis using False conceal_fields [where s = ?u and c = c and sp = sp]
      by (intro exI [of _ "conceal c sp ?u"]) (simp add: unit_stream_def unit_good_def mp4_same_def)
  next
    case True
    then have in': "\<not> (b - a - 2 > 960 \<or> b - a - 2 < 0)" "\<not> a + (b - a - 2) + 2 > int (length ?D)"
      using ins by (auto simp: unit_length_ok_def unit_inside_def)
    show ?thesis
    proof (cases "check_crc_bytes (\<lambda>i. ?D ! (nat a + i)) (nat (b - a - 2))")
      case ok: True
      then have "unit_good ?D a b" "au_pad ?D (nat a) \<noteq> None" using True ins by (simp_all add: unit_good_def unit_inside_def)
      moreover from this(2) obtain u where "good_unit aac c sp (nat a) (nat (b - a - 2)) s = Some u" "mp4_same s u" "m4_OutVec u = ?D"
        "m4_AuStartArr u = m4_AuStartArr s" "decoded (m4_events u) = decoded (m4_events s) @ [(sp, build_aac_stream sp (take (nat (b - a - 2)) (drop (nat a) ?D)))]"
        by (rule good_unit_decoded)
      ultimately show ?thesis using ok in'
        by (intro exI [of _ u]) (simp add: process_unit_def ab unit_stream_def)
    next
      case bad: False
      let ?u = "s\<lparr>m4_CrcErrors := i16 (m4_CrcErrors s + 1), m4_SumCrcErrors := m4_SumCrcErrors s + 1\<rparr>"
      have "process_unit aac c sp i s = Some (count_unit (conceal c sp ?u))"
        using bad in' by (simp add: process_unit_def Let_def ab)
      then show ?thesis using bad conceal_fields [where s = ?u and c = c and sp = sp]
        by (intro exI [of _ "conceal c sp ?u"]) (simp add: unit_stream_def unit_good_def mp4_same_def)
    qed
  qed
  then obtain u where u: "process_unit aac c sp i s = Some (count_unit u)" "mp4_same s u" "m4_OutVec u = ?D"
      "m4_AuStartArr u = m4_AuStartArr s" "decoded (m4_events u) = decoded (m4_events s) @ unit_stream sp ?D a b" by blast
  then show ?thesis using that [OF u(1)] mp4_same_trans [OF u(2) count_fields(1)] count_fields [of u] by simp
qed

lemma process_units_decoded:
  assumes "\<forall>i\<in>set idxs. unit_inside (m4_OutVec s) (m4_AuStartArr s ! i) (m4_AuStartArr s ! Suc i)"
  shows "\<exists>t. process_units aac c sp idxs s = Some t \<and> mp4_same s t \<and> m4_OutVec t = m4_OutVec s \<and>
    decoded (m4_events t) = decoded (m4_events s) @
      concat (map (\<lambda>i. unit_stream sp (m4_OutVec s) (m4_AuStartArr s ! i) (m4_AuStartArr s ! Suc i)) idxs)"
  using assms
proof (induction idxs arbitrary: s)
  case (Cons i idxs)
  from Cons.prems have "unit_inside (m4_OutVec s) (m4_AuStartArr s ! i) (m4_AuStartArr s ! Suc i)" by simp
  from process_unit_decoded [OF this refl refl, of aac c sp] obtain u where u: "process_unit aac c sp i s = Some u"
    "mp4_same s u" "m4_OutVec u = m4_OutVec s" "m4_AuStartArr u = m4_AuStartArr s"
    "decoded (m4_events u) = decoded (m4_events s) @ unit_stream sp (m4_OutVec s) (m4_AuStartArr s ! i) (m4_AuStartArr s ! Suc i)" .
  from Cons.IH [of u] Cons.prems u show ?case by (auto intro: mp4_same_trans)
qed simp

text \<open>
  The access units of a superframe, from the layout of its header: behind 16 bits of fire code and a reserved bit, one bit each for the
  rate of the converter, spectral band replication, the channel mode and parametric stereo, three bits for surround, then
  the starts of all units but the first, 12 bits each; the first unit starts at the next byte, and the last
  one ends with the superframe.  The AAC sampling rate indices are those of the rates in kHz.
\<close>

definition header_field :: "u8 list \<Rightarrow> nat \<Rightarrow> nat \<Rightarrow> nat" where
  "header_field D p n = bits_val (bits_of_bytes ((!) D)) p n"

definition rate_index :: "nat \<Rightarrow> nat" where
  "rate_index khz = (if khz = 48 then 3 else if khz = 32 then 5 else if khz = 24 then 6 else 8)"

definition header_parms :: "u8 list \<Rightarrow> SStreamParms" where
  "header_parms D =
     (let dac = header_field D 17 1; sbr = header_field D 18 1; mode = header_field D 19 1; rate = (if dac = 1 then 48 else 32)
      in \<lparr>sp_dacRate = dac, sp_sbrFlag = sbr, sp_psFlag = header_field D 20 1, sp_aacChannelMode = mode,
          sp_mpegSurround = header_field D 21 3, sp_CoreChConfig = (if mode = 1 then 2 else 1),
          sp_CoreSrIndex = rate_index (rate div (if sbr = 1 then 2 else 1)), sp_ExtensionSrIndex = rate_index rate\<rparr>)"

definition num_units :: "u8 list \<Rightarrow> nat" where
  "num_units D = (if header_field D 17 1 = 1 then 6 else 4) div (if header_field D 18 1 = 1 then 2 else 1)"

definition unit_start :: "nat \<Rightarrow> u8 list \<Rightarrow> nat \<Rightarrow> int" where
  "unit_start dims D i =
     (let n = num_units D
      in if i = 0 then int ((24 + 12 * (n - 1) + 7) div 8)
         else if i < n then int (header_field D (24 + 12 * (i - 1)) 12) else int (110 * dims))"

definition frame_units :: "nat \<Rightarrow> u8 list \<Rightarrow> (SStreamParms \<times> u8 list) list" where
  "frame_units dims D =
     concat (map (\<lambda>i. unit_stream (header_parms D) D (unit_start dims D i) (unit_start dims D (Suc i))) [0..<num_units D])"

definition frame_inside :: "nat \<Rightarrow> u8 list \<Rightarrow> bool" where
  "frame_inside dims D \<longleftrightarrow> (\<forall>i<num_units D. unit_inside D (unit_start dims D i) (unit_start dims D (Suc i)))"

text \<open>The receiver reads the header by bytes.\<close>

lemma field_in_byte:
  assumes "a + b = 8"
  shows "bits_val (bits_of_bytes p) (8 * i) a = unat (p i) div 2 ^ b" "bits_val (bits_of_bytes p) (8 * i + a) b = unat (p i) mod 2 ^ b"
proof -
  have "unat (p i) = bits_val (bits_of_bytes p) (8 * i) a * 2 ^ b + bits_val (bits_of_bytes p) (8 * i + a) b"
    using bits_val_add [of "bits_of_bytes p" "8 * i" a b] bits_val_byte [of p i] assms by simp
  moreover have "bits_val (bits_of_bytes p) (8 * i + a) b < 2 ^ b"
    by (rule bits_val_less) simp
  ultimately show "bits_val (bits_of_bytes p) (8 * i) a = unat (p i) div 2 ^ b" "bits_val (bits_of_bytes p) (8 * i + a) b = unat (p i) mod 2 ^ b"
    by simp_all
qed

lemma start_fields:
  "int (header_field D (8 * i) 12) = uint (D ! i) * 16 + uint (drop_bit 4 (D ! (i + 1)))"
  "int (header_field D (8 * i + 4) 12) = uint (D ! i AND 0xf) * 256 + uint (D ! (i + 1))"
proof -
  let ?d = "bits_of_bytes ((!) D)"
  have step: "8 * i + 8 = 8 * (i + 1)" "8 * i + 4 + 4 = 8 * (i + 1)" by simp_all
  have 12: "bits_val ?d p 12 = bits_val ?d p 8 * 2 ^ 4 + bits_val ?d (p + 8) 4" "bits_val ?d p 12 = bits_val ?d p 4 * 2 ^ 8 + bits_val ?d (p + 4) 8" for p
    using bits_val_add [of ?d p 8 4] bits_val_add [of ?d p 4 8] by simp_all
  have "unat (drop_bit 4 (D ! (i + 1))) = unat (D ! (i + 1)) div 2 ^ 4"
    by (simp add: unat_drop_bit drop_bit_nat_def)
  then have "header_field D (8 * i) 12 = unat (D ! i) * 16 + unat (drop_bit 4 (D ! (i + 1)))"
    unfolding header_field_def 12(1) step bits_val_byte field_in_byte(1) [of 4 4, simplified] by simp
  then show "int (header_field D (8 * i) 12) = uint (D ! i) * 16 + uint (drop_bit 4 (D ! (i + 1)))"
    by (simp only: uint_nat of_nat_add of_nat_mult of_nat_numeral)
  have "unat (D ! i AND 0xf) = unat (D ! i) mod 2 ^ 4"
    using unat_and_mask [of "D ! i" 4] by (simp add: mask_eq_exp_minus_1)
  then have "header_field D (8 * i + 4) 12 = unat (D ! i AND 0xf) * 256 + unat (D ! (i + 1))"
    unfolding header_field_def 12(2) step bits_val_byte field_in_byte(2) [of 4 4, simplified] by simp
  then show "int (header_field D (8 * i + 4) 12) = uint (D ! i AND 0xf) * 256 + uint (D ! (i + 1))"
    by (simp only: uint_nat of_nat_add of_nat_mult of_nat_numeral)
qed

lemma header_bits:
  "header_field D 17 1 = unat (drop_bit 6 (D ! 2) AND 1)" "header_field D 18 1 = unat (drop_bit 5 (D ! 2) AND 1)"
  "header_field D 19 1 = unat (drop_bit 4 (D ! 2) AND 1)" "header_field D 20 1 = unat (drop_bit 3 (D ! 2) AND 1)"
  "header_field D 21 3 = unat (D ! 2 AND 7)"
proof -
  show "header_field D 17 1 = unat (drop_bit 6 (D ! 2) AND 1)" "header_field D 18 1 = unat (drop_bit 5 (D ! 2) AND 1)"
    "header_field D 19 1 = unat (drop_bit 4 (D ! 2) AND 1)" "header_field D 20 1 = unat (drop_bit 3 (D ! 2) AND 1)"
    by (simp_all add: header_field_def bits_of_bytes_def)
  show "header_field D 21 3 = unat (D ! 2 AND 7)"
    using field_in_byte(2) [of 5 3 "(!) D" 2] unat_and_mask [of "D ! 2" 3] by (simp add: header_field_def mask_eq_exp_minus_1)
qed

lemma header_flag: "header_field D p 1 \<in> {0, 1}"
  using bits_val_less [of "bits_of_bytes ((!) D)" p 1] by (auto simp: header_field_def)

lemma stream_parms_header: "stream_parms (D ! 2) = header_parms D"
proof -
  have "dac \<in> {0, 1} \<Longrightarrow> sbr \<in> {0, 1} \<Longrightarrow> mode \<in> {0, 1} \<Longrightarrow> (if mode \<noteq> 0 then 2 else 1) = ((if mode = 1 then 2 else 1) :: nat) \<and>
      (if dac \<noteq> 0 then (if sbr \<noteq> 0 then 6 else 3) else (if sbr \<noteq> 0 then 8 else 5)) = rate_index ((if dac = 1 then 48 else 32) div (if sbr = 1 then 2 else 1)) \<and>
      (if dac \<noteq> 0 then 3 else 5) = rate_index (if dac = 1 then 48 else 32)" for dac sbr mode :: nat
    by (elim insertE emptyE) (simp_all add: rate_index_def)
  from this [OF header_flag [of D 17] header_flag [of D 18] header_flag [of D 19]] show ?thesis
    unfolding stream_parms_def header_parms_def header_bits [symmetric] Let_def by (simp only:)
qed

lemma au_starts_header: "au_starts D (8 * dims) (stream_parms (D ! 2)) = map (unit_start dims D) [0..<Suc (num_units D)]"
proof -
  let ?f = "\<lambda>p. int (header_field D p 12)"
  have f: "?f 24 = uint (D ! 3) * 16 + uint (drop_bit 4 (D ! (3 + 1)))" "?f 36 = uint (D ! 4 AND 0xf) * 256 + uint (D ! (4 + 1))"
    "?f 48 = uint (D ! 6) * 16 + uint (drop_bit 4 (D ! (6 + 1)))" "?f 60 = uint (D ! 7 AND 0xf) * 256 + uint (D ! (7 + 1))"
    "?f 72 = uint (D ! 9) * 16 + uint (drop_bit 4 (D ! (9 + 1)))"
    using start_fields(1) [of D 3] start_fields(2) [of D 4] start_fields(1) [of D 6] start_fields(2) [of D 7] start_fields(1) [of D 9] by simp_all
  have a: "au_starts D (8 * dims) (header_parms D) =
      (let e = int (110 * dims); x = 2 * header_field D 17 1 + header_field D 18 1
       in if x = 0 then [8, ?f 24, ?f 36, ?f 48, e] else if x = 1 then [5, ?f 24, e]
          else if x = 2 then [11, ?f 24, ?f 36, ?f 48, ?f 60, ?f 72, e] else [6, ?f 24, ?f 36, e])"
    unfolding au_starts_def Let_def f by (simp add: header_parms_def Let_def)
  have "map (unit_start dims D) [0..<Suc 4] = [8, ?f 24, ?f 36, ?f 48, int (110 * dims)]" if "num_units D = 4"
    using that by (simp add: unit_start_def upt_rec)
  moreover have "map (unit_start dims D) [0..<Suc 2] = [5, ?f 24, int (110 * dims)]" if "num_units D = 2"
    using that by (simp add: unit_start_def upt_rec)
  moreover have "map (unit_start dims D) [0..<Suc 6] = [11, ?f 24, ?f 36, ?f 48, ?f 60, ?f 72, int (110 * dims)]" if "num_units D = 6"
    using that by (simp add: unit_start_def upt_rec)
  moreover have "map (unit_start dims D) [0..<Suc 3] = [6, ?f 24, ?f 36, int (110 * dims)]" if "num_units D = 3"
    using that by (simp add: unit_start_def upt_rec)
  moreover have "(header_field D 17 1, header_field D 18 1, num_units D) \<in> {(0, 0, 4), (0, 1, 2), (1, 0, 6), (1, 1, 3)}"
    using header_flag [of D 17] header_flag [of D 18] by (elim insertE emptyE) (simp_all add: num_units_def)
  ultimately show ?thesis
    unfolding stream_parms_header a Let_def by (elim insertE emptyE) (simp_all only: prod.inject if_True if_False, simp_all)
qed

lemma frame_units_starts:
  fixes dims :: nat and D :: "u8 list"
  defines "sp \<equiv> stream_parms (D ! 2)" and "st \<equiv> au_starts D (8 * dims) (stream_parms (D ! 2))"
  shows "frame_units dims D = concat (map (\<lambda>i. unit_stream sp D (st ! i) (st ! Suc i)) [0..<length st - 1])"
    "frame_inside dims D \<longleftrightarrow> (\<forall>i<length st - 1. unit_inside D (st ! i) (st ! Suc i))"
proof -
  have "st ! i = unit_start dims D i" if "i < Suc (num_units D)" for i
    using that by (simp add: st_def au_starts_header nth_map [of i "[0..<Suc (num_units D)]"] del: upt_Suc)
  then have n: "st ! i = unit_start dims D i" "st ! Suc i = unit_start dims D (Suc i)" if "i < num_units D" for i
    using that by simp_all
  have l: "length st - 1 = num_units D"
    by (simp add: st_def au_starts_header)
  show "frame_units dims D = concat (map (\<lambda>i. unit_stream sp D (st ! i) (st ! Suc i)) [0..<length st - 1])"
    unfolding frame_units_def l sp_def stream_parms_header
    by (intro arg_cong [where f = concat] map_cong refl) (simp add: n)
  show "frame_inside dims D \<longleftrightarrow> (\<forall>i<length st - 1. unit_inside D (st ! i) (st ! Suc i))"
    unfolding frame_inside_def l using n by auto
qed

lemma super_frame_decoded:
  assumes rs: "ReedSolomon 8 285 0 1 10 = Some (m4_RsDecoder s)" and dims: "m4_RsDims s = dims" "length (m4_OutVec s) = 110 * dims" "0 < dims"
    and fc: "m4_FireCode s = FirecodeChecker" "check FirecodeChecker ((!) D)" and D: "length D = 110 * dims"
    and W: "repairable (m4_RsDecoder s) dims D W" "\<And>x. x < 120 * dims \<Longrightarrow> m4_FrameByteVec s ! ((base + x) mod (dims * 120)) = W ! x"
    and rate: "m4_BitRate s = 8 * dims" and ins: "frame_inside dims D"
  obtains t where "process_super_frame aac c base s = Some (True, t)" and "mp4_same s t" and "m4_OutVec t = D"
    and "decoded (m4_events t) = decoded (m4_events s) @ frame_units dims D"
proof -
  obtain u where u: "process_reed_solomon_frame base s = Some (True, u)" "mp4_same s u" "m4_OutVec u = D"
    "decoded (m4_events u) = decoded (m4_events s)"
    by (rule rs_frame [OF rs dims fc D W])
  define sp where "sp = stream_parms (D ! 2)"
  define st where "st = au_starts D (8 * dims) sp"
  define v where "v = u\<lparr>m4_AuStartArr := st @ drop (length st) (m4_AuStartArr u)\<rparr>"
  have v: "mp4_same s v" "m4_OutVec v = D" "decoded (m4_events v) = decoded (m4_events s)"
    using u by (simp_all add: v_def mp4_same_def)
  have st: "m4_AuStartArr v ! i = st ! i" if "i < length st" for i using that by (simp add: v_def nth_append)
  have "\<forall>i\<in>set [0..<length st - 1]. unit_inside (m4_OutVec v) (m4_AuStartArr v ! i) (m4_AuStartArr v ! Suc i)"
    using ins st v(2) by (simp add: frame_units_starts(2) sp_def [symmetric] st_def [symmetric])
  from process_units_decoded [OF this, of aac c sp] obtain t where t: "process_units aac c sp [0..<length st - 1] v = Some t"
    "mp4_same v t" "m4_OutVec t = D" "decoded (m4_events t) = decoded (m4_events v) @
      concat (map (\<lambda>i. unit_stream sp D (m4_AuStartArr v ! i) (m4_AuStartArr v ! Suc i)) [0..<length st - 1])"
    using v(2) by auto
  have e: "map (\<lambda>i. unit_stream sp D (m4_AuStartArr v ! i) (m4_AuStartArr v ! Suc i)) [0..<length st - 1] =
      map (\<lambda>i. unit_stream sp D (st ! i) (st ! Suc i)) [0..<length st - 1]"
    by (rule map_cong) (use st in auto)
  have "decoded (m4_events t) = decoded (m4_events s) @ frame_units dims D"
    unfolding t(4) v(3) e by (simp add: frame_units_starts(1) sp_def [symmetric] st_def [symmetric])
  moreover have "process_super_frame aac c base s = Some (True, t)"
    using t(1) u(2) rate by (simp add: process_super_frame_def u(1,3) Let_def mp4_same_def sp_def [symmetric]
        st_def [symmetric] v_def [symmetric])
  ultimately show ?thesis using that t(3) mp4_same_trans [OF v(1) t(2)] by blast
qed

section \<open>A stream of superframes\<close>

text \<open>Five frames that carry a superframe.\<close>

definition carries_super_frame :: "reed_solomon \<Rightarrow> nat \<Rightarrow> u8 list \<Rightarrow> u8 list list \<Rightarrow> bool" where
  "carries_super_frame rs dims D fs \<longleftrightarrow> length D = 110 * dims \<and> check FirecodeChecker ((!) D) \<and> frame_inside dims D \<and>
     (\<exists>bss. length bss = 5 \<and> (\<forall>bs\<in>set bss. length bs = 24 * dims) \<and> list_all2 frame_carries bss fs \<and>
        repairable rs dims D (concat bss))"

text \<open>The first of these frames starts with the bytes of the fire code; they are needed for synchronisation.\<close>

definition header_ok :: "u8 list list \<Rightarrow> bool" where
  "header_ok fs \<longleftrightarrow> check FirecodeChecker (frame_byte (hd fs))"

lemma frames_stored:
  assumes "mp4_inv dims s" and "\<forall>bs\<in>set bss. length bs = 24 * dims" and "list_all2 frame_carries bss fs"
    and "m4_BlocksInBuffer s + length bss \<le> 4"
  shows "mp4_add_frames aac c s fs = Some (fold (stored dims) bss s) \<and> mp4_inv dims (fold (stored dims) bss s)"
  using assms
proof (induction bss arbitrary: s fs)
  case (Cons bs bss)
  then obtain f gs where fs: "fs = f # gs" "frame_carries bs f" "list_all2 frame_carries bss gs" by (auto simp: list_all2_Cons1)
  have b: "m4_BlocksInBuffer s < 4" "length bs = 24 * dims" using Cons.prems by simp_all
  have i: "mp4_inv dims (stored dims bs s)" by (rule stored_inv [OF Cons.prems(1) b(2,1)])
  have "mp4_add_to_frame aac c s f = Some (stored dims bs s)" by (rule frame_stored [OF Cons.prems(1) fs(2) b(2,1)])
  with Cons.IH [OF i _ fs(3)] Cons.prems(2,4) fs(1) show ?case by simp
qed simp

lemma mp4_add_frames_append:
  "mp4_add_frames aac c s (xs @ ys) = (case mp4_add_frames aac c s xs of None \<Rightarrow> None | Some s \<Rightarrow> mp4_add_frames aac c s ys)"
  by (induction xs arbitrary: s) (auto split: option.splits)

lemma check_cong: "(\<And>i. i < 11 \<Longrightarrow> x i = y i) \<Longrightarrow> check fc x = check fc y"
proof -
  assume "\<And>i. i < 11 \<Longrightarrow> x i = y i"
  then have "fire_crc16 tab x = fire_crc16 tab y" for tab
    unfolding fire_crc16_def by (intro foldl_cong) auto
  then show ?thesis by (simp add: check_def)
qed

text \<open>The synchronised part of the frame that completes a superframe.\<close>

lemma complete_super_frame:
  assumes inv: "ReedSolomon 8 285 0 1 10 = Some (m4_RsDecoder s)" "m4_RsDims s = dims" "length (m4_OutVec s) = 110 * dims"
      "m4_FireCode s = FirecodeChecker" "m4_BitRate s = 8 * dims" "ring_ok dims s" "0 < dims" "dims \<le> 170"
    and D: "length D = 110 * dims" "check FirecodeChecker ((!) D)" "frame_inside dims D"
    and W: "repairable (m4_RsDecoder s) dims D W"
      "\<And>x. x < 120 * dims \<Longrightarrow> m4_FrameByteVec s ! ((m4_BlockFillIndex s * (24 * dims) + x) mod (dims * 120)) = W ! x"
    and sync: "m4_SuperFrameSync s \<noteq> 0"
  shows "\<exists>t. super_frame_step aac c (24 * dims) s = Some t \<and> mp4_inv dims t \<and> m4_BlocksInBuffer t = 0 \<and> m4_SuperFrameSync t = 4 \<and>
    m4_RsDecoder t = m4_RsDecoder s \<and> m4_OutVec t = D \<and> decoded (m4_events t) = decoded (m4_events s) @ frame_units dims D"
proof -
  let ?s = "s\<lparr>m4_BlocksInBuffer := 0\<rparr>" and ?base = "m4_BlockFillIndex s * (24 * dims)"
  have "ReedSolomon 8 285 0 1 10 = Some (m4_RsDecoder ?s)" "m4_RsDims ?s = dims" "length (m4_OutVec ?s) = 110 * dims"
    "m4_FireCode ?s = FirecodeChecker" "m4_BitRate ?s = 8 * dims" using inv by simp_all
  note i = this
  have "repairable (m4_RsDecoder ?s) dims D W" "\<And>x. x < 120 * dims \<Longrightarrow> m4_FrameByteVec ?s ! ((?base + x) mod (dims * 120)) = W ! x"
    using W by simp_all
  from super_frame_decoded [OF i(1-3) inv(7) i(4) D(2,1) this i(5) D(3), of aac c] obtain t where
    t: "process_super_frame aac c ?base ?s = Some (True, t)" "mp4_same ?s t" "m4_OutVec t = D"
      "decoded (m4_events t) = decoded (m4_events ?s) @ frame_units dims D" .
  define u where "u = t\<lparr>m4_SuperFrameSync := 4, m4_SuccessFrames := m4_SuccessFrames t + 1\<rparr>"
  define v where "v = (if m4_SuccessFrames u > 25
    then (emit_mp4 [show_rs_errors (m4_RsErrors u)] u)\<lparr>m4_SuccessFrames := 0, m4_RsErrors := 0\<rparr> else u)"
  have "super_frame_step aac c (24 * dims) s = Some v"
    using sync by (simp add: super_frame_step_def t(1) Let_def u_def v_def)
  moreover have v: "mp4_same (t\<lparr>m4_SuperFrameSync := 4\<rparr>) v" "m4_OutVec v = D" "decoded (m4_events v) = decoded (m4_events t)"
    using t(3) by (simp_all add: v_def u_def emit_mp4_def mp4_same_def decoded_def)
  moreover have "mp4_inv dims v" using v(1,2) t(2) inv D(1) by (simp add: mp4_same_def mp4_inv_def ring_ok_def)
  ultimately show ?thesis using t(2,4) by (auto simp: mp4_same_def)
qed

definition count_frame :: "mp4_processor \<Rightarrow> mp4_processor" where
  "count_frame w = (if m4_FrameCount w + 1 \<ge> 25
      then (emit_mp4 [show_frame_errors (m4_FrameErrors w)] w)\<lparr>m4_FrameCount := 0, m4_FrameErrors := 0\<rparr>
      else w\<lparr>m4_FrameCount := m4_FrameCount w + 1\<rparr>)"

lemma count_frame_same:
  "mp4_same w (count_frame w)" "m4_OutVec (count_frame w) = m4_OutVec w"
  "decoded (m4_events (count_frame w)) = decoded (m4_events w)"
  by (simp_all add: count_frame_def emit_mp4_def mp4_same_def decoded_def)

lemma frame_completes:
  assumes inv: "mp4_inv dims u" and f: "frame_carries bs f" and l: "length bs = 24 * dims" and b: "m4_BlocksInBuffer u = 4"
    and chk: "m4_SuperFrameSync u = 0 \<Longrightarrow> check FirecodeChecker (\<lambda>i. m4_FrameByteVec (stored dims bs u) ! (m4_BlockFillIndex (stored dims bs u) * (24 * dims) + i))"
  defines "x \<equiv> count_frame (stored dims bs u)"
  shows "mp4_add_to_frame aac c u f = super_frame_step aac c (24 * dims)
    (if m4_SuperFrameSync x = 0 then x\<lparr>m4_SuperFrameSync := 4\<rparr> else x)"
proof -
  have n: "i16 (24 * int (m4_BitRate u)) = 192 * int dims" "nat (192 * int dims) div 8 = 24 * dims"
    using num_bytes [of dims] inv by (simp_all add: mp4_inv_def)
  have g: "\<not> (m4_BlockFillIndex u + 1) * (24 * dims) > length (m4_FrameByteVec u)"
    using block_inside [of "m4_BlockFillIndex u" dims] inv by (simp add: mp4_inv_def algebra_simps)
  have bs: "map (frame_byte f) [0..<24 * dims] = bs" "length f = 8 * (24 * dims)"
    using f l by (simp_all add: frame_carries_def)
  define w where "w = stored dims bs u"
  have r: "ring_ok dims w" using ring_stored [of dims u bs] inv l by (simp add: w_def mp4_inv_def ring_ok_def)
  have g2: "\<not> m4_BlockFillIndex w * (24 * dims) + 11 > length (m4_FrameByteVec w)"
  proof -
    have "m4_BlockFillIndex w * (24 * dims) + 24 * dims \<le> 120 * dims" by (rule block_inside) (use r in \<open>simp add: ring_ok_def\<close>)
    moreover have "0 < dims" "length (m4_FrameByteVec w) = 120 * dims" using r inv by (simp_all add: ring_ok_def mp4_inv_def)
    ultimately show ?thesis by linarith
  qed
  have w5: "\<not> m4_BlocksInBuffer w < 5" "m4_FireCode w = FirecodeChecker" using b inv by (simp_all add: w_def stored_def mp4_inv_def)
  have x: "m4_FireCode x = m4_FireCode w" "m4_FrameByteVec x = m4_FrameByteVec w" "m4_BlockFillIndex x = m4_BlockFillIndex w"
    "m4_SuperFrameSync x = m4_SuperFrameSync u"
    using count_frame_same(1) [of w] by (simp_all add: x_def w_def mp4_same_def)
  have "mp4_add_to_frame aac c u f =
      (let s = (if m4_SuperFrameSync x = 0
                then if check (m4_FireCode x) (\<lambda>i. m4_FrameByteVec x ! (m4_BlockFillIndex x * (24 * dims) + i))
                     then x\<lparr>m4_SuperFrameSync := 4\<rparr> else x\<lparr>m4_BlocksInBuffer := 4\<rparr>
                else x)
       in super_frame_step aac c (24 * dims) s)"
    unfolding mp4_add_to_frame_def n Let_def bs stored_def [of dims bs u, symmetric] w_def [symmetric]
      x_def [unfolded count_frame_def, folded w_def, symmetric] using g g2 w5(1) by simp
  moreover have "check (m4_FireCode x) (\<lambda>i. m4_FrameByteVec x ! (m4_BlockFillIndex x * (24 * dims) + i))" if "m4_SuperFrameSync x = 0"
    using chk that unfolding w_def [symmetric] x w5(2) by simp
  ultimately show ?thesis by simp
qed

lemma fold_stored_fields:
  "m4_OutVec (fold (stored dims) bss s) = m4_OutVec s" "m4_RsDims (fold (stored dims) bss s) = m4_RsDims s"
  "m4_RsDecoder (fold (stored dims) bss s) = m4_RsDecoder s" "m4_FireCode (fold (stored dims) bss s) = m4_FireCode s"
  "m4_BitRate (fold (stored dims) bss s) = m4_BitRate s" "m4_events (fold (stored dims) bss s) = m4_events s"
  "m4_SuperFrameSync (fold (stored dims) bss s) = m4_SuperFrameSync s"
  by (induction bss arbitrary: s) (simp_all add: stored_def)

lemma super_frame_received:
  assumes inv: "mp4_inv dims s" and start: "m4_BlocksInBuffer s = 0" and fs: "carries_super_frame (m4_RsDecoder s) dims D fs"
    and sync: "m4_SuperFrameSync s \<noteq> 0 \<or> header_ok fs"
  shows "\<exists>t. mp4_add_frames aac c s fs = Some t \<and> mp4_inv dims t \<and> m4_BlocksInBuffer t = 0 \<and> m4_SuperFrameSync t = 4 \<and>
    m4_RsDecoder t = m4_RsDecoder s \<and> m4_OutVec t = D \<and> decoded (m4_events t) = decoded (m4_events s) @ frame_units dims D"
proof -
  obtain bss where bss: "length bss = 5" "\<forall>bs\<in>set bss. length bs = 24 * dims" "list_all2 frame_carries bss fs"
    "repairable (m4_RsDecoder s) dims D (concat bss)"
    and D: "length D = 110 * dims" "check FirecodeChecker ((!) D)" "frame_inside dims D"
    using fs by (auto simp: carries_super_frame_def)
  obtain ass bs where ab: "bss = ass @ [bs]" "length ass = 4" using bss(1) by (cases bss rule: rev_cases) auto
  then obtain gs f where gf: "fs = gs @ [f]" "list_all2 frame_carries ass gs" "frame_carries bs f"
    using bss(3) by (auto simp: list_all2_append1 list_all2_Cons1)
  have dims: "0 < dims" "dims \<le> 170" using inv by (simp_all add: mp4_inv_def)
  have ring: "ring_ok dims s" using inv by (simp add: ring_ok_def mp4_inv_def)
  define u where "u = fold (stored dims) ass s"
  have u: "mp4_add_frames aac c s gs = Some u" "mp4_inv dims u"
    using frames_stored [OF inv _ gf(2), of aac c] bss(2) ab start by (simp_all add: u_def)
  define w where "w = fold (stored dims) bss s"
  have w: "w = stored dims bs u" by (simp add: w_def u_def ab)
  note fw = fold_stored_fields [of dims bss s, folded w_def]
  have ringw: "ring_ok dims w" "m4_BlocksInBuffer w = 5" using stored_all [OF ring bss(2), folded w_def] bss(1) start by simp_all
  have fill: "m4_BlockFillIndex w = m4_BlockFillIndex s" unfolding w_def by (rule ring_holds(1) [OF ring bss(2,1)])
  have W: "m4_FrameByteVec w ! ((m4_BlockFillIndex w * (24 * dims) + x) mod (dims * 120)) = concat bss ! x"
    if "x < 120 * dims" for x using ring_holds(2) [OF ring bss(2,1) that, folded w_def] fill by simp
  define x where "x = count_frame w"
  have x: "mp4_same w x" "m4_OutVec x = m4_OutVec w" "decoded (m4_events x) = decoded (m4_events s)"
    using count_frame_same [of w] by (simp_all add: x_def fw)
  have "check FirecodeChecker (\<lambda>i. m4_FrameByteVec w ! (m4_BlockFillIndex w * (24 * dims) + i)) = check FirecodeChecker (frame_byte (hd fs))"
  proof (rule check_cong)
    fix i :: nat assume i: "i < 11"
    have "m4_BlockFillIndex w * (24 * dims) + 24 * dims \<le> 120 * dims" by (rule block_inside) (use ringw(1) in \<open>simp add: ring_ok_def\<close>)
    then have "m4_BlockFillIndex w * (24 * dims) + i < dims * 120" using i dims(1) by linarith
    moreover obtain as bss' g gs' where b: "bss = as # bss'" "fs = g # gs'" "frame_carries as g"
      using bss(1,3) by (cases bss) (auto simp: list_all2_Cons1)
    then have l: "i < length as" "as = map (frame_byte g) [0..<length as]"
      using bss(2) i dims(1) by (simp_all add: frame_carries_def)
    have "as ! i = frame_byte g i"
      by (subst l(2)) (use l(1) in simp)
    with b l(1) have "concat bss ! i = frame_byte (hd fs) i"
      by (simp add: nth_append)
    ultimately show "m4_FrameByteVec w ! (m4_BlockFillIndex w * (24 * dims) + i) = frame_byte (hd fs) i"
      using W [of i] i dims(1) by simp
  qed
  then have "check FirecodeChecker (\<lambda>i. m4_FrameByteVec w ! (m4_BlockFillIndex w * (24 * dims) + i))" if "m4_SuperFrameSync u = 0"
    using sync that by (simp add: header_ok_def u_def fold_stored_fields)
  from frame_completes [OF u(2) gf(3) _ _ this [unfolded w], of aac c] bss(2) ab stored_all [OF ring, of ass, folded u_def] start
  have step: "mp4_add_to_frame aac c u f = super_frame_step aac c (24 * dims)
      (if m4_SuperFrameSync x = 0 then x\<lparr>m4_SuperFrameSync := 4\<rparr> else x)" by (simp add: x_def w)
  define y where "y = (if m4_SuperFrameSync x = 0 then x\<lparr>m4_SuperFrameSync := 4\<rparr> else x)"
  have y: "m4_RsDecoder y = m4_RsDecoder s" "m4_RsDims y = dims" "m4_OutVec y = m4_OutVec s" "m4_FireCode y = FirecodeChecker"
    "m4_BitRate y = 8 * dims" "m4_BlockFillIndex y = m4_BlockFillIndex w" "m4_FrameByteVec y = m4_FrameByteVec w"
    "m4_SuperFrameSync y \<noteq> 0" "decoded (m4_events y) = decoded (m4_events s)"
    using x fw inv by (simp_all add: y_def mp4_same_def mp4_inv_def)
  have "\<exists>t. super_frame_step aac c (24 * dims) y = Some t \<and> mp4_inv dims t \<and> m4_BlocksInBuffer t = 0 \<and> m4_SuperFrameSync t = 4 \<and>
    m4_RsDecoder t = m4_RsDecoder y \<and> m4_OutVec t = D \<and> decoded (m4_events t) = decoded (m4_events y) @ frame_units dims D"
    by (rule complete_super_frame) (use y inv dims D bss(4) W ringw(1) in \<open>simp_all add: mp4_inv_def ring_ok_def\<close>)
  with u(1) step y show ?thesis unfolding gf(1) mp4_add_frames_append y_def [symmetric] by auto
qed

lemma super_frames_stream:
  assumes "mp4_inv dims s" and "m4_BlocksInBuffer s = 0"
    and "\<forall>(D, fs)\<in>set sfs. carries_super_frame (m4_RsDecoder s) dims D fs"
    and "sfs \<noteq> [] \<Longrightarrow> m4_SuperFrameSync s \<noteq> 0 \<or> header_ok (snd (hd sfs))"
  shows "\<exists>t. mp4_add_frames aac c s (concat (map snd sfs)) = Some t \<and> mp4_inv dims t \<and> m4_BlocksInBuffer t = 0 \<and>
    (sfs \<noteq> [] \<longrightarrow> m4_SuperFrameSync t = 4) \<and>
    decoded (m4_events t) = decoded (m4_events s) @ concat (map (\<lambda>(D, fs). frame_units dims D) sfs)"
  using assms
proof (induction sfs arbitrary: s)
  case (Cons sf sfs)
  obtain D fs where sf: "sf = (D, fs)" by fastforce
  have "carries_super_frame (m4_RsDecoder s) dims D fs" using Cons.prems(3) by (simp add: sf)
  from super_frame_received [OF Cons.prems(1,2) this] Cons.prems(4) obtain u where u: "mp4_add_frames aac c s fs = Some u"
    "mp4_inv dims u" "m4_BlocksInBuffer u = 0" "m4_SuperFrameSync u = 4" "m4_RsDecoder u = m4_RsDecoder s"
    "decoded (m4_events u) = decoded (m4_events s) @ frame_units dims D" by (auto simp: sf)
  have "\<forall>(D, fs)\<in>set sfs. carries_super_frame (m4_RsDecoder u) dims D fs" using Cons.prems(3) u(5) by simp
  from Cons.IH [OF u(2,3) this] u show ?case by (cases "sfs = []") (auto simp: sf mp4_add_frames_append)
qed simp

lemma Mp4Processor_inv:
  assumes "Mp4Processor (8 * dims) starts = Some s" and "0 < dims" and "dims \<le> 170"
  shows "mp4_inv dims s \<and> m4_BlocksInBuffer s = 0 \<and> m4_events s = [] \<and> ReedSolomon 8 285 0 1 10 = Some (m4_RsDecoder s)"
  using assms by (auto simp: Mp4Processor_def mp4_inv_def split: option.splits)

section \<open>The LATM frame\<close>

definition config_fields :: "SStreamParms \<Rightarrow> (int \<times> nat) list" where
  "config_fields sp = (if sp_sbrFlag sp \<noteq> 0
     then [(5, 5), (int (sp_CoreSrIndex sp), 4), (int (sp_CoreChConfig sp), 4), (int (sp_ExtensionSrIndex sp), 4), (2, 5), (4, 3)]
     else [(2, 5), (int (sp_CoreSrIndex sp), 4), (int (sp_CoreChConfig sp), 4), (4, 3)])"

definition latm_fields :: "SStreamParms \<Rightarrow> nat \<Rightarrow> (int \<times> nat) list" where
  "latm_fields sp n = [(0, 1), (0, 1), (1, 1), (0, 6), (0, 4), (0, 3)] @ config_fields sp @
     [(0, 3), (0xff, 8), (0, 1), (0, 1)] @ replicate (n div 255) (0xff, 8) @ [(int (n mod 255), 8)]"

lemma build_aac_fields:
  "build_aac_stream sp dat = bw_data (WriteAudioMuxLengthBytes (AddBytes dat
     (foldl (\<lambda>w (v, n). AddBits v n w) Reset ([(0x2b7, 11), (0, 13)] @ latm_fields sp (length dat)))))"
proof -
  have "foldl (\<lambda>w i. AddBits 0xff 8 w) w [0..<n] = foldl (\<lambda>w (v, n). AddBits v n w) w (replicate n (0xff, 8))" for w n
    by (induction n arbitrary: w) (simp_all add: replicate_append_same [symmetric])
  then show ?thesis
    by (simp add: build_aac_stream_def Let_def latm_fields_def config_fields_def stream_config_def)
qed

lemma length_field_bits: "length (field_bits fs) = sum_list (map snd fs)"
  by (induction fs) (auto simp: field_bits_def)

lemma latm_bits:
  assumes "length dat \<le> 960"
  shows "\<exists>k<8. bits_of (build_aac_stream sp dat) =
    msb_bits 11 0x2b7 @ msb_bits 13 (int (length (build_aac_stream sp dat) - 3)) @
    field_bits (latm_fields sp (length dat)) @ bits_of dat @ replicate k False"
proof -
  let ?h = "field_bits (latm_fields sp (length dat))"
  define w where "w = AddBytes dat (foldl (\<lambda>w (v, n). AddBits v n w) Reset ([(0x2b7, 11), (0, 13)] @ latm_fields sp (length dat)))"
  have w: "bw_ok w" "written w = field_bits [(0x2b7, 11), (0, 13)] @ ?h @ bits_of dat"
    using AddBytes_written [OF fields_written [OF Reset_ok(1), THEN conjunct1],
        of dat "[(0x2b7, 11), (0, 13)] @ latm_fields sp (length dat)"]
      fields_written [OF Reset_ok(1), of "[(0x2b7, 11), (0, 13)] @ latm_fields sp (length dat)"]
    by (simp_all add: w_def Reset_ok field_bits_def)
  obtain k where k: "bits_of (bw_data w) = written w @ replicate k False" "k < 8" "8 * length (bw_data w) = length (written w) + k"
    by (rule written_padded [OF w(1)])
  have f24: "field_bits [(0x2b7, 11), (0, 13)] = msb_bits 11 0x2b7 @ msb_bits 13 0" by (simp add: field_bits_def)
  have "length ?h \<le> 62 + 8 * (length dat div 255)" "8 \<le> length ?h"
    by (auto simp: length_field_bits latm_fields_def config_fields_def sum_list_replicate)
  moreover have "length dat div 255 \<le> 3" using assms by simp
  moreover have "length (written w) = 24 + length ?h + 8 * length dat" by (simp add: w(2) f24)
  ultimately have len: "8 * length (bw_data w) \<le> 8 * 1100" "24 < 8 * length (bw_data w)"
    using k(2,3) assms by linarith+
  then obtain b0 b1 b2 rest where d: "bw_data w = b0 # b1 # b2 # rest"
    by (cases "bw_data w"; cases "tl (bw_data w)"; cases "tl (tl (bw_data w))") auto
  have bits: "byte_bits b0 @ byte_bits b1 @ byte_bits b2 @ bits_of rest =
      msb_bits 11 0x2b7 @ msb_bits 13 0 @ ?h @ bits_of dat @ replicate k False"
    using k(1) w(2) f24 by (simp add: d bits_of_def)
  have z: "\<not> bit b1 i" if i: "i < 5" for i
  proof -
    have "bit b1 i = (byte_bits b0 @ byte_bits b1 @ byte_bits b2 @ bits_of rest) ! (8 + (7 - i))"
      using i less_imp_diff_less [of 7 8 i] unfolding nth_append_length_plus [of "byte_bits b0", simplified]
      by (simp add: nth_append byte_bits_def)
    also have "\<dots> = (msb_bits 11 0x2b7 @ msb_bits 13 0 @ ?h @ bits_of dat @ replicate k False) ! (11 + (4 - i))"
      using i unfolding bits by (intro arg_cong [where f = "(!) _"]) simp
    also have "\<dots> = msb_bits 13 0 ! (4 - i)"
      using less_imp_diff_less [of 4 13 i] unfolding nth_append_length_plus [of "msb_bits 11 0x2b7", simplified]
      by (simp add: nth_append)
    finally show ?thesis by (simp add: msb_bits_def)
  qed
  have rest: "length rest < 2 ^ 13" using len(1) d by simp
  have r: "bits_of rest = ?h @ bits_of dat @ replicate k False"
    using arg_cong [OF bits, of "drop 24"] by simp
  have t: "take 11 (bits_of (bw_data w)) = msb_bits 11 0x2b7" using k(1) w(2) f24 by simp
  have b: "build_aac_stream sp dat = bw_data (WriteAudioMuxLengthBytes w)" by (simp only: build_aac_fields w_def)
  then have "length (build_aac_stream sp dat) - 3 = length rest" by (simp add: WriteAudioMuxLengthBytes_def Let_def d)
  with mux_length_written [OF d _ rest] z k(2) show ?thesis unfolding b t r by auto
qed

text \<open>A superframe of one code word, and the bits of a frame.\<close>

definition quiet_data :: "u8 list" where
  "quiet_data = replicate 108 0 @ [0x11, 0xaf]"

definition frame_of :: "u8 list \<Rightarrow> u8 list" where
  "frame_of bytes = map (\<lambda>i. of_bool (bit (bytes ! (i div 8)) (7 - i mod 8))) [0..<8 * length bytes]"

lemma bit_shift_step:
  "bit (push_bit 1 r OR (of_bool b AND 1) :: u8) i \<longleftrightarrow> i < 8 \<and> (if i = 0 then b else bit r (i - 1))"
  by (simp only: bit_or_iff bit_and_iff bit_push_bit_iff bit_of_bool_iff bit_1_iff possible_bit_word) auto

lemma bit_shift_in:
  "bit (foldl (\<lambda>temp j. push_bit 1 temp OR (of_bool (P j) AND 1)) (0 :: u8) [0..<n]) i \<longleftrightarrow> i < n \<and> i < 8 \<and> P (n - 1 - i)"
proof (induction n arbitrary: i)
  case (Suc n)
  show ?case unfolding upt_Suc_append [OF le0] foldl_append foldl.simps bit_shift_step Suc.IH by (cases i) auto
qed simp

lemma frame_of_carries: "frame_carries bytes (frame_of bytes)"
proof -
  have b: "frame_byte (frame_of bytes) i = bytes ! i" if i: "i < length bytes" for i
  proof -
    have "frame_byte (frame_of bytes) i = foldl (\<lambda>temp j. push_bit 1 temp OR (of_bool (bit (bytes ! i) (7 - j)) AND 1)) 0 [0..<8]"
      unfolding frame_byte_def using i by (intro foldl_cong) (auto simp: frame_of_def)
    then show ?thesis by (simp only:) (rule bit_word_eqI, simp only: bit_shift_in, simp)
  qed
  have "map (frame_byte (frame_of bytes)) [0..<length bytes] = bytes" by (rule nth_equalityI) (simp_all add: b)
  then show ?thesis by (simp add: frame_carries_def) (simp add: frame_of_def)
qed

lemma quiet_crc: "check_crc_bytes (\<lambda>i. quiet_data ! i) 108"
  by code_simp

lemma quiet_fire: "check FirecodeChecker ((!) quiet_data)"
proof -
  have "check FirecodeChecker ((!) quiet_data) = check FirecodeChecker (\<lambda>_. 0)"
    by (rule check_cong) (simp add: quiet_data_def nth_append)
  moreover have z: "foldl (crc_bit p) 0 bs = 0" if "\<forall>b\<in>set bs. \<not> b" for p :: u16 and bs
    using that by (induction bs) (auto simp: crc_bit_def)
  have "fire_crc16 (fill_crc_table polynom) (\<lambda>_. 0) = 0"
    unfolding fire_crc16_bits by (rule z) (auto simp: byte_bits_def)
  ultimately show ?thesis by (simp only: check_def FirecodeChecker_def firecode.simps)
qed

lemma quiet_starts: "au_starts quiet_data (8 * 1) (stream_parms 0) = [8, 0, 0, 0, 110]"
  by (simp add: au_starts_def stream_parms_def Let_def quiet_data_def nth_append)

lemma quiet_units:
  "frame_inside 1 quiet_data" "frame_units 1 quiet_data = [(stream_parms 0, build_aac_stream (stream_parms 0) (replicate 108 0))]"
proof -
  have q: "quiet_data ! 2 = 0" "quiet_data ! 0 = 0" "length quiet_data = 110" "take 108 quiet_data = replicate 108 0"
    by (simp_all add: quiet_data_def nth_append)
  have l: "[0..<length [8, 0, 0, 0, 110 :: int] - 1] = [0, 1, 2, 3]" by (simp add: upt_rec)
  have g: "unit_good quiet_data 0 110" using quiet_crc by (simp add: unit_good_def unit_length_ok_def)
  have n: "\<not> unit_good quiet_data 8 0" "\<not> unit_good quiet_data 0 0" "\<not> unit_length_ok 8 0" "\<not> unit_length_ok 0 0"
    by (simp_all add: unit_good_def unit_length_ok_def)
  have "au_pad quiet_data 0 \<noteq> None" using q by (simp add: au_pad_def)
  then have "unit_inside quiet_data 0 110" "unit_inside quiet_data 8 0" "unit_inside quiet_data 0 0"
    using n q by (simp_all add: unit_inside_def)
  then have "\<forall>i\<in>set [0, 1, 2, 3]. unit_inside quiet_data ([8, 0, 0, 0, 110] ! i) ([8, 0, 0, 0, 110] ! Suc i)" by simp
  then show "frame_inside 1 quiet_data" unfolding frame_units_starts(2) q(1) quiet_starts l [symmetric]
    by (simp only: set_upt atLeastLessThan_iff) simp
  have "frame_units 1 quiet_data = concat (map (\<lambda>i. unit_stream (stream_parms 0) quiet_data ([8, 0, 0, 0, 110] ! i) ([8, 0, 0, 0, 110] ! Suc i)) [0, 1, 2, 3])"
    unfolding frame_units_starts(1) q(1) quiet_starts l ..
  also have "\<dots> = [(stream_parms 0, build_aac_stream (stream_parms 0) (replicate 108 0))]"
    using g n q by (simp add: unit_stream_def)
  finally show "frame_units 1 quiet_data = [(stream_parms 0, build_aac_stream (stream_parms 0) (replicate 108 0))]" .
qed

text \<open>The five frames of a superframe.\<close>

definition frames_of :: "nat \<Rightarrow> u8 list \<Rightarrow> u8 list list" where
  "frames_of dims W = map (\<lambda>f. frame_of (take (24 * dims) (drop (f * (24 * dims)) W))) [0..<5]"

lemma frames_of_carry:
  assumes "length D = 110 * dims" and "check FirecodeChecker ((!) D)" and "frame_inside dims D" and W: "repairable rs dims D W"
  shows "carries_super_frame rs dims D (frames_of dims W)"
proof -
  let ?n = "24 * dims"
  define bss where "bss = map (\<lambda>f. take ?n (drop (f * ?n) W)) [0..<5]"
  have l: "length W = 5 * ?n" using W by (simp add: repairable_def)
  have c: "concat bss = W" unfolding bss_def by (rule concat_chunks [OF l])
  have l: "\<forall>bs\<in>set bss. length bs = ?n" using length_chunk [OF l] by (auto simp: bss_def simp del: length_take)
  have "list_all2 frame_carries bss (frames_of dims W)"
    by (simp add: bss_def frames_of_def list_all2_conv_all_nth frame_of_carries)
  moreover have "length bss = 5" by (simp add: bss_def)
  ultimately show ?thesis unfolding carries_super_frame_def using c l assms by blast
qed

text \<open>The superframe with five wrong bytes behind its header.\<close>

definition noisy :: "reed_solomon \<Rightarrow> u8 list" where
  "noisy rs = (encode_super_frame rs 1 quiet_data)[20 := 1, 33 := 2, 47 := 255, 60 := 4, 119 := 5]"

lemma noisy_carries:
  assumes "ReedSolomon 8 285 0 1 10 = Some rs"
  shows "carries_super_frame rs 1 quiet_data (frames_of 1 (noisy rs))" "header_ok (frames_of 1 (noisy rs))"
proof -
  let ?e = "encode_super_frame rs 1 quiet_data"
  have e: "length ?e = 120" by (simp add: encode_super_frame_def)
  have "{k. k < 120 \<and> noisy rs ! k \<noteq> ?e ! k} \<subseteq> {20, 33, 47, 60, 119}"
    unfolding noisy_def by (auto simp: nth_list_update_neq) (metis nth_list_update_neq)
  then have "card {k. k < 120 \<and> noisy rs ! k \<noteq> ?e ! k} \<le> card {20, 33, 47, 60, 119 :: nat}"
    by (rule card_mono [rotated]) simp
  also have "\<dots> = 5" by simp
  finally have "repairable rs 1 quiet_data (noisy rs)" using e by (simp add: repairable_def) (simp add: noisy_def)
  moreover have "length quiet_data = 110 * 1" by (simp add: quiet_data_def)
  ultimately show "carries_super_frame rs 1 quiet_data (frames_of 1 (noisy rs))"
    using frames_of_carry [OF _ quiet_fire quiet_units(1)] by blast
  have "frame_byte (hd (frames_of 1 (noisy rs))) i = quiet_data ! i" if i: "i < 11" for i
  proof -
    let ?b = "take 24 (noisy rs)"
    have h: "hd (frames_of 1 (noisy rs)) = frame_of ?b" by (simp add: frames_of_def upt_rec)
    have l: "length ?b = 24" using e by (simp add: noisy_def)
    have m: "map (frame_byte (frame_of ?b)) [0..<24] = ?b" using frame_of_carries [of ?b] l by (simp add: frame_carries_def)
    have "frame_byte (frame_of ?b) i = map (frame_byte (frame_of ?b)) [0..<24] ! i" using i by simp
    also have "\<dots> = ?b ! i" by (simp only: m)
    also have "\<dots> = ?e ! i" using i by (simp add: noisy_def)
    also have "\<dots> = quiet_data ! i" using rs_word(3) [OF assms, of 0 1 i quiet_data] i by simp
    finally show ?thesis unfolding h .
  qed
  then have "check FirecodeChecker (frame_byte (hd (frames_of 1 (noisy rs)))) = check FirecodeChecker ((!) quiet_data)"
    by (rule check_cong)
  then show "header_ok (frames_of 1 (noisy rs))" using quiet_fire by (simp add: header_ok_def)
qed

section \<open>Properties\<close>

text \<open>
  C7: Reception of DAB+ superframes: a new processor that is fed with the frames of a stream of
  superframes (data with a right fire code, Reed-Solomon encoded and interleaved), of which every code
  word may arrive with up to five wrong bytes as long as the header of the first superframe is right and
  the access units and their PAD fields lie inside the superframe, for a bit rate of at most 1360 kbit/s,
  synchronises with the first one, restores the data of each, and calls the AAC decoder exactly with the
  access units whose length is possible and whose CRC is right, as LATM frames, in order; whatever the
  AAC decoder answers and whether lost frames are concealed, it stays synchronised.
\<close>

theorem super_frames_received:
  assumes "Mp4Processor (8 * dims) starts = Some s" and "0 < dims" and "dims \<le> 170"
    and "\<forall>(D, fs)\<in>set sfs. carries_super_frame (m4_RsDecoder s) dims D fs" and "sfs \<noteq> []" and "header_ok (snd (hd sfs))"
  shows "\<exists>t. mp4_add_frames aac c s (concat (map snd sfs)) = Some t \<and> m4_SuperFrameSync t = 4 \<and>
    decoded (m4_events t) = concat (map (\<lambda>(D, fs). frame_units dims D) sfs)"
proof -
  note i = Mp4Processor_inv [OF assms(1-3)]
  from super_frames_stream [OF i [THEN conjunct1] _ assms(4), of aac c] i assms(5,6) show ?thesis
    by (auto simp: decoded_def)
qed

theorem super_frames_received_witness:
  "\<exists>s t. Mp4Processor 8 [] = Some s \<and> mp4_add_frames (\<lambda>_ _ _. 1) True s (frames_of 1 (noisy (m4_RsDecoder s))) = Some t \<and>
    decoded (m4_events t) = [(stream_parms 0, build_aac_stream (stream_parms 0) (replicate 108 0))]"
proof -
  obtain s where s: "Mp4Processor (8 * 1) [] = Some s" using ReedSolomon_exists by (auto simp: Mp4Processor_def)
  let ?fs = "frames_of 1 (noisy (m4_RsDecoder s))"
  have "ReedSolomon 8 285 0 1 10 = Some (m4_RsDecoder s)" using Mp4Processor_inv [OF s] by simp
  note c = noisy_carries [OF this]
  obtain t where "mp4_add_frames (\<lambda>_ _ _. 1) True s (concat (map snd [(quiet_data, ?fs)])) = Some t"
    "decoded (m4_events t) = concat (map (\<lambda>(D, fs). frame_units 1 D) [(quiet_data, ?fs)])"
    using super_frames_received [OF s, of "[(quiet_data, ?fs)]" "\<lambda>_ _ _. 1" True] c by auto
  with s show ?thesis using quiet_units(2) by auto
qed

text \<open>
  C26: The LATM frame of an access unit: the sync word, the number of the bytes that follow in thirteen
  bits, the stream configuration, the length in steps of 255, the unit itself and less than a byte of
  padding; nothing else.
\<close>

theorem latm_frame:
  assumes "length dat \<le> 960"
  shows "\<exists>k<8. bits_of (build_aac_stream sp dat) =
    msb_bits 11 0x2b7 @ msb_bits 13 (int (length (build_aac_stream sp dat) - 3)) @
    field_bits (latm_fields sp (length dat)) @ bits_of dat @ replicate k False"
  by (rule latm_bits [OF assms])

theorem latm_frame_witness:
  "take 11 (bits_of (build_aac_stream (stream_parms 0) [1, 2])) = msb_bits 11 0x2b7"
proof -
  have "length [1, 2 :: u8] \<le> 960" by simp
  from latm_frame [OF this, of "stream_parms 0"] show ?thesis by auto
qed

end
