(* ===== verification/Small_Ensemble.thy ===== *)
theory Small_Ensemble
  imports Fib_Properties "HOL-Library.Code_Target_Nat"
begin

text \<open>
  A small ensemble: FIBs that describe one audio service and one packet service, and the reachable
  states of the FIB decoder after them.  The decoding of the FIBs is evaluated.
\<close>

section \<open>An audio service\<close>

text \<open>A FIB with one sub-channel (FIG 0/1) and one audio service on it (FIG 0/2).\<close>

definition bytes_ptr :: "u8 list \<Rightarrow> bit_ptr" where
  "bytes_ptr bytes i = (if i < 8 * length bytes then (if bit (bytes ! (i div 8)) (7 - i mod 8) then 1 else 0) else 0)"

definition audio_bytes :: "u8 list" where
  "audio_bytes = [0x05, 0x01, 0x14, 0x00, 0x88, 0x06, 0x06, 0x02, 0x12, 0x34, 0x01, 0x3f, 0x16, 0xff]"

definition audio_fib :: bit_ptr where
  "audio_fib i = bytes_ptr audio_bytes i"

definition plain_codec :: qt_codec where
  "plain_codec = \<lparr>fromUtf16 = \<lambda>b n. take n b, fromUtf8 = \<lambda>b n. take n b\<rparr>"

definition audio_descriptor :: SAudioData where
  "audio_descriptor = \<lparr>sd_isDefined = True, sd_TMId = StreamModeAudio, sd_SId = 0x1234, sd_SubChId = 5, sd_CuStartAddr = 0,
     sd_CuSize = 6, sd_shortForm = False, sd_protLevel = 2, sd_bitRate = 8, sd_serviceLabel = [],
     sd_serviceLabelShort = [], ad_ASCTy = 63\<rparr>"

lemma bytes_ptr_bits: "fib_bits (bytes_ptr bytes)"
  by (simp add: fib_bits_def bytes_ptr_def)

lemma audio_fib_decoded:
  "case process_FIB plain_codec 7 audio_fib FibDecoder of None \<Rightarrow> False
   | Some s \<Rightarrow> fd_TimerCheckStateAndPrintFigs s \<and>
       map (\<lambda>e. (s1_SubChId e, s1_StartAddr e, s1_SubChannelSize e, s1_ShortForm e, s1_ProtectionLevel e, s1_BitRate e))
         (Fig0s1Vec (fd_Curr s)) = [(5, 0, 6, False, 2, 8)] \<and>
       map (\<lambda>e. (s2_SId e, s2_PD_Flag e, sc_TMId (s2_ServiceComp_C e), ref_SubChId (sc_ref (s2_ServiceComp_C e)),
           ref_ASCTy (sc_ref (s2_ServiceComp_C e)))) (Fig0s2Vec (fd_Curr s)) = [(0x1234, 0, 0, 5, 63)] \<and>
       map g1_SId (Fig1s1Vec (fd_Fig1 s)) = []"
  by code_simp

lemma timer_loaded:
  "fd_Curr (slot_timer_check_state_and_print_FIGs s) = fd_Curr s" "fd_Fig1 (slot_timer_check_state_and_print_FIGs s) = fd_Fig1 s"
  "\<not> fd_FibLoadingState (slot_timer_check_state_and_print_FIGs s) < S4_FullyPacketDataLoaded"
  by (simp_all add: slot_timer_check_state_and_print_FIGs_def Let_def frame_simps emit_def)

lemma audio_ensemble:
  "\<exists>s. fib_reachable plain_codec s \<and> get_data_for_audio_service s 0x1234 new_SAudioData = audio_descriptor"
proof -
  obtain s e f where s: "process_FIB plain_codec 7 audio_fib FibDecoder = Some s"
    "fd_TimerCheckStateAndPrintFigs s" "Fig0s1Vec (fd_Curr s) = [e]" "Fig0s2Vec (fd_Curr s) = [f]" "Fig1s1Vec (fd_Fig1 s) = []"
    and e: "s1_SubChId e = 5" "s1_StartAddr e = 0" "s1_SubChannelSize e = 6" "\<not> s1_ShortForm e" "s1_ProtectionLevel e = 2" "s1_BitRate e = 8"
    and f: "s2_SId f = 0x1234" "s2_PD_Flag f = 0" "sc_TMId (s2_ServiceComp_C f) = 0"
    "ref_SubChId (sc_ref (s2_ServiceComp_C f)) = 5" "ref_ASCTy (sc_ref (s2_ServiceComp_C f)) = 63"
    using audio_fib_decoded by (auto split: option.splits)
  define t where "t = slot_timer_check_state_and_print_FIGs (s\<lparr>fd_TimerCheckStateAndPrintFigs := False\<rparr>)"
  have "fib_reachable plain_codec s"
    by (rule fib_reachable.step [OF fib_reachable.start fib_step.step_FIB [OF _ s(1)]])
      (use bytes_ptr_bits [of audio_bytes] in \<open>simp add: fib_bits_def audio_fib_def\<close>)
  then have r: "fib_reachable plain_codec t" unfolding t_def
    by (rule fib_reachable.step [OF _ fib_step.step_timer2 [OF s(2)]])
  have t: "Fig0s1Vec (fd_Curr t) = [e]" "Fig0s2Vec (fd_Curr t) = [f]" "Fig1s1Vec (fd_Fig1 t) = []"
    using s(3-5) by (simp_all add: t_def timer_loaded)
  have "\<not> fd_FibLoadingState t < S1_FastAudioDataLoaded"
    using timer_loaded(3) [of "s\<lparr>fd_TimerCheckStateAndPrintFigs := False\<rparr>"] unfolding t_def [symmetric]
    by (cases "fd_FibLoadingState t") (simp_all add: state_order)
  then have "get_data_for_audio_service t 0x1234 new_SAudioData = get_audio_data t f (new_SAudioData\<lparr>sd_isDefined := False\<rparr>)"
    using f by (simp add: get_data_for_audio_service_def t get_Fig0s2_of_SId_TMId_def)
  also have "\<dots> = audio_descriptor"
    using e f by (simp add: get_audio_data_def t get_Fig0s1_of_SubChId_def get_Fig1s1_of_SId_def new_SAudioData_def audio_descriptor_def)
  finally show ?thesis using r by blast
qed

section \<open>Two audio services\<close>

text \<open>A FIB with two sub-channels (FIG 0/1) and an audio service on each of them (FIG 0/2).\<close>

definition two_bytes :: "u8 list" where
  "two_bytes = [0x09, 0x01, 0x14, 0x00, 0x88, 0x06, 0x18, 0x06, 0x88, 0x06,
     0x0b, 0x02, 0x12, 0x34, 0x01, 0x3f, 0x16, 0x12, 0x35, 0x01, 0x3f, 0x1a, 0xff]"

definition two_fib :: bit_ptr where
  "two_fib i = bytes_ptr two_bytes i"

lemma two_fib_decoded:
  "case process_FIB plain_codec 7 two_fib FibDecoder of None \<Rightarrow> False
   | Some s \<Rightarrow> map (\<lambda>e. (s1_SubChId e, s1_StartAddr e, s1_SubChannelSize e)) (Fig0s1Vec (fd_Curr s)) = [(5, 0, 6), (6, 6, 6)] \<and>
       map s2_SId (Fig0s2Vec (fd_Curr s)) = [0x1234, 0x1235]"
  by code_simp

lemma two_services:
  "\<exists>s. fib_reachable plain_codec s \<and>
     map (\<lambda>e. (s1_SubChId e, s1_StartAddr e, s1_SubChannelSize e)) (Fig0s1Vec (fd_Curr s)) = [(5, 0, 6), (6, 6, 6)] \<and>
     map s2_SId (Fig0s2Vec (fd_Curr s)) = [0x1234, 0x1235]"
proof -
  obtain s where s: "process_FIB plain_codec 7 two_fib FibDecoder = Some s"
    using two_fib_decoded by (auto split: option.splits)
  have "fib_reachable plain_codec s"
    by (rule fib_reachable.step [OF fib_reachable.start fib_step.step_FIB [OF _ s]])
      (use bytes_ptr_bits [of two_bytes] in \<open>simp add: fib_bits_def two_fib_def\<close>)
  then show ?thesis
    using two_fib_decoded by (auto simp: s)
qed

theorem subchannels_disjoint_witness:
  "\<exists>s :: fib_decoder. map s1_SubChId (Fig0s1Vec (fd_Curr s)) = [5, 6] \<and>
     cu_range (Fig0s1Vec (fd_Curr s) ! 0) = {0..<6} \<and> cu_range (Fig0s1Vec (fd_Curr s) ! 1) = {6..<12} \<and>
     cu_range (Fig0s1Vec (fd_Curr s) ! 0) \<inter> cu_range (Fig0s1Vec (fd_Curr s) ! 1) = {}"
proof -
  obtain s e f where s: "fib_reachable plain_codec s" "Fig0s1Vec (fd_Curr s) = [e, f]"
    and e: "s1_SubChId e = 5" "s1_StartAddr e = 0" "s1_SubChannelSize e = 6"
    and f: "s1_SubChId f = 6" "s1_StartAddr f = 6" "s1_SubChannelSize f = 6"
    using two_services by (auto simp: map_eq_Cons_conv)
  have "cu_range (Fig0s1Vec (fd_Curr s) ! 0) \<inter> cu_range (Fig0s1Vec (fd_Curr s) ! 1) = {}"
  proof -
    have "\<forall>i j. i < j \<and> j < length (Fig0s1Vec (fd_Curr s)) \<longrightarrow>
        cu_range (Fig0s1Vec (fd_Curr s) ! i) \<inter> cu_range (Fig0s1Vec (fd_Curr s) ! j) = {}"
      using subchannels_disjoint [OF s(1)] by simp
    from this [rule_format, of 0 1] show ?thesis
      by (simp add: s(2))
  qed
  then show ?thesis
    using s(2) e f by (intro exI [of _ s]) (simp add: cu_range_def)
qed

text \<open>
  Entries of FIG 0/1: one for sub-channel 0 with the units 0 to 15, in an ensemble with these two sub-channels and in an
  empty one, and one for the known sub-channel 5.
\<close>

definition entry_header :: SFigHeader where
  "entry_header = \<lparr>fh_Length = 4, fh_CN_Flag = 0, fh_OE_Flag = 0, fh_PD_Flag = 0\<rparr>"

definition entry_5 :: bit_ptr where "entry_5 i = (if i = 19 \<or> i = 21 then 1 else 0)"

lemma zero_entry:
  "getBits_6 (\<lambda>_. 0) n = 0" "cu_range (fst (parse_Fig0s1 (\<lambda>_. 0) n)) = {0..<16}"
  "s1_SubChannelSize (set_current_time now (fst (parse_Fig0s1 (\<lambda>_. 0) n))) = 16"
proof -
  have r: "getBits_6 (\<lambda>_. 0) n = 0" "getBits (\<lambda>_. 0) n 10 = 0" "getBits_1 (\<lambda>_. 0) n = 0" for n
    by (simp_all add: getBits_6_def getBits_1_def getBits_def numeral_eq_Suc)
  show "getBits_6 (\<lambda>_. 0) n = 0" "cu_range (fst (parse_Fig0s1 (\<lambda>_. 0) n)) = {0..<16}"
    "s1_SubChannelSize (set_current_time now (fst (parse_Fig0s1 (\<lambda>_. 0) n))) = 16"
    by (simp_all add: parse_Fig0s1_def Let_def r cProtLevelTable_def cu_range_def set_current_time_def)
qed

theorem Fig0s1_entry_witness:
  "\<exists>s. map (\<lambda>e. (s1_SubChId e, s1_StartAddr e, s1_SubChannelSize e)) (Fig0s1Vec (fd_Curr s)) = [(5, 0, 6), (6, 6, 6)] \<and>
     no_content (fd_Curr (snd (subprocess_Fig0s1 9 (\<lambda>_. 0) 2 entry_header s))) \<and>
     map s1_SubChannelSize (Fig0s1Vec (fd_Curr (snd (subprocess_Fig0s1 9 entry_5 2 entry_header s)))) = [6, 6] \<and>
     map_option s1_SubChannelSize (get_Fig0s1_of_SubChId (fd_Curr (snd (subprocess_Fig0s1 9 (\<lambda>_. 0) 2 entry_header FibDecoder))) 0) = Some 16"
proof -
  obtain s e f where s: "fib_reachable plain_codec s" "Fig0s1Vec (fd_Curr s) = [e, f]"
    and e: "s1_SubChId e = 5" "s1_StartAddr e = 0" "s1_SubChannelSize e = 6"
    and f: "s1_SubChId f = 6" "s1_StartAddr f = 6" "s1_SubChannelSize f = 6"
    using two_services by (auto simp: map_eq_Cons_conv)
  have b: "fib_bits (\<lambda>_. 0)" "fib_bits entry_5" by (simp_all add: fib_bits_def entry_5_def)
  have h: "fh_CN_Flag entry_header = 0" by (simp add: entry_header_def)
  have g: "get_Fig0s1_of_SubChId (fd_Curr s) 0 = None" "get_Fig0s1_of_SubChId (fd_Curr s) 5 = Some e"
    "get_Fig0s1_of_SubChId (fd_Curr FibDecoder) 0 = None" "Fig0s1Vec (fd_Curr FibDecoder) = []"
    using s(2) e f by (simp_all add: get_Fig0s1_of_SubChId_def FibDecoder_def new_FibConfigFig0_def)
  have five: "uint (getBits_6 entry_5 (2 * 8)) = 5" by code_simp
  have "cu_range e = {0..<6}" using e by (simp add: cu_range_def)
  then have "0 \<in> cu_range e \<inter> cu_range (fst (parse_Fig0s1 (\<lambda>_. 0) (2 * 8)))" by (simp add: zero_entry)
  then have "no_room (Fig0s1Vec (fd_Curr s)) (fst (parse_Fig0s1 (\<lambda>_. 0) (2 * 8)))"
    unfolding no_room_def s(2) list.set by blast
  with Fig0s1_entry [OF s(1) b(1), where fh = entry_header and used = 2 and now = 9] g
  have 1: "no_content (fd_Curr (snd (subprocess_Fig0s1 9 (\<lambda>_. 0) 2 entry_header s)))"
    by (simp add: h get_config_def zero_entry)
  from Fig0s1_entry [OF s(1) b(2), where fh = entry_header and used = 2 and now = 9] g five
  have "map (\<lambda>e. e\<lparr>TimePoint2ndCall := 0\<rparr>) (Fig0s1Vec (fd_Curr (snd (subprocess_Fig0s1 9 entry_5 2 entry_header s)))) =
      map (\<lambda>e. e\<lparr>TimePoint2ndCall := 0\<rparr>) [e, f]"
    by (simp add: h get_config_def s(2))
  from arg_cong [OF this, where f = "map s1_SubChannelSize"]
  have 2: "map s1_SubChannelSize (Fig0s1Vec (fd_Curr (snd (subprocess_Fig0s1 9 entry_5 2 entry_header s)))) = [6, 6]"
    using e f by (simp add: comp_def)
  have "\<not> no_room [] (fst (parse_Fig0s1 (\<lambda>_. 0) (2 * 8)))"
    using zero_entry(2) [of "2 * 8"] by (auto simp: no_room_def cu_range_def)
  with Fig0s1_entry [OF fib_reachable.start b(1), where fh = entry_header and used = 2 and now = 9] g
  have 3: "map_option s1_SubChannelSize (get_Fig0s1_of_SubChId (fd_Curr (snd (subprocess_Fig0s1 9 (\<lambda>_. 0) 2 entry_header FibDecoder))) 0) = Some 16"
    by (simp add: h get_config_def zero_entry)
  show ?thesis using 1 2 3 s(2) e f by (intro exI [of _ s]) simp
qed

section \<open>A packet service\<close>

text \<open>
  A packet service: sub-channel (FIG 0/1), component (0/2), packet address (0/3); then its number
  within the service (0/8) and its user application (0/13); then the label (1/5).
\<close>

definition packet_bytes :: "u8 list" where
  "packet_bytes =
    [0x05, 0x01, 0x14, 0x00, 0x88, 0x06,
     0x06, 0x02, 0, 5, 0x01, 0xc0, 0x06,
     0x06, 0x03, 0x00, 0x10, 0x3c, 0x14, 0x01, 0xff]"

definition packet_bytes_2 :: "u8 list" where
  "packet_bytes_2 =
    [0x06, 0x08, 0, 5, 0x00, 0x80, 0x01,
     0x06, 0x0d, 0, 5, 0x01, 0x00, 0x40, 0xff]"

definition label_bytes :: "u8 list" where
  "label_bytes =
    [0x37, 0xf5, 0, 0, 0, 5, 0x41, 0x42, 0, 0, 0, 0, 0, 0, 0, 0, 0, 0, 0, 0, 0, 0, 0x80, 0x00, 0xff]"

definition packet_fib :: bit_ptr where "packet_fib i = bytes_ptr packet_bytes i"
definition packet_fib_2 :: bit_ptr where "packet_fib_2 i = bytes_ptr packet_bytes_2 i"
definition packet_label :: bit_ptr where "packet_label i = bytes_ptr label_bytes i"


definition packet_fibs :: "fib_decoder option" where
  "packet_fibs = Option.bind (process_FIB plain_codec 7 packet_fib FibDecoder) (process_FIB plain_codec 7 packet_fib_2)"

lemma packet_fibs_decoded:
  "case packet_fibs of None \<Rightarrow> False
    | Some s \<Rightarrow> fd_TimerCheckStateAndPrintFigs s \<and>
       map (\<lambda>e. (s1_SubChId e, s1_StartAddr e, s1_SubChannelSize e, s1_ShortForm e, s1_ProtectionLevel e, s1_BitRate e))
         (Fig0s1Vec (fd_Curr s)) = [(5, 0, 6, False, 2, 8)] \<and>
       map (\<lambda>e. (s2_SId e, s2_NumServiceComp e, s2_ServiceComp_C_index e, sc_TMId (s2_ServiceComp_C e),
           ref_SCId (sc_ref (s2_ServiceComp_C e)), sc_PS_Flag (s2_ServiceComp_C e))) (Fig0s2Vec (fd_Curr s)) =
         [(5, 1, 0, 3, 1, 1)] \<and>
       map (\<lambda>e. (s3_SCId e, s3_DG_Flag e, s3_DSCTy e, s3_SubChId e, s3_PacketAddress e)) (Fig0s3Vec (fd_Curr s)) =
         [(1, 0, 60, 5, 1)] \<and>
       map (\<lambda>e. (s8_SId e, s8_LS_Flag e, s8_SCIdS e)) (Fig0s8Vec (fd_Curr s)) = [(5, 1, 0)] \<and>
       map (\<lambda>e. (s13_SId e, s13_SCIdS e, s13_NumUserApps e)) (Fig0s13Vec (fd_Curr s)) = [(5, 0, 1)] \<and>
       map g5_SId (Fig1s5Vec (fd_Fig1 s)) = []"
  by code_simp

lemma label_bits:
  "getBits_3 packet_label 0 = 1" "getBits_5 packet_label 3 = 23" "getBits_3 packet_label 13 = 5" "getLBits packet_label 16 32 = 5"
  "getBits_4 packet_label 8 = 15" "getBits_3 packet_label 192 = 7" "getBits_5 packet_label 195 = 31"
  by code_simp+

lemma getBits_shift: "getBits_3 (\<lambda>i. d (k + i)) p = getBits_3 d (k + p)" "getBits_5 (\<lambda>i. d (k + i)) p = getBits_5 d (k + p)"
  by (simp_all add: getBits_3_def getBits_5_def add.assoc)

lemma label_received:
  assumes "Fig1s5Vec (fd_Fig1 s) = []" and "fd_TimerCheckStateAndPrintFigs s"
  shows "\<exists>t. process_FIB plain_codec 7 packet_label s = Some t \<and> fd_Curr t = fd_Curr s \<and>
    (\<exists>l. Fig1s5Vec (fd_Fig1 t) = [l] \<and> g5_SId l = 5) \<and> fd_TimerCheckStateAndPrintFigs t"
proof -
  define s1 where "s1 = (if fd_FirstFigTimePoint s = 0 then s\<lparr>fd_FirstFigTimePoint := 7\<rparr> else s)\<lparr>fd_RestartFibDecoding := False\<rparr>"
  have s1: "fd_Curr s1 = fd_Curr s" "Fig1s5Vec (fd_Fig1 s1) = []" "\<not> fd_RestartFibDecoding s1" "fd_TimerCheckStateAndPrintFigs s1" using assms by (simp_all add: s1_def)
  obtain df where df: "extract_character_set_label plain_codec packet_label 48 = Some df"
    by (simp add: extract_character_set_label_def label_bits is_charset_valid_def UnicodeUtf8_def Let_def)
  define t where "t = process_Fig1 plain_codec 7 packet_label s1"
  have t: "fd_Curr t = fd_Curr s" "\<exists>l. Fig1s5Vec (fd_Fig1 t) = [l] \<and> g5_SId l = 5" "fd_TimerCheckStateAndPrintFigs t"
    "\<not> fd_RestartFibDecoding t"
    using s1 by (simp_all add: t_def process_Fig1_def process_Fig1s5_def label_bits get_Fig1s5_of_SId_def df Let_def frame_simps
        SFig1_DataField.defs SFig1s5.defs retrigger_timer_data_loaded_slow_def
        retrigger_timer_data_loaded_fast_def set_current_time_def emit_def)
  have "process_FIB plain_codec 7 packet_label s = Some t"
    using t(4) unfolding process_FIB_def Let_def s1_def [symmetric]
    by (subst process_figs.simps, subst process_figs.simps) (simp add: getBits_shift label_bits t_def [symmetric])
  with t show ?thesis by blast
qed

lemma packet_ensemble:
  "\<exists>s pd. fib_reachable plain_codec s \<and> get_data_for_packet_service s 5 [] = [pd] \<and> sd_isDefined pd \<and>
     sd_CuStartAddr pd = 0 \<and> sd_CuSize pd = 6 \<and> \<not> sd_shortForm pd \<and> sd_protLevel pd = 2 \<and> sd_bitRate pd = 8 \<and>
     pd_DSCTy pd = 60 \<and> pd_DGflag pd = 0 \<and> pd_PacketAddress pd = 1 \<and> length (Fig1s5Vec (fd_Fig1 s)) = 1"
proof -
  obtain s1 s2 e f g h u where s: "process_FIB plain_codec 7 packet_fib FibDecoder = Some s1"
    "process_FIB plain_codec 7 packet_fib_2 s1 = Some s2"
    "Fig0s1Vec (fd_Curr s2) = [e]" "Fig0s2Vec (fd_Curr s2) = [f]" "Fig0s3Vec (fd_Curr s2) = [g]"
    "Fig0s8Vec (fd_Curr s2) = [h]" "Fig0s13Vec (fd_Curr s2) = [u]" "Fig1s5Vec (fd_Fig1 s2) = []"
    "fd_TimerCheckStateAndPrintFigs s2"
    and e: "s1_SubChId e = 5" "s1_StartAddr e = 0" "s1_SubChannelSize e = 6" "\<not> s1_ShortForm e" "s1_ProtectionLevel e = 2" "s1_BitRate e = 8"
    and f: "s2_SId f = 5" "s2_NumServiceComp f = 1" "s2_ServiceComp_C_index f = 0" "sc_TMId (s2_ServiceComp_C f) = 3"
    "ref_SCId (sc_ref (s2_ServiceComp_C f)) = 1" "sc_PS_Flag (s2_ServiceComp_C f) = 1"
    and g: "s3_SCId g = 1" "s3_DG_Flag g = 0" "s3_DSCTy g = 60" "s3_SubChId g = 5" "s3_PacketAddress g = 1"
    and h: "s8_SId h = 5" "s8_LS_Flag h = 1" "s8_SCIdS h = 0" and u: "s13_SId u = 5" "s13_SCIdS u = 0" "s13_NumUserApps u = 1"
    using packet_fibs_decoded unfolding packet_fibs_def by (auto split: option.splits bind_splits)
  obtain s3 l where s3: "process_FIB plain_codec 7 packet_label s2 = Some s3" "fd_Curr s3 = fd_Curr s2"
    "Fig1s5Vec (fd_Fig1 s3) = [l]" "g5_SId l = 5" "fd_TimerCheckStateAndPrintFigs s3"
    using label_received [OF s(8,9)] by blast
  define t where "t = slot_timer_check_state_and_print_FIGs (s3\<lparr>fd_TimerCheckStateAndPrintFigs := False\<rparr>)"
  have "fib_bits packet_fib" "fib_bits packet_fib_2" "fib_bits packet_label"
    using bytes_ptr_bits by (simp_all add: fib_bits_def packet_fib_def packet_fib_2_def packet_label_def)
  note step = this [THEN fib_step.step_FIB]
  have "fib_reachable plain_codec s3"
    by (intro fib_reachable.step [OF _ step(3) [OF s3(1)]] fib_reachable.step [OF _ step(2) [OF s(2)]]
        fib_reachable.step [OF _ step(1) [OF s(1)]] fib_reachable.start)
  then have r: "fib_reachable plain_codec t" unfolding t_def
    by (rule fib_reachable.step [OF _ fib_step.step_timer2 [OF s3(5)]])
  have t: "fd_Curr t = fd_Curr s2" "Fig1s5Vec (fd_Fig1 t) = [l]" "\<not> fd_FibLoadingState t < S4_FullyPacketDataLoaded"
    using s3 timer_loaded(3) by (simp_all add: t_def timer_loaded)
  note getters = get_Fig0s3_of_SCId_def get_Fig0s1_of_SubChId_def get_Fig0s8_of_SId_with_SCId_def
    get_Fig0s13_of_SId_SCIdS_def get_Fig1s5_of_SId_def get_Fig0s2_of_SId_ScIdx_def
  obtain pd where pd: "get_packet_data t f 0 = Some pd" "sd_isDefined pd" "sd_CuStartAddr pd = 0" "sd_CuSize pd = 6"
    "\<not> sd_shortForm pd" "sd_protLevel pd = 2" "sd_bitRate pd = 8" "pd_DSCTy pd = 60" "pd_DGflag pd = 0" "pd_PacketAddress pd = 1"
    using s3(4) e f g h u
    by (simp add: get_packet_data_def Let_def t s(3-7) getters cNumServiceCompMax_def new_SPacketData_def)
  have "packet_loop t 5 (0 # rest) 0 [] = packet_loop t 5 rest 1 [pd]" for rest
    using f pd(1) by (simp add: t s(4) getters)
  moreover have "packet_loop t 5 [1..<cNumServiceCompMax] 1 [pd] = [pd]"
    by (simp add: cNumServiceCompMax_def upt_conv_Cons)
  moreover have "[0..<cNumServiceCompMax] = 0 # [1..<cNumServiceCompMax]" by (simp add: cNumServiceCompMax_def upt_conv_Cons)
  ultimately have "get_data_for_packet_service t 5 [] = [pd]" using t(3) by (simp add: get_data_for_packet_service_def)
  moreover have "length (Fig1s5Vec (fd_Fig1 t)) = 1" by (simp add: t(2))
  ultimately show ?thesis using r pd by blast
qed

theorem fib_content_tables_witness:
  "\<exists>(s :: fib_decoder) (t :: fib_decoder) l. map s2_SId (Fig0s2Vec (fd_Curr s)) = [0x1234, 0x1235] \<and>
     distinct (map (\<lambda>e. (s2_SId e, s2_ServiceComp_C_index e)) (Fig0s2Vec (fd_Curr s))) \<and>
     Fig1s5Vec (fd_Fig1 t) = [l] \<and> length (df_Name l) = 16 \<and> length (df_NameShort l) = 8"
proof -
  obtain s where s: "fib_reachable plain_codec s" "map s2_SId (Fig0s2Vec (fd_Curr s)) = [0x1234, 0x1235]"
    using two_services by auto
  obtain t l where t: "fib_reachable plain_codec t" "Fig1s5Vec (fd_Fig1 t) = [l]"
    using packet_ensemble by (auto simp: length_Suc_conv)
  from fib_content_tables [OF s(1)] have "distinct (map (\<lambda>e. (s2_SId e, s2_ServiceComp_C_index e)) (Fig0s2Vec (fd_Curr s)))" by blast
  moreover from fib_content_tables [OF t(1)] have "\<forall>e\<in>set (Fig1s5Vec (fd_Fig1 t)). length (df_Name e) = 16 \<and> length (df_NameShort e) = 8"
    by blast
  then have "length (df_Name l) = 16" "length (df_NameShort l) = 8" by (simp_all add: t(2))
  ultimately show ?thesis using s(2) t(2) by (intro exI conjI)
qed

end
