(* ===== verification/Reception.thy ===== *)
theory Reception
  imports Punctured_Codes Msc_Handler Data_Processor Mp4_Processor Small_Ensemble
begin

text \<open>
  Reception as a whole: what the FIB decoder learns about a service is enough to start its backend, and
  the frames of the service arrive.
\<close>

section \<open>The two tables of the short form\<close>

text \<open>
  FIG 0/1 has the sizes of the short form in one table, the protection handler the puncturing in
  another; the rows correspond.
\<close>

lemma find_index_from_nth:
  "k < length rows \<Longrightarrow> \<forall>j\<le>k. fst (rows ! j) \<noteq> 0 \<Longrightarrow>
    distinct (map (\<lambda>r. (fst r, fst (snd r))) rows) \<Longrightarrow>
    find_index_from rows i (fst (rows ! k)) (fst (snd (rows ! k))) = Some (i + k)"
proof (induction rows arbitrary: i k)
  case (Cons row rows)
  obtain b p rest where row: "row = (b, p, rest)" by (metis prod.exhaust)
  show ?case
  proof (cases k)
    case 0
    then show ?thesis using Cons.prems by (simp add: row)
  next
    case (Suc m)
    then have m: "m < length rows" using Cons.prems(1) by simp
    have "\<forall>j\<le>m. fst (rows ! j) \<noteq> 0" using Cons.prems(2) unfolding Suc by (metis Suc_le_mono nth_Cons_Suc)
    moreover have "(b, p) \<noteq> (fst (rows ! m), fst (snd (rows ! m)))"
      using Cons.prems(3) nth_mem [OF m] by (auto simp: row)
    moreover have "b \<noteq> 0" using Cons.prems(2) by (auto simp: row)
    ultimately show ?thesis using Cons.IH [OF m, of "i + 1"] Cons.prems(3) Suc by (auto simp: row)
  qed
qed simp

lemma profile_rates: "list_all (\<lambda>row. fst row \<noteq> 0) (take 64 cProfileTable)"
  by (simp add: cProfileTable_def)

lemma profile_keys: "distinct (map (\<lambda>row. (fst row, fst (snd row))) cProfileTable)"
  by (simp add: cProfileTable_def)

lemma table_rows:
  "list_all2 (\<lambda>(units, level, rate) row. 0 \<le> level \<and> 0 < rate \<and> nat rate = fst row \<and> level = fst (snd row) \<and>
     uep_bits row \<le> 64 * nat units) cProtLevelTable (take 64 cProfileTable)"
  by (simp add: cProfileTable_def cProtLevelTable_def uep_bits_def)

lemma short_form_row:
  assumes "(units, level, rate) \<in> set cProtLevelTable"
  shows "\<exists>i. find_index (nat rate) level = Some i \<and> uep_bits (cProfileTable ! i) \<le> 64 * nat units \<and> 0 \<le> level \<and> 0 < rate"
proof -
  obtain i where i: "i < length cProtLevelTable" "cProtLevelTable ! i = (units, level, rate)"
    using assms by (auto simp: in_set_conv_nth)
  have l: "length (take 64 cProfileTable) = 64" by (simp add: cProfileTable_def)
  have i64: "i < 64" using i(1) length_cProtLevelTable by simp
  have row: "0 \<le> level" "0 < rate" "nat rate = fst (cProfileTable ! i)" "level = fst (snd (cProfileTable ! i))"
    "uep_bits (cProfileTable ! i) \<le> 64 * nat units"
    using list_all2_nthD [OF table_rows i(1)] i64 unfolding i(2) by simp_all
  have "\<forall>j\<le>i. fst (cProfileTable ! j) \<noteq> 0"
    using profile_rates i64 l by (auto simp: list_all_length)
  then have "find_index (nat rate) level = Some i"
    using find_index_from_nth [OF _ _ profile_keys, of i 0] i64 l unfolding find_index_def row(3,4) by simp
  with row show ?thesis by blast
qed

section \<open>From the configuration to the descriptor\<close>

lemma eep_size:
  assumes "profile_ok e" and "\<not> s1_ShortForm e" and "0 \<le> s1_SubChannelSize e" and "0 < s1_BitRate e"
  defines "rate \<equiv> nat (s1_BitRate e)" and "level \<equiv> nat (s1_ProtectionLevel e)"
  shows "0 \<le> s1_ProtectionLevel e \<and> level < 8 \<and> (if level < 4 then 8 dvd rate else 32 dvd rate) \<and>
    eep_units rate level \<le> nat (s1_SubChannelSize e)"
proof -
  define n where "n = nat (s1_SubChannelSize e)"
  have n: "s1_SubChannelSize e = int n" using assms(3) by (simp add: n_def)
  have l: "0 \<le> s1_ProtectionLevel e" using assms(1,2) by (simp add: profile_ok_def)
  have le: "n div k * 8 div 8 * k \<le> n" "n div k * 32 div 32 * k \<le> n" for k :: nat by simp_all
  have four: "k = 0 \<or> k = 1 \<or> k = 2 \<or> k = 3" if "k < 4" for k :: nat using that by arith
  consider (a) "s1_Option e = 0" "level < 4" "s1_BitRate e = int n div ([12, 8, 6, 4] ! level) * 8"
    | (b) "s1_Option e = 1" "4 \<le> level" "level < 8" "s1_BitRate e = int n div ([27, 21, 18, 15] ! (level - 4)) * 32"
    using assms(1,2,4) l unfolding profile_ok_def n level_def
    by (auto simp: nat_less_iff nat_diff_distrib split: if_splits)
  then show ?thesis
  proof cases
    case a
    then have "rate = n div ([12, 8, 6, 4] ! level) * 8" using four [OF a(2)]
      by (auto simp: rate_def zdiv_int [symmetric] nat_mult_distrib)
    then show ?thesis using l a(2) le(1) [of "[12, 8, 6, 4] ! level"] by (simp add: eep_units_def n_def)
  next
    case b
    moreover define j where "j = level - 4"
    moreover from this b(3) have "j < 4" by simp
    ultimately have "rate = n div ([27, 21, 18, 15] ! (level - 4)) * 32" using four [of j] unfolding j_def [symmetric]
      by (auto simp: rate_def zdiv_int [symmetric] nat_mult_distrib)
    then show ?thesis using l b(2,3) le(2) [of "[27, 21, 18, 15] ! (level - 4)"] by (simp add: eep_units_def n_def)
  qed
qed

text \<open>A service the FIB decoder knows the sub-channel of.\<close>

lemma audio_data_subchannel:
  assumes "sd_isDefined (get_data_for_audio_service s SId ad)"
  shows "\<exists>e\<in>set (Fig0s1Vec (fd_Curr s)).
    sd_CuStartAddr (get_data_for_audio_service s SId ad) = s1_StartAddr e \<and>
    sd_CuSize (get_data_for_audio_service s SId ad) = s1_SubChannelSize e \<and>
    sd_shortForm (get_data_for_audio_service s SId ad) = s1_ShortForm e \<and>
    sd_protLevel (get_data_for_audio_service s SId ad) = s1_ProtectionLevel e \<and>
    sd_bitRate (get_data_for_audio_service s SId ad) = s1_BitRate e"
proof -
  obtain f where f: "get_data_for_audio_service s SId ad = get_audio_data s f (ad\<lparr>sd_isDefined := False\<rparr>)"
    using assms by (auto simp: get_data_for_audio_service_def Let_def split: if_splits option.splits)
  obtain e where e: "get_Fig0s1_of_SubChId (fd_Curr s) (int (ref_SubChId (sc_ref (s2_ServiceComp_C f)))) = Some e"
    "s2_PD_Flag f = 0"
    using assms unfolding f by (auto simp: get_audio_data_def Let_def split: if_splits option.splits)
  then have "e \<in> set (Fig0s1Vec (fd_Curr s))"
    by (auto simp: get_Fig0s1_of_SubChId_def find_Some_iff)
  then show ?thesis unfolding f get_audio_data_def Let_def e
    by (intro bexI [of _ e]) (simp_all add: e split: option.split)
qed

lemma subchannel_descriptor:
  assumes "subchannel_ok e" and "0 < s1_BitRate e" and "sd_CuSize d = s1_SubChannelSize e" and "sd_shortForm d = s1_ShortForm e"
    and "sd_protLevel d = s1_ProtectionLevel e" and "sd_bitRate d = s1_BitRate e"
  shows "descriptor_ok d"
proof (cases "s1_ShortForm e")
  case True
  then have "(s1_SubChannelSize e, s1_ProtectionLevel e, s1_BitRate e) \<in> set cProtLevelTable"
    using assms(1) by (simp add: subchannel_ok_def profile_ok_def)
  from short_form_row [OF this] True assms show ?thesis
    by (auto simp: descriptor_ok_def subchannel_ok_def)
next
  case False
  with eep_size [of e] assms show ?thesis by (auto simp: descriptor_ok_def subchannel_ok_def)
qed

lemma reachable_subchannel:
  assumes "fib_reachable qt s" and "e \<in> set (Fig0s1Vec (fd_Curr s))"
  shows "subchannel_ok e"
  using reachable_inv [OF assms(1)] assms(2) by (auto simp: fib_inv_def conf_inv_def subchannels_ok_def list_all_iff)

text \<open>The data of a packet service, and the user applications it needs.\<close>

lemma packet_data_fields:
  assumes "get_packet_data s f i = Some pd"
  shows "(\<exists>e\<in>set (Fig0s1Vec (fd_Curr s)). sd_CuStartAddr pd = s1_StartAddr e \<and> sd_CuSize pd = s1_SubChannelSize e \<and>
      sd_shortForm pd = s1_ShortForm e \<and> sd_protLevel pd = s1_ProtectionLevel e \<and> sd_bitRate pd = s1_BitRate e) \<and>
    pd_appTypeVec pd \<noteq> [] \<and> sd_TMId pd = PacketModeData"
proof -
  define A where "A u = (let apps = map ua_UserAppType
      (take (min (nat (s13_NumUserApps u)) (length (s13_UserAppVec u))) (s13_UserAppVec u))
    in if apps = [] then [- 1] else apps)" for u :: SFig0s13
  from assms obtain g where "get_Fig0s3_of_SCId (fd_Curr s) (int (ref_SCId (sc_ref (s2_ServiceComp_C f)))) = Some g"
    by (auto simp: get_packet_data_def Let_def split: if_splits option.splits)
  moreover from this assms obtain e where e: "get_Fig0s1_of_SubChId (fd_Curr s) (s3_SubChId g) = Some e"
    by (auto simp: get_packet_data_def Let_def split: if_splits option.splits)
  moreover from e have "e \<in> set (Fig0s1Vec (fd_Curr s))" by (auto simp: get_Fig0s1_of_SubChId_def find_Some_iff)
  moreover have "A u \<noteq> []" for u by (simp add: A_def Let_def)
  ultimately show ?thesis using assms unfolding get_packet_data_def A_def [symmetric]
    by (auto simp: Let_def new_SPacketData_def split: if_splits option.splits)
qed

lemma packet_loop_data:
  "pd \<in> set (packet_loop s SId idxs n out) \<Longrightarrow> pd \<in> set out \<or> (\<exists>f i. get_packet_data s f i = Some pd)"
proof (induction idxs arbitrary: n out)
  case (Cons i idxs)
  let ?r = "packet_loop s SId (i # idxs) n out"
  have "?r = out \<or> (\<exists>m. ?r = packet_loop s SId idxs m out) \<or>
      (\<exists>m e q. ?r = packet_loop s SId idxs m (out @ [q]) \<and> get_packet_data s e i = Some q)"
    by (auto simp: Let_def split: option.splits)
  then show ?case using Cons.prems Cons.IH
  proof (elim disjE exE conjE)
    fix m e q assume q: "?r = packet_loop s SId idxs m (out @ [q])" "get_packet_data s e i = Some q"
    then have "pd \<in> set (out @ [q]) \<or> (\<exists>f i. get_packet_data s f i = Some pd)"
      using Cons.prems Cons.IH [of m "out @ [q]"] by simp
    with q(2) show ?thesis by auto
  qed (simp, metis)
qed simp

section \<open>From the CIFs to the frames\<close>

text \<open>
  The puncturing of a profile, and a transmitter that sends the frames \<open>msgs\<close> in the capacity units of
  a sub-channel: it disperses, encodes, punctures and time interleaves them.  The other capacity units
  are arbitrary, and so are the bits of frames from before the first.
\<close>

definition puncturing :: "'a SDescriptorType_scheme \<Rightarrow> nat list" where
  "puncturing d = (case BackendDeconvolver (sd_shortForm d) (nat (sd_bitRate d)) (nat (sd_protLevel d)) of
     None \<Rightarrow> [] | Some pr \<Rightarrow> viterbiBlockAddresses pr)"

definition sends :: "'a SDescriptorType_scheme \<Rightarrow> u8 list list \<Rightarrow> int list list list \<Rightarrow> bool" where
  "sends d msgs cifs \<longleftrightarrow> length msgs = length cifs - 16 \<and>
     (\<forall>blocks\<in>set cifs. length blocks = 18 \<and> (\<forall>b\<in>set blocks. length b = c2K)) \<and>
     (\<exists>ms. interleaved (64 * nat (sd_CuSize d)) ms (map (\<lambda>blocks. drop (64 * nat (sd_CuStartAddr d)) (concat blocks)) cifs) \<and>
       (\<forall>k<length msgs. length (msgs ! k) = 24 * nat (sd_bitRate d) \<and> is_bit_list (msgs ! k) \<and>
          carries (puncturing d) (scramble (msgs ! k)) (ms ! k)))"

lemma backend_received:
  assumes "descriptor_ok d" and "Backend d ASCTy flag = Some b0" and "interleaved (64 * nat (sd_CuSize d)) ms xs"
    and "length msgs = length xs - 16"
    and "\<forall>k<length msgs. length (msgs ! k) = 24 * nat (sd_bitRate d) \<and> is_bit_list (msgs ! k) \<and>
      carries (puncturing d) (scramble (msgs ! k)) (ms ! k)"
  shows "bk_frames (foldl process_segment b0 xs) = msgs"
proof -
  have p: "puncturing d = viterbiBlockAddresses (bk_deconvolver b0)"
    using assms(2) by (auto simp: Backend_def puncturing_def split: if_splits option.splits)
  have "interleaved (bk_fragmentSize b0) ms xs" using backend_start(4) [OF assms(1,2)] assms(3) by simp
  from backend_run [OF assms(1,2) assms(1,2) this assms(1,2)]
  have "bk_frames (foldl process_segment b0 xs) =
      map (\<lambda>k. decoded_frame (bk_deconvolver b0) (bk_disperseVector b0) (ms ! k)) [0..<length xs - 16]"
    by (simp add: backend_after_def)
  also have "\<dots> = map ((!) msgs) [0..<length msgs]"
    unfolding assms(4) [symmetric]
    by (rule map_cong) (use decoded_frame_recovers [OF assms(1,2)] assms(5) in \<open>auto simp: p\<close>)
  also have "\<dots> = msgs" by (rule map_nth)
  finally show ?thesis .
qed

lemma segments_driver: "bk_driver (foldl process_segment b xs) = bk_driver b"
proof (induction xs arbitrary: b)
  case (Cons x xs)
  then show ?case by (simp add: process_segment_def case_prod_beta Let_def)
qed simp

text \<open>A channel set on a running receiver gets what was sent; the channels already running are not disturbed.\<close>

lemma channel_received:
  assumes d: "descriptor_ok d" and cif: "length (mCifVector h) = cCifSizeBits" and num: "length cs = length cifs"
    and s: "sends d msgs cifs"
  shows "\<exists>h1 h2. set_channel d ASCTy flag h = Some h1 \<and>
    msc_process_blocks h1 (concat (map2 cif_blocks cs cifs)) = Some h2 \<and>
    bk_frames (last (mBackendList h2)) = msgs \<and> bk_driver (last (mBackendList h2)) = BackendDriver (sd_TMId d) (nat (sd_bitRate d)) ASCTy \<and>
    butlast (mBackendList h2) = map (\<lambda>b. foldl process_segment b (map (slice b) cifs)) (mBackendList h)"
proof -
  obtain b0 where b0: "Backend d ASCTy flag = Some b0" using Backend_ok [OF d] by blast
  define h1 where "h1 = h\<lparr>mBackendList := mBackendList h @ [b0]\<rparr>"
  have st: "bk_CuStartAddr b0 = nat (sd_CuStartAddr d)"
    using b0 by (auto simp: Backend_def split: option.splits if_splits)
  have cifs: "\<forall>blocks\<in>set cifs. length blocks = 18 \<and> (\<forall>b\<in>set blocks. length b = c2K)" using s by (simp add: sends_def)
  obtain h2 where h2: "msc_process_blocks h1 (concat (map2 cif_blocks cs cifs)) = Some h2"
    "mBackendList h2 = map (\<lambda>b. foldl process_segment b (map (slice b) cifs)) (mBackendList h1)"
    using process_cifs [OF cifs _ num, of h1] cif by (auto simp: h1_def)
  let ?xs = "map (\<lambda>blocks. drop (64 * nat (sd_CuStartAddr d)) (concat blocks)) cifs"
  have xs: "map (slice b0) cifs = ?xs" by (simp add: slice_def st)
  obtain ms where ms: "interleaved (64 * nat (sd_CuSize d)) ms ?xs"
    "\<forall>k<length msgs. length (msgs ! k) = 24 * nat (sd_bitRate d) \<and> is_bit_list (msgs ! k) \<and>
          carries (puncturing d) (scramble (msgs ! k)) (ms ! k)" "length msgs = length ?xs - 16"
    using s by (auto simp: sends_def)
  have "bk_frames (foldl process_segment b0 (map (slice b0) cifs)) = msgs"
    unfolding xs by (rule backend_received [OF d b0 ms(1,3,2)])
  moreover have "bk_driver b0 = BackendDriver (sd_TMId d) (nat (sd_bitRate d)) ASCTy"
    using b0 by (auto simp: Backend_def split: option.splits if_splits)
  ultimately show ?thesis using h2 b0
    by (intro exI [of _ h1] exI [of _ h2]) (simp add: set_channel_def h1_def segments_driver)
qed

section \<open>A transmitter\<close>

text \<open>
  Frames on the air: each is dispersed, encoded and punctured, the frames are time interleaved, and the
  result is put into the capacity units of the sub-channel; the other units are silent.
\<close>

definition sent_frame :: "'a SDescriptorType_scheme \<Rightarrow> u8 list list \<Rightarrow> nat \<Rightarrow> int list" where
  "sent_frame d msgs k =
     map (\<lambda>i. if k < length msgs \<and> i < length (puncturing d) then transmit (puncturing d) (scramble (msgs ! k)) ! i else 0)
       [0..<64 * nat (sd_CuSize d)]"

definition sent_units :: "'a SDescriptorType_scheme \<Rightarrow> u8 list list \<Rightarrow> nat \<Rightarrow> int list" where
  "sent_units d msgs r =
     map (\<lambda>i. if interleaveMap ! (i mod 16) \<le> r then sent_frame d msgs (r - interleaveMap ! (i mod 16)) ! i else 0)
       [0..<64 * nat (sd_CuSize d)]"

definition sent_cif :: "'a SDescriptorType_scheme \<Rightarrow> u8 list list \<Rightarrow> nat \<Rightarrow> int list" where
  "sent_cif d msgs r = replicate (64 * nat (sd_CuStartAddr d)) 0 @ sent_units d msgs r @
     replicate (cCifSizeBits - 64 * nat (sd_CuStartAddr d) - 64 * nat (sd_CuSize d)) 0"

definition on_air :: "'a SDescriptorType_scheme \<Rightarrow> u8 list list \<Rightarrow> int list list list" where
  "on_air d msgs = map (\<lambda>r. map (\<lambda>b. take c2K (drop (b * c2K) (sent_cif d msgs r))) [0..<18]) [0..<length msgs + 16]"

lemma length_on_air [simp]: "length (on_air d msgs) = length msgs + 16"
  by (simp add: on_air_def)

lemma on_air_sent:
  assumes d: "descriptor_ok d" and fit: "0 \<le> sd_CuStartAddr d" "sd_CuStartAddr d + sd_CuSize d \<le> 864"
    and msgs: "\<forall>msg\<in>set msgs. length msg = 24 * nat (sd_bitRate d) \<and> is_bit_list msg"
  shows "sends d msgs (on_air d msgs)"
proof -
  let ?n = "64 * nat (sd_CuSize d)" and ?o = "64 * nat (sd_CuStartAddr d)"
  have "0 \<le> sd_CuSize d" using d by (simp add: descriptor_ok_def)
  then have "nat (sd_CuStartAddr d) + nat (sd_CuSize d) \<le> 864" using fit by linarith
  then have l: "length (sent_cif d msgs r) = 18 * c2K" for r
    by (simp add: sent_cif_def sent_units_def cCifSizeBits_def dab_sizes)
  note cc = concat_chunks [OF l] and lc = length_chunk [OF l]
  have p: "length (puncturing d) \<le> ?n"
    using deconvolver_ok [OF d] by (auto simp: puncturing_def)
  have blocks: "\<forall>blocks\<in>set (on_air d msgs). length blocks = 18 \<and> (\<forall>b\<in>set blocks. length b = c2K)"
    using lc by (auto simp: on_air_def simp del: length_take)
  have drop: "map (\<lambda>blocks. drop ?o (concat blocks)) (on_air d msgs) =
      map (\<lambda>r. sent_units d msgs r @ replicate (cCifSizeBits - ?o - ?n) 0) [0..<length msgs + 16]"
    unfolding on_air_def map_map o_def cc by (simp add: sent_cif_def)
  have "interleaved ?n (map (sent_frame d msgs) [0..<length msgs + 16]) (map (\<lambda>blocks. drop ?o (concat blocks)) (on_air d msgs))"
    unfolding drop interleaved_def by (auto simp: nth_append sent_units_def)
  moreover have "carries (puncturing d) (scramble (msgs ! k)) (map (sent_frame d msgs) [0..<length msgs + 16] ! k)"
    if k: "k < length msgs" for k
  proof -
    have "map (sent_frame d msgs) [0..<length msgs + 16] ! k = sent_frame d msgs k" using k by simp
    moreover have "sent_frame d msgs k ! i = transmit (puncturing d) (scramble (msgs ! k)) ! i" if "i < length (puncturing d)" for i
      using that k p by (simp add: sent_frame_def)
    ultimately show ?thesis
      using transmit_carries [of "puncturing d" "scramble (msgs ! k)"] unfolding carries_def by simp
  qed
  ultimately show ?thesis using blocks msgs unfolding sends_def by (intro conjI exI) auto
qed

section \<open>Properties\<close>

text \<open>
  C2: Reception of an audio service: in every reachable state of the FIB decoder a service with a defined
  descriptor and a known bit rate lies inside the CIF, its backend can be started, and from then on, if
  the frames of the service are sent in its capacity units with a soft bit strength of at least 56, exactly these
  frames reach the audio decoder of its kind, in order, while the services that were already running
  go on undisturbed.
\<close>

theorem audio_service_received:
  assumes "fib_reachable qt s" and "ad = get_data_for_audio_service s SId ad0" and "sd_isDefined ad"
    and "0 < sd_bitRate ad" and "length (mCifVector h) = cCifSizeBits" and "length cs = length cifs"
    and "sends ad msgs cifs"
  shows "sd_CuStartAddr ad + sd_CuSize ad \<le> 864 \<and>
    (\<exists>h1 h2. set_channel ad (nat (ad_ASCTy ad)) flag h = Some h1 \<and>
      msc_process_blocks h1 (concat (map2 cif_blocks cs cifs)) = Some h2 \<and>
      bk_frames (last (mBackendList h2)) = msgs \<and>
      bk_driver (last (mBackendList h2)) = BackendDriver (sd_TMId ad) (nat (sd_bitRate ad)) (nat (ad_ASCTy ad)) \<and>
      butlast (mBackendList h2) = map (\<lambda>b. foldl process_segment b (map (slice b) cifs)) (mBackendList h))"
proof -
  obtain e where e: "e \<in> set (Fig0s1Vec (fd_Curr s))" "sd_CuStartAddr ad = s1_StartAddr e" "sd_CuSize ad = s1_SubChannelSize e"
    "sd_shortForm ad = s1_ShortForm e" "sd_protLevel ad = s1_ProtectionLevel e" "sd_bitRate ad = s1_BitRate e"
    using audio_data_subchannel [of s SId ad0] assms(2,3) by auto
  have ok: "subchannel_ok e" by (rule reachable_subchannel [OF assms(1) e(1)])
  then have "descriptor_ok ad" by (rule subchannel_descriptor) (use assms(4) e in simp_all)
  from channel_received [OF this assms(5-7)] ok e show ?thesis by (simp add: subchannel_ok_def cNumCuPerCif_def)
qed

theorem audio_service_received_witness:
  "\<exists>h1 h2. set_channel audio_descriptor 63 Primary MscHandler = Some h1 \<and>
    msc_process_blocks h1 (concat (map2 cif_blocks (replicate 17 0) (on_air audio_descriptor [replicate 192 1]))) = Some h2 \<and>
    bk_frames (last (mBackendList h2)) = [replicate 192 1] \<and> bk_driver (last (mBackendList h2)) = Backend.Mp4Processor 8"
proof -
  obtain s where s: "fib_reachable plain_codec s" "audio_descriptor = get_data_for_audio_service s 0x1234 new_SAudioData"
    using audio_ensemble by metis
  have f: "length (mCifVector MscHandler) = cCifSizeBits" by (simp add: MscHandler_def)
  have d: "sd_isDefined audio_descriptor" "0 < sd_bitRate audio_descriptor" by (simp_all add: audio_descriptor_def)
  have c: "length (replicate 17 0) = length (on_air audio_descriptor [replicate 192 1])"
    by simp
  have "sends audio_descriptor [replicate 192 1] (on_air audio_descriptor [replicate 192 1])"
    by (rule on_air_sent) (simp_all add: audio_descriptor_def is_bit_list_def descriptor_ok_def eep_units_def)
  from audio_service_received [OF s d f c this, of Primary]
  show ?thesis by (auto simp: audio_descriptor_def BackendDriver_def)
qed

text \<open>
  C1: Reception of a DAB+ service, from the capacity units to the AAC decoder: for a service of a reachable
  FIB state with the type of DAB+ and a bit rate of \<open>8 * dims\<close>, \<open>dims\<close> at most 170, when superframes are sent in its capacity
  units with a soft bit strength of at least 56, with up to five wrong bytes in every code word but a right header of the first superframe, and
  the access units and their PAD fields lie inside the superframe, the channel starts, its
  frames go to the superframe processor, and that calls the AAC decoder exactly with the good access units
  of these superframes, in order, as LATM frames.  Where the units lie is read from the layout of the superframe header.
\<close>

theorem dab_plus_received:
  assumes "fib_reachable qt s" and "ad = get_data_for_audio_service s SId ad0" and "sd_isDefined ad"
    and "ad_ASCTy ad = 63" and "sd_TMId ad = StreamModeAudio" and "sd_bitRate ad = 8 * int dims" and "0 < dims" and "dims \<le> 170"
    and "length (mCifVector h) = cCifSizeBits" and "length cs = length cifs"
    and "Mp4_Processor.Mp4Processor (8 * dims) starts = Some m" and "sfs \<noteq> []"
    and "\<forall>(D, fs)\<in>set sfs. carries_super_frame (m4_RsDecoder m) dims D fs" and "header_ok (snd (hd sfs))"
    and "sends ad (concat (map snd sfs)) cifs"
  shows "\<exists>h1 h2 t. set_channel ad 63 flag h = Some h1 \<and>
      msc_process_blocks h1 (concat (map2 cif_blocks cs cifs)) = Some h2 \<and>
      bk_driver (last (mBackendList h2)) = Backend.Mp4Processor (8 * dims) \<and>
      mp4_add_frames aac c m (bk_frames (last (mBackendList h2))) = Some t \<and>
      decoded (m4_events t) = concat (map (\<lambda>(D, fs). frame_units dims D) sfs)"
proof -
  obtain e where e: "e \<in> set (Fig0s1Vec (fd_Curr s))" "sd_CuSize ad = s1_SubChannelSize e"
    "sd_shortForm ad = s1_ShortForm e" "sd_protLevel ad = s1_ProtectionLevel e" "sd_bitRate ad = s1_BitRate e"
    using audio_data_subchannel [of s SId ad0] assms(2,3) by auto
  have "subchannel_ok e" by (rule reachable_subchannel [OF assms(1) e(1)])
  then have "descriptor_ok ad" by (rule subchannel_descriptor) (use assms(6,7) e in simp_all)
  from channel_received [OF this assms(9,10,15), of 63 flag] obtain h1 h2 where h: "set_channel ad 63 flag h = Some h1"
    "msc_process_blocks h1 (concat (map2 cif_blocks cs cifs)) = Some h2"
    "bk_frames (last (mBackendList h2)) = concat (map snd sfs)"
    "bk_driver (last (mBackendList h2)) = BackendDriver (sd_TMId ad) (nat (sd_bitRate ad)) 63" by blast
  note i = Mp4Processor_inv [OF assms(11,7,8)]
  from super_frames_stream [OF i [THEN conjunct1] _ assms(13), of aac c] i assms(14) obtain t where
    "mp4_add_frames aac c m (concat (map snd sfs)) = Some t"
    "decoded (m4_events t) = concat (map (\<lambda>(D, fs). frame_units dims D) sfs)" by (auto simp: decoded_def)
  with h assms(5,6) show ?thesis by (auto simp: BackendDriver_def nat_mult_distrib)
qed

theorem dab_plus_received_witness:
  "\<exists>m h1 h2 t. Mp4_Processor.Mp4Processor 8 [] = Some m \<and> set_channel audio_descriptor 63 Primary MscHandler = Some h1 \<and>
      msc_process_blocks h1 (concat (map2 cif_blocks (replicate 21 0)
        (on_air audio_descriptor (frames_of 1 (noisy (m4_RsDecoder m)))))) = Some h2 \<and>
      mp4_add_frames (\<lambda>_ _ _. 1) True m (bk_frames (last (mBackendList h2))) = Some t \<and>
      decoded (m4_events t) = [(stream_parms 0, build_aac_stream (stream_parms 0) (replicate 108 0))]"
proof -
  obtain s where s: "fib_reachable plain_codec s" "audio_descriptor = get_data_for_audio_service s 0x1234 new_SAudioData"
    using audio_ensemble by metis
  obtain m where m: "Mp4_Processor.Mp4Processor (8 * 1) [] = Some m"
    using ReedSolomon_exists by (auto simp: Mp4_Processor.Mp4Processor_def)
  let ?fs = "frames_of 1 (noisy (m4_RsDecoder m))"
  have d: "sd_isDefined audio_descriptor" "ad_ASCTy audio_descriptor = 63" "sd_TMId audio_descriptor = StreamModeAudio"
    "sd_bitRate audio_descriptor = 8 * int 1" by (simp_all add: audio_descriptor_def)
  have one: "0 < (1 :: nat)" "1 \<le> (170 :: nat)" by simp_all
  have cif: "length (mCifVector MscHandler) = cCifSizeBits" by (simp add: MscHandler_def)
  have "ReedSolomon 8 285 0 1 10 = Some (m4_RsDecoder m)" using Mp4Processor_inv [OF m] by simp
  note noisy = noisy_carries [OF this]
  then have c: "\<forall>(D, fs)\<in>set [(quiet_data, ?fs)]. carries_super_frame (m4_RsDecoder m) 1 D fs" "header_ok (snd (hd [(quiet_data, ?fs)]))"
    by simp_all
  have f: "\<forall>msg\<in>set ?fs. length msg = 24 * nat (sd_bitRate audio_descriptor) \<and> is_bit_list msg"
    by (auto simp: frames_of_def frame_of_def noisy_def encode_super_frame_def is_bit_list_def audio_descriptor_def)
  have n: "length (replicate 21 0) = length (on_air audio_descriptor ?fs)" by (simp add: frames_of_def)
  have "sends audio_descriptor (concat (map snd [(quiet_data, ?fs)])) (on_air audio_descriptor ?fs)"
    using on_air_sent [OF _ _ _ f] by (simp add: audio_descriptor_def descriptor_ok_def eep_units_def)
  from dab_plus_received [OF s d one cif n m _ c this, of Primary "\<lambda>_ _ _. 1" True] m quiet_units(2)
  show ?thesis by auto
qed

text \<open>
  C3: Reception of a packet service: every component the FIB decoder reports for a service in a reachable
  state, with a known bit rate, can be started, as a backend and as a data processor. Let frames of
  whole packets be sent in its capacity units with a soft bit strength of at least 56, and let the component not be
  a TDC stream with the flag of data groups (DSCTy 5), which is only checked. The service may be joined at any
  time: the packets of its address are some before the first continuity index 0, which are dropped
  whatever they hold, since a new processor waits for the index 0; then, with the indices in sequence and right CRCs,
  the rest of a data group whose start was missed, which is passed over; then whole data groups. Exactly these
  data groups reach the data handler, in order. Groups that lie in the dropped part, up to three packets
  when the indices count on, are lost.
\<close>

theorem packet_service_received:
  assumes "fib_reachable qt s" and "pd \<in> set (get_data_for_packet_service s SId [])" and "0 < sd_bitRate pd"
    and "pd_DSCTy pd mod 256 \<noteq> 5 \<or> pd_DGflag pd mod 256 = 0"
    and "length (mCifVector h) = cCifSizeBits" and "length cs = length cifs" and "sends pd (map fst frames) cifs"
    and "list_all (whole_packets (sd_bitRate pd)) frames"
    and "ls @ ms @ concat gss = filter (\<lambda>d. pk_address d = pd_PacketAddress pd) (all_packets frames)"
    and "\<forall>d\<in>set ls. pk_index d \<noteq> 0" and "in_sequence 0 (ms @ concat gss)"
    and "\<forall>m\<in>set ms. pk_flags m < 2" and "list_all group_packets gss"
  shows "\<exists>dp h1 h2. Data_Processor.DataProcessor pd = Some dp \<and> set_channel pd 0 flag h = Some h1 \<and>
      msc_process_blocks h1 (concat (map2 cif_blocks cs cifs)) = Some h2 \<and>
      bk_driver (last (mBackendList h2)) = Backend.DataProcessor \<and>
      dp_groups (foldl add_to_frame dp (bk_frames (last (mBackendList h2)))) = map (\<lambda>us. concat (map pk_payload us)) gss"
proof -
  obtain f i where "get_packet_data s f i = Some pd"
    using packet_loop_data [of pd s SId "[0..<cNumServiceCompMax]" 0 "[]"] assms(2)
    by (auto simp: get_data_for_packet_service_def split: if_splits)
  note p = packet_data_fields [OF this]
  then obtain e where e: "e \<in> set (Fig0s1Vec (fd_Curr s))" "sd_CuStartAddr pd = s1_StartAddr e" "sd_CuSize pd = s1_SubChannelSize e"
    "sd_shortForm pd = s1_ShortForm e" "sd_protLevel pd = s1_ProtectionLevel e" "sd_bitRate pd = s1_BitRate e" by blast
  have "subchannel_ok e" by (rule reachable_subchannel [OF assms(1) e(1)])
  then have "descriptor_ok pd" by (rule subchannel_descriptor) (use assms(3) e in simp_all)
  from channel_received [OF this assms(5-7), of 0 flag] obtain h1 h2 where h: "set_channel pd 0 flag h = Some h1"
    "msc_process_blocks h1 (concat (map2 cif_blocks cs cifs)) = Some h2"
    "bk_frames (last (mBackendList h2)) = map fst frames" "bk_driver (last (mBackendList h2)) = BackendDriver (sd_TMId pd) (nat (sd_bitRate pd)) 0"
    by blast
  obtain dp where dp: "Data_Processor.DataProcessor pd = Some dp" "dp_DSCTy dp = nat (pd_DSCTy pd mod 256)"
    "dp_DGflag dp = nat (pd_DGflag pd mod 256)" "dp_BitRate dp = sd_bitRate pd" "dp_PacketAddress dp = pd_PacketAddress pd"
    "dp_ExpectedIndex dp = 0" "dp_PacketState dp = 0" "dp_groups dp = []"
    using p by (simp add: Data_Processor.DataProcessor_def Let_def)
  have "dp_DSCTy dp \<noteq> 5 \<or> dp_DGflag dp = 0" using assms(4) dp(2,3) by auto
  from joined_stream_assembled [OF this, of frames ls ms gss] assms(8-13) dp h(3)
  have "dp_groups (foldl add_to_frame dp (bk_frames (last (mBackendList h2)))) = map (\<lambda>us. concat (map pk_payload us)) gss"
    by simp
  with h dp(1) p show ?thesis by (auto simp: BackendDriver_def)
qed

theorem packet_service_received_witness:
  "\<exists>s pd dp h1 h2. fib_reachable plain_codec s \<and> pd \<in> set (get_data_for_packet_service s 5 []) \<and>
    Data_Processor.DataProcessor pd = Some dp \<and> set_channel pd 0 Primary MscHandler = Some h1 \<and>
    msc_process_blocks h1 (concat (map2 cif_blocks (replicate 19 0) (on_air pd joined_frames))) = Some h2 \<and>
    dp_groups (foldl add_to_frame dp (bk_frames (last (mBackendList h2)))) = [[1, 0, 0, 0, 0, 0, 1, 0]]"
proof -
  obtain s pd where s: "fib_reachable plain_codec s" "pd \<in> set (get_data_for_packet_service s 5 [])"
    and pd: "sd_CuStartAddr pd = 0" "sd_CuSize pd = 6" "sd_shortForm pd = False" "sd_protLevel pd = 2" "sd_bitRate pd = 8"
      "pd_DSCTy pd = 60" "pd_DGflag pd = 0" "pd_PacketAddress pd = 1"
    using packet_ensemble by (metis list.set_intros(1))
  let ?frames = "map (\<lambda>f. (f, [192])) joined_frames" and ?ls = "[frame_ptr late_frame]"
    and ?ms = "[frame_ptr rest_frame]" and ?gss = "[[frame_ptr group_frame]]"
  have bits: "\<forall>msg\<in>set joined_frames. length msg = 24 * nat (sd_bitRate pd) \<and> is_bit_list msg"
    by (simp add: late_frame_def rest_frame_def group_frame_def is_bit_list_def pd(5))
  have snd: "sends pd (map fst ?frames) (on_air pd joined_frames)"
    using on_air_sent [OF _ _ _ bits] pd by (simp add: descriptor_ok_def eep_units_def)
  have num: "length (replicate 19 0) = length (on_air pd joined_frames)" by simp
  have whole: "list_all (whole_packets (sd_bitRate pd)) ?frames" using joined_packets pd by (simp add: whole_packets_def)
  have flt: "?ls @ ?ms @ concat ?gss = filter (\<lambda>d. pk_address d = pd_PacketAddress pd) (all_packets ?frames)"
    using joined_packets pd by (simp add: all_packets_def)
  have join: "\<forall>d\<in>set ?ls. pk_index d \<noteq> 0" "in_sequence 0 (?ms @ concat ?gss)" "\<forall>m\<in>set ?ms. pk_flags m < 2"
    "list_all group_packets ?gss" using joined_packets by (simp_all add: group_packets_def)
  have cif: "length (mCifVector MscHandler) = cCifSizeBits" by (simp add: MscHandler_def)
  have r: "0 < sd_bitRate pd" "pd_DSCTy pd mod 256 \<noteq> 5 \<or> pd_DGflag pd mod 256 = 0" using pd by simp_all
  obtain dp h1 h2 where d: "Data_Processor.DataProcessor pd = Some dp" "set_channel pd 0 Primary MscHandler = Some h1"
      "msc_process_blocks h1 (concat (map2 cif_blocks (replicate 19 0) (on_air pd joined_frames))) = Some h2"
      "dp_groups (foldl add_to_frame dp (bk_frames (last (mBackendList h2)))) = map (\<lambda>us. concat (map pk_payload us)) ?gss"
    using packet_service_received [OF s r cif num snd whole flt join, of Primary] by blast
  have "dp_groups (foldl add_to_frame dp (bk_frames (last (mBackendList h2)))) = [[1, 0, 0, 0, 0, 0, 1, 0]]"
    using d(4) joined_packets by simp
  with s d(1-3) show ?thesis by blast
qed

end
