(* ===== verification/Mot_Object.thy ===== *)
theory Mot_Object
  imports Bit_Extractors Dab_Constants
begin

text \<open>
  A multimedia object, \<^verbatim>\<open>src/src/base/backend/data/mot/mot_object.cpp\<close>: a header and numbered body
  segments that arrive in any order and repeatedly.  The map of segments is ordered by its keys.  A
  header is read through a pointer without its size, so the memory behind it is part of the model.
\<close>

section \<open>The code\<close>

text \<open>A vector followed by the memory behind it.\<close>

definition ptr :: "(nat \<Rightarrow> u8) \<Rightarrow> u8 list \<Rightarrow> nat \<Rightarrow> u8" where
  "ptr mem xs i = (if i < length xs then xs ! i else mem (i - length xs))"

definition MOTCTBaseTypeMask :: nat where "MOTCTBaseTypeMask = 0x3f00"
definition MOTCTSubTypeMask :: nat where "MOTCTSubTypeMask = 0x00ff"
definition MOTBaseTypeImage :: nat where "MOTBaseTypeImage = 0x02"

definition getContentBaseType :: "nat \<Rightarrow> nat" where
  "getContentBaseType ct = drop_bit 8 (ct AND MOTCTBaseTypeMask)"

record SHeaderCore =
  hc_initialized :: bool
  hc_bodySize :: nat
  hc_headerSize :: nat
  hc_contentType :: nat
  hc_contentSubType :: nat

definition empty_core :: SHeaderCore where
  "empty_core = \<lparr>hc_initialized = False, hc_bodySize = 0, hc_headerSize = 0, hc_contentType = 0, hc_contentSubType = 0\<rparr>"

definition get_content_type :: "SHeaderCore \<Rightarrow> nat" where
  "get_content_type hc = (push_bit 8 (hc_contentType hc) AND MOTCTBaseTypeMask) OR (hc_contentSubType hc AND MOTCTSubTypeMask)"

datatype mot_signal =
    signal_new_mot_object "u8 list" qstring nat bool
  | signal_pad_mot_progress int

record mot_object =
  mo_IsDirElement :: bool
  mo_IsPadElement :: bool
  mo_MotMap :: "(int \<times> u8 list) list"
  mo_HeaderCore :: SHeaderCore
  mo_Name :: qstring
  mo_TransportId :: int
  mo_NumOfSegments :: int
  mo_StartSegment :: int
  mo_ProgressMax :: int
  mo_SumSegmentSize :: int
  mo_signals :: "mot_signal list"

definition new_MotObject :: "bool \<Rightarrow> bool \<Rightarrow> mot_object" where
  "new_MotObject iDirElement iPadElement =
     \<lparr>mo_IsDirElement = iDirElement, mo_IsPadElement = iPadElement, mo_MotMap = [], mo_HeaderCore = empty_core,
      mo_Name = [], mo_TransportId = - 1, mo_NumOfSegments = - 1, mo_StartSegment = - 1, mo_ProgressMax = - 1,
      mo_SumSegmentSize = 0, mo_signals = []\<rparr>"

definition mot_reset :: "mot_object \<Rightarrow> mot_object" where
  "mot_reset s = s\<lparr>mo_StartSegment := - 1, mo_ProgressMax := - 1, mo_NumOfSegments := - 1, mo_SumSegmentSize := 0,
     mo_HeaderCore := empty_core, mo_Name := [], mo_MotMap := []\<rparr>"

text \<open>Insertion into the ordered map; an existing key keeps its value.\<close>

fun emplace :: "int \<Rightarrow> 'a \<Rightarrow> (int \<times> 'a) list \<Rightarrow> (int \<times> 'a) list" where
  "emplace k v [] = [(k, v)]"
| "emplace k v ((j, w) # m) =
     (if k < j then (k, v) # (j, w) # m else if k = j then (j, w) # m else (j, w) # emplace k v m)"

fun decimal :: "nat \<Rightarrow> qstring" where
  "decimal n = (if n < 10 then [48 + n] else decimal (n div 10) @ [48 + n mod 10])"

declare decimal.simps [simp del]

definition check_if_complete :: "mot_object \<Rightarrow> bool" where
  "check_if_complete s \<longleftrightarrow>
     hc_initialized (mo_HeaderCore s) \<and> \<not> mo_NumOfSegments s < 0 \<and>
     \<not> int (length (mo_MotMap s)) < mo_NumOfSegments s \<and>
     list_all (\<lambda>i. map_of (mo_MotMap s) (int i) \<noteq> None) [0..<nat (mo_NumOfSegments s)]"

definition handle_complete :: "mot_object \<Rightarrow> mot_object" where
  "handle_complete s =
     (let result = concat (map snd (mo_MotMap s));
          s = (if mo_Name s = [] then s\<lparr>mo_Name := [116, 114, 105, 100, 95] @ decimal (nat (mo_TransportId s))\<rparr> else s)
      in s\<lparr>mo_signals := mo_signals s @
             [signal_new_mot_object result (mo_Name s) (get_content_type (mo_HeaderCore s)) (mo_IsDirElement s)]\<rparr>)"

text \<open>One parameter of the header extension: the new name and the new pointer.\<close>

definition process_parameter_id :: "(nat \<Rightarrow> u8) \<Rightarrow> nat \<Rightarrow> nat \<Rightarrow> nat \<Rightarrow> qstring \<Rightarrow> qstring \<times> nat" where
  "process_parameter_id ipSegment ioPointer iParamId iLength name =
     (if iParamId = 0x0c
      then (map (\<lambda>i. unat (ipSegment (ioPointer + i + 1))) [0..<iLength - 1], ioPointer + iLength)
      else if iParamId \<in> {0x02, 0x03, 0x04, 0x05, 0x06, 0x07, 0x08, 0x0a, 0x0b, 0x0f} then (name, ioPointer)
      else (name, ioPointer + iLength))"

definition process_header_extension :: "(nat \<Rightarrow> u8) \<Rightarrow> nat \<Rightarrow> qstring \<Rightarrow> qstring \<times> nat" where
  "process_header_extension iSegment ioPointer name =
     (let PLI = unat (drop_bit 6 (iSegment ioPointer AND 0xc0));
          paramId = unat (iSegment ioPointer AND 0x3f)
      in if PLI = 0 then (name, ioPointer + 1)
         else if PLI = 1 then (name, ioPointer + 2)
         else if PLI = 2 then (name, ioPointer + 5)
         else if iSegment (ioPointer + 1) AND 0x80 \<noteq> 0
         then process_parameter_id iSegment (ioPointer + 3) paramId
                (unat (iSegment (ioPointer + 1) AND 0x7f) * 256 + unat (iSegment (ioPointer + 2))) name
         else process_parameter_id iSegment (ioPointer + 2) paramId (unat (iSegment (ioPointer + 1) AND 0x7f)) name)"

lemma process_parameter_pointer: "ioPointer \<le> snd (process_parameter_id seg ioPointer pid len name)"
  by (simp add: process_parameter_id_def)

lemma process_extension_pointer: "ioPointer < snd (process_header_extension seg ioPointer name)"
  using process_parameter_pointer [of "ioPointer + 3"] process_parameter_pointer [of "ioPointer + 2"]
  by (auto simp: process_header_extension_def Let_def intro: less_le_trans [of _ "ioPointer + 2"] less_le_trans [of _ "ioPointer + 3"])

text \<open>Every parameter moves the pointer forward, so the loop over the extension ends.\<close>

function header_extensions :: "(nat \<Rightarrow> u8) \<Rightarrow> nat \<Rightarrow> nat \<Rightarrow> qstring \<Rightarrow> qstring \<times> nat" where
  "header_extensions iSegment headerSize pointer name =
     (if pointer < headerSize
      then header_extensions iSegment headerSize (snd (process_header_extension iSegment pointer name))
             (fst (process_header_extension iSegment pointer name))
      else (name, pointer))"
  by pat_completeness auto
termination
  by (relation "measure (\<lambda>(_, n, p, _). n - p)") (simp_all add: diff_less_mono2 process_extension_pointer)

declare header_extensions.simps [simp del]

definition header_core :: "(nat \<Rightarrow> u8) \<Rightarrow> SHeaderCore" where
  "header_core iSegment =
     \<lparr>hc_initialized = True, hc_bodySize = unat (extract_bits_from_byte_stream iSegment (55 - 55) 28),
      hc_headerSize = unat (extract_bits_from_byte_stream iSegment (55 - 27) 13),
      hc_contentType = unat (extract_bits_from_byte_stream iSegment (55 - 14) 6),
      hc_contentSubType = unat (extract_bits_from_byte_stream iSegment (55 - 8) 9)\<rparr>"

definition set_header :: "(nat \<Rightarrow> u8) \<Rightarrow> int \<Rightarrow> mot_object \<Rightarrow> mot_object" where
  "set_header iSegment iTransportId s =
     (let s = (if mo_TransportId s \<noteq> iTransportId then mot_reset s else s)\<lparr>mo_TransportId := iTransportId\<rparr>;
          hc = header_core iSegment;
          s = s\<lparr>mo_HeaderCore := hc, mo_Name := fst (header_extensions iSegment (hc_headerSize hc) 7 (mo_Name s))\<rparr>
      in if check_if_complete s then handle_complete s else s)"

definition i32 :: "int \<Rightarrow> int" where
  "i32 x = (x + 2 ^ 31) mod 2 ^ 32 - 2 ^ 31"

text \<open>The percentage loaded: the product has 32 bits, the division rounds towards zero.\<close>

definition progress :: "mot_object \<Rightarrow> mot_object" where
  "progress s =
     (if mo_IsPadElement s \<and> hc_bodySize (mo_HeaderCore s) > 0 \<and>
         getContentBaseType (get_content_type (mo_HeaderCore s)) = MOTBaseTypeImage
      then
        let p = i32 (100 * mo_SumSegmentSize s);
            loadedPart = sgn p * (\<bar>p\<bar> div int (hc_bodySize (mo_HeaderCore s)));
            loadedPart = (if loadedPart > 100 then 100 else loadedPart)
        in s\<lparr>mo_signals := mo_signals s @ [signal_pad_mot_progress loadedPart]\<rparr>
      else s)"

definition add_body_segment :: "u8 list \<Rightarrow> int \<Rightarrow> bool \<Rightarrow> int \<Rightarrow> mot_object \<Rightarrow> mot_object" where
  "add_body_segment iBodySegment iSegmentNumber iLastFlag iTransportId s =
     (if iSegmentNumber < 0 \<or> iSegmentNumber \<ge> 8192 then s
      else
        let s = (if mo_TransportId s \<noteq> iTransportId then (mot_reset s)\<lparr>mo_TransportId := iTransportId\<rparr> else s)
        in if map_of (mo_MotMap s) iSegmentNumber \<noteq> None then s
           else
             let s = s\<lparr>mo_MotMap := emplace iSegmentNumber iBodySegment (mo_MotMap s),
                       mo_SumSegmentSize := mo_SumSegmentSize s + int (length iBodySegment)\<rparr>;
                 s = (if iLastFlag then s\<lparr>mo_NumOfSegments := iSegmentNumber + 1\<rparr> else s);
                 s = (if mo_StartSegment s < 0 then s\<lparr>mo_StartSegment := iSegmentNumber\<rparr> else s);
                 s = (if mo_NumOfSegments s > 0 \<and> mo_ProgressMax s < 0 then s\<lparr>mo_ProgressMax := mo_NumOfSegments s - 1\<rparr> else s);
                 s = progress s
             in if check_if_complete s then handle_complete s else s)"

definition get_header_size :: "mot_object \<Rightarrow> nat" where
  "get_header_size s = (if hc_initialized (mo_HeaderCore s) then hc_headerSize (mo_HeaderCore s) else 0)"

text \<open>The constructor with a header.\<close>

definition MotObject_header :: "bool \<Rightarrow> bool \<Rightarrow> nat \<Rightarrow> (nat \<Rightarrow> u8) \<Rightarrow> mot_object" where
  "MotObject_header iDirElement iPadElement iTransportId ipSegment =
     set_header ipSegment (int iTransportId) (new_MotObject iDirElement iPadElement)"

section \<open>Reception of an object\<close>

text \<open>
  A carousel repeats the header and the segments of an object; what arrives of it is any sequence of
  these events.  The last flag is set in the last segment.
\<close>

datatype mot_event = Header | Segment nat

fun mot_feed :: "(nat \<Rightarrow> u8) \<Rightarrow> u8 list list \<Rightarrow> int \<Rightarrow> mot_event \<Rightarrow> mot_object \<Rightarrow> mot_object" where
  "mot_feed h segs tid Header s = set_header h tid s"
| "mot_feed h segs tid (Segment i) s = add_body_segment (segs ! i) (int i) (Suc i = length segs) tid s"

definition is_object :: "mot_signal \<Rightarrow> bool" where
  "is_object g \<longleftrightarrow> (case g of signal_new_mot_object _ _ _ _ \<Rightarrow> True | signal_pad_mot_progress _ \<Rightarrow> False)"

definition objects_of :: "mot_object \<Rightarrow> mot_signal list" where
  "objects_of s = filter is_object (mo_signals s)"

definition header_name :: "(nat \<Rightarrow> u8) \<Rightarrow> qstring \<Rightarrow> qstring" where
  "header_name h name = fst (header_extensions h (hc_headerSize (header_core h)) 7 name)"

definition object_name :: "(nat \<Rightarrow> u8) \<Rightarrow> int \<Rightarrow> qstring" where
  "object_name h tid =
     (if header_name h [] = [] then [116, 114, 105, 100, 95] @ decimal (nat tid) else header_name h [])"

definition received_all :: "u8 list list \<Rightarrow> mot_event list \<Rightarrow> bool" where
  "received_all segs es \<longleftrightarrow> Header \<in> set es \<and> (\<forall>i<length segs. Segment i \<in> set es)"

definition object_signal :: "bool \<Rightarrow> (nat \<Rightarrow> u8) \<Rightarrow> u8 list list \<Rightarrow> int \<Rightarrow> mot_signal" where
  "object_signal d h segs tid =
     signal_new_mot_object (concat segs) (object_name h tid) (get_content_type (header_core h)) d"

text \<open>What the object holds after the events.\<close>

definition holds_events :: "bool \<Rightarrow> (nat \<Rightarrow> u8) \<Rightarrow> u8 list list \<Rightarrow> int \<Rightarrow> mot_event list \<Rightarrow> mot_object \<Rightarrow> bool" where
  "holds_events d h segs tid es s \<longleftrightarrow>
     mo_IsDirElement s = d \<and> mo_TransportId s = tid \<and>
     mo_HeaderCore s = (if Header \<in> set es then header_core h else empty_core) \<and>
     mo_Name s \<in> (if Header \<in> set es then {header_name h [], object_name h tid} else {[]}) \<and>
     mo_MotMap s = map (\<lambda>i. (int i, segs ! i)) (filter (\<lambda>i. Segment i \<in> set es) [0..<length segs]) \<and>
     mo_NumOfSegments s = (if Segment (length segs - 1) \<in> set es then int (length segs) else - 1)"

lemma emplace_filter:
  assumes "i \<in> set js" "sorted_wrt (<) js" "\<not> P i"
  shows "emplace (int i) (f i) (map (\<lambda>j. (int j, f j)) (filter P js)) =
         map (\<lambda>j. (int j, f j)) (filter (\<lambda>j. P j \<or> j = i) js)"
  using assms
proof (induction js)
  case (Cons j js)
  have front: "emplace (int i) (f i) (map (\<lambda>j. (int j, f j)) (filter P js)) = (int i, f i) # map (\<lambda>j. (int j, f j)) (filter P js)"
    if "\<forall>k \<in> set js. i < k" for js
    using that by (cases "filter P js") (auto dest: filter_eq_ConsD)
  show ?case
  proof (cases "i = j")
    case True
    then have "filter (\<lambda>k. P k \<or> k = i) js = filter P js"
      using Cons.prems(2) by (intro filter_cong) auto
    then show ?thesis
      using True Cons.prems front [of js] by simp
  next
    case False
    then show ?thesis
      using Cons by auto
  qed
qed simp

text \<open>The name is either never set by the extension of a header or always to the same value.\<close>

definition name_kept_or_set :: "(qstring \<Rightarrow> qstring \<times> nat) \<Rightarrow> bool" where
  "name_kept_or_set f \<longleftrightarrow> (\<exists>q. \<forall>name. f name = (name, q)) \<or> (\<exists>c q. \<forall>name. f name = (c, q))"

lemma parameter_name: "name_kept_or_set (process_parameter_id seg p pid len)"
proof (cases "pid = 0x0c")
  case True
  then show ?thesis
    unfolding name_kept_or_set_def process_parameter_id_def by (intro disjI2) simp
next
  case False
  then show ?thesis
    unfolding name_kept_or_set_def process_parameter_id_def
    by (cases "pid \<in> {0x02, 0x03, 0x04, 0x05, 0x06, 0x07, 0x08, 0x0a, 0x0b, 0x0f}") simp_all
qed

lemma pointer_moved: "name_kept_or_set (\<lambda>name. (name, q))"
  by (simp add: name_kept_or_set_def)

lemma name_if:
  "name_kept_or_set f \<Longrightarrow> name_kept_or_set g \<Longrightarrow> name_kept_or_set (\<lambda>name. if b then f name else g name)"
  by (cases b) simp_all

lemma extension_name: "name_kept_or_set (process_header_extension seg p)"
  unfolding process_header_extension_def Let_def
  by (intro name_if parameter_name pointer_moved)

lemma extensions_name:
  "(\<forall>name. fst (header_extensions seg n p name) = name) \<or> (\<exists>c. \<forall>name. fst (header_extensions seg n p name) = c)"
proof (induction "n - p" arbitrary: p rule: less_induct)
  case less
  show ?case
  proof (cases "p < n")
    case True
    note step = header_extensions.simps [of seg n p]
    consider (keep) q where "\<And>name. process_header_extension seg p name = (name, q)"
      | (set) c q where "\<And>name. process_header_extension seg p name = (c, q)"
      using extension_name [of seg p] unfolding name_kept_or_set_def by blast
    then show ?thesis
    proof cases
      case keep
      then have "n - q < n - p"
        using process_extension_pointer [of p seg] True by auto
      then show ?thesis
        using less [of q] True keep by (simp add: step)
    next
      case set
      then show ?thesis
        using True by (simp add: step)
    qed
  next
    case False
    then show ?thesis
      by (simp add: header_extensions.simps)
  qed
qed

lemma header_name_again:
  assumes "nm \<in> {[], header_name h [], object_name h tid}"
  shows "header_name h nm \<in> {header_name h [], object_name h tid}"
  using assms extensions_name [of h "hc_headerSize (header_core h)" 7]
  unfolding header_name_def object_name_def by auto

text \<open>The object is complete when the header and every segment have arrived; its segments are then in order.\<close>

lemma complete_iff:
  assumes "holds_events d h segs tid es s" "segs \<noteq> []"
  shows "check_if_complete s \<longleftrightarrow> received_all segs es"
proof -
  let ?f = "\<lambda>i. (int i, segs ! i)" and ?js = "filter (\<lambda>i. Segment i \<in> set es) [0..<length segs]"
  have m: "mo_MotMap s = map ?f ?js"
    and n: "mo_NumOfSegments s = (if Segment (length segs - 1) \<in> set es then int (length segs) else - 1)"
    and hd: "hc_initialized (mo_HeaderCore s) \<longleftrightarrow> Header \<in> set es"
    using assms(1) by (simp_all add: holds_events_def empty_core_def header_core_def)
  have look: "map_of (mo_MotMap s) (int i) \<noteq> None \<longleftrightarrow> Segment i \<in> set es" if "i < length segs" for i
    using that by (auto simp: m map_of_eq_None_iff image_iff)
  show ?thesis
  proof
    assume c: "check_if_complete s"
    then have "mo_NumOfSegments s = int (length segs)"
      by (simp add: check_if_complete_def n split: if_splits)
    then show "received_all segs es"
      using c look by (auto simp: check_if_complete_def received_all_def hd list_all_iff)
  next
    assume r: "received_all segs es"
    then have "mo_MotMap s = map ?f [0..<length segs]" "mo_NumOfSegments s = int (length segs)"
      using assms(2) by (auto simp: m n received_all_def intro!: filter_True)
    then show "check_if_complete s"
      using r look by (auto simp: check_if_complete_def received_all_def hd list_all_iff)
  qed
qed

lemma complete_signal:
  assumes "holds_events d h segs tid es s" "received_all segs es"
  shows "objects_of (handle_complete s) = objects_of s @ [object_signal d h segs tid]"
    and "holds_events d h segs tid es (handle_complete s)"
proof -
  have "filter (\<lambda>i. Segment i \<in> set es) [0..<length segs] = [0..<length segs]"
    using assms(2) by (auto simp: received_all_def intro!: filter_True)
  then have "map snd (mo_MotMap s) = segs"
    using assms(1) by (simp add: holds_events_def comp_def map_nth)
  moreover have "mo_Name s \<in> {header_name h [], object_name h tid}" "mo_TransportId s = tid"
      "mo_HeaderCore s = header_core h" "mo_IsDirElement s = d"
    using assms by (auto simp: holds_events_def received_all_def)
  ultimately show "objects_of (handle_complete s) = objects_of s @ [object_signal d h segs tid]"
    by (auto simp: handle_complete_def Let_def objects_of_def is_object_def object_signal_def object_name_def)
  show "holds_events d h segs tid es (handle_complete s)"
    using assms by (auto simp: handle_complete_def Let_def holds_events_def received_all_def object_name_def)
qed

lemma maybe_complete:
  assumes "holds_events d h segs tid es s" "segs \<noteq> []"
  shows "holds_events d h segs tid es (if check_if_complete s then handle_complete s else s)"
    and "objects_of (if check_if_complete s then handle_complete s else s) =
         objects_of s @ (if received_all segs es then [object_signal d h segs tid] else [])"
  using assms complete_iff [OF assms] complete_signal [OF assms(1)] by simp_all

text \<open>One event: it is recorded, and emits the object unless it is a segment already there.\<close>

lemma feed_header:
  assumes "holds_events d h segs tid es s" "segs \<noteq> []"
  shows "holds_events d h segs tid (es @ [Header]) (set_header h tid s)"
    and "objects_of (set_header h tid s) =
         objects_of s @ (if received_all segs (es @ [Header]) then [object_signal d h segs tid] else [])"
proof -
  let ?s = "s\<lparr>mo_TransportId := tid, mo_HeaderCore := header_core h, mo_Name := header_name h (mo_Name s)\<rparr>"
  have "holds_events d h segs tid (es @ [Header]) ?s"
    using assms(1) header_name_again [of "mo_Name s" h tid] by (auto simp: holds_events_def split: if_splits)
  note m = maybe_complete [OF this assms(2)]
  have e: "set_header h tid s = (if check_if_complete ?s then handle_complete ?s else ?s)"
    using assms(1) by (simp add: set_header_def Let_def holds_events_def header_name_def)
  show "holds_events d h segs tid (es @ [Header]) (set_header h tid s)"
    using m(1) by (simp only: e)
  have "objects_of ?s = objects_of s"
    by (simp add: objects_of_def)
  then show "objects_of (set_header h tid s) =
      objects_of s @ (if received_all segs (es @ [Header]) then [object_signal d h segs tid] else [])"
    using m(2) by (simp only: e)
qed

lemma progress_keeps:
  "holds_events d h segs tid es (progress s) \<longleftrightarrow> holds_events d h segs tid es s"
  "objects_of (progress s) = objects_of s"
  by (simp_all add: progress_def Let_def holds_events_def objects_of_def is_object_def)

lemma feed_segment:
  assumes h: "holds_events d h segs tid es s" and i: "i < length segs" "length segs \<le> 8192"
  defines "s' \<equiv> add_body_segment (segs ! i) (int i) (Suc i = length segs) tid s"
  shows "holds_events d h segs tid (es @ [Segment i]) s'"
    and "objects_of s' = objects_of s @
         (if Segment i \<notin> set es \<and> received_all segs (es @ [Segment i]) then [object_signal d h segs tid] else [])"
proof -
  have m: "mo_MotMap s = map (\<lambda>i. (int i, segs ! i)) (filter (\<lambda>i. Segment i \<in> set es) [0..<length segs])" and t: "mo_TransportId s = tid"
    using h by (simp_all add: holds_events_def)
  have look: "map_of (mo_MotMap s) (int i) \<noteq> None \<longleftrightarrow> Segment i \<in> set es"
    using i by (auto simp: m map_of_eq_None_iff image_iff)
  have goal: "holds_events d h segs tid (es @ [Segment i]) s' \<and> objects_of s' = objects_of s @
      (if Segment i \<notin> set es \<and> received_all segs (es @ [Segment i]) then [object_signal d h segs tid] else [])"
  proof (cases "Segment i \<in> set es")
    case True
    then show ?thesis
      using h look i t by (auto simp: s'_def add_body_segment_def holds_events_def insert_absorb)
  next
    case False
    have add: "emplace (int i) (segs ! i) (mo_MotMap s) =
        map (\<lambda>i. (int i, segs ! i)) (filter (\<lambda>j. Segment j \<in> set (es @ [Segment i])) [0..<length segs])"
      using emplace_filter [of i "[0..<length segs]" "\<lambda>i. Segment i \<in> set es" "(!) segs"] i False
      by (simp add: m disj_commute)
    define s1 where "s1 = (let s = s\<lparr>mo_MotMap := emplace (int i) (segs ! i) (mo_MotMap s),
          mo_SumSegmentSize := mo_SumSegmentSize s + int (length (segs ! i))\<rparr>;
        s = (if Suc i = length segs then s\<lparr>mo_NumOfSegments := int i + 1\<rparr> else s);
        s = (if mo_StartSegment s < 0 then s\<lparr>mo_StartSegment := int i\<rparr> else s)
      in if mo_NumOfSegments s > 0 \<and> mo_ProgressMax s < 0 then s\<lparr>mo_ProgressMax := mo_NumOfSegments s - 1\<rparr> else s)"
    have "mo_IsDirElement s1 = d" "mo_TransportId s1 = tid" "mo_HeaderCore s1 = mo_HeaderCore s" "mo_Name s1 = mo_Name s"
        "mo_MotMap s1 = emplace (int i) (segs ! i) (mo_MotMap s)"
        "mo_NumOfSegments s1 = (if Suc i = length segs then int i + 1 else mo_NumOfSegments s)"
      using h by (simp_all add: s1_def Let_def holds_events_def)
    moreover have "Segment (length segs - 1) \<in> set (es @ [Segment i]) \<longleftrightarrow> Suc i = length segs \<or> Segment (length segs - 1) \<in> set es"
      using i by auto
    ultimately have "holds_events d h segs tid (es @ [Segment i]) s1"
      using h i add unfolding holds_events_def by auto
    then have "holds_events d h segs tid (es @ [Segment i]) (progress s1)"
      by (simp only: progress_keeps)
    moreover have "segs \<noteq> []"
      using i by auto
    ultimately have p: "holds_events d h segs tid (es @ [Segment i]) (if check_if_complete (progress s1) then handle_complete (progress s1) else progress s1)"
        "objects_of (if check_if_complete (progress s1) then handle_complete (progress s1) else progress s1) =
         objects_of (progress s1) @ (if received_all segs (es @ [Segment i]) then [object_signal d h segs tid] else [])"
      by (rule maybe_complete)+
    have "s' = (if check_if_complete (progress s1) then handle_complete (progress s1) else progress s1)"
      using i t False look by (simp add: s'_def add_body_segment_def s1_def Let_def)
    moreover have "objects_of (progress s1) = objects_of s"
      unfolding progress_keeps(2) by (simp add: s1_def Let_def objects_of_def)
    ultimately show ?thesis
      using p False by simp
  qed
  show "holds_events d h segs tid (es @ [Segment i]) s'"
    using goal by (rule conjunct1)
  show "objects_of s' = objects_of s @
      (if Segment i \<notin> set es \<and> received_all segs (es @ [Segment i]) then [object_signal d h segs tid] else [])"
    using goal by (rule conjunct2)
qed

lemma events_received:
  assumes "mo_signals s0 = []" "mo_TransportId s0 = tid" "mo_HeaderCore s0 = empty_core" "mo_Name s0 = []"
      "mo_MotMap s0 = []" "mo_NumOfSegments s0 = - 1" "segs \<noteq> []" "length segs \<le> 8192"
      "list_all (\<lambda>e. case e of Header \<Rightarrow> True | Segment i \<Rightarrow> i < length segs) es"
  shows "holds_events (mo_IsDirElement s0) h segs tid es (fold (mot_feed h segs tid) es s0) \<and>
    set (objects_of (fold (mot_feed h segs tid) es s0)) =
      (if received_all segs es then {object_signal (mo_IsDirElement s0) h segs tid} else {})"
  using assms(9)
proof (induction es rule: rev_induct)
  case Nil
  then show ?case
    using assms by (simp add: holds_events_def received_all_def objects_of_def)
next
  case (snoc e es)
  let ?s = "fold (mot_feed h segs tid) es s0"
  have IH: "holds_events (mo_IsDirElement s0) h segs tid es ?s"
      "set (objects_of ?s) = (if received_all segs es then {object_signal (mo_IsDirElement s0) h segs tid} else {})"
    using snoc by simp_all
  have grows: "received_all segs es \<Longrightarrow> received_all segs (es @ [e])"
    by (simp add: received_all_def)
  show ?case
  proof (cases e)
    case Header
    then show ?thesis
      using IH grows feed_header [OF IH(1) assms(7)] by auto
  next
    case (Segment i)
    then have "i < length segs"
      using snoc.prems by simp
    moreover have "Segment i \<in> set es \<Longrightarrow> received_all segs (es @ [e]) \<longleftrightarrow> received_all segs es"
      using Segment by (auto simp: received_all_def)
    ultimately show ?thesis
      using IH grows feed_segment [OF IH(1) _ assms(8)] Segment by auto
  qed
qed

lemma objects_received:
  assumes "segs \<noteq> []" "length segs \<le> 8192"
    and "list_all (\<lambda>e. case e of Header \<Rightarrow> True | Segment i \<Rightarrow> i < length segs) es" "tid \<noteq> - 1"
  shows "set (objects_of (fold (mot_feed h segs tid) es (new_MotObject d pad))) =
    (if Header \<in> set es \<and> (\<forall>i<length segs. Segment i \<in> set es)
     then {signal_new_mot_object (concat segs) (object_name h tid) (get_content_type (header_core h)) d} else {})"
proof (cases es)
  case Nil
  then show ?thesis
    by (simp add: objects_of_def new_MotObject_def)
next
  case (Cons e es')
  let ?s = "(new_MotObject d pad)\<lparr>mo_TransportId := tid\<rparr>"
  have "mot_feed h segs tid e (new_MotObject d pad) = mot_feed h segs tid e ?s"
    using assms Cons by (cases e) (simp_all add: set_header_def add_body_segment_def mot_reset_def new_MotObject_def)
  then have "fold (mot_feed h segs tid) es (new_MotObject d pad) = fold (mot_feed h segs tid) es ?s"
    by (simp add: Cons)
  then show ?thesis
    using events_received [of ?s tid segs es h] assms
    by (simp add: received_all_def object_signal_def new_MotObject_def)
qed

text \<open>
  an object of 1 to 8192 segments is delivered exactly when its header and all of its segments
  have arrived, in whatever order and with whatever repetitions; what is delivered is always the
  segments put together in their order, with the name and content type of the header (or the
  transport id as name, when the header has none).
\<close>

theorem mot_object_received:
  assumes "segs \<noteq> []" "length segs \<le> 8192"
    and "list_all (\<lambda>e. case e of Header \<Rightarrow> True | Segment i \<Rightarrow> i < length segs) es" "tid \<noteq> - 1"
  shows "set (objects_of (fold (mot_feed h segs tid) es (new_MotObject d pad))) =
    (if Header \<in> set es \<and> (\<forall>i<length segs. Segment i \<in> set es)
     then {signal_new_mot_object (concat segs) (object_name h tid) (get_content_type (header_core h)) d} else {})"
  by (rule objects_received [OF assms])

text \<open>A header of seven bytes without extension, an image, and two segments; the second arrives first.\<close>

lemma mot_object_received_witness:
  "set (objects_of (fold (mot_feed (\<lambda>i. [0, 0, 0, 48, 3, 132, 1] ! i) [[1, 2], [3]] 7) [Segment 1, Header, Segment 1, Segment 0]
     (new_MotObject False True))) =
   {signal_new_mot_object [1, 2, 3] [116, 114, 105, 100, 95, 55] 513 False}"
proof -
  have core: "header_core (\<lambda>i. [0, 0, 0, 48, 3, 132, 1] ! i) = \<lparr>hc_initialized = True, hc_bodySize = 3, hc_headerSize = 7,
      hc_contentType = 2, hc_contentSubType = 1\<rparr>"
    by code_simp
  have "object_name (\<lambda>i. [0, 0, 0, 48, 3, 132, 1] ! i) 7 = [116, 114, 105, 100, 95, 55]"
    by (simp add: object_name_def header_name_def core header_extensions.simps [of _ 7 7] decimal.simps [of 7])
  moreover have "get_content_type (header_core (\<lambda>i. [0, 0, 0, 48, 3, 132, 1] ! i)) = 513"
    by (simp add: core get_content_type_def MOTCTBaseTypeMask_def MOTCTSubTypeMask_def)
  moreover have "\<forall>i<2. Segment i \<in> {Segment 0, Segment 1}"
    by (auto simp: less_Suc_eq numeral_2_eq_2)
  ultimately show ?thesis
    using mot_object_received [of "[[1, 2], [3]]" "[Segment 1, Header, Segment 1, Segment 0]" 7
      "\<lambda>i. [0, 0, 0, 48, 3, 132, 1] ! i" False True]
    by (auto simp: less_Suc_eq)
qed

end
