(* ===== verification/Mot_Handler.thy ===== *)
theory Mot_Handler
  imports Mot_Object Crc "HOL-Library.Multiset"
begin

text \<open>
  Multimedia objects of a packet mode service, \<^verbatim>\<open>src/src/base/backend/data/mot/mot_handler.cpp\<close> and
  \<^verbatim>\<open>mot_dir.cpp\<close>: data groups are taken apart, objects outside a directory live in a table of fifteen
  places from which the oldest is removed, and a directory announces the objects of a carousel.  An object
  is owned by one place of the table or of the directory; a handle is that place.  What the objects report
  is collected in the order it is reported.  Reads outside a vector come from memory that is an argument,
  writes outside a vector are the value None.  The directory size the source keeps but never reads is
  left out.  Order numbers have 32 bits in the source and are unbounded here: the two differ only after \<open>2 ^ 31\<close> objects.
\<close>

section \<open>The code\<close>

subsection \<open>The directory\<close>

record motComponentType =
  mc_inUse :: bool
  mc_transportId :: nat
  mc_motSlide :: "mot_object option"

record mot_directory =
  md_transportId :: nat
  md_dir_segments :: "u8 list"
  md_marked :: "bool list"
  md_dir_segmentSize :: nat
  md_num_dirSegments :: int
  md_numObjects :: nat
  md_motComponents :: "motComponentType list"

definition dir_getHandle :: "nat \<Rightarrow> mot_directory \<Rightarrow> nat option" where
  "dir_getHandle transportId d =
     find (\<lambda>i. mc_inUse (md_motComponents d ! i) \<and> mc_transportId (md_motComponents d ! i) = transportId) [0..<md_numObjects d]"

definition dir_setHandle :: "mot_object \<Rightarrow> nat \<Rightarrow> mot_directory \<Rightarrow> mot_directory" where
  "dir_setHandle h transportId d =
     (case find (\<lambda>i. \<not> mc_inUse (md_motComponents d ! i)) [0..<md_numObjects d] of
        None \<Rightarrow> d
      | Some i \<Rightarrow> d\<lparr>md_motComponents := (md_motComponents d)
          [i := \<lparr>mc_inUse = True, mc_transportId = transportId, mc_motSlide = Some h\<rparr>]\<rparr>)"

fun analyse_objects :: "(nat \<Rightarrow> u8) \<Rightarrow> nat \<Rightarrow> nat \<Rightarrow> mot_directory \<Rightarrow> mot_directory" where
  "analyse_objects seg currentBase 0 d = d"
| "analyse_objects seg currentBase (Suc n) d =
     (let transportId = unat (seg currentBase) * 256 + unat (seg (currentBase + 1))
      in if transportId = 0 then d
         else
           let handle = MotObject_header True False transportId (\<lambda>i. seg (currentBase + 2 + i))
           in analyse_objects seg (currentBase + 2 + get_header_size handle) n (dir_setHandle handle transportId d))"

definition analyse_theDirectory :: "(nat \<Rightarrow> u8) \<Rightarrow> mot_directory \<Rightarrow> mot_directory" where
  "analyse_theDirectory mem d =
     (let seg = ptr mem (md_dir_segments d);
          extensionLength = unat (seg 11) * 256 + unat (seg 12)
      in analyse_objects seg (13 + extensionLength) (md_numObjects d) d)"

text \<open>
  The number of objects is a signed number of 16 bits; a negative one cannot be the size of a vector.  The
  first segment is copied with its own size.
\<close>

definition MotDirectory :: "(nat \<Rightarrow> u8) \<Rightarrow> nat \<Rightarrow> nat \<Rightarrow> nat \<Rightarrow> nat \<Rightarrow> (nat \<Rightarrow> u8) \<Rightarrow> mot_directory option" where
  "MotDirectory mem transportId segmentSize dirSize objects segment =
     (if objects \<ge> 2 ^ 15 \<or> segmentSize > dirSize then None
      else
        let d = \<lparr>md_transportId = transportId, md_dir_segments = map segment [0..<segmentSize] @ replicate (dirSize - segmentSize) 0,
                 md_marked = (replicate 512 False)[0 := True], md_dir_segmentSize = segmentSize, md_num_dirSegments = - 1,
                 md_numObjects = objects,
                 md_motComponents = replicate objects \<lparr>mc_inUse = False, mc_transportId = 0, mc_motSlide = None\<rparr>\<rparr>
        in Some (if segmentSize \<ge> dirSize then analyse_theDirectory mem d else d))"

definition directorySegment :: "(nat \<Rightarrow> u8) \<Rightarrow> nat \<Rightarrow> (nat \<Rightarrow> u8) \<Rightarrow> nat \<Rightarrow> nat \<Rightarrow> bool \<Rightarrow> mot_directory \<Rightarrow> mot_directory option" where
  "directorySegment mem transportId segment segmentNumber segmentSize lastSegment d =
     (if md_transportId d \<noteq> transportId then Some d
      else if segmentNumber \<ge> 512 then None
      else if md_marked d ! segmentNumber then Some d
      else
        let d = (if lastSegment then d\<lparr>md_num_dirSegments := int segmentNumber + 1\<rparr> else d);
            d = d\<lparr>md_marked := (md_marked d)[segmentNumber := True]\<rparr>;
            address = segmentNumber * md_dir_segmentSize d
        in if address + segmentSize > length (md_dir_segments d) then None
           else
             let d = d\<lparr>md_dir_segments := blit address (map segment [0..<segmentSize]) (md_dir_segments d)\<rparr>
             in if md_num_dirSegments d \<noteq> - 1 \<and> list_all (\<lambda>i. md_marked d ! i) [0..<nat (md_num_dirSegments d)]
                then Some (analyse_theDirectory mem d) else Some d)"

subsection \<open>The handler\<close>

record SMotTable =
  mt_transportId :: nat
  mt_orderNumber :: int
  mt_motSlide :: "mot_object option"

record mot_handler =
  mh_Directory :: "mot_directory option"
  mh_OrderNumber :: int
  mh_MotTable :: "SMotTable list"
  mh_signals :: "mot_signal list"

text \<open>The transport ids of an empty table are not initialised.\<close>

definition MotHandler :: "nat list \<Rightarrow> mot_handler" where
  "MotHandler ids = \<lparr>mh_Directory = None, mh_OrderNumber = 0,
     mh_MotTable = map (\<lambda>i. \<lparr>mt_transportId = ids ! i, mt_orderNumber = - 1, mt_motSlide = None\<rparr>) [0..<15], mh_signals = []\<rparr>"

datatype mot_handle = InTable nat | InDirectory nat

definition getHandle :: "nat \<Rightarrow> mot_handler \<Rightarrow> mot_handle option" where
  "getHandle transportId s =
     (case find (\<lambda>i. mt_orderNumber (mh_MotTable s ! i) \<ge> 0 \<and> mt_transportId (mh_MotTable s ! i) = transportId) [0..<length (mh_MotTable s)] of
        Some i \<Rightarrow> Some (InTable i)
      | None \<Rightarrow> (case mh_Directory s of None \<Rightarrow> None | Some d \<Rightarrow> map_option InDirectory (dir_getHandle transportId d)))"

text \<open>The place a new object gets: the first free one, or the one with the smallest number.\<close>

definition oldest_place :: "SMotTable list \<Rightarrow> int \<Rightarrow> nat" where
  "oldest_place tab n =
     snd (foldl (\<lambda>(oldest, index) i. if mt_orderNumber (tab ! i) < oldest then (mt_orderNumber (tab ! i), i) else (oldest, index))
       (n, 0) [0..<length tab])"

definition setHandle :: "mot_object \<Rightarrow> nat \<Rightarrow> mot_handler \<Rightarrow> nat \<times> mot_handler" where
  "setHandle h transportId s =
     (let index = (case find (\<lambda>i. mt_orderNumber (mh_MotTable s ! i) = - 1) [0..<length (mh_MotTable s)] of
                     Some i \<Rightarrow> i | None \<Rightarrow> oldest_place (mh_MotTable s) (mh_OrderNumber s))
      in (index, s\<lparr>mh_MotTable := (mh_MotTable s)[index :=
              \<lparr>mt_transportId = transportId, mt_orderNumber = mh_OrderNumber s, mt_motSlide = Some h\<rparr>],
            mh_OrderNumber := mh_OrderNumber s + 1\<rparr>))"

text \<open>A call of an object at its place; what it reports is moved to the handler.\<close>

definition at_handle :: "(mot_object \<Rightarrow> mot_object) \<Rightarrow> mot_handle \<Rightarrow> mot_handler \<Rightarrow> mot_handler" where
  "at_handle f handle s =
     (case handle of
        InTable i \<Rightarrow>
          (case mt_motSlide (mh_MotTable s ! i) of
             None \<Rightarrow> s
           | Some m \<Rightarrow> s\<lparr>mh_MotTable := (mh_MotTable s)[i := (mh_MotTable s ! i)\<lparr>mt_motSlide := Some ((f m)\<lparr>mo_signals := []\<rparr>)\<rparr>],
                         mh_signals := mh_signals s @ mo_signals (f m)\<rparr>)
      | InDirectory i \<Rightarrow>
          (case mh_Directory s of
             None \<Rightarrow> s
           | Some d \<Rightarrow>
               (case mc_motSlide (md_motComponents d ! i) of
                  None \<Rightarrow> s
                | Some m \<Rightarrow> s\<lparr>mh_Directory := Some (d\<lparr>md_motComponents := (md_motComponents d)[i :=
                                (md_motComponents d ! i)\<lparr>mc_motSlide := Some ((f m)\<lparr>mo_signals := []\<rparr>)\<rparr>]\<rparr>),
                              mh_signals := mh_signals s @ mo_signals (f m)\<rparr>)))"

definition mot_segment :: "(nat \<Rightarrow> u8) \<Rightarrow> nat \<Rightarrow> nat \<Rightarrow> nat \<Rightarrow> bool \<Rightarrow> (nat \<Rightarrow> u8) \<Rightarrow> mot_handler \<Rightarrow> mot_handler option" where
  "mot_segment dmem groupType transportId segmentNumber lastFlag v s =
     (let segmentSize = unat (v 0 AND 0x1f) * 256 + unat (v 1); segment = (\<lambda>i. v (2 + i))
      in if groupType = 3
         then if segmentNumber = 0 \<and> getHandle transportId s = None
              then Some (snd (setHandle (MotObject_header False False transportId segment) transportId s))
              else Some s
         else if groupType = 4
         then let (handle, s) = (case getHandle transportId s of
                    Some handle \<Rightarrow> (handle, s)
                  | None \<Rightarrow> (let (i, s) = setHandle (MotObject_header False False transportId segment) transportId s in (InTable i, s)))
              in Some (at_handle (add_body_segment (map segment [0..<segmentSize]) (int segmentNumber) lastFlag (int transportId)) handle s)
         else if groupType = 6
         then if segmentNumber = 0
              then if (case mh_Directory s of None \<Rightarrow> False | Some d \<Rightarrow> md_transportId d = transportId) then Some s
                   else
                     let dirSize = unat (segment 0 AND 0x3f) * 2 ^ 24 + unat (segment 1) * 2 ^ 16 + unat (segment 2) * 2 ^ 8 + unat (segment 3);
                         numObjects = unat (segment 4) * 256 + unat (segment 5)
                     in map_option (\<lambda>d. s\<lparr>mh_Directory := Some d\<rparr>) (MotDirectory dmem transportId segmentSize dirSize numObjects segment)
              else (case mh_Directory s of
                      None \<Rightarrow> Some s
                    | Some d \<Rightarrow>
                        if md_transportId d \<noteq> transportId then Some s
                        else map_option (\<lambda>d. s\<lparr>mh_Directory := Some d\<rparr>)
                               (directorySegment dmem transportId segment segmentNumber segmentSize lastFlag d))
         else Some s)"

text \<open>
  A data group is an array of bits.  It is read before its size is looked at.  When the headers are longer
  than the group, the size of the vector for the segment is negative.
\<close>

definition mot_add_MSC_data_group :: "(nat \<Rightarrow> u8) \<Rightarrow> (nat \<Rightarrow> u8) \<Rightarrow> (nat \<Rightarrow> u8) \<Rightarrow> u8 list \<Rightarrow> mot_handler \<Rightarrow> mot_handler option" where
  "mot_add_MSC_data_group mem vmem dmem msc s =
     (let data = ptr mem msc;
          extensionFlag = getBits_1 data 0 \<noteq> 0;
          crcFlag = getBits_1 data 1 \<noteq> 0;
          segmentFlag = getBits_1 data 2 \<noteq> 0;
          userAccessFlag = getBits_1 data 3 \<noteq> 0;
          groupType = unat (getBits_4 data 4)
      in if length msc = 0 then Some s
         else if crcFlag \<and> \<not> check_CRC_bits data (length msc) then Some s
         else
           let n1 = (if extensionFlag then 32 else 16);
               lastFlag = (segmentFlag \<and> getBits_1 data n1 \<noteq> 0);
               segmentNumber = (if segmentFlag then unat (getBits data (n1 + 1) 15) else 0);
               n2 = (if segmentFlag then n1 + 16 else n1);
               transportIdFlag = (userAccessFlag \<and> getBits_1 data (n2 + 3) \<noteq> 0);
               transportId = (if transportIdFlag then unat (getBits data (n2 + 8) 16) else 0);
               n3 = (if userAccessFlag then n2 + 8 + unat (getBits_4 data (n2 + 4)) * 8 else n2);
               sizeinBits = int (length msc) - int n3 - (if crcFlag then 16 else 0)
           in if \<not> transportIdFlag then Some s
              else if sizeinBits \<le> - 8 then None
              else
                let motVector = map (\<lambda>i. foldl (\<lambda>t j. push_bit 1 t OR data (n3 + 8 * i + j)) 0 [0..<8]) [0..<nat sizeinBits div 8]
                in mot_segment dmem groupType transportId segmentNumber lastFlag (ptr vmem motVector) s)"

section \<open>Stores of objects\<close>

text \<open>What arrives is a header or a segment of an object; the events of one object among them.\<close>

definition events_of :: "nat \<Rightarrow> (nat \<times> mot_event) list \<Rightarrow> mot_event list" where
  "events_of t es = map snd (filter (\<lambda>e. fst e = t) es)"

text \<open>
  What the reception of objects needs of the place they are kept in: an object is found by its transport
  id, a call changes this object only and moves what it reports to the log, and a new object is found
  from then on while the others are not affected, as long as there is room.
\<close>

locale object_store =
  fixes lookup :: "'s \<Rightarrow> nat \<Rightarrow> mot_object option" and call :: "(mot_object \<Rightarrow> mot_object) \<Rightarrow> nat \<Rightarrow> 's \<Rightarrow> 's"
    and create :: "mot_object \<Rightarrow> nat \<Rightarrow> 's \<Rightarrow> 's" and room :: "'s \<Rightarrow> nat" and log :: "'s \<Rightarrow> mot_signal list" and ok :: "'s \<Rightarrow> bool"
  assumes call_lookup: "ok s \<Longrightarrow> lookup s t = Some m \<Longrightarrow> lookup (call f t s) = (lookup s)(t \<mapsto> (f m)\<lparr>mo_signals := []\<rparr>)"
    and call_log: "ok s \<Longrightarrow> lookup s t = Some m \<Longrightarrow> log (call f t s) = log s @ mo_signals (f m)"
    and call_ok: "ok s \<Longrightarrow> lookup s t = Some m \<Longrightarrow> ok (call f t s) \<and> room (call f t s) = room s"
    and create_lookup: "ok s \<Longrightarrow> lookup s t = None \<Longrightarrow> 0 < room s \<Longrightarrow> lookup (create m t s) = (lookup s)(t \<mapsto> m)"
    and create_ok: "ok s \<Longrightarrow> lookup s t = None \<Longrightarrow> 0 < room s \<Longrightarrow> ok (create m t s) \<and> room (create m t s) = room s - 1 \<and> log (create m t s) = log s"
begin

text \<open>
  The objects of a carousel while their headers and segments arrive: those with a header are in the store
  with what has arrived of them, there is room for the others, and each complete object has been reported
  once.
\<close>

definition carousel :: "nat set \<Rightarrow> (nat \<Rightarrow> nat \<Rightarrow> u8) \<Rightarrow> (nat \<Rightarrow> u8 list list) \<Rightarrow> (nat \<times> mot_event) list \<Rightarrow> 's \<Rightarrow> bool" where
  "carousel T H segs es s \<longleftrightarrow> ok s \<and>
     (\<forall>t\<in>T. if Header \<in> set (events_of t es)
        then \<exists>m. lookup s t = Some m \<and> mo_signals m = [] \<and> holds_events False (H t) (segs t) (int t) (events_of t es) m
        else lookup s t = None) \<and>
     card {t \<in> T. Header \<notin> set (events_of t es)} \<le> room s \<and>
     mset (filter is_object (log s)) = image_mset (\<lambda>t. object_signal False (H t) (segs t) (int t)) (mset_set {t \<in> T. received_all (segs t) (events_of t es)})"

lemma carousel_header:
  assumes c: "carousel T H segs es s" and T: "finite T" "t \<in> T" and first: "events_of t es = []" and segs: "segs t \<noteq> []"
    and m: "mo_signals m = []" "holds_events False (H t) (segs t) (int t) [Header] m"
  shows "lookup s t = None" "carousel T H segs (es @ [(t, Header)]) (create m t s)"
proof -
  let ?N = "\<lambda>es. {t \<in> T. Header \<notin> set (events_of t es)}"
  show none: "lookup s t = None"
    using c T(2) first by (auto simp: carousel_def)
  have new: "events_of t' (es @ [(t, Header)]) = events_of t' es @ (if t' = t then [Header] else [])" for t'
    by (simp add: events_of_def)
  have N: "?N es = insert t (?N (es @ [(t, Header)]))" "t \<notin> ?N (es @ [(t, Header)])"
    using T(2) first by (auto simp: new)
  then have card: "card (?N es) = Suc (card (?N (es @ [(t, Header)])))"
    using T(1) by simp
  then have room: "0 < room s"
    using c by (simp add: carousel_def)
  have "received_all (segs t') (events_of t' (es @ [(t, Header)])) \<longleftrightarrow> received_all (segs t') (events_of t' es)" for t'
    using first segs by (auto simp: new received_all_def)
  moreover have "holds_events False (H t) (segs t) (int t) (events_of t (es @ [(t, Header)])) m"
    using m(2) first by (simp add: new)
  moreover have "ok s"
    using c by (simp add: carousel_def)
  ultimately show "carousel T H segs (es @ [(t, Header)]) (create m t s)"
    using c card m(1) create_lookup [OF _ none room] create_ok [OF _ none room] unfolding carousel_def by (auto simp: new)
qed

lemma carousel_again:
  assumes c: "carousel T H segs es s" and h: "Header \<in> set (events_of t es)"
  shows "carousel T H segs (es @ [(t, Header)]) s"
proof -
  have new: "set (events_of t' (es @ [(t, Header)])) = set (events_of t' es)" for t'
    using h by (auto simp: events_of_def)
  have r: "received_all (segs t') (events_of t' (es @ [(t, Header)])) \<longleftrightarrow> received_all (segs t') (events_of t' es)" for t'
    unfolding received_all_def new ..
  have e: "holds_events d h g i (events_of t' (es @ [(t, Header)])) m \<longleftrightarrow> holds_events d h g i (events_of t' es) m" for d h g i t' m
    unfolding holds_events_def new ..
  show ?thesis
    using c unfolding carousel_def new r e .
qed

lemma carousel_segment:
  assumes c: "carousel T H segs es s" and T: "finite T" "t \<in> T" and h: "Header \<in> set (events_of t es)"
    and i: "i < length (segs t)" "length (segs t) \<le> 8192"
  shows "lookup s t \<noteq> None"
    "carousel T H segs (es @ [(t, Segment i)]) (call (add_body_segment (segs t ! i) (int i) (Suc i = length (segs t)) (int t)) t s)"
proof -
  let ?f = "add_body_segment (segs t ! i) (int i) (Suc i = length (segs t)) (int t)"
  let ?C = "\<lambda>es. {t \<in> T. received_all (segs t) (events_of t es)}" and ?sig = "\<lambda>t. object_signal False (H t) (segs t) (int t)"
  have ok: "ok s"
    using c by (simp add: carousel_def)
  have "\<exists>m. lookup s t = Some m \<and> mo_signals m = [] \<and> holds_events False (H t) (segs t) (int t) (events_of t es) m"
    using c T(2) h unfolding carousel_def by metis
  then obtain m where m: "lookup s t = Some m" "mo_signals m = []" "holds_events False (H t) (segs t) (int t) (events_of t es) m"
    by blast
  then show "lookup s t \<noteq> None"
    by simp
  note f = feed_segment [OF m(3) i]
  have new: "events_of t' (es @ [(t, Segment i)]) = events_of t' es @ (if t' = t then [Segment i] else [])" for t'
    by (simp add: events_of_def)
  have f1: "holds_events False (H t) (segs t) (int t) (events_of t (es @ [(t, Segment i)])) ((?f m)\<lparr>mo_signals := []\<rparr>)"
    using f(1) by (simp add: new holds_events_def)
  have set: "?C (es @ [(t, Segment i)]) = (if Segment i \<notin> set (events_of t es) \<and> received_all (segs t) (events_of t es @ [Segment i])
      then insert t (?C es) else ?C es)" "t \<in> ?C es \<Longrightarrow> Segment i \<in> set (events_of t es)"
    using T(2) i(1) by (auto simp: new received_all_def)
  have "mset (filter is_object (log (call ?f t s))) = mset (filter is_object (log s)) + mset (objects_of (?f m))"
    using call_log [OF ok m(1)] by (simp add: objects_of_def)
  also have "\<dots> = image_mset ?sig (mset_set (?C (es @ [(t, Segment i)])))"
  proof (cases "Segment i \<notin> set (events_of t es) \<and> received_all (segs t) (events_of t es @ [Segment i])")
    case True
    then have "t \<notin> ?C es" "finite (?C es)"
      using set(2) T(1) by auto
    then have "mset_set (insert t (?C es)) = add_mset t (mset_set (?C es))"
      by simp
    then show ?thesis
      using True c f(2) m(2) unfolding set(1) by (simp add: carousel_def objects_of_def)
  next
    case False
    show ?thesis
      using c f(2) m(2) unfolding set(1) if_not_P [OF False] by (simp add: carousel_def objects_of_def)
  qed
  finally show "carousel T H segs (es @ [(t, Segment i)]) (call ?f t s)"
    using c T(2) h f1 call_lookup [OF ok m(1)] call_ok [OF ok m(1)] unfolding carousel_def
    by (auto simp: new)
qed

end

text \<open>The handler as a store.\<close>

definition object_at :: "mot_handler \<Rightarrow> mot_handle \<Rightarrow> mot_object option" where
  "object_at s handle = (case handle of
      InTable i \<Rightarrow> mt_motSlide (mh_MotTable s ! i)
    | InDirectory i \<Rightarrow> (case mh_Directory s of None \<Rightarrow> None | Some d \<Rightarrow> mc_motSlide (md_motComponents d ! i)))"

definition mot_lookup :: "mot_handler \<Rightarrow> nat \<Rightarrow> mot_object option" where
  "mot_lookup s t = (case getHandle t s of None \<Rightarrow> None | Some handle \<Rightarrow> object_at s handle)"

definition mot_call :: "(mot_object \<Rightarrow> mot_object) \<Rightarrow> nat \<Rightarrow> mot_handler \<Rightarrow> mot_handler" where
  "mot_call f t s = (case getHandle t s of None \<Rightarrow> s | Some handle \<Rightarrow> at_handle f handle s)"

definition mot_room :: "mot_handler \<Rightarrow> nat" where
  "mot_room s = length (filter (\<lambda>e. mt_orderNumber e = - 1) (mh_MotTable s))"

text \<open>Used places hold an object; the directory has a component for each of its objects.\<close>

definition mot_ok :: "mot_handler \<Rightarrow> bool" where
  "mot_ok s \<longleftrightarrow> 0 \<le> mh_OrderNumber s \<and> (\<forall>e\<in>set (mh_MotTable s). mt_orderNumber e \<ge> - 1 \<and> (mt_orderNumber e \<noteq> - 1 \<longrightarrow> mt_motSlide e \<noteq> None)) \<and>
     (\<forall>d. mh_Directory s = Some d \<longrightarrow> md_numObjects d = length (md_motComponents d) \<and>
        (\<forall>c\<in>set (md_motComponents d). mc_inUse c \<longrightarrow> mc_motSlide c \<noteq> None))"

lemma find_upt_Some: "find P [0..<n] = Some i \<Longrightarrow> i < n \<and> P i \<and> (\<forall>j<i. \<not> P j)"
  by (auto simp: find_Some_iff nth_eq_iff_index_eq)

lemma getHandle_table:
  assumes "getHandle t s = Some (InTable i)"
  shows "i < length (mh_MotTable s)" "mt_orderNumber (mh_MotTable s ! i) \<ge> 0" "mt_transportId (mh_MotTable s ! i) = t"
  using assms by (auto simp: getHandle_def dest!: find_upt_Some split: option.splits)

lemma getHandle_directory:
  assumes "getHandle t s = Some (InDirectory i)"
  obtains d where "mh_Directory s = Some d" "i < md_numObjects d" "mc_inUse (md_motComponents d ! i)"
    "mc_transportId (md_motComponents d ! i) = t"
  using assms by (auto simp: getHandle_def dir_getHandle_def dest!: find_upt_Some split: option.splits)

lemma object_found:
  assumes "mot_ok s" "getHandle t s = Some handle"
  shows "object_at s handle \<noteq> None"
proof (cases handle)
  case (InTable i)
  have "mh_MotTable s ! i \<in> set (mh_MotTable s)" "mt_orderNumber (mh_MotTable s ! i) \<noteq> - 1"
    using getHandle_table [OF assms(2) [unfolded InTable]] by simp_all
  then show ?thesis
    using assms(1) InTable by (auto simp: mot_ok_def object_at_def)
next
  case (InDirectory i)
  obtain d where d: "mh_Directory s = Some d" "i < md_numObjects d" "mc_inUse (md_motComponents d ! i)"
    using getHandle_directory [OF assms(2) [unfolded InDirectory]] by blast
  then have "md_motComponents d ! i \<in> set (md_motComponents d)"
    using assms(1) by (simp add: mot_ok_def)
  then show ?thesis
    using assms(1) d InDirectory by (auto simp: mot_ok_def object_at_def)
qed

lemma lookup_None: "mot_ok s \<Longrightarrow> mot_lookup s t = None \<longleftrightarrow> getHandle t s = None"
  using object_found [of s t] by (auto simp: mot_lookup_def split: option.splits)

text \<open>A call leaves the places, and the objects of other transport ids.\<close>

lemma getHandle_cong:
  assumes len: "length (mh_MotTable s') = length (mh_MotTable s)"
    and tab: "\<And>i. i < length (mh_MotTable s) \<Longrightarrow> mt_orderNumber (mh_MotTable s' ! i) = mt_orderNumber (mh_MotTable s ! i) \<and>
      mt_transportId (mh_MotTable s' ! i) = mt_transportId (mh_MotTable s ! i)"
    and dir: "\<And>t. map_option (dir_getHandle t) (mh_Directory s') = map_option (dir_getHandle t) (mh_Directory s)"
  shows "getHandle t s' = getHandle t s"
proof -
  have eq: "find (\<lambda>i. mt_orderNumber (mh_MotTable s' ! i) \<ge> 0 \<and> mt_transportId (mh_MotTable s' ! i) = t) [0..<length (mh_MotTable s')] =
      find (\<lambda>i. mt_orderNumber (mh_MotTable s ! i) \<ge> 0 \<and> mt_transportId (mh_MotTable s ! i) = t) [0..<length (mh_MotTable s)]"
    unfolding len using tab by (intro find_cong) auto
  have "(case mh_Directory s' of None \<Rightarrow> None | Some d \<Rightarrow> map_option InDirectory (dir_getHandle t d)) =
      (case mh_Directory s of None \<Rightarrow> None | Some d \<Rightarrow> map_option InDirectory (dir_getHandle t d))"
    using dir [of t] by (cases "mh_Directory s'"; cases "mh_Directory s") simp_all
  then show ?thesis
    unfolding getHandle_def eq by (simp only:)
qed

lemma update_slide:
  "j < length tab \<Longrightarrow> mt_orderNumber (tab[i := (tab ! i)\<lparr>mt_motSlide := x\<rparr>] ! j) = mt_orderNumber (tab ! j)"
  "j < length tab \<Longrightarrow> mt_transportId (tab[i := (tab ! i)\<lparr>mt_motSlide := x\<rparr>] ! j) = mt_transportId (tab ! j)"
  "k < length cs \<Longrightarrow> mc_inUse (cs[i := (cs ! i)\<lparr>mc_motSlide := x\<rparr>] ! k) = mc_inUse (cs ! k)"
  "k < length cs \<Longrightarrow> mc_transportId (cs[i := (cs ! i)\<lparr>mc_motSlide := x\<rparr>] ! k) = mc_transportId (cs ! k)"
proof -
  show "mt_orderNumber (tab[i := (tab ! i)\<lparr>mt_motSlide := x\<rparr>] ! j) = mt_orderNumber (tab ! j)"
    "mt_transportId (tab[i := (tab ! i)\<lparr>mt_motSlide := x\<rparr>] ! j) = mt_transportId (tab ! j)" if "j < length tab"
    using that by (cases "i = j"; simp)+
  show "mc_inUse (cs[i := (cs ! i)\<lparr>mc_motSlide := x\<rparr>] ! k) = mc_inUse (cs ! k)"
    "mc_transportId (cs[i := (cs ! i)\<lparr>mc_motSlide := x\<rparr>] ! k) = mc_transportId (cs ! k)" if "k < length cs"
    using that by (cases "i = k"; simp)+
qed

lemma at_handle_places:
  assumes "mot_ok s" "getHandle t s = Some handle"
  shows "getHandle t' (at_handle f handle s) = getHandle t' s"
proof (rule getHandle_cong)
  fix t
  have "dir_getHandle t (d\<lparr>md_motComponents := (md_motComponents d)[i := (md_motComponents d ! i)\<lparr>mc_motSlide := x\<rparr>]\<rparr>) = dir_getHandle t d"
    if "mh_Directory s = Some d" for d i x
    unfolding dir_getHandle_def using assms(1) that by (intro find_cong) (auto simp: mot_ok_def update_slide)
  then show "map_option (dir_getHandle t) (mh_Directory (at_handle f handle s)) = map_option (dir_getHandle t) (mh_Directory s)"
    by (simp add: at_handle_def split: mot_handle.split option.split)
qed (auto simp: at_handle_def update_slide split: mot_handle.split option.split)

lemma at_handle_object:
  assumes "mot_ok s" "getHandle t s = Some handle" "object_at s handle = Some m"
  shows "mot_lookup (at_handle f handle s) = (mot_lookup s)(t \<mapsto> (f m)\<lparr>mo_signals := []\<rparr>)"
    and "mh_signals (at_handle f handle s) = mh_signals s @ mo_signals (f m)"
    and "mot_ok (at_handle f handle s)" "mot_room (at_handle f handle s) = mot_room s"
proof -
  have handle: "(\<exists>i. handle = InTable i \<and> i < length (mh_MotTable s) \<and> mt_transportId (mh_MotTable s ! i) = t) \<or>
      (\<exists>i d. handle = InDirectory i \<and> mh_Directory s = Some d \<and> i < length (md_motComponents d) \<and> mc_transportId (md_motComponents d ! i) = t)"
  proof (cases handle)
    case (InTable i)
    then show ?thesis
      using getHandle_table [of t s i] assms(2) by simp
  next
    case (InDirectory i)
    then obtain d where "mh_Directory s = Some d" "i < md_numObjects d" "mc_transportId (md_motComponents d ! i) = t"
      using getHandle_directory [of t s i] assms(2) by blast
    then show ?thesis
      using InDirectory assms(1) by (auto simp: mot_ok_def)
  qed
  have "object_at (at_handle f handle s) handle = Some ((f m)\<lparr>mo_signals := []\<rparr>)"
    using handle assms(3) by (auto simp: at_handle_def object_at_def)
  moreover have "object_at (at_handle f handle s) handle' = object_at s handle'" if "handle' \<noteq> handle" for handle'
    using that by (cases handle; cases handle') (auto simp: at_handle_def object_at_def split: option.split)
  moreover have "getHandle t' s \<noteq> Some handle" if "t' \<noteq> t" for t'
  proof
    assume "getHandle t' s = Some handle"
    then show False
      using handle that getHandle_table(3) [of t' s] getHandle_directory [of t' s] by (metis option.inject)
  qed
  ultimately have "mot_lookup (at_handle f handle s) t' = ((mot_lookup s)(t \<mapsto> (f m)\<lparr>mo_signals := []\<rparr>)) t'" for t'
    using assms(2) unfolding mot_lookup_def at_handle_places [OF assms(1,2)]
    by (cases "t' = t"; cases "getHandle t' s") fastforce+
  then show "mot_lookup (at_handle f handle s) = (mot_lookup s)(t \<mapsto> (f m)\<lparr>mo_signals := []\<rparr>)"
    by (rule ext)
  show "mh_signals (at_handle f handle s) = mh_signals s @ mo_signals (f m)"
    using handle assms(3) by (auto simp: at_handle_def object_at_def)
  show "mot_ok (at_handle f handle s)"
    using handle assms(1,3)
    by (auto simp: at_handle_def object_at_def mot_ok_def dest!: set_update_subset_insert [THEN subsetD])
  have "map mt_orderNumber ((mh_MotTable s)[i := (mh_MotTable s ! i)\<lparr>mt_motSlide := x\<rparr>]) = map mt_orderNumber (mh_MotTable s)" for i x
    by (intro nth_equalityI) (simp_all add: update_slide)
  then have "map mt_orderNumber (mh_MotTable (at_handle f handle s)) = map mt_orderNumber (mh_MotTable s)"
    by (auto simp: at_handle_def split: mot_handle.split option.split)
  then have "length (filter (\<lambda>n. n = - 1) (map mt_orderNumber (mh_MotTable (at_handle f handle s)))) =
      length (filter (\<lambda>n. n = - 1) (map mt_orderNumber (mh_MotTable s)))"
    by simp
  then show "mot_room (at_handle f handle s) = mot_room s"
    by (simp add: mot_room_def filter_map comp_def)
qed

text \<open>A new object takes the first free place.\<close>

lemma filter_update:
  assumes "i < length xs" "P (xs ! i)" "\<not> P x"
  shows "length (filter P (xs[i := x])) = length (filter P xs) - 1"
proof -
  have "filter P xs = filter P (take i xs) @ xs ! i # filter P (drop (Suc i) xs)"
    using assms(1,2) id_take_nth_drop [of i xs] by (metis filter.simps(2) filter_append)
  moreover have "filter P (xs[i := x]) = filter P (take i xs) @ filter P (drop (Suc i) xs)"
    using assms(1,3) by (simp add: upd_conv_take_nth_drop)
  ultimately show ?thesis
    by simp
qed

lemma create_object:
  assumes ok: "mot_ok s" and none: "mot_lookup s t = None" and room: "0 < mot_room s"
  shows "mot_lookup (snd (setHandle m t s)) = (mot_lookup s)(t \<mapsto> m)"
    and "mot_ok (snd (setHandle m t s)) \<and> mot_room (snd (setHandle m t s)) = mot_room s - 1 \<and> mh_signals (snd (setHandle m t s)) = mh_signals s"
    and "getHandle t (snd (setHandle m t s)) = Some (InTable (fst (setHandle m t s)))"
proof -
  let ?tab = "mh_MotTable s" and ?e = "\<lparr>mt_transportId = t, mt_orderNumber = mh_OrderNumber s, mt_motSlide = Some m\<rparr>"
  obtain i where i: "find (\<lambda>i. mt_orderNumber (?tab ! i) = - 1) [0..<length ?tab] = Some i"
  proof -
    obtain e where "e \<in> set ?tab" "mt_orderNumber e = - 1"
      using room by (auto simp: mot_room_def filter_empty_conv)
    then obtain j where "j < length ?tab" "mt_orderNumber (?tab ! j) = - 1"
      by (metis in_set_conv_nth)
    then show thesis
      using that by (cases "find (\<lambda>i. mt_orderNumber (?tab ! i) = - 1) [0..<length ?tab]") (auto simp: find_None_iff)
  qed
  have free: "i < length ?tab" "mt_orderNumber (?tab ! i) = - 1"
    using find_upt_Some [OF i] by simp_all
  have set: "setHandle m t s = (i, s\<lparr>mh_MotTable := ?tab[i := ?e], mh_OrderNumber := mh_OrderNumber s + 1\<rparr>)"
    by (simp add: setHandle_def i)
  define s' where "s' = s\<lparr>mh_MotTable := ?tab[i := ?e], mh_OrderNumber := mh_OrderNumber s + 1\<rparr>"
  have fields: "mh_Directory s' = mh_Directory s" "mh_MotTable s' = ?tab[i := ?e]"
    by (simp_all add: s'_def)
  have n: "getHandle t s = None"
    using lookup_None [OF ok] none by simp
  then have none_t: "\<not> (mt_orderNumber (?tab ! j) \<ge> 0 \<and> mt_transportId (?tab ! j) = t)" if "j < length ?tab" for j
    using that by (auto simp: getHandle_def find_None_iff split: option.splits)
  have "find (\<lambda>j. mt_orderNumber (?tab[i := ?e] ! j) \<ge> 0 \<and> mt_transportId (?tab[i := ?e] ! j) = t) [0..<length ?tab] = Some i"
  proof (subst find_Some_iff, intro exI [of _ i] conjI allI impI)
    show "\<not> (mt_orderNumber (?tab[i := ?e] ! ([0..<length ?tab] ! j)) \<ge> 0 \<and> mt_transportId (?tab[i := ?e] ! ([0..<length ?tab] ! j)) = t)"
      if "j < i" for j
      using none_t [of j] that free(1) by simp
  qed (use ok free in \<open>auto simp: mot_ok_def\<close>)
  then have here: "getHandle t s' = Some (InTable i)"
    by (simp add: getHandle_def s'_def)
  then show "getHandle t (snd (setHandle m t s)) = Some (InTable (fst (setHandle m t s)))"
    by (simp add: set s'_def)
  have other: "getHandle t' s' = getHandle t' s" if "t' \<noteq> t" for t'
  proof -
    have "(mt_orderNumber (?tab[i := ?e] ! j) \<ge> 0 \<and> mt_transportId (?tab[i := ?e] ! j) = t') \<longleftrightarrow>
        (mt_orderNumber (?tab ! j) \<ge> 0 \<and> mt_transportId (?tab ! j) = t')" for j
      using that free by (cases "j = i") auto
    then show ?thesis
      unfolding getHandle_def fields length_list_update by (simp only:)
  qed
  have free_place: "getHandle t' s \<noteq> Some (InTable i)" for t'
    using free getHandle_table(2) [of t' s i] by auto
  have same: "object_at s' handle = object_at s handle" if "handle \<noteq> InTable i" for handle
    using that by (cases handle) (auto simp: object_at_def s'_def)
  have new: "object_at s' (InTable i) = Some m"
    using free by (simp add: object_at_def fields)
  have "mot_lookup s' t' = ((mot_lookup s)(t \<mapsto> m)) t'" for t'
  proof (cases "t' = t")
    case True
    then show ?thesis
      using here new by (simp add: mot_lookup_def)
  next
    case False
    then show ?thesis
      using other [of t'] free_place [of t'] same by (cases "getHandle t' s") (auto simp: mot_lookup_def)
  qed
  then show "mot_lookup (snd (setHandle m t s)) = (mot_lookup s)(t \<mapsto> m)"
    unfolding set snd_conv s'_def by (rule ext)
  have "mot_room s' = mot_room s - 1"
    unfolding mot_room_def s'_def using free ok by (simp add: filter_update mot_ok_def)
  moreover have "mot_ok s'"
    using ok unfolding mot_ok_def s'_def by (auto dest!: set_update_subset_insert [THEN subsetD])
  ultimately show "mot_ok (snd (setHandle m t s)) \<and> mot_room (snd (setHandle m t s)) = mot_room s - 1 \<and> mh_signals (snd (setHandle m t s)) = mh_signals s"
    by (simp add: set s'_def)
qed

text \<open>When there is no room, the object with the smallest number, the oldest, gives up its place.\<close>

lemma oldest_place_least:
  assumes "\<forall>e\<in>set tab. mt_orderNumber e < n" "tab \<noteq> []"
  shows "oldest_place tab n < length tab \<and> (\<forall>e\<in>set tab. mt_orderNumber (tab ! oldest_place tab n) \<le> mt_orderNumber e)"
proof -
  let ?f = "\<lambda>(oldest, index) i. if mt_orderNumber (tab ! i) < oldest then (mt_orderNumber (tab ! i), i) else (oldest, index)"
  have "case foldl ?f (n, 0) [0..<k] of (oldest, index) \<Rightarrow>
      (if k = 0 then oldest = n else index < k \<and> oldest = mt_orderNumber (tab ! index)) \<and> (\<forall>i<k. oldest \<le> mt_orderNumber (tab ! i))"
    if "k \<le> length tab" for k
    using that
  proof (induction k)
    case (Suc k)
    have "mt_orderNumber (tab ! k) < n"
      using assms(1) Suc.prems by simp
    then show ?case
      using Suc by (auto simp: less_Suc_eq split: prod.splits if_splits)
  qed simp
  from this [of "length tab"] show ?thesis
    using assms(2) unfolding oldest_place_def by (auto simp: in_set_conv_nth split: prod.splits)
qed

interpretation mot: object_store mot_lookup mot_call "\<lambda>m t s. snd (setHandle m t s)" mot_room mh_signals mot_ok
proof
  fix s t m f
  assume ok: "mot_ok s" and m: "mot_lookup s t = Some m"
  then obtain handle where h: "getHandle t s = Some handle" "object_at s handle = Some m"
    by (auto simp: mot_lookup_def split: option.splits)
  note a = at_handle_object [OF ok h]
  show "mot_lookup (mot_call f t s) = (mot_lookup s)(t \<mapsto> (f m)\<lparr>mo_signals := []\<rparr>)"
    "mh_signals (mot_call f t s) = mh_signals s @ mo_signals (f m)"
    "mot_ok (mot_call f t s) \<and> mot_room (mot_call f t s) = mot_room s"
    using a by (simp_all add: mot_call_def h(1))
qed (use create_object in blast)+

section \<open>Data groups\<close>

text \<open>A number in \<open>n\<close> bits, each in a byte of its own, the highest first.\<close>

definition nat_bits :: "nat \<Rightarrow> nat \<Rightarrow> u8 list" where
  "nat_bits n v = map (\<lambda>i. of_bool (bit v (n - 1 - i))) [0..<n]"

lemma length_nat_bits [simp]: "length (nat_bits n v) = n"
  by (simp add: nat_bits_def)

lemma nat_bits_Suc: "nat_bits (Suc n) v = nat_bits n (v div 2) @ [of_bool (odd v)]"
proof (rule nth_equalityI)
  fix i assume "i < length (nat_bits (Suc n) v)"
  then show "nat_bits (Suc n) v ! i = (nat_bits n (v div 2) @ [of_bool (odd v)]) ! i"
    by (cases "i = n") (auto simp: nat_bits_def nth_append bit_Suc [symmetric] bit_0 Suc_diff_Suc simp del: upt_Suc)
qed simp

lemma nat_bits_val:
  assumes "v < 2 ^ n" "\<And>i. i < n \<Longrightarrow> d (p + i) = nat_bits n v ! i"
  shows "bits_val d p n = v"
  using assms
proof (induction n arbitrary: v)
  case (Suc n)
  have "bits_val d p n = v div 2"
    using Suc.prems by (intro Suc.IH) (auto simp: nat_bits_Suc nth_append)
  moreover have "d (p + n) = of_bool (odd v)"
    using Suc.prems(2) [of n] by (simp add: nat_bits_Suc nth_append)
  ultimately show ?case
    by (cases "odd v") simp_all
qed simp

lemma ptr_field:
  assumes "g = xs @ nat_bits n v @ ys" "v < 2 ^ n"
  shows "bits_val (ptr mem g) (length xs) n = v" "is_bits (ptr mem g) (length xs) n"
proof -
  have "ptr mem g (length xs + i) = nat_bits n v ! i" if "i < n" for i
    using assms(1) that by (simp add: ptr_def nth_append)
  then show "bits_val (ptr mem g) (length xs) n = v" "is_bits (ptr mem g) (length xs) n"
    using assms(2) nat_bits_val [of v n "ptr mem g" "length xs"] by (auto simp: is_bits_def nat_bits_def)
qed

text \<open>
  A data group: the flags of an extension field and of a check word, both present or not, the segment field
  and the user access field with a transport id, the size of the segment and the segment.
\<close>

definition group_head :: "u8 list \<Rightarrow> u8 list \<Rightarrow> u8 list \<Rightarrow> nat \<Rightarrow> nat \<Rightarrow> nat \<Rightarrow> bool \<Rightarrow> u8 list" where
  "group_head ci ext crc ty tid num lst =
     nat_bits 1 (of_bool (ext \<noteq> [])) @ nat_bits 1 (of_bool (crc \<noteq> [])) @ nat_bits 1 1 @ nat_bits 1 1 @ nat_bits 4 ty @ ci @ ext @
     nat_bits 1 (of_bool lst) @ nat_bits 15 num @ nat_bits 3 0 @ nat_bits 1 1 @ nat_bits 4 2 @ nat_bits 16 tid"

definition segment_bytes :: "u8 list \<Rightarrow> u8 list" where
  "segment_bytes seg = [of_nat (length seg div 256), of_nat (length seg mod 256)] @ seg"

definition mot_group :: "u8 list \<Rightarrow> u8 list \<Rightarrow> u8 list \<Rightarrow> nat \<Rightarrow> nat \<Rightarrow> nat \<Rightarrow> bool \<Rightarrow> u8 list \<Rightarrow> u8 list" where
  "mot_group ci ext crc ty tid num lst seg =
     group_head ci ext crc ty tid num lst @ concat (map (\<lambda>b. nat_bits 8 (unat b)) (segment_bytes seg)) @ crc"

lemma check_CRC_cong: "(\<And>i. i < n \<Longrightarrow> d i = e i) \<Longrightarrow> check_CRC_bits d n = check_CRC_bits e n"
  unfolding check_CRC_bits_def Let_def by (intro arg_cong [where f = "\<lambda>b. sum_list (map unat b) = 0"] foldl_cong) auto

lemma length_byte_fields: "length (concat (map (\<lambda>b. nat_bits 8 (unat b)) bs)) = 8 * length bs"
  by (induction bs) simp_all

lemma byte_field:
  assumes "i < length bs"
  shows "concat (map (\<lambda>b. nat_bits 8 (unat b)) bs) =
    concat (map (\<lambda>b. nat_bits 8 (unat b)) (take i bs)) @ nat_bits 8 (unat (bs ! i)) @ concat (map (\<lambda>b. nat_bits 8 (unat b)) (drop (Suc i) bs))"
  using id_take_nth_drop [OF assms] by (metis (no_types) concat.simps(2) concat_append list.simps(9) map_append)

lemma read_byte:
  assumes "g = xs @ concat (map (\<lambda>b. nat_bits 8 (unat b)) bs) @ ys" "i < length bs"
  shows "foldl (\<lambda>t j. push_bit 1 t OR ptr mem g (length xs + 8 * i + j)) 0 [0..<8] = bs ! i"
proof -
  let ?p = "length xs + 8 * i"
  have g: "g = (xs @ concat (map (\<lambda>b. nat_bits 8 (unat b)) (take i bs))) @ nat_bits 8 (unat (bs ! i)) @
      (concat (map (\<lambda>b. nat_bits 8 (unat b)) (drop (Suc i) bs)) @ ys)"
    using assms(1) byte_field [OF assms(2)] by simp
  have p: "length (xs @ concat (map (\<lambda>b. nat_bits 8 (unat b)) (take i bs))) = ?p"
    using assms(2) by (simp add: length_byte_fields)
  have "unat (bs ! i) < 2 ^ 8"
    using unsigned_less [of "bs ! i", where 'a = nat] by simp
  from ptr_field [OF g this, of mem] have "bits_val (ptr mem g) ?p 8 = unat (bs ! i)" "is_bits (ptr mem g) ?p 8"
    unfolding p by simp_all
  then have "unat (foldl (\<lambda>res i. push_bit 1 res OR ucast (ptr mem g (?p + i))) (0 :: u8) [0..<8]) = unat (bs ! i)"
    using shift_in_foldl [of 8 "ptr mem g" ?p, where 'a = 8] by simp
  then show ?thesis
    by (simp add: word_unat_eq_iff)
qed

text \<open>The fields of a group, wherever they lie.\<close>

definition field_at :: "u8 list \<Rightarrow> nat \<Rightarrow> nat \<Rightarrow> nat \<Rightarrow> bool" where
  "field_at g p n v \<longleftrightarrow> p + n \<le> length g \<and> take n (drop p g) = nat_bits n v"

lemma field_read:
  assumes "field_at g p n v" "v < 2 ^ n"
  shows "bits_val (ptr mem g) p n = v" "is_bits (ptr mem g) p n"
proof -
  have "g = take p g @ nat_bits n v @ drop (p + n) g"
    using assms(1) append_take_drop_id [of n "drop p g"] by (simp add: field_at_def add.commute)
  moreover have "length (take p g) = p"
    using assms(1) by (simp add: field_at_def)
  ultimately show "bits_val (ptr mem g) p n = v" "is_bits (ptr mem g) p n"
    using ptr_field [of g "take p g" n v _ mem] assms(2) by metis+
qed

lemma field_readers:
  "field_at g p 1 v \<Longrightarrow> v < 2 \<Longrightarrow> unat (getBits_1 (ptr mem g) p) = v"
  "field_at g p 4 v \<Longrightarrow> v < 16 \<Longrightarrow> unat (getBits_4 (ptr mem g) p) = v"
  "field_at g p n v \<Longrightarrow> v < 2 ^ n \<Longrightarrow> n \<le> 16 \<Longrightarrow> unat (getBits (ptr mem g) p n) = v"
  using field_read [of g p 1 v mem] field_read [of g p 4 v mem] field_read [of g p n v mem]
  by (simp_all add: unrolled_readers byte_reader.rd_val short_reader.rd_val)

definition group_ok :: "u8 list \<Rightarrow> u8 list \<Rightarrow> u8 list \<Rightarrow> u8 list \<Rightarrow> bool" where
  "group_ok ci ext crc g \<longleftrightarrow> length ci = 8 \<and> (ext = [] \<or> length ext = 16) \<and> (crc = [] \<or> length crc = 16 \<and> check_CRC_bits ((!) g) (length g))"

lemma group_fields:
  assumes "group_ok ci ext crc g" "g = mot_group ci ext crc ty tid num lst seg"
  shows "field_at g 0 1 (of_bool (ext \<noteq> []))" "field_at g 1 1 (of_bool (crc \<noteq> []))" "field_at g 2 1 1" "field_at g 3 1 1"
    "field_at g 4 4 ty" "field_at g (16 + length ext) 1 (of_bool lst)" "field_at g (17 + length ext) 15 num"
    "field_at g (35 + length ext) 1 1" "field_at g (36 + length ext) 4 2" "field_at g (40 + length ext) 16 tid"
    "length (group_head ci ext crc ty tid num lst) = 56 + length ext"
  using assms by (auto simp: group_ok_def field_at_def mot_group_def group_head_def)

lemma group_parsed:
  assumes ok: "group_ok ci ext crc g" and g: "g = mot_group ci ext crc ty tid num lst seg"
    and v: "ty < 16" "tid < 2 ^ 16" "num < 2 ^ 15"
  shows "mot_add_MSC_data_group mem vmem dmem g s = mot_segment dmem ty tid num lst (ptr vmem (segment_bytes seg)) s"
proof -
  let ?d = "ptr mem g" and ?e = "length ext"
  note f = group_fields [OF ok g]
  have flag: "getBits_1 ?d p \<noteq> 0 \<longleftrightarrow> b" if "field_at g p 1 (of_bool b)" for p b
    using field_readers(1) [OF that, of mem] by (cases b) (auto simp: unsigned_eq_0_iff)
  have flags: "getBits_1 ?d 0 \<noteq> 0 \<longleftrightarrow> ext \<noteq> []" "getBits_1 ?d 1 \<noteq> 0 \<longleftrightarrow> crc \<noteq> []" "getBits_1 ?d 2 \<noteq> 0" "getBits_1 ?d 3 \<noteq> 0"
    "getBits_1 ?d (16 + ?e) \<noteq> 0 \<longleftrightarrow> lst" "getBits_1 ?d (35 + ?e) \<noteq> 0"
    using flag [OF f(1)] flag [OF f(2)] flag [of 2 True] flag [of 3 True] flag [OF f(6)] flag [of "35 + ?e" True] f(3,4,8) by simp_all
  have nums: "unat (getBits_4 ?d 4) = ty" "unat (getBits ?d (17 + ?e) 15) = num" "unat (getBits_4 ?d (36 + ?e)) = 2"
    "unat (getBits ?d (40 + ?e) 16) = tid"
    using field_readers(2) [OF f(5)] field_readers(3) [OF f(7)] field_readers(2) [OF f(9)] field_readers(3) [OF f(10)] v by simp_all
  have n1: "(if ext \<noteq> [] then 32 else 16) = 16 + ?e"
    using ok by (auto simp: group_ok_def)
  have len: "length g = 56 + ?e + 8 * length (segment_bytes seg) + length crc"
    using f(11) by (simp add: g mot_group_def length_byte_fields)
  have "check_CRC_bits ?d (length g) = check_CRC_bits ((!) g) (length g)"
    by (rule check_CRC_cong) (simp add: ptr_def)
  then have crc: "(crc \<noteq> [] \<and> \<not> check_CRC_bits ?d (length g)) = False"
    using ok by (auto simp: group_ok_def)
  have size: "int (length g) - int (56 + ?e) - (if crc \<noteq> [] then 16 else 0) = int (8 * length (segment_bytes seg))"
    using ok by (auto simp: len group_ok_def)
  have "map (\<lambda>i. foldl (\<lambda>t j. push_bit 1 t OR ?d (56 + ?e + 8 * i + j)) 0 [0..<8]) [0..<length (segment_bytes seg)] = segment_bytes seg"
    using read_byte [of g "group_head ci ext crc ty tid num lst" "segment_bytes seg" crc _ mem] f(11)
    by (intro nth_equalityI) (simp_all add: g mot_group_def)
  moreover have "16 + ?e + 16 + 8 + 2 * 8 = 56 + ?e" "16 + ?e + 1 = 17 + ?e" "16 + ?e + 16 + 3 = 35 + ?e" "16 + ?e + 16 + 8 = 40 + ?e"
    "16 + ?e + 16 + 4 = 36 + ?e" "nat (int (8 * length (segment_bytes seg))) div 8 = length (segment_bytes seg)"
    "\<not> int (8 * length (segment_bytes seg)) \<le> - 8" "length g \<noteq> 0"
    by (simp_all add: len nat_mult_distrib)
  ultimately show ?thesis
    unfolding mot_add_MSC_data_group_def Let_def by (simp only: flags nums n1 crc size if_True if_False simp_thms)
qed

section \<open>Reception of a carousel\<close>

text \<open>Data groups one after the other, each with the memory behind the vectors at that time.\<close>

fun mot_add_groups :: "((nat \<Rightarrow> u8) \<times> (nat \<Rightarrow> u8) \<times> (nat \<Rightarrow> u8) \<times> u8 list) list \<Rightarrow> mot_handler \<Rightarrow> mot_handler option" where
  "mot_add_groups [] s = Some s"
| "mot_add_groups ((mem, vmem, dmem, g) # calls) s =
     (case mot_add_MSC_data_group mem vmem dmem g s of None \<Rightarrow> None | Some s \<Rightarrow> mot_add_groups calls s)"

lemma mot_add_groups_append:
  "mot_add_groups (xs @ ys) s = (case mot_add_groups xs s of None \<Rightarrow> None | Some s \<Rightarrow> mot_add_groups ys s)"
  by (induction xs arbitrary: s) (auto split: option.split)

text \<open>
  A header that says the same whatever lies behind it in memory, the objects that can be sent, the data
  group of an event, and the order a receiver needs: the header of an object comes before its segments.
\<close>

definition self_contained :: "u8 list \<Rightarrow> bool" where
  "self_contained hdr \<longleftrightarrow> (\<forall>mem. header_core (ptr mem hdr) = header_core (ptr (\<lambda>_. 0) hdr) \<and>
     header_name (ptr mem hdr) [] = header_name (ptr (\<lambda>_. 0) hdr) [])"

definition object_ok :: "u8 list \<Rightarrow> u8 list list \<Rightarrow> bool" where
  "object_ok hdr segs \<longleftrightarrow> self_contained hdr \<and> length hdr < 8192 \<and> segs \<noteq> [] \<and> length segs \<le> 8192 \<and> (\<forall>seg\<in>set segs. length seg < 8192)"

definition sent_event :: "(nat \<Rightarrow> u8 list) \<Rightarrow> (nat \<Rightarrow> u8 list list) \<Rightarrow> nat \<times> mot_event \<Rightarrow> u8 list \<Rightarrow> bool" where
  "sent_event hdr segs e g \<longleftrightarrow> (\<exists>ci ext crc lst. group_ok ci ext crc g \<and>
     (case e of (t, Header) \<Rightarrow> g = mot_group ci ext crc 3 t 0 lst (hdr t)
      | (t, Segment i) \<Rightarrow> i < length (segs t) \<and> g = mot_group ci ext crc 4 t i (Suc i = length (segs t)) (segs t ! i)))"

lemma sent_header:
  "group_ok ci ext crc (mot_group ci ext crc 3 t 0 lst (hdr t)) \<Longrightarrow> sent_event hdr segs (t, Header) (mot_group ci ext crc 3 t 0 lst (hdr t))"
  by (auto simp: sent_event_def)

lemma sent_segment:
  "group_ok ci ext crc (mot_group ci ext crc 4 t i (Suc i = length (segs t)) (segs t ! i)) \<Longrightarrow> i < length (segs t) \<Longrightarrow>
    sent_event hdr segs (t, Segment i) (mot_group ci ext crc 4 t i (Suc i = length (segs t)) (segs t ! i))"
  by (auto simp: sent_event_def)

definition headers_first :: "(nat \<times> mot_event) list \<Rightarrow> bool" where
  "headers_first es \<longleftrightarrow> (\<forall>k<length es. snd (es ! k) \<noteq> Header \<longrightarrow> (fst (es ! k), Header) \<in> set (take k es))"

lemma headers_first_snoc:
  "headers_first (es @ [e]) \<longleftrightarrow> headers_first es \<and> (snd e \<noteq> Header \<longrightarrow> (fst e, Header) \<in> set es)"
  by (auto simp: headers_first_def less_Suc_eq nth_append)

lemma header_event: "Header \<in> set (events_of t es) \<longleftrightarrow> (t, Header) \<in> set es"
  by (force simp: events_of_def)

lemma headers_first_none: "headers_first es \<Longrightarrow> (t, Header) \<notin> set es \<Longrightarrow> events_of t es = []"
  by (induction es rule: rev_induct) (auto simp: headers_first_snoc events_of_def)

lemma segment_read:
  fixes vmem :: "nat \<Rightarrow> u8"
  assumes "length seg < 8192"
  defines "v \<equiv> ptr vmem (segment_bytes seg)"
  shows "unat (v 0 AND 0x1f) * 256 + unat (v 1) = length seg" "map (\<lambda>i. v (2 + i)) [0..<length seg] = seg"
    "(\<lambda>i. v (2 + i)) = ptr vmem seg"
proof -
  have m: "(0x1f :: u8) = mask 5"
    by (simp add: mask_eq_exp_minus_1)
  have "v 0 = of_nat (length seg div 256)" "v 1 = of_nat (length seg mod 256)"
    by (simp_all add: v_def segment_bytes_def ptr_def)
  moreover have "length seg div 256 < 32"
    using assms(1) by simp
  ultimately have "unat (v 0 AND 0x1f) = length seg div 256" "unat (v 1) = length seg mod 256"
    by (simp_all add: m flip: take_bit_eq_mask) (simp_all add: unsigned_take_bit_eq unat_of_nat take_bit_nat_def)
  then show "unat (v 0 AND 0x1f) * 256 + unat (v 1) = length seg"
    by simp
  show "map (\<lambda>i. v (2 + i)) [0..<length seg] = seg"
    by (intro nth_equalityI) (simp_all add: v_def segment_bytes_def ptr_def)
  show "(\<lambda>i. v (2 + i)) = ptr vmem seg"
    by (rule ext) (simp add: v_def segment_bytes_def ptr_def)
qed

lemma new_object:
  fixes mem :: "nat \<Rightarrow> u8" and t :: nat
  assumes "self_contained hdr"
  defines "m \<equiv> MotObject_header False False t (ptr mem hdr)"
  shows "mo_signals m = []" "holds_events False (ptr (\<lambda>_. 0) hdr) segs (int t) [Header] m"
proof -
  have h: "header_core (ptr mem hdr) = header_core (ptr (\<lambda>_. 0) hdr)" "header_name (ptr mem hdr) [] = header_name (ptr (\<lambda>_. 0) hdr) []"
    using assms(1) unfolding self_contained_def by blast+
  have m: "m = (new_MotObject False False)\<lparr>mo_TransportId := int t, mo_HeaderCore := header_core (ptr mem hdr), mo_Name := header_name (ptr mem hdr) []\<rparr>"
    by (simp add: m_def MotObject_header_def set_header_def new_MotObject_def mot_reset_def check_if_complete_def Let_def header_name_def)
  show "mo_signals m = []" "holds_events False (ptr (\<lambda>_. 0) hdr) segs (int t) [Header] m"
    unfolding m by (simp_all add: new_MotObject_def holds_events_def h)
qed

lemma handler_start: "finite T \<Longrightarrow> card T \<le> 15 \<Longrightarrow> mot.carousel T H segs [] (MotHandler ids)"
proof -
  assume T: "finite T" "card T \<le> 15"
  have "find (\<lambda>i. mt_orderNumber (mh_MotTable (MotHandler ids) ! i) \<ge> 0 \<and> mt_transportId (mh_MotTable (MotHandler ids) ! i) = t)
      [0..<length (mh_MotTable (MotHandler ids))] = None" for t
    by (auto simp: find_None_iff MotHandler_def simp del: upt_rec_numeral)
  then have "mot_lookup (MotHandler ids) t = None" for t
    by (simp add: mot_lookup_def getHandle_def) (simp add: MotHandler_def)
  moreover have "mot_room (MotHandler ids) = 15"
    by (simp add: mot_room_def MotHandler_def filter_map comp_def del: upt_rec_numeral)
  moreover have "mot_ok (MotHandler ids)" "mh_signals (MotHandler ids) = []"
    by (auto simp: mot_ok_def MotHandler_def)
  ultimately show ?thesis
    using T unfolding mot.carousel_def by (simp add: events_of_def received_all_def)
qed

text \<open>One data group.\<close>

lemma carousel_group:
  assumes c: "mot.carousel T H segs es s" and T: "finite T" "fst e \<in> T" "fst e < 2 ^ 16" and hf: "headers_first (es @ [e])"
    and obj: "object_ok (hdr (fst e)) (segs (fst e))" and H: "H (fst e) = ptr (\<lambda>_. 0) (hdr (fst e))" and g: "sent_event hdr segs e g"
  shows "\<exists>s'. mot_add_MSC_data_group mem vmem dmem g s = Some s' \<and> mot.carousel T H segs (es @ [e]) s'"
proof -
  have ok: "mot_ok s"
    using c by (simp add: mot.carousel_def)
  obtain t ev where e: "e = (t, ev)"
    by (cases e)
  obtain ci ext crc lst where ge: "group_ok ci ext crc g" "case ev of Header \<Rightarrow> g = mot_group ci ext crc 3 t 0 lst (hdr t)
      | Segment i \<Rightarrow> i < length (segs t) \<and> g = mot_group ci ext crc 4 t i (Suc i = length (segs t)) (segs t ! i)"
    using g by (auto simp: sent_event_def e)
  show ?thesis
  proof (cases ev)
    case Header
    let ?m = "MotObject_header False False t (ptr vmem (hdr t))"
    have "length (hdr t) < 8192" "self_contained (hdr t)" "segs t \<noteq> []"
      using obj by (simp_all add: e object_ok_def)
    note h = this
    have run: "mot_add_MSC_data_group mem vmem dmem g s = Some (if mot_lookup s t = None then snd (setHandle ?m t s) else s)"
      using group_parsed [OF ge(1), of 3 t 0 lst "hdr t"] ge(2) T(3) segment_read(3) [OF h(1)] lookup_None [OF ok]
      by (simp add: Header e mot_segment_def Let_def)
    show ?thesis
    proof (cases "(t, Header) \<in> set es")
      case True
      then have "Header \<in> set (events_of t es)" "t \<in> T"
        using T(2) header_event [of t es] by (simp_all add: e)
      moreover from this have "mot_lookup s t \<noteq> None"
        using c unfolding mot.carousel_def by (metis option.distinct(1))
      ultimately show ?thesis
        using run mot.carousel_again [OF c, of t] by (auto simp: e Header)
    next
      case False
      then have none: "events_of t es = []"
        using headers_first_none hf by (auto simp: headers_first_snoc)
      have "t \<in> T" "H t = ptr (\<lambda>_. 0) (hdr t)"
        using T(2) H by (simp_all add: e)
      then show ?thesis
        using run mot.carousel_header [OF c T(1) _ none h(3), of ?m] new_object [OF h(2), where t = t and mem = vmem] by (simp add: e Header)
    qed
  next
    case (Segment i)
    have i: "i < length (segs t)" "length (segs t) \<le> 8192" "length (segs t ! i) < 8192" "t \<in> T" "Header \<in> set (events_of t es)"
      using ge(2) obj hf T(2) by (auto simp: Segment e object_ok_def headers_first_snoc header_event)
    note s = mot.carousel_segment [OF c T(1) i(4,5,1,2)]
    obtain handle where "getHandle t s = Some handle"
      using s(1) lookup_None [OF ok] by (cases "getHandle t s") auto
    then have "mot_add_MSC_data_group mem vmem dmem g s =
        Some (mot_call (add_body_segment (segs t ! i) (int i) (Suc i = length (segs t)) (int t)) t s)"
      using group_parsed [OF ge(1), of 4 t i "Suc i = length (segs t)" "segs t ! i"] ge(2) T(3) segment_read(1,2) [OF i(3)] i(1,2)
      by (simp add: Segment e mot_segment_def Let_def mot_call_def)
    then show ?thesis
      using s(2) by (simp add: e Segment)
  qed
qed

lemma carousel_run:
  assumes T: "finite T" "card T \<le> 15" "\<forall>t\<in>T. t < 2 ^ 16 \<and> object_ok (hdr t) (segs t)"
    and es: "fst ` set es \<subseteq> T" "headers_first es" "list_all2 (\<lambda>e (mem, vmem, dmem, g). sent_event hdr segs e g) es calls"
  shows "\<exists>s. mot_add_groups calls (MotHandler ids) = Some s \<and> mot.carousel T (\<lambda>t. ptr (\<lambda>_. 0) (hdr t)) segs es s"
  using es
proof (induction es arbitrary: calls rule: rev_induct)
  case Nil
  then show ?case
    using handler_start [OF T(1,2)] by simp
next
  case (snoc e es)
  obtain calls' mem vmem dmem g where calls: "calls = calls' @ [(mem, vmem, dmem, g)]" "sent_event hdr segs e g"
      "list_all2 (\<lambda>e (mem, vmem, dmem, g). sent_event hdr segs e g) es calls'"
    using snoc.prems(3) by (auto simp: list_all2_append1 list_all2_Cons1)
  obtain s where s: "mot_add_groups calls' (MotHandler ids) = Some s" "mot.carousel T (\<lambda>t. ptr (\<lambda>_. 0) (hdr t)) segs es s"
    using snoc.IH [OF _ _ calls(3)] snoc.prems(1,2) by (auto simp: headers_first_snoc)
  have "fst e \<in> T" "fst e < 2 ^ 16" "object_ok (hdr (fst e)) (segs (fst e))"
    using snoc.prems(1) T(3) by auto
  then obtain s' where "mot_add_MSC_data_group mem vmem dmem g s = Some s'" "mot.carousel T (\<lambda>t. ptr (\<lambda>_. 0) (hdr t)) segs (es @ [e]) s'"
    using carousel_group [OF s(2) T(1) _ _ snoc.prems(2) _ refl calls(2), of mem vmem dmem] by blast
  then show ?case
    using s(1) by (simp add: calls(1) mot_add_groups_append)
qed

section \<open>The table as a cache\<close>

text \<open>
  The specification: a queue of at most fifteen transport ids; a new one is put behind the others, and the first one is
  dropped when the queue is full.  The table holds the queue in any order of its places, with consecutive order numbers.
\<close>

definition cache_put :: "nat \<Rightarrow> nat list \<Rightarrow> nat list" where
  "cache_put t q = (if t \<in> set q then q else (if length q < 15 then q else tl q) @ [t])"

fun entries :: "(nat \<Rightarrow> mot_object) \<Rightarrow> int \<Rightarrow> nat list \<Rightarrow> SMotTable list" where
  "entries M n [] = []"
| "entries M n (t # q) = \<lparr>mt_transportId = t, mt_orderNumber = n, mt_motSlide = Some (M t)\<rparr> # entries M (n + 1) q"

abbreviation used :: "SMotTable list \<Rightarrow> SMotTable list" where
  "used tab \<equiv> filter (\<lambda>e. mt_orderNumber e \<noteq> - 1) tab"

definition caches :: "(nat \<Rightarrow> mot_object) \<Rightarrow> nat list \<Rightarrow> mot_handler \<Rightarrow> bool" where
  "caches M q s \<longleftrightarrow> mh_Directory s = None \<and> length (mh_MotTable s) = 15 \<and> length q \<le> 15 \<and> int (length q) \<le> mh_OrderNumber s \<and>
     mset (used (mh_MotTable s)) = mset (entries M (mh_OrderNumber s - int (length q)) q)"

lemma length_entries [simp]: "length (entries M n q) = length q"
  by (induction q arbitrary: n) simp_all

lemma entries_snoc:
  "entries M n (q @ [t]) = entries M n q @ [\<lparr>mt_transportId = t, mt_orderNumber = n + int (length q), mt_motSlide = Some (M t)\<rparr>]"
  by (induction q arbitrary: n) (simp_all add: algebra_simps)

lemma entries_order: "e \<in> set (entries M n q) \<Longrightarrow> n \<le> mt_orderNumber e \<and> mt_orderNumber e < n + int (length q)"
  by (induction q arbitrary: n) force+

lemma entries_ids: "t \<in> set q \<longleftrightarrow> (\<exists>e\<in>set (entries M n q). mt_transportId e = t)"
  by (induction q arbitrary: n) auto

lemma entries_slide: "e \<in> set (entries M n q) \<Longrightarrow> mt_motSlide e = Some (M (mt_transportId e))"
  by (induction q arbitrary: n) auto

lemma filter_update_add:
  assumes "i < length xs" "\<not> P (xs ! i)" "P x"
  shows "mset (filter P (xs[i := x])) = add_mset x (mset (filter P xs))"
proof -
  have "filter P xs = filter P (take i xs) @ filter P (drop (Suc i) xs)"
    using assms(1,2) id_take_nth_drop [of i xs] by (metis filter.simps(2) filter_append)
  moreover have "filter P (xs[i := x]) = filter P (take i xs) @ x # filter P (drop (Suc i) xs)"
    using assms(1,3) by (simp add: upd_conv_take_nth_drop)
  ultimately show ?thesis
    by (simp del: mset_filter)
qed

lemma filter_full: "length (filter P xs) = length xs \<Longrightarrow> filter P xs = xs"
proof (induction xs)
  case (Cons x xs)
  then show ?case
    using length_filter_le [of P xs] by (cases "P x") simp_all
qed simp

lemma cache_places:
  assumes "caches M q s"
  shows "(\<exists>i<length (mh_MotTable s). mt_orderNumber (mh_MotTable s ! i) \<ge> 0 \<and> mt_transportId (mh_MotTable s ! i) = t) \<longleftrightarrow> t \<in> set q"
    and "i < length (mh_MotTable s) \<Longrightarrow> mt_orderNumber (mh_MotTable s ! i) \<ge> 0 \<Longrightarrow>
      mt_motSlide (mh_MotTable s ! i) = Some (M (mt_transportId (mh_MotTable s ! i)))"
proof -
  let ?tab = "mh_MotTable s" and ?n = "mh_OrderNumber s - int (length q)"
  have u: "set (used ?tab) = set (entries M ?n q)" "0 \<le> ?n"
    using assms mset_eq_setD [of "used ?tab"] by (simp_all add: caches_def)
  have in_use: "?tab ! i \<in> set (entries M ?n q)" if "i < length ?tab" "mt_orderNumber (?tab ! i) \<ge> 0" for i
    using that u(1) by auto
  then show "i < length ?tab \<Longrightarrow> mt_orderNumber (?tab ! i) \<ge> 0 \<Longrightarrow> mt_motSlide (?tab ! i) = Some (M (mt_transportId (?tab ! i)))"
    using entries_slide by blast
  have "\<exists>i<length ?tab. mt_orderNumber (?tab ! i) \<ge> 0 \<and> mt_transportId (?tab ! i) = t" if "t \<in> set q"
  proof -
    obtain e where e: "e \<in> set (entries M ?n q)" "mt_transportId e = t"
      using \<open>t \<in> set q\<close> entries_ids by blast
    then have "e \<in> set ?tab" "0 \<le> mt_orderNumber e"
      using u entries_order [OF e(1)] by auto
    then show ?thesis
      using e(2) by (auto simp: in_set_conv_nth)
  qed
  then show "(\<exists>i<length ?tab. mt_orderNumber (?tab ! i) \<ge> 0 \<and> mt_transportId (?tab ! i) = t) \<longleftrightarrow> t \<in> set q"
    using in_use entries_ids [of t q M ?n] by auto
qed

lemma cache_lookup:
  assumes "caches M q s"
  shows "getHandle t s = None \<longleftrightarrow> t \<notin> set q" and "mot_lookup s t = (if t \<in> set q then Some (M t) else None)"
proof -
  have dir: "mh_Directory s = None"
    using assms by (simp add: caches_def)
  show none: "getHandle t s = None \<longleftrightarrow> t \<notin> set q"
    unfolding cache_places(1) [OF assms, symmetric] getHandle_def dir by (auto simp: find_None_iff dest!: find_upt_Some split: option.splits)
  show "mot_lookup s t = (if t \<in> set q then Some (M t) else None)"
  proof (cases "getHandle t s")
    case (Some handle)
    then obtain i where "handle = InTable i"
      using dir by (auto simp: getHandle_def split: option.splits)
    then show ?thesis
      using Some none getHandle_table [of t s i] cache_places(2) [OF assms, of i] by (simp add: mot_lookup_def object_at_def)
  qed (use none in \<open>simp add: mot_lookup_def\<close>)
qed

text \<open>Putting a new object: into a free place, or into the place of the first one of the queue.\<close>

lemma cache_setHandle:
  assumes c: "caches M q s" and new: "t \<notin> set q"
  shows "caches M (cache_put t q) (snd (setHandle (M t) t s))"
proof -
  let ?tab = "mh_MotTable s" and ?N = "mh_OrderNumber s" and ?free = "\<lambda>i. mt_orderNumber (mh_MotTable s ! i) = - 1"
  let ?e = "\<lparr>mt_transportId = t, mt_orderNumber = ?N, mt_motSlide = Some (M t)\<rparr>" and ?n = "?N - int (length q)"
  have len: "length ?tab = 15" "length q \<le> 15" "0 \<le> ?n" and ms: "mset (used ?tab) = mset (entries M ?n q)"
    using c by (simp_all add: caches_def)
  have size: "length (used ?tab) = length q"
    using arg_cong [OF ms, of size] by (simp del: mset_filter)
  show ?thesis
  proof (cases "length q < 15")
    case True
    then have "used ?tab \<noteq> ?tab"
      using size len(1) by (metis less_irrefl)
    then obtain j where "j < length ?tab" "?free j"
      by (auto simp: filter_id_conv in_set_conv_nth)
    then have "find ?free [0..<length ?tab] \<noteq> None"
      unfolding find_None_iff by auto
    then obtain i where i: "find ?free [0..<length ?tab] = Some i"
      by blast
    have "mset (used (?tab[i := ?e])) = add_mset ?e (mset (used ?tab))"
      using find_upt_Some [OF i] len(3) by (intro filter_update_add) auto
    moreover have "setHandle (M t) t s = (i, s\<lparr>mh_MotTable := ?tab[i := ?e], mh_OrderNumber := ?N + 1\<rparr>)"
      by (simp add: setHandle_def i)
    ultimately show ?thesis
      using c True new ms by (simp add: caches_def cache_put_def entries_snoc)
  next
    case False
    then have full: "length q = 15" "used ?tab = ?tab"
      using len size filter_full [of "\<lambda>e. mt_orderNumber e \<noteq> - 1" ?tab] by simp_all
    then have none: "find ?free [0..<length ?tab] = None"
      by (auto simp: find_None_iff filter_id_conv)
    obtain u q' where q: "q = u # q'"
      using full(1) by (cases q) auto
    let ?o = "oldest_place ?tab ?N" and ?u = "\<lparr>mt_transportId = u, mt_orderNumber = ?n, mt_motSlide = Some (M u)\<rparr>"
    have tab: "mset ?tab = add_mset ?u (mset (entries M (?n + 1) q'))"
      using ms full(2) by (simp add: q)
    then have set: "set ?tab = insert ?u (set (entries M (?n + 1) q'))"
      using mset_eq_setD [of ?tab "?u # entries M (?n + 1) q'"] by simp
    then have "\<forall>e\<in>set ?tab. mt_orderNumber e < ?N" "?tab \<noteq> []"
      using entries_order [of _ M "?n + 1" q'] len(1) by (auto simp: q)
    note o = oldest_place_least [OF this]
    then have "mt_orderNumber (?tab ! ?o) \<le> ?n" "?tab ! ?o \<in> set ?tab"
      using set by auto
    then have "?tab ! ?o = ?u"
      using set entries_order [of "?tab ! ?o" M "?n + 1" q'] by auto
    then have "mset (?tab[?o := ?e]) = add_mset ?e (mset (entries M (?n + 1) q'))"
      using o tab by (simp add: mset_update)
    moreover have "setHandle (M t) t s = (?o, s\<lparr>mh_MotTable := ?tab[?o := ?e], mh_OrderNumber := ?N + 1\<rparr>)"
      by (simp add: setHandle_def none Let_def)
    moreover have "used (?tab[?o := ?e]) = ?tab[?o := ?e]"
      using full(2) len(3) by (auto simp: filter_id_conv dest!: set_update_subset_insert [THEN subsetD])
    moreover have "length q' = 14"
      using full(1) by (simp add: q)
    ultimately show ?thesis
      using c new full(1) by (simp add: caches_def cache_put_def q entries_snoc algebra_simps)
  qed
qed

lemma cache_header:
  assumes c: "caches M q s" and hdr: "self_contained (hdr t)" "length (hdr t) < 8192" "t < 2 ^ 16" and g: "sent_event hdr segs (t, Header) g"
    and M: "M t = MotObject_header False False t (ptr (\<lambda>_. 0) (hdr t))"
  shows "\<exists>s'. mot_add_MSC_data_group mem vmem dmem g s = Some s' \<and> caches M (cache_put t q) s'"
proof -
  obtain ci ext crc lst where ge: "group_ok ci ext crc g" "g = mot_group ci ext crc 3 t 0 lst (hdr t)"
    using g by (auto simp: sent_event_def)
  have "MotObject_header False False t (ptr vmem (hdr t)) = M t"
    using hdr(1) unfolding M MotObject_header_def set_header_def Let_def self_contained_def
    by (simp add: new_MotObject_def mot_reset_def check_if_complete_def header_name_def)
  then have run: "mot_add_MSC_data_group mem vmem dmem g s = Some (if t \<in> set q then s else snd (setHandle (M t) t s))"
    using group_parsed [OF ge, of mem vmem dmem s] hdr(3) segment_read(3) [OF hdr(2), of vmem] cache_lookup(1) [OF c, of t]
    by (simp add: mot_segment_def Let_def)
  show ?thesis
  proof (cases "t \<in> set q")
    case True
    then show ?thesis
      using run c by (simp add: cache_put_def)
  next
    case False
    then show ?thesis
      using run cache_setHandle [OF c False] by simp
  qed
qed

lemma cache_start: "caches M [] (MotHandler ids)"
proof -
  have "used (mh_MotTable (MotHandler ids)) = []"
    by (auto simp: MotHandler_def filter_empty_conv)
  then show ?thesis
    by (simp add: caches_def) (simp add: MotHandler_def)
qed

section \<open>Properties\<close>

text \<open>
  C15: Reception of a carousel in packet mode: when the headers and segments of up to fifteen objects arrive
  as data groups, mixed in any order and with repetitions, only the header of each object before its
  segments, no group makes the handler fail, and the objects reported are exactly those whose header and
  segments have all arrived, each of them once, with its segments in order and the name and type of its
  header; with or without extension fields and check words, and whatever the memory behind the vectors
  holds.
\<close>

theorem mot_carousel_received:
  assumes "finite T" "card T \<le> 15" "\<forall>t\<in>T. t < 2 ^ 16 \<and> object_ok (hdr t) (segs t)"
    and "fst ` set es \<subseteq> T" "headers_first es" "list_all2 (\<lambda>e (mem, vmem, dmem, g). sent_event hdr segs e g) es calls"
  shows "\<exists>s. mot_add_groups calls (MotHandler ids) = Some s \<and>
    mset (filter is_object (mh_signals s)) =
      image_mset (\<lambda>t. object_signal False (ptr (\<lambda>_. 0) (hdr t)) (segs t) (int t))
        (mset_set {t \<in> T. (t, Header) \<in> set es \<and> (\<forall>i<length (segs t). (t, Segment i) \<in> set es)})"
proof -
  have "received_all (segs t) (events_of t es) \<longleftrightarrow> (t, Header) \<in> set es \<and> (\<forall>i<length (segs t). (t, Segment i) \<in> set es)" for t
    by (force simp: received_all_def events_of_def)
  note r = this
  obtain s where "mot_add_groups calls (MotHandler ids) = Some s" "mot.carousel T (\<lambda>t. ptr (\<lambda>_. 0) (hdr t)) segs es s"
    using carousel_run [OF assms] by blast
  then show ?thesis
    unfolding mot.carousel_def r by blast
qed

text \<open>An object of two segments; the second arrives first, and the header twice.\<close>

definition small_header :: "u8 list" where
  "small_header = [0, 0, 0, 48, 3, 132, 1]"

lemma small_header_read:
  "header_core (ptr mem small_header) = \<lparr>hc_initialized = True, hc_bodySize = 3, hc_headerSize = 7, hc_contentType = 2, hc_contentSubType = 1\<rparr>"
  "header_name (ptr mem small_header) [] = []"
proof -
  have "header_core (ptr mem small_header) = header_core (\<lambda>i. [0, 0, 0, 48, 3, 132, 1] ! i)"
    by (simp add: header_core_def extract_bits_from_byte_stream_def Let_def ptr_def small_header_def upt_rec)
  also have "\<dots> = \<lparr>hc_initialized = True, hc_bodySize = 3, hc_headerSize = 7, hc_contentType = 2, hc_contentSubType = 1\<rparr>"
    by code_simp
  finally show core: "header_core (ptr mem small_header) =
    \<lparr>hc_initialized = True, hc_bodySize = 3, hc_headerSize = 7, hc_contentType = 2, hc_contentSubType = 1\<rparr>" .
  show "header_name (ptr mem small_header) [] = []"
    by (simp add: header_name_def core header_extensions.simps [of _ 7 7])
qed

theorem mot_carousel_received_witness:
  "\<exists>s. mot_add_groups (map (\<lambda>g. (\<lambda>_. 0, \<lambda>_. 0, \<lambda>_. 0, g))
      [mot_group (replicate 8 0) [] [] 3 7 0 True small_header, mot_group (replicate 8 0) (replicate 16 1) [] 4 7 1 True [3],
       mot_group (replicate 8 1) [] [] 3 7 0 True small_header, mot_group (replicate 8 0) [] [] 4 7 0 False [1, 2]]) (MotHandler []) = Some s \<and>
    filter is_object (mh_signals s) = [signal_new_mot_object [1, 2, 3] [116, 114, 105, 100, 95, 55] 513 False]"
proof -
  let ?T = "{7 :: nat}" and ?hdr = "\<lambda>_ :: nat. small_header" and ?segs = "\<lambda>_ :: nat. [[1, 2], [3 :: u8]]"
  let ?es = "[(7 :: nat, Header), (7, Segment 1), (7, Header), (7, Segment 0)]"
  let ?calls = "map (\<lambda>g. (\<lambda>_ :: nat. 0 :: u8, \<lambda>_ :: nat. 0 :: u8, \<lambda>_ :: nat. 0 :: u8, g))
      [mot_group (replicate 8 0) [] [] 3 7 0 True small_header, mot_group (replicate 8 0) (replicate 16 1) [] 4 7 1 True [3],
       mot_group (replicate 8 1) [] [] 3 7 0 True small_header, mot_group (replicate 8 0) [] [] 4 7 0 False [1, 2]]"
  have T: "finite ?T" "card ?T \<le> 15" "\<forall>t\<in>?T. t < 2 ^ 16 \<and> object_ok (?hdr t) (?segs t)" "fst ` set ?es \<subseteq> ?T"
    by (simp_all add: object_ok_def self_contained_def small_header_read) (simp add: small_header_def)
  have "headers_first ?es"
    by (auto simp: headers_first_def less_Suc_eq)
  moreover have "sent_event ?hdr ?segs (7, Header) (mot_group ci [] [] 3 7 0 True small_header)"
    "sent_event ?hdr ?segs (7, Segment 0) (mot_group ci [] [] 4 7 0 False [1, 2])"
    "sent_event ?hdr ?segs (7, Segment 1) (mot_group ci (replicate 16 1) [] 4 7 1 True [3])" if "length ci = 8" for ci
    using sent_header [of ci "[]" "[]" 7 True ?hdr] sent_segment [of ci "[]" "[]" 7 0 ?segs] sent_segment [of ci "replicate 16 1" "[]" 7 1 ?segs] that
    by (simp_all add: group_ok_def)
  ultimately have es: "headers_first ?es" "list_all2 (\<lambda>e (mem, vmem, dmem, g). sent_event ?hdr ?segs e g) ?es ?calls"
    by simp_all
  obtain s where s: "mot_add_groups ?calls (MotHandler []) = Some s" "mset (filter is_object (mh_signals s)) =
      image_mset (\<lambda>t. object_signal False (ptr (\<lambda>_. 0) (?hdr t)) (?segs t) (int t))
        (mset_set {t \<in> ?T. (t, Header) \<in> set ?es \<and> (\<forall>i<length (?segs t). (t, Segment i) \<in> set ?es)})"
    using mot_carousel_received [OF T es, of "[]"] by blast
  have "{t \<in> ?T. (t, Header) \<in> set ?es \<and> (\<forall>i<length (?segs t). (t, Segment i) \<in> set ?es)} = {7}"
    by (auto simp: less_Suc_eq)
  moreover have "object_signal False (ptr (\<lambda>_. 0) small_header) [[1, 2], [3]] 7 = signal_new_mot_object [1, 2, 3] [116, 114, 105, 100, 95, 55] 513 False"
    by (simp add: object_signal_def object_name_def small_header_read get_content_type_def MOTCTBaseTypeMask_def MOTCTSubTypeMask_def decimal.simps [of 7])
  ultimately have "mset (filter is_object (mh_signals s)) = {#signal_new_mot_object [1, 2, 3] [116, 114, 105, 100, 95, 55] 513 False#}"
    unfolding s(2) by simp
  then have "filter is_object (mh_signals s) = [signal_new_mot_object [1, 2, 3] [116, 114, 105, 100, 95, 55] 513 False]"
    by (metis mset_single_iff mset.simps)
  with s(1) show ?thesis
    by blast
qed

text \<open>
  C37: The table of objects is a queue of the last fifteen. However many objects a packet mode service announces by
  their headers, in data groups with or without extension fields and check words, no group makes the handler fail, and afterwards
  the handler finds an object exactly when its transport id is in the queue of the specification: a header of an object
  that is found changes nothing, a new object is put behind the others, and when there are fifteen the one
  that was put in first gives up its place. What is found for an id is the object made from its own header.
\<close>

theorem mot_table_latest:
  assumes "\<forall>t\<in>set ts. t < 2 ^ 16 \<and> self_contained (hdr t) \<and> length (hdr t) < 8192"
    and "list_all2 (\<lambda>t (mem, vmem, dmem, g). sent_event hdr (\<lambda>_. []) (t, Header) g) ts calls"
  shows "\<exists>s. mot_add_groups calls (MotHandler ids) = Some s \<and>
    (\<forall>t. mot_lookup s t = (if t \<in> set (fold cache_put ts [])
      then Some (MotObject_header False False t (ptr (\<lambda>_. 0) (hdr t))) else None))"
proof -
  let ?M = "\<lambda>t. MotObject_header False False t (ptr (\<lambda>_. 0) (hdr t))"
  have "\<exists>s'. mot_add_groups calls s = Some s' \<and> caches ?M (fold cache_put ts q) s'" if "caches ?M q s" for q s
    using assms that
  proof (induction ts arbitrary: calls q s)
    case (Cons t ts)
    obtain mem vmem dmem g calls' where calls: "calls = (mem, vmem, dmem, g) # calls'" "sent_event hdr (\<lambda>_. []) (t, Header) g"
        "list_all2 (\<lambda>t (mem, vmem, dmem, g). sent_event hdr (\<lambda>_. []) (t, Header) g) ts calls'"
      using Cons.prems(2) by (auto simp: list_all2_Cons1)
    obtain s1 where s1: "mot_add_MSC_data_group mem vmem dmem g s = Some s1" "caches ?M (cache_put t q) s1"
      using cache_header [OF Cons.prems(3) _ _ _ calls(2) refl, of mem vmem dmem] Cons.prems(1) by auto
    from Cons.IH [OF _ calls(3) s1(2)] Cons.prems(1) show ?case
      by (simp add: calls(1) s1(1))
  qed simp
  from this [OF cache_start, of ids] show ?thesis
    using cache_lookup(2) [where M = ?M] by blast
qed

text \<open>Seventeen objects: the first two are lost, and the third is found.\<close>

definition announced :: "nat \<Rightarrow> u8 list" where
  "announced t = mot_group (replicate 8 0) [] [] 3 t 0 True small_header"

theorem mot_table_latest_witness:
  "\<exists>s. mot_add_groups (map (\<lambda>t. (\<lambda>_. 0, \<lambda>_. 0, \<lambda>_. 0, announced t)) [1..<18]) (MotHandler []) = Some s \<and>
     mot_lookup s 2 = None \<and> mot_lookup s 3 = Some (MotObject_header False False 3 (ptr (\<lambda>_. 0) small_header)) \<and>
     mot_lookup s 17 = Some (MotObject_header False False 17 (ptr (\<lambda>_. 0) small_header))"
proof -
  let ?calls = "map (\<lambda>t. (\<lambda>_ :: nat. 0 :: u8, \<lambda>_ :: nat. 0 :: u8, \<lambda>_ :: nat. 0 :: u8, announced t)) [1..<18]"
  have "\<forall>t\<in>set [1..<18]. t < 2 ^ 16 \<and> self_contained small_header \<and> length small_header < 8192"
    by (auto simp: self_contained_def small_header_read) (simp add: small_header_def)
  moreover have "sent_event (\<lambda>_. small_header) (\<lambda>_. []) (t, Header) (announced t)" for t
    unfolding announced_def by (rule sent_header) (simp add: group_ok_def)
  then have "list_all2 (\<lambda>t (mem, vmem, dmem, g). sent_event (\<lambda>_. small_header) (\<lambda>_. []) (t, Header) g) [1..<18] ?calls"
    by (simp add: list.rel_map list.rel_refl)
  moreover have "fold cache_put [1..<18] [] = [3..<18]"
    by code_simp
  ultimately show ?thesis
    using mot_table_latest [of "[1..<18]" "\<lambda>_. small_header" ?calls "[]"] by auto
qed

end
