(* ===== verification/Pad_Handler.thy ===== *)
theory Pad_Handler
  imports Mot_Object Charsets Crc
begin

text \<open>
  Programme associated data, \<^verbatim>\<open>src/src/base/backend/data/pad_handler.cpp\<close>: dynamic labels, multimedia
  objects and Journaline carried beside the audio.  A PAD field is stored in reverse order and is read
  downwards from its last byte without a check of its start, so the field is a memory indexed by
  integers; what lies behind a vector of the handler is an argument, too.
\<close>

section \<open>The code\<close>

definition cLengthTable :: "nat list" where
  "cLengthTable = [4, 6, 8, 12, 16, 24, 32, 48]"

definition get_length :: "u8 \<Rightarrow> nat" where
  "get_length mVal = cLengthTable ! unat (drop_bit 5 mVal)"

definition get_appl_type :: "u8 \<Rightarrow> nat" where
  "get_appl_type mVal = unat (mVal AND 0x1f)"

datatype pad_signal =
    signal_show_label qstring
  | signal_show_mot_handling
  | signal_journaline_data_group "u8 list"

record pad_handler =
  ph_DynamicLabelTextUnConverted :: "u8 list"
  ph_CharSet :: int
  ph_LastConvCharSet :: int
  ph_MotObject :: mot_object
  ph_LastAppType :: nat
  ph_MscGroupElement :: bool
  ph_XPadLength :: int
  ph_StillToGo :: int
  ph_ShortPadData :: "u8 list"
  ph_LastSegment :: bool
  ph_FirstSegment :: bool
  ph_SegmentNumber :: int
  ph_DataGroupLength :: int
  ph_MscDataGroupBuffer :: "u8 list"
  ph_SegmentNo :: int
  ph_RemainDataLength :: int
  ph_IsLastSegment :: bool
  ph_MoreXPad :: bool
  ph_JournalineXPadAppTy :: int
  ph_JournalineDataGroupBuffer :: "u8 list"
  ph_JournalineDataGroupLength :: int
  ph_JournalineDataHandler :: "u8 list list option"
  ph_signals :: "pad_signal list"

definition Invalid :: int where "Invalid = - 1"

definition PadHandler :: pad_handler where
  "PadHandler = \<lparr>ph_DynamicLabelTextUnConverted = [], ph_CharSet = EbuLatin, ph_LastConvCharSet = Invalid,
     ph_MotObject = new_MotObject False True, ph_LastAppType = 0, ph_MscGroupElement = False, ph_XPadLength = - 1,
     ph_StillToGo = 0, ph_ShortPadData = [], ph_LastSegment = False, ph_FirstSegment = False, ph_SegmentNumber = - 1,
     ph_DataGroupLength = 0, ph_MscDataGroupBuffer = [], ph_SegmentNo = - 1, ph_RemainDataLength = 0,
     ph_IsLastSegment = False, ph_MoreXPad = False, ph_JournalineXPadAppTy = - 1, ph_JournalineDataGroupBuffer = [],
     ph_JournalineDataGroupLength = 0, ph_JournalineDataHandler = None, ph_signals = []\<rparr>"

text \<open>The Journaline handler is the list of the data groups it was given, when there is one.\<close>

definition slot_set_xpad_journaline_app_type :: "int \<Rightarrow> pad_handler \<Rightarrow> pad_handler" where
  "slot_set_xpad_journaline_app_type iXPadAppTy s =
     s\<lparr>ph_JournalineDataHandler :=
         (if iXPadAppTy \<ge> 0 \<and> ph_JournalineDataHandler s = None then Some []
          else if iXPadAppTy < 0 then None else ph_JournalineDataHandler s),
       ph_JournalineXPadAppTy := iXPadAppTy\<rparr>"

definition slot_handle_journaline_data_group :: "u8 list \<Rightarrow> pad_handler \<Rightarrow> pad_handler" where
  "slot_handle_journaline_data_group iDataGroup s =
     s\<lparr>ph_JournalineDataHandler := map_option (\<lambda>gs. gs @
         [concat (map (\<lambda>byte. map (\<lambda>bitIdx. drop_bit (7 - bitIdx) byte AND 1) [0..<8]) iDataGroup)])
       (ph_JournalineDataHandler s)\<rparr>"

definition emit_pad :: "pad_signal \<Rightarrow> pad_handler \<Rightarrow> pad_handler" where
  "emit_pad x s = s\<lparr>ph_signals := ph_signals s @ [x]\<rparr>"

subsection \<open>Labels\<close>

definition reset_charset_change :: "pad_handler \<Rightarrow> pad_handler" where
  "reset_charset_change s = s\<lparr>ph_LastConvCharSet := Invalid\<rparr>"

definition check_charset_change :: "pad_handler \<Rightarrow> pad_handler" where
  "check_charset_change s =
     (if ph_LastConvCharSet s = Invalid then s\<lparr>ph_LastConvCharSet := ph_CharSet s\<rparr> else s)"

definition clear_label :: "pad_handler \<Rightarrow> pad_handler" where
  "clear_label s = reset_charset_change (s\<lparr>ph_DynamicLabelTextUnConverted := []\<rparr>)"

definition append_label :: "u8 list \<Rightarrow> pad_handler \<Rightarrow> pad_handler" where
  "append_label xs s =
     check_charset_change (s\<lparr>ph_DynamicLabelTextUnConverted := ph_DynamicLabelTextUnConverted s @ xs\<rparr>)"

definition show_label :: "qt_codec \<Rightarrow> pad_handler \<Rightarrow> pad_handler" where
  "show_label qt s =
     emit_pad (signal_show_label (to_QString_using_charset qt (map unat (ph_DynamicLabelTextUnConverted s)) (ph_CharSet s)
       (Some (length (ph_DynamicLabelTextUnConverted s))))) s"

text \<open>The start of a data group, application type 2, and its continuation, type 3.\<close>

definition label_start :: "qt_codec \<Rightarrow> u8 list \<Rightarrow> pad_handler \<Rightarrow> pad_handler" where
  "label_start qt dat s =
     (let prefix = push_bit 8 (ucast (dat ! 0)) OR ucast (dat ! 1) :: u16;
          field_1 = unat (drop_bit 8 prefix AND 0xf);
          Cflag = drop_bit 12 prefix AND 1;
          first = drop_bit 14 prefix AND 1;
          last = drop_bit 13 prefix AND 1;
          segment = int (unat (drop_bit 4 prefix AND 7)) + 1
      in if first = 0 \<and> segment \<noteq> ph_SegmentNo s + 1 then s\<lparr>ph_SegmentNo := - 1\<rparr>
         else
           let s = (if first \<noteq> 0
                    then clear_label (s\<lparr>ph_SegmentNo := 1, ph_CharSet := int (unat (drop_bit 4 prefix AND 0xf))\<rparr>)
                    else s\<lparr>ph_SegmentNo := segment\<rparr>)
           in if Cflag \<noteq> 0
              then (if field_1 = 1 then (clear_label s)\<lparr>ph_SegmentNo := - 1\<rparr> else s)
              else
                let totalDataLength = int field_1 + 1;
                    moreXPad = int (length dat) - 2 < totalDataLength;
                    dataLength = (if moreXPad then int (length dat) - 2 else totalDataLength);
                    s = append_label (take (nat dataLength) (drop 2 dat)) (s\<lparr>ph_MoreXPad := moreXPad\<rparr>);
                    s = (if last \<noteq> 0
                         then (if \<not> moreXPad then (show_label qt s)\<lparr>ph_SegmentNo := - 1\<rparr>
                               else s\<lparr>ph_IsLastSegment := True\<rparr>)
                         else s\<lparr>ph_IsLastSegment := False\<rparr>)
                in s\<lparr>ph_RemainDataLength := totalDataLength - dataLength\<rparr>)"

definition label_continue :: "qt_codec \<Rightarrow> u8 list \<Rightarrow> pad_handler \<Rightarrow> pad_handler" where
  "label_continue qt dat s =
     (let more = ph_RemainDataLength s > int (length dat);
          dataLength = (if more then int (length dat) else ph_RemainDataLength s);
          s = (if more then s\<lparr>ph_RemainDataLength := ph_RemainDataLength s - int (length dat)\<rparr> else s\<lparr>ph_MoreXPad := False\<rparr>);
          s = append_label (take (nat dataLength) dat) s
      in if \<not> ph_MoreXPad s \<and> ph_IsLastSegment s then show_label qt s else s)"

definition dynamic_label :: "qt_codec \<Rightarrow> u8 list \<Rightarrow> nat \<Rightarrow> pad_handler \<Rightarrow> pad_handler" where
  "dynamic_label qt dat iApplType s =
     (if iApplType = 2 then label_start qt dat s
      else if iApplType = 3 \<and> ph_MoreXPad s then label_continue qt dat s
      else s)"

subsection \<open>Multimedia objects\<close>

definition build_MSC_segment :: "(nat \<Rightarrow> u8) \<Rightarrow> u8 list \<Rightarrow> pad_handler \<Rightarrow> pad_handler" where
  "build_MSC_segment mem iData s =
     (let n = min (int (length iData)) (ph_DataGroupLength s); d = ptr mem iData
      in if n < 2 then s
         else
           let h = d 0
           in if bit h 6 \<and> \<not> check_crc_bytes d (nat (n - 2)) then s
              else
                let groupType = h AND 0xf
                in if groupType \<noteq> 3 \<and> groupType \<noteq> 4 then s
                   else
                     let index = (if bit h 7 then 4 else 2);
                         lastFlag = (bit h 5 \<and> bit (d index) 7);
                         segmentNumber = (if bit h 5 then int (unat (d index AND 0x7f) * 256 + unat (d (index + 1))) else - 1);
                         index = (if bit h 5 then index + 2 else index)
                     in if \<not> (bit h 4 \<and> bit (d index) 4) then s
                        else
                          let transportId = int (unat (d (index + 1)) * 256 + unat (d (index + 2)));
                              index = index + 1 + unat (d index AND 0xf);
                              segmentSize = unat (d index AND 0x1f) * 256 + unat (d (index + 1));
                              segment = (\<lambda>i. d (index + 2 + i))
                          in if groupType = 3
                             then s\<lparr>ph_MotObject := set_header segment transportId (ph_MotObject s)\<rparr>
                             else s\<lparr>ph_MotObject := add_body_segment (map segment [0..<segmentSize]) segmentNumber lastFlag
                                     transportId (ph_MotObject s)\<rparr>)"

definition new_MSC_element :: "(nat \<Rightarrow> u8) \<Rightarrow> u8 list \<Rightarrow> pad_handler \<Rightarrow> pad_handler" where
  "new_MSC_element mem dat s =
     (let s = s\<lparr>ph_MscDataGroupBuffer := []\<rparr>
      in if int (length dat) \<ge> ph_DataGroupLength s mod 2 ^ 16
         then emit_pad signal_show_mot_handling ((build_MSC_segment mem dat s)\<lparr>ph_MscGroupElement := False\<rparr>)
         else emit_pad signal_show_mot_handling (s\<lparr>ph_MscGroupElement := True, ph_MscDataGroupBuffer := dat\<rparr>))"

definition add_MSC_element :: "(nat \<Rightarrow> u8) \<Rightarrow> u8 list \<Rightarrow> pad_handler \<Rightarrow> pad_handler" where
  "add_MSC_element mem dat s =
     (if ph_MscDataGroupBuffer s = [] then s
      else
        let s = s\<lparr>ph_MscDataGroupBuffer := ph_MscDataGroupBuffer s @ dat\<rparr>
        in if int (length (ph_MscDataGroupBuffer s)) \<ge> ph_DataGroupLength s mod 2 ^ 32
           then (build_MSC_segment mem (ph_MscDataGroupBuffer s) s)\<lparr>ph_MscDataGroupBuffer := []\<rparr>
           else s)"

subsection \<open>Journaline\<close>

definition emit_journaline_data_group_if_complete :: "pad_handler \<Rightarrow> pad_handler" where
  "emit_journaline_data_group_if_complete s =
     (if int (length (ph_JournalineDataGroupBuffer s)) \<ge> ph_JournalineDataGroupLength s
      then (emit_pad (signal_journaline_data_group
              (take (nat (ph_JournalineDataGroupLength s)) (ph_JournalineDataGroupBuffer s))) s)
             \<lparr>ph_JournalineDataGroupBuffer := []\<rparr>
      else s)"

definition new_journaline_element :: "u8 list \<Rightarrow> pad_handler \<Rightarrow> pad_handler" where
  "new_journaline_element iData s =
     (let s = s\<lparr>ph_JournalineDataGroupBuffer := [], ph_JournalineDataGroupLength := ph_DataGroupLength s\<rparr>
      in if ph_JournalineDataGroupLength s \<le> 0 then s
         else emit_journaline_data_group_if_complete (s\<lparr>ph_JournalineDataGroupBuffer := iData\<rparr>))"

definition add_journaline_element :: "u8 list \<Rightarrow> pad_handler \<Rightarrow> pad_handler" where
  "add_journaline_element iData s =
     (if ph_JournalineDataGroupBuffer s = [] then s
      else emit_journaline_data_group_if_complete
             (s\<lparr>ph_JournalineDataGroupBuffer := ph_JournalineDataGroupBuffer s @ iData\<rparr>))"

definition handle_xpad_journaline :: "nat \<Rightarrow> u8 list \<Rightarrow> pad_handler \<Rightarrow> pad_handler" where
  "handle_xpad_journaline iAppType iData s =
     (let jAppTy = ph_JournalineXPadAppTy s
      in if jAppTy < 0 then s
         else if int iAppType = jAppTy then new_journaline_element iData s
         else if int iAppType = jAppTy + 1 then add_journaline_element iData s
         else s)"

subsection \<open>Short X-PAD\<close>

text \<open>The bytes taken from a short field: as many as are still expected, at most \<open>n\<close>, downwards from \<open>i\<close>.\<close>

definition take_short :: "nat \<Rightarrow> (int \<Rightarrow> u8) \<Rightarrow> int \<Rightarrow> pad_handler \<Rightarrow> pad_handler" where
  "take_short n iBuffer i s =
     (let k = min n (nat (ph_StillToGo s))
      in s\<lparr>ph_StillToGo := ph_StillToGo s - int k,
           ph_ShortPadData := ph_ShortPadData s @ map (\<lambda>j. iBuffer (i - int j)) [0..<k]\<rparr>)"

definition handle_short_PAD :: "qt_codec \<Rightarrow> (int \<Rightarrow> u8) \<Rightarrow> int \<Rightarrow> bool \<Rightarrow> pad_handler \<Rightarrow> pad_handler" where
  "handle_short_PAD qt iBuffer iLast iCIFlag s =
     (if iCIFlag
      then
        let s = s\<lparr>ph_FirstSegment := bit (iBuffer (iLast - 1)) 6, ph_LastSegment := bit (iBuffer (iLast - 1)) 5,
                  ph_CharSet := int (unat (iBuffer (iLast - 2) AND 0xf))\<rparr>;
            s = (if ph_FirstSegment s then clear_label s else s);
            appType = get_appl_type (iBuffer iLast)
        in if appType = 2
           then
             let s = (if ph_FirstSegment s \<and> \<not> ph_LastSegment s
                      then
                        let s = s\<lparr>ph_SegmentNumber := int (unat (drop_bit 4 (iBuffer (iLast - 2))))\<rparr>;
                            s = (if ph_DynamicLabelTextUnConverted s \<noteq> [] then show_label qt s else s)
                        in clear_label s
                      else s)
             in s\<lparr>ph_StillToGo := int (unat (iBuffer (iLast - 1) AND 0xf)), ph_ShortPadData := [iBuffer (iLast - 3)]\<rparr>
           else if appType = 3
           then
             let s = take_short 3 iBuffer (iLast - 1) s
             in if ph_StillToGo s \<le> 0 \<and> length (ph_ShortPadData s) > 1
                then (append_label (ph_ShortPadData s) s)\<lparr>ph_ShortPadData := []\<rparr>
                else s
           else s
      else
        let s = take_short 4 iBuffer iLast s
        in if ph_StillToGo s \<le> 0 \<and> length (ph_ShortPadData s) > 0
           then
             let s = (append_label (ph_ShortPadData s) s)\<lparr>ph_ShortPadData := []\<rparr>
             in if \<not> ph_FirstSegment s \<and> ph_LastSegment s
                then clear_label (if ph_DynamicLabelTextUnConverted s \<noteq> [] then show_label qt s else s)
                else s
           else s)"

subsection \<open>Variable X-PAD\<close>

text \<open>The contents indicators: at most four, ended by one of application type 0, which is consumed.\<close>

fun read_CIs :: "(int \<Rightarrow> u8) \<Rightarrow> nat \<Rightarrow> int \<Rightarrow> u8 list \<times> int" where
  "read_CIs iBuffer 0 base = ([], base)"
| "read_CIs iBuffer (Suc n) base =
     (if get_appl_type (iBuffer base) = 0 then ([], base - 1)
      else map_prod (Cons (iBuffer base)) id (read_CIs iBuffer n (base - 1)))"

text \<open>One field of data.\<close>

definition handle_content :: "qt_codec \<Rightarrow> (nat \<Rightarrow> u8) \<Rightarrow> nat \<Rightarrow> u8 list \<Rightarrow> pad_handler \<Rightarrow> pad_handler" where
  "handle_content qt mem appType dat s =
     (let s = (if appType = 1
               then (if length dat = 4 \<and> check_crc_bytes ((!) dat) 2
                     then s\<lparr>ph_DataGroupLength := int (unat (dat ! 0 AND 0x3f) * 256 + unat (dat ! 1))\<rparr> else s)
               else if appType = 2 \<or> appType = 3 then dynamic_label qt dat appType s
               else if appType = 12 then new_MSC_element mem dat s
               else if appType = 13 then add_MSC_element mem dat s
               else handle_xpad_journaline appType dat s)
      in s\<lparr>ph_LastAppType := appType\<rparr>)"

fun handle_contents :: "qt_codec \<Rightarrow> (nat \<Rightarrow> u8) \<Rightarrow> (int \<Rightarrow> u8) \<Rightarrow> int \<Rightarrow> u8 list \<Rightarrow> pad_handler \<Rightarrow> pad_handler" where
  "handle_contents qt mem iBuffer base [] s = s"
| "handle_contents qt mem iBuffer base (ci # cis) s =
     (let n = get_length ci;
          s = handle_content qt mem (get_appl_type ci) (map (\<lambda>j. iBuffer (base - int j)) [0..<n]) s;
          base = base - int n
      in if base < - 1 then s else handle_contents qt mem iBuffer base cis s)"

definition handle_variable_PAD :: "qt_codec \<Rightarrow> (nat \<Rightarrow> u8) \<Rightarrow> (int \<Rightarrow> u8) \<Rightarrow> int \<Rightarrow> bool \<Rightarrow> pad_handler \<Rightarrow> pad_handler" where
  "handle_variable_PAD qt mem iBuffer iLast iCiFlag s =
     (if \<not> iCiFlag
      then
        if ph_XPadLength s > 0 \<and> \<not> iLast < ph_XPadLength s - 1
        then
          let dat = map (\<lambda>j. iBuffer (iLast - int j)) [0..<nat (ph_XPadLength s)]; t = ph_LastAppType s; j = ph_JournalineXPadAppTy s
          in if t = 2 \<or> t = 3 then dynamic_label qt dat 3 s
             else if t = 12 \<or> t = 13 then (if ph_MscGroupElement s then add_MSC_element mem dat s else s)
             else if j \<ge> 0 \<and> (int t = j \<or> int t = j + 1) then add_journaline_element dat s
             else s
        else s
      else
        let (cis, base) = read_CIs iBuffer 4 iLast;
            s = s\<lparr>ph_XPadLength := int (sum_list (map get_length cis) + (if length cis = 4 then 4 else length cis + 1))\<rparr>
        in handle_contents qt mem iBuffer base cis s)"

definition pad_process_PAD :: "qt_codec \<Rightarrow> (nat \<Rightarrow> u8) \<Rightarrow> (int \<Rightarrow> u8) \<Rightarrow> int \<Rightarrow> u8 \<Rightarrow> u8 \<Rightarrow> pad_handler \<Rightarrow> pad_handler" where
  "pad_process_PAD qt mem iBuffer iLast iL1 iL0 s =
     (let fpadType = drop_bit 6 iL1 AND 3; x_padInd = drop_bit 4 iL1 AND 3; CI_flag = bit iL0 1
      in if fpadType \<noteq> 0 then s
         else if x_padInd = 1 then handle_short_PAD qt iBuffer iLast CI_flag s
         else if x_padInd = 2 then handle_variable_PAD qt mem iBuffer iLast CI_flag s
         else s)"

section \<open>Applications that share the X-PAD\<close>

text \<open>
  An X-PAD field as it is sent: subfields, each with a contents indicator, or, without indicators, one
  more piece of data for the application of the last subfield.  The bytes are stored in reverse order.
\<close>

datatype xpad = CIs "(u8 \<times> u8 list) list" | NoCI "u8 list"

fun xpad_bytes :: "xpad \<Rightarrow> u8 list" where
  "xpad_bytes (CIs subs) = map fst subs @ (if length subs < 4 then [0] else []) @ concat (map snd subs)"
| "xpad_bytes (NoCI d) = d"

definition indicator_ok :: "u8 \<times> u8 list \<Rightarrow> bool" where
  "indicator_ok = (\<lambda>(ci, d). get_appl_type ci \<noteq> 0 \<and> length d = get_length ci)"

text \<open>A field without indicators has the size of the last field with indicators.\<close>

fun xpads_ok :: "nat \<Rightarrow> xpad list \<Rightarrow> bool" where
  "xpads_ok n [] = True"
| "xpads_ok n (CIs subs # xs) \<longleftrightarrow>
     length subs \<le> 4 \<and> list_all indicator_ok subs \<and> xpads_ok (length (xpad_bytes (CIs subs))) xs"
| "xpads_ok n (NoCI d # xs) \<longleftrightarrow> length d = n \<and> 0 < n \<and> xpads_ok n xs"

text \<open>One call of the PAD handler: the memory behind its vectors, the buffer and its last index, and the two bytes of the F-PAD.\<close>

type_synonym pad_call = "(nat \<Rightarrow> u8) \<times> (int \<Rightarrow> u8) \<times> int \<times> u8 \<times> u8"

definition pad_run :: "qt_codec \<Rightarrow> pad_call list \<Rightarrow> pad_handler \<Rightarrow> pad_handler" where
  "pad_run qt = fold (\<lambda>(mem, b, l, l1, l0). pad_process_PAD qt mem b l l1 l0)"

definition xpad_carried :: "pad_call \<Rightarrow> xpad \<Rightarrow> bool" where
  "xpad_carried = (\<lambda>(mem, b, l, l1, l0) x.
     drop_bit 6 l1 AND 3 = 0 \<and> drop_bit 4 l1 AND 3 = 2 \<and> (bit l0 1 \<longleftrightarrow> (\<exists>subs. x = CIs subs)) \<and>
     int (length (xpad_bytes x)) \<le> l + 1 \<and> (\<forall>k<length (xpad_bytes x). b (l - int k) = xpad_bytes x ! k))"

text \<open>What the fields contain: the data for each application type, with the memory of the call that brings it.\<close>

fun contents :: "nat \<Rightarrow> (pad_call \<times> xpad) list \<Rightarrow> ((nat \<Rightarrow> u8) \<times> nat \<times> u8 list) list" where
  "contents t [] = []"
| "contents t ((c, CIs subs) # xs) =
     map (\<lambda>(ci, d). (fst c, get_appl_type ci, d)) subs @
     contents (if subs = [] then t else get_appl_type (fst (last subs))) xs"
| "contents t ((c, NoCI d) # xs) =
     (if t = 2 \<or> t = 3 then [(fst c, 3, d)] else if t = 12 \<or> t = 13 then [(fst c, 13, d)] else []) @ contents t xs"

definition apply_contents :: "qt_codec \<Rightarrow> ((nat \<Rightarrow> u8) \<times> nat \<times> u8 list) list \<Rightarrow> pad_handler \<Rightarrow> pad_handler" where
  "apply_contents qt = fold (\<lambda>(mem, t, d). handle_content qt mem t d)"

subsection \<open>A field is taken apart as it was put together\<close>

lemma get_length_pos: "4 \<le> get_length ci"
proof -
  have "unat (drop_bit 5 ci) < 8"
    using unsigned_less [of ci, where 'a = nat] by (simp add: unat_drop_bit)
  then have "get_length ci \<in> set cLengthTable"
    unfolding get_length_def by (intro nth_mem) (simp add: cLengthTable_def)
  then show ?thesis
    by (auto simp: cLengthTable_def)
qed

lemma read_CIs_sent:
  assumes "length cis \<le> n" "list_all (\<lambda>ci. get_appl_type ci \<noteq> 0) cis"
    and "\<forall>k<length cis. b (base - int k) = cis ! k" "length cis < n \<Longrightarrow> get_appl_type (b (base - int (length cis))) = 0"
  shows "read_CIs b n base = (cis, base - int (length cis + (if length cis < n then 1 else 0)))"
  using assms
proof (induction n arbitrary: cis base)
  case (Suc n)
  show ?case
  proof (cases cis)
    case Nil
    then show ?thesis
      using Suc.prems by simp
  next
    case (Cons ci rest)
    then have "b base = ci"
      using Suc.prems(3) by auto
    moreover have "read_CIs b n (base - 1) = (rest, base - 1 - int (length rest + (if length rest < n then 1 else 0)))"
    proof (rule Suc.IH)
      show "\<forall>k<length rest. b (base - 1 - int k) = rest ! k"
      proof (intro allI impI)
        fix k assume "k < length rest"
        then show "b (base - 1 - int k) = rest ! k"
          using Suc.prems(3) [rule_format, of "Suc k"] Cons by (simp add: algebra_simps)
      qed
      show "get_appl_type (b (base - 1 - int (length rest))) = 0" if "length rest < n"
        using Suc.prems(4) Cons that by (simp add: algebra_simps)
    qed (use Suc.prems Cons in simp_all)
    ultimately show ?thesis
      using Suc.prems(2) Cons by simp
  qed
qed simp

lemma handle_contents_sent:
  assumes "list_all indicator_ok subs" "int (length (concat (map snd subs))) \<le> base + 1"
    and "\<forall>k<length (concat (map snd subs)). b (base - int k) = concat (map snd subs) ! k"
  shows "handle_contents qt mem b base (map fst subs) s =
    apply_contents qt (map (\<lambda>(ci, d). (mem, get_appl_type ci, d)) subs) s"
  using assms
proof (induction subs arbitrary: base s)
  case (Cons cd subs)
  obtain ci d where cd: "cd = (ci, d)"
    by fastforce
  have n: "get_length ci = length d"
    using Cons.prems(1) by (simp add: cd indicator_ok_def)
  have "map (\<lambda>j. b (base - int j)) [0..<length d] = d"
    using Cons.prems(3) by (intro nth_equalityI) (auto simp: cd nth_append)
  moreover have "\<forall>k<length (concat (map snd subs)). b (base - int (length d) - int k) = concat (map snd subs) ! k"
  proof (intro allI impI)
    fix k assume "k < length (concat (map snd subs))"
    then show "b (base - int (length d) - int k) = concat (map snd subs) ! k"
      using Cons.prems(3) [rule_format, of "length d + k"] by (simp add: cd nth_append algebra_simps)
  qed
  ultimately show ?case
    using Cons by (simp add: cd n apply_contents_def Let_def)
qed (simp add: apply_contents_def)

lemma field_with_indicators:
  assumes "xpad_carried c (CIs subs)" "length subs \<le> 4" "list_all indicator_ok subs"
  shows "(\<lambda>(mem, b, l, l1, l0). pad_process_PAD qt mem b l l1 l0) c s =
    apply_contents qt (map (\<lambda>(ci, d). (fst c, get_appl_type ci, d)) subs)
      (s\<lparr>ph_XPadLength := int (length (xpad_bytes (CIs subs)))\<rparr>)"
proof -
  obtain mem b l l1 l0 where c: "c = (mem, b, l, l1, l0)"
    by (cases c)
  let ?n = "length subs + (if length subs < 4 then 1 else 0)"
  let ?dat = "concat (map snd subs)"
  have l1: "drop_bit 6 l1 AND 3 = 0" "drop_bit 4 l1 AND 3 = 2" "bit l0 1"
    and b: "int (?n + length ?dat) \<le> l + 1" "\<forall>k<?n + length ?dat. b (l - int k) = xpad_bytes (CIs subs) ! k"
    using assms(1) by (auto simp: xpad_carried_def c)
  have "read_CIs b 4 l = (map fst subs, l - int (length (map fst subs) + (if length (map fst subs) < 4 then 1 else 0)))"
  proof (rule read_CIs_sent)
    show "list_all (\<lambda>ci. get_appl_type ci \<noteq> 0) (map fst subs)"
      using assms(3) by (auto simp: list_all_iff indicator_ok_def)
    show "\<forall>k<length (map fst subs). b (l - int k) = map fst subs ! k"
      using b(2) by (simp add: nth_append)
    show "get_appl_type (b (l - int (length (map fst subs)))) = 0" if "length (map fst subs) < 4"
      using b(2) that by (simp add: nth_append get_appl_type_def)
  qed (use assms(2) in simp)
  moreover have "sum_list (map get_length (map fst subs)) = length ?dat"
    using assms(3) by (induction subs) (auto simp: indicator_ok_def)
  moreover have "\<forall>k<length ?dat. b (l - int ?n - int k) = ?dat ! k"
  proof (intro allI impI)
    fix k assume "k < length ?dat"
    then show "b (l - int ?n - int k) = ?dat ! k"
      using b(2) [rule_format, of "?n + k"] by (auto simp: nth_append algebra_simps split: if_splits)
  qed
  ultimately show ?thesis
    using l1 b(1) assms(2) handle_contents_sent [OF assms(3), of "l - int ?n" b qt mem]
    by (auto simp: c pad_process_PAD_def handle_variable_PAD_def Let_def algebra_simps)
qed

subsection \<open>What the handlers of the applications touch\<close>

definition is_label :: "pad_signal \<Rightarrow> bool" where
  "is_label x \<longleftrightarrow> (\<exists>t. x = signal_show_label t)"

definition labels_shown :: "pad_handler \<Rightarrow> pad_signal list" where
  "labels_shown s = filter is_label (ph_signals s)"

definition label_part :: "pad_handler \<Rightarrow> u8 list \<times> int \<times> int \<times> int \<times> int \<times> bool \<times> bool \<times> pad_signal list" where
  "label_part s = (ph_DynamicLabelTextUnConverted s, ph_CharSet s, ph_LastConvCharSet s, ph_SegmentNo s,
     ph_RemainDataLength s, ph_IsLastSegment s, ph_MoreXPad s, labels_shown s)"

definition msc_part :: "pad_handler \<Rightarrow> mot_object \<times> bool \<times> int \<times> u8 list" where
  "msc_part s = (ph_MotObject s, ph_MscGroupElement s, ph_DataGroupLength s, ph_MscDataGroupBuffer s)"

definition field_part :: "pad_handler \<Rightarrow> nat \<times> int \<times> int" where
  "field_part s = (ph_LastAppType s, ph_XPadLength s, ph_JournalineXPadAppTy s)"

lemmas part_defs = label_part_def labels_shown_def msc_part_def field_part_def is_label_def emit_pad_def

lemma label_frame:
  "msc_part (clear_label s) = msc_part s" "field_part (clear_label s) = field_part s"
  "msc_part (append_label xs s) = msc_part s" "field_part (append_label xs s) = field_part s"
  "msc_part (show_label qt s) = msc_part s" "field_part (show_label qt s) = field_part s"
  by (simp_all add: part_defs clear_label_def reset_charset_change_def append_label_def check_charset_change_def show_label_def)

lemma update_frame:
  "msc_part (s\<lparr>ph_SegmentNo := a\<rparr>) = msc_part s" "field_part (s\<lparr>ph_SegmentNo := a\<rparr>) = field_part s"
  "msc_part (s\<lparr>ph_CharSet := a\<rparr>) = msc_part s" "field_part (s\<lparr>ph_CharSet := a\<rparr>) = field_part s"
  "msc_part (s\<lparr>ph_MoreXPad := b\<rparr>) = msc_part s" "field_part (s\<lparr>ph_MoreXPad := b\<rparr>) = field_part s"
  "msc_part (s\<lparr>ph_IsLastSegment := b\<rparr>) = msc_part s" "field_part (s\<lparr>ph_IsLastSegment := b\<rparr>) = field_part s"
  "msc_part (s\<lparr>ph_RemainDataLength := a\<rparr>) = msc_part s" "field_part (s\<lparr>ph_RemainDataLength := a\<rparr>) = field_part s"
  "label_part (s\<lparr>ph_LastAppType := n\<rparr>) = label_part s" "msc_part (s\<lparr>ph_LastAppType := n\<rparr>) = msc_part s"
  "label_part (s\<lparr>ph_XPadLength := a\<rparr>) = label_part s" "msc_part (s\<lparr>ph_XPadLength := a\<rparr>) = msc_part s"
  by (simp_all add: part_defs)

lemma dynamic_label_frame:
  "msc_part (dynamic_label qt dat t s) = msc_part s" "field_part (dynamic_label qt dat t s) = field_part s"
  by (simp_all add: dynamic_label_def label_start_def label_continue_def Let_def label_frame update_frame)

lemma build_frame:
  "label_part (build_MSC_segment mem dat s) = label_part s" "field_part (build_MSC_segment mem dat s) = field_part s"
  "ph_MscGroupElement (build_MSC_segment mem dat s) = ph_MscGroupElement s"
  "ph_DataGroupLength (build_MSC_segment mem dat s) = ph_DataGroupLength s"
  "ph_MscDataGroupBuffer (build_MSC_segment mem dat s) = ph_MscDataGroupBuffer s"
  "ph_signals (build_MSC_segment mem dat s) = ph_signals s"
  by (simp_all add: build_MSC_segment_def Let_def part_defs)

lemma msc_frame:
  "label_part (new_MSC_element mem dat s) = label_part s" "field_part (new_MSC_element mem dat s) = field_part s"
  "label_part (add_MSC_element mem dat s) = label_part s" "field_part (add_MSC_element mem dat s) = field_part s"
  using build_frame(1,2) [of mem] by (simp_all add: new_MSC_element_def add_MSC_element_def Let_def part_defs)

lemma journaline_frame:
  "label_part (add_journaline_element dat s) = label_part s" "field_part (add_journaline_element dat s) = field_part s"
  "msc_part (add_journaline_element dat s) = msc_part s"
  "label_part (new_journaline_element dat s) = label_part s" "field_part (new_journaline_element dat s) = field_part s"
  "msc_part (new_journaline_element dat s) = msc_part s"
  by (simp_all add: new_journaline_element_def add_journaline_element_def emit_journaline_data_group_if_complete_def Let_def part_defs)

lemmas pad_frame = label_frame update_frame dynamic_label_frame msc_frame journaline_frame

text \<open>Between groups, a finished or single data group leaves no data behind.\<close>

definition pad_inv :: "pad_handler \<Rightarrow> bool" where
  "pad_inv s \<longleftrightarrow> (ph_MscGroupElement s \<or> ph_MscDataGroupBuffer s = [])"

lemma update_LastAppType: "ph_LastAppType s = t \<Longrightarrow> s\<lparr>ph_LastAppType := t\<rparr> = s"
  by (cases s) simp

lemma field_without_indicators:
  assumes "xpad_carried c (NoCI d)" "ph_XPadLength s = int (length d)" "d \<noteq> []" "pad_inv s"
  shows "(\<lambda>(mem, b, l, l1, l0). pad_process_PAD qt mem b l l1 l0) c s =
    (let t = ph_LastAppType s in
     if t = 2 \<or> t = 3 then (handle_content qt (fst c) 3 d s)\<lparr>ph_LastAppType := t\<rparr>
     else if t = 12 \<or> t = 13 then (handle_content qt (fst c) 13 d s)\<lparr>ph_LastAppType := t\<rparr>
     else if ph_JournalineXPadAppTy s \<ge> 0 \<and> (int t = ph_JournalineXPadAppTy s \<or> int t = ph_JournalineXPadAppTy s + 1)
     then add_journaline_element d s else s)"
proof -
  obtain mem b l l1 l0 where c: "c = (mem, b, l, l1, l0)"
    by (cases c)
  have l1: "drop_bit 6 l1 AND 3 = 0" "drop_bit 4 l1 AND 3 = 2" "\<not> bit l0 1" "int (length d) \<le> l + 1"
    and "map (\<lambda>j. b (l - int j)) [0..<length d] = d"
    using assms(1) by (auto simp: xpad_carried_def c intro!: nth_equalityI)
  moreover have "ph_LastAppType (dynamic_label qt d 3 s) = ph_LastAppType s" "ph_LastAppType (add_MSC_element mem d s) = ph_LastAppType s"
    using dynamic_label_frame(2) [of qt d 3 s] msc_frame(4) [of mem d s] by (simp_all add: field_part_def)
  moreover have "add_MSC_element mem d s = (if ph_MscGroupElement s then add_MSC_element mem d s else s)"
    using assms(4) by (auto simp: pad_inv_def add_MSC_element_def)
  ultimately have "(handle_content qt mem 3 d s)\<lparr>ph_LastAppType := ph_LastAppType s\<rparr> = dynamic_label qt d 3 s"
    "(handle_content qt mem 13 d s)\<lparr>ph_LastAppType := ph_LastAppType s\<rparr> =
       (if ph_MscGroupElement s then add_MSC_element mem d s else s)"
    by (simp_all add: handle_content_def update_LastAppType)
  moreover note l1 and \<open>map (\<lambda>j. b (l - int j)) [0..<length d] = d\<close>
  ultimately show ?thesis
    using assms(2-4) by (simp add: c pad_process_PAD_def handle_variable_PAD_def Let_def)
qed

subsection \<open>Applications do not disturb each other\<close>

text \<open>
  An application owns a part of the state and some application types: its part is changed by these types
  only, and their effect on it depends on it only.  Then what happens to the part is what the contents
  of its own types do, whatever else the fields carry and however the contents are spread over fields.
\<close>

lemma handle_content_field:
  "ph_LastAppType (handle_content qt mem t d s) = t" "ph_XPadLength (handle_content qt mem t d s) = ph_XPadLength s"
proof -
  have "field_part (handle_xpad_journaline t d s) = field_part s"
    by (simp add: handle_xpad_journaline_def Let_def pad_frame)
  then show "ph_LastAppType (handle_content qt mem t d s) = t" "ph_XPadLength (handle_content qt mem t d s) = ph_XPadLength s"
    using dynamic_label_frame(2) [of qt d t s] msc_frame(2,4) [of mem d s]
    by (simp_all add: handle_content_def Let_def field_part_def)
qed

lemma apply_contents_field:
  "ph_XPadLength (apply_contents qt xs s) = ph_XPadLength s"
  "ph_LastAppType (apply_contents qt xs s) = (if xs = [] then ph_LastAppType s else fst (snd (last xs)))"
proof -
  show "ph_XPadLength (apply_contents qt xs s) = ph_XPadLength s"
    unfolding apply_contents_def by (induction xs arbitrary: s) (auto simp: handle_content_field)
  show "ph_LastAppType (apply_contents qt xs s) = (if xs = [] then ph_LastAppType s else fst (snd (last xs)))"
    unfolding apply_contents_def by (induction xs rule: rev_induct) (auto simp: handle_content_field split: prod.splits)
qed

lemma pad_inv_content: "pad_inv s \<Longrightarrow> pad_inv (handle_content qt mem t d s)"
proof -
  have "msc_part (handle_xpad_journaline t d s) = msc_part s"
    by (simp add: handle_xpad_journaline_def Let_def pad_frame)
  then show "pad_inv s \<Longrightarrow> pad_inv (handle_content qt mem t d s)"
    using dynamic_label_frame(1) [of qt d t s]
    by (auto simp: handle_content_def Let_def pad_inv_def msc_part_def new_MSC_element_def add_MSC_element_def emit_pad_def build_frame)
qed

lemma pad_inv_contents: "pad_inv s \<Longrightarrow> pad_inv (apply_contents qt xs s)"
  unfolding apply_contents_def by (induction xs arbitrary: s) (auto simp: pad_inv_content)

locale xpad_application =
  fixes part :: "pad_handler \<Rightarrow> 'p" and mine :: "nat set"
  assumes other: "t \<notin> mine \<Longrightarrow> part (handle_content qt mem t d s) = part s"
    and own: "t \<in> mine \<Longrightarrow> part s = part s' \<Longrightarrow> part (handle_content qt mem t d s) = part (handle_content qt mem t d s')"
    and field: "part (s\<lparr>ph_XPadLength := n\<rparr>) = part s" "part (s\<lparr>ph_LastAppType := t\<rparr>) = part s"
    and journaline: "part (add_journaline_element d s) = part s"
begin

lemma contents_cong: "part s = part s' \<Longrightarrow> part (apply_contents qt xs s) = part (apply_contents qt xs s')"
proof (induction xs arbitrary: s s')
  case (Cons x xs)
  obtain mem t d where x: "x = (mem, t, d)"
    by (cases x)
  have "part (handle_content qt mem t d s) = part (handle_content qt mem t d s')"
    using own [OF _ Cons.prems, of t] Cons.prems by (cases "t \<in> mine") (simp_all add: other)
  from Cons.IH [OF this] show ?case
    by (simp add: apply_contents_def x)
qed (simp add: apply_contents_def)

lemma contents_own:
  "part (apply_contents qt xs s) = part (apply_contents qt (filter (\<lambda>(mem, t, d). t \<in> mine) xs) s)"
proof (induction xs arbitrary: s)
  case (Cons x xs)
  obtain mem t d where x: "x = (mem, t, d)"
    by (cases x)
  show ?case
  proof (cases "t \<in> mine")
    case True
    then show ?thesis
      using Cons.IH by (simp add: x apply_contents_def)
  next
    case False
    then have "part (apply_contents qt xs (handle_content qt mem t d s)) = part (apply_contents qt xs s)"
      by (intro contents_cong other)
    then show ?thesis
      using Cons.IH False by (simp add: x apply_contents_def)
  qed
qed (simp add: apply_contents_def)

lemma run_contents:
  assumes "list_all2 xpad_carried calls xs" "xpads_ok n xs" "ph_XPadLength s = int n \<or> (\<exists>subs ys. xs = CIs subs # ys) \<or> xs = []" "pad_inv s"
  shows "part (pad_run qt calls s) = part (apply_contents qt (contents (ph_LastAppType s) (zip calls xs)) s)"
  using assms
proof (induction calls xs arbitrary: n s rule: list_all2_induct)
  case (Cons c calls x xs)
  let ?s = "(\<lambda>(mem, b, l, l1, l0). pad_process_PAD qt mem b l l1 l0) c s"
  have run: "pad_run qt (c # calls) s = pad_run qt calls ?s"
    by (simp add: pad_run_def)
  show ?case
  proof (cases x)
    case (CIs subs)
    let ?xs = "map (\<lambda>(ci, d). (fst c, get_appl_type ci, d)) subs"
    let ?r = "s\<lparr>ph_XPadLength := int (length (xpad_bytes (CIs subs)))\<rparr>"
    have ok: "length subs \<le> 4" "list_all indicator_ok subs" "xpads_ok (length (xpad_bytes (CIs subs))) xs"
      using Cons.prems(1) CIs by simp_all
    have s': "?s = apply_contents qt ?xs ?r"
      using field_with_indicators [OF Cons.hyps(1) [unfolded CIs] ok(1,2), of qt s] .
    have t: "ph_LastAppType ?s = (if subs = [] then ph_LastAppType s else get_appl_type (fst (last subs)))"
      unfolding s' apply_contents_field by (simp add: last_map split: prod.splits)
    have "pad_inv ?s"
      unfolding s' by (rule pad_inv_contents) (use Cons.prems(3) in \<open>simp add: pad_inv_def\<close>)
    moreover have "ph_XPadLength ?s = int (length (xpad_bytes (CIs subs)))"
      unfolding s' apply_contents_field by simp
    ultimately have "part (pad_run qt calls ?s) = part (apply_contents qt (contents (ph_LastAppType ?s) (zip calls xs)) ?s)"
      by (intro Cons.IH [OF ok(3)] disjI1)
    also have "\<dots> = part (apply_contents qt (?xs @ contents (ph_LastAppType ?s) (zip calls xs)) ?r)"
      by (simp add: s' apply_contents_def)
    also have "\<dots> = part (apply_contents qt (?xs @ contents (ph_LastAppType ?s) (zip calls xs)) s)"
      by (intro contents_cong field)
    finally show ?thesis
      by (simp add: run t CIs)
  next
    case (NoCI d)
    let ?t = "ph_LastAppType s"
    let ?xs = "if ?t = 2 \<or> ?t = 3 then [(fst c, 3, d)] else if ?t = 12 \<or> ?t = 13 then [(fst c, 13, d)] else []"
    have n: "ph_XPadLength s = int (length d)" "d \<noteq> []" "length d = n"
      using Cons.prems(1,2) NoCI by auto
    note s' = field_without_indicators [OF Cons.hyps(1) [unfolded NoCI] n(1,2) Cons.prems(3), of qt, unfolded Let_def]
    have p: "part ?s = part (apply_contents qt ?xs s)" "ph_LastAppType ?s = ?t" "ph_XPadLength ?s = ph_XPadLength s" "pad_inv ?s"
      using Cons.prems(3) pad_inv_content [OF Cons.prems(3), of qt "fst c"] journaline_frame(2,3) [of d s]
      by (auto simp: s' apply_contents_def field journaline handle_content_field pad_inv_def field_part_def msc_part_def)
    have "part (pad_run qt calls ?s) = part (apply_contents qt (contents (ph_LastAppType ?s) (zip calls xs)) ?s)"
      using Cons.prems(1) NoCI n p by (intro Cons.IH) (auto)
    also have "\<dots> = part (apply_contents qt (contents ?t (zip calls xs)) (apply_contents qt ?xs s))"
      unfolding p(2) by (rule contents_cong) (rule p(1))
    finally show ?thesis
      by (simp add: run NoCI apply_contents_def)
  qed
qed (simp add: pad_run_def apply_contents_def)

lemma run_own:
  assumes "list_all2 xpad_carried calls xs" "xpads_ok n xs" "ph_XPadLength s = int n \<or> (\<exists>subs ys. xs = CIs subs # ys) \<or> xs = []" "pad_inv s"
  shows "part (pad_run qt calls s) =
    part (apply_contents qt (filter (\<lambda>(mem, t, d). t \<in> mine) (contents (ph_LastAppType s) (zip calls xs))) s)"
  using run_contents [OF assms] contents_own by simp

end

lemma label_cong:
  assumes "label_part s = label_part s'"
  shows "label_part (clear_label s) = label_part (clear_label s')" "label_part (append_label xs s) = label_part (append_label xs s')"
    "label_part (show_label qt s) = label_part (show_label qt s')"
    "label_part (s\<lparr>ph_SegmentNo := a\<rparr>) = label_part (s'\<lparr>ph_SegmentNo := a\<rparr>)"
    "label_part (s\<lparr>ph_SegmentNo := a, ph_CharSet := a'\<rparr>) = label_part (s'\<lparr>ph_SegmentNo := a, ph_CharSet := a'\<rparr>)"
    "label_part (s\<lparr>ph_MoreXPad := b\<rparr>) = label_part (s'\<lparr>ph_MoreXPad := b\<rparr>)"
    "label_part (s\<lparr>ph_IsLastSegment := b\<rparr>) = label_part (s'\<lparr>ph_IsLastSegment := b\<rparr>)"
    "label_part (s\<lparr>ph_RemainDataLength := a\<rparr>) = label_part (s'\<lparr>ph_RemainDataLength := a\<rparr>)"
    "ph_SegmentNo s = ph_SegmentNo s'" "ph_MoreXPad s = ph_MoreXPad s'" "ph_RemainDataLength s = ph_RemainDataLength s'"
    "ph_IsLastSegment s = ph_IsLastSegment s'"
  using assms
  by (simp_all add: part_defs clear_label_def reset_charset_change_def append_label_def check_charset_change_def show_label_def)

lemma append_more: "ph_MoreXPad (append_label xs s) = ph_MoreXPad s" "ph_IsLastSegment (append_label xs s) = ph_IsLastSegment s"
  by (simp_all add: append_label_def check_charset_change_def)

lemma label_if_cong:
  "label_part x = label_part x' \<Longrightarrow> label_part y = label_part y' \<Longrightarrow> label_part (if b then x else y) = label_part (if b then x' else y')"
  by simp

lemma label_continue_cases:
  "label_continue qt dat s =
     (if ph_RemainDataLength s > int (length dat)
      then if \<not> ph_MoreXPad s \<and> ph_IsLastSegment s
           then show_label qt (append_label dat (s\<lparr>ph_RemainDataLength := ph_RemainDataLength s - int (length dat)\<rparr>))
           else append_label dat (s\<lparr>ph_RemainDataLength := ph_RemainDataLength s - int (length dat)\<rparr>)
      else if ph_IsLastSegment s
      then show_label qt (append_label (take (nat (ph_RemainDataLength s)) dat) (s\<lparr>ph_MoreXPad := False\<rparr>))
      else append_label (take (nat (ph_RemainDataLength s)) dat) (s\<lparr>ph_MoreXPad := False\<rparr>))"
  by (simp add: label_continue_def Let_def append_more)

lemma dynamic_label_cong:
  assumes "label_part s = label_part s'"
  shows "label_part (dynamic_label qt d t s) = label_part (dynamic_label qt d t s')"
proof -
  note c = label_cong [OF assms]
  have "label_part (label_start qt d s) = label_part (label_start qt d s')"
    unfolding label_start_def Let_def c(9) by (intro label_if_cong label_cong(1-8) assms)
  moreover have "label_part (label_continue qt d s) = label_part (label_continue qt d s')"
    unfolding label_continue_cases c(10-12) by (intro label_if_cong label_cong(1-8) assms)
  ultimately show ?thesis
    using assms c(10) by (simp add: dynamic_label_def)
qed

interpretation label_app: xpad_application label_part "{2, 3}"
proof
  show "label_part (handle_content qt mem t d s) = label_part s" if "t \<notin> {2, 3}" for t qt mem d s
    using that by (simp add: handle_content_def Let_def handle_xpad_journaline_def pad_frame) (simp add: part_defs)
  show "label_part (handle_content qt mem t d s) = label_part (handle_content qt mem t d s')"
    if "t \<in> {2, 3}" "label_part s = label_part s'" for t s s' qt mem d
    using that dynamic_label_cong [OF that(2)] by (auto simp: handle_content_def Let_def pad_frame)
qed (simp_all add: pad_frame)

lemma build_cong:
  assumes "msc_part s = msc_part s'"
  shows "msc_part (build_MSC_segment mem d s) = msc_part (build_MSC_segment mem d s')"
proof -
  have "ph_MotObject (build_MSC_segment mem d s) = ph_MotObject (build_MSC_segment mem d s')"
    using assms by (simp add: build_MSC_segment_def Let_def msc_part_def)
  then show ?thesis
    using assms by (simp add: msc_part_def build_frame)
qed

lemma msc_cong:
  assumes "msc_part s = msc_part s'"
  shows "msc_part (s\<lparr>ph_MscGroupElement := b\<rparr>) = msc_part (s'\<lparr>ph_MscGroupElement := b\<rparr>)"
    "msc_part (s\<lparr>ph_MscDataGroupBuffer := d\<rparr>) = msc_part (s'\<lparr>ph_MscDataGroupBuffer := d\<rparr>)"
    "msc_part (s\<lparr>ph_DataGroupLength := n\<rparr>) = msc_part (s'\<lparr>ph_DataGroupLength := n\<rparr>)"
    "msc_part (emit_pad x s) = msc_part (emit_pad x s')"
    "ph_DataGroupLength s = ph_DataGroupLength s'" "ph_MscDataGroupBuffer s = ph_MscDataGroupBuffer s'"
  using assms by (simp_all add: msc_part_def emit_pad_def)

lemma msc_if_cong:
  "msc_part x = msc_part x' \<Longrightarrow> msc_part y = msc_part y' \<Longrightarrow> msc_part (if b then x else y) = msc_part (if b then x' else y')"
  by simp

lemma msc_elements_cong:
  assumes "msc_part s = msc_part s'"
  shows "msc_part (new_MSC_element mem d s) = msc_part (new_MSC_element mem d s')"
    and "msc_part (add_MSC_element mem d s) = msc_part (add_MSC_element mem d s')"
proof -
  note c = msc_cong(5,6) [OF assms]
  have "ph_DataGroupLength (s\<lparr>ph_MscDataGroupBuffer := x\<rparr>) = ph_DataGroupLength (s'\<lparr>ph_MscDataGroupBuffer := x\<rparr>)"
    "ph_MscDataGroupBuffer (s\<lparr>ph_MscDataGroupBuffer := x\<rparr>) = ph_MscDataGroupBuffer (s'\<lparr>ph_MscDataGroupBuffer := x\<rparr>)" for x
    using c by simp_all
  note c = c this
  show "msc_part (new_MSC_element mem d s) = msc_part (new_MSC_element mem d s')"
    unfolding new_MSC_element_def Let_def c by (intro msc_if_cong msc_cong(1-4) build_cong assms)
  show "msc_part (add_MSC_element mem d s) = msc_part (add_MSC_element mem d s')"
    unfolding add_MSC_element_def Let_def c by (intro msc_if_cong msc_cong(1-4) build_cong assms)
qed

interpretation mot_app: xpad_application msc_part "{1, 12, 13}"
proof
  show "msc_part (handle_content qt mem t d s) = msc_part s" if "t \<notin> {1, 12, 13}" for t qt mem d s
    using that by (simp add: handle_content_def Let_def handle_xpad_journaline_def pad_frame)
  show "msc_part (handle_content qt mem t d s) = msc_part (handle_content qt mem t d s')"
    if t: "t \<in> {1, 12, 13}" and s: "msc_part s = msc_part s'" for t s s' qt mem d
    using t msc_elements_cong [OF s, of mem d] msc_cong(3) [OF s] s by (auto simp: handle_content_def Let_def pad_frame)
qed (simp_all add: pad_frame)

end
