(* ===== verification/Pad_Properties.thy ===== *)
theory Pad_Properties
  imports Pad_Handler
begin

text \<open>
  Dynamic labels and multimedia objects sent in the X-PAD arrive: the sender is defined here, and the
  PAD handler is shown to rebuild what was sent, whatever else is interleaved with it.
\<close>

section \<open>Dynamic labels\<close>

text \<open>
  The data group of segment \<open>j\<close> of a label with texts \<open>ts\<close>: two bytes of prefix, with the toggle bit, the
  first and last flags, the length of the text, and the character set or the number of the segment.
\<close>

definition label_group :: "bool \<Rightarrow> nat \<Rightarrow> u8 list list \<Rightarrow> nat \<Rightarrow> u8 list" where
  "label_group toggle cs ts j =
     [of_nat ((if toggle then 128 else 0) + (if j = 0 then 64 else 0) + (if Suc j = length ts then 32 else 0) + (length (ts ! j) - 1)),
      of_nat (16 * (if j = 0 then cs else j))] @ ts ! j"

definition label_ok :: "nat \<Rightarrow> u8 list list \<Rightarrow> bool" where
  "label_ok cs ts \<longleftrightarrow> cs < 16 \<and> ts \<noteq> [] \<and> length ts \<le> 8 \<and> list_all (\<lambda>t. t \<noteq> [] \<and> length t \<le> 16) ts"

text \<open>A data group cut into pieces: the first of type 2, the others of type 3, and what follows the text is ignored.\<close>

definition label_pieces :: "u8 list \<Rightarrow> (nat \<times> u8 list) list \<Rightarrow> bool" where
  "label_pieces g xs \<longleftrightarrow>
     (\<exists>c cs rest. xs = (2, c) # map (Pair 3) cs \<and> 2 \<le> length c \<and> c @ concat cs = g @ rest)"

definition label_signal :: "qt_codec \<Rightarrow> u8 list \<Rightarrow> int \<Rightarrow> pad_signal" where
  "label_signal qt text cs = signal_show_label (to_QString_using_charset qt (map unat text) cs (Some (length text)))"

lemma prefix_fields:
  fixes a b :: u8
  defines "p \<equiv> push_bit 8 (ucast a) OR ucast b :: u16"
  shows "unat (drop_bit 8 p AND 0xf) = unat a mod 16" "drop_bit 12 p AND 1 = 0 \<longleftrightarrow> \<not> bit a 4"
    "drop_bit 14 p AND 1 = 0 \<longleftrightarrow> \<not> bit a 6" "drop_bit 13 p AND 1 = 0 \<longleftrightarrow> \<not> bit a 5"
    "unat (drop_bit 4 p AND 7) = unat b div 16 mod 8" "unat (drop_bit 4 p AND 0xf) = unat b div 16"
proof -
  have nib: "unat ((ucast w :: u16) AND mask n) = unat w mod 2 ^ n" for w :: u8 and n
  proof -
    have "unat (ucast w :: u16) = unat w"
      using unsigned_less [of w, where 'a = nat] by (simp add: unsigned_ucast_eq take_bit_eq_mod)
    then show ?thesis
      by (simp add: unat_and_mask)
  qed
  have one: "w AND 1 = 0 \<longleftrightarrow> \<not> bit w 0" for w :: u16
    by (simp add: and_one_eq bit_0 even_iff_mod_2_eq_zero)
  have "drop_bit 8 p AND mask 4 = ucast a AND mask 4"
    unfolding p_def by (rule bit_word_eqI) (auto simp: bit_simps dest: bit_imp_le_length)
  then show "unat (drop_bit 8 p AND 0xf) = unat a mod 16"
    using nib [of a 4] by (simp add: mask_eq_exp_minus_1)
  show "drop_bit 12 p AND 1 = 0 \<longleftrightarrow> \<not> bit a 4" "drop_bit 14 p AND 1 = 0 \<longleftrightarrow> \<not> bit a 6" "drop_bit 13 p AND 1 = 0 \<longleftrightarrow> \<not> bit a 5"
    unfolding one p_def by (auto simp: bit_simps dest: bit_imp_le_length)
  have "drop_bit 4 p AND mask 3 = ucast (drop_bit 4 b) AND mask 3" "drop_bit 4 p AND mask 4 = ucast (drop_bit 4 b) AND mask 4"
    unfolding p_def by (rule bit_word_eqI, auto simp: bit_simps)+
  moreover have "unat b div 16 < 16"
    using unsigned_less [of b, where 'a = nat] by simp
  ultimately show "unat (drop_bit 4 p AND 7) = unat b div 16 mod 8" "unat (drop_bit 4 p AND 0xf) = unat b div 16"
    using nib [of "drop_bit 4 b" 3] nib [of "drop_bit 4 b" 4] by (simp_all add: mask_eq_exp_minus_1 unat_drop_bit)
qed

lemma append_label_fields:
  "ph_DynamicLabelTextUnConverted (append_label xs s) = ph_DynamicLabelTextUnConverted s @ xs"
  "ph_CharSet (append_label xs s) = ph_CharSet s" "ph_SegmentNo (append_label xs s) = ph_SegmentNo s"
  "ph_RemainDataLength (append_label xs s) = ph_RemainDataLength s" "labels_shown (append_label xs s) = labels_shown s"
  by (simp_all add: append_label_def check_charset_change_def labels_shown_def)

lemma show_label_fields:
  "labels_shown (show_label qt s) = labels_shown s @ [label_signal qt (ph_DynamicLabelTextUnConverted s) (ph_CharSet s)]"
  "ph_DynamicLabelTextUnConverted (show_label qt s) = ph_DynamicLabelTextUnConverted s" "ph_CharSet (show_label qt s) = ph_CharSet s"
  "ph_SegmentNo (show_label qt s) = ph_SegmentNo s" "ph_MoreXPad (show_label qt s) = ph_MoreXPad s"
  by (simp_all add: show_label_def emit_pad_def labels_shown_def is_label_def label_signal_def)

lemma clear_label_fields:
  "ph_DynamicLabelTextUnConverted (clear_label s) = []" "ph_CharSet (clear_label s) = ph_CharSet s"
  "ph_SegmentNo (clear_label s) = ph_SegmentNo s" "labels_shown (clear_label s) = labels_shown s"
  "ph_MoreXPad (clear_label s) = ph_MoreXPad s"
  by (simp_all add: clear_label_def reset_charset_change_def labels_shown_def)

lemma update_shown:
  "labels_shown (s\<lparr>ph_SegmentNo := a\<rparr>) = labels_shown s" "labels_shown (s\<lparr>ph_CharSet := a\<rparr>) = labels_shown s"
  "labels_shown (s\<lparr>ph_MoreXPad := b\<rparr>) = labels_shown s" "labels_shown (s\<lparr>ph_IsLastSegment := b\<rparr>) = labels_shown s"
  "labels_shown (s\<lparr>ph_RemainDataLength := a\<rparr>) = labels_shown s"
  by (simp_all add: labels_shown_def)

lemmas label_fields = append_label_fields append_more show_label_fields clear_label_fields update_shown

text \<open>The pieces of type 3 deliver the rest of the text; without a rest they are ignored.\<close>

definition label_pieces_3 :: "qt_codec \<Rightarrow> u8 list list \<Rightarrow> pad_handler \<Rightarrow> pad_handler" where
  "label_pieces_3 qt cs s = fold (\<lambda>d. dynamic_label qt d 3) cs s"

lemma pieces_3_ignored: "\<not> ph_MoreXPad s \<Longrightarrow> label_pieces_3 qt cs s = s"
  unfolding label_pieces_3_def by (induction cs) (simp_all add: dynamic_label_def)

lemma pieces_3_text:
  assumes "ph_MoreXPad s" "ph_RemainDataLength s = int (length r)" "concat cs = r @ rest" "r \<noteq> []"
  shows "let s' = label_pieces_3 qt cs s; text = ph_DynamicLabelTextUnConverted s @ r in
    ph_DynamicLabelTextUnConverted s' = text \<and> ph_CharSet s' = ph_CharSet s \<and> ph_SegmentNo s' = ph_SegmentNo s \<and>
    labels_shown s' = labels_shown s @ (if ph_IsLastSegment s then [label_signal qt text (ph_CharSet s)] else [])"
  using assms
proof (induction cs arbitrary: s r)
  case (Cons d cs)
  have step: "label_pieces_3 qt (d # cs) s = label_pieces_3 qt cs (label_continue qt d s)"
    using Cons.prems(1) by (simp add: label_pieces_3_def dynamic_label_def)
  show ?case
  proof (cases "length r > length d")
    case True
    then have r: "r = d @ drop (length d) r" "concat cs = drop (length d) r @ rest"
      using Cons.prems(3) append_take_drop_id [of "length d" r] by (auto simp: append_eq_append_conv_if simp del: append_take_drop_id)
    have l: "label_continue qt d s = append_label d (s\<lparr>ph_RemainDataLength := ph_RemainDataLength s - int (length d)\<rparr>)"
      using Cons.prems(1,2) True by (simp add: label_continue_cases)
    show ?thesis
      using Cons.IH [of "label_continue qt d s" "drop (length d) r"] Cons.prems True r
      by (simp add: step l Let_def label_fields)
  next
    case False
    then have "take (length r) d = r"
      using Cons.prems(3) by (auto simp: append_eq_append_conv_if split: if_splits)
    then have "label_continue qt d s =
        (if ph_IsLastSegment s then show_label qt (append_label r (s\<lparr>ph_MoreXPad := False\<rparr>)) else append_label r (s\<lparr>ph_MoreXPad := False\<rparr>))"
      using Cons.prems(2) False by (simp add: label_continue_cases)
    then show ?thesis
      using pieces_3_ignored [of "label_continue qt d s" qt cs] by (simp add: step Let_def label_fields)
  qed
qed simp

text \<open>One data group: its text is added, and after the last one the label is shown.\<close>

lemma bit_odd: "bit w k \<longleftrightarrow> odd (unat w div 2 ^ k)" for w :: u8
  by (simp add: bit_simps flip: bit_iff_odd)

lemma prefix_bits:
  fixes n :: nat and a b c :: bool
  assumes "n < 16"
  defines "w \<equiv> of_nat ((if a then 128 else 0) + (if b then 64 else 0) + (if c then 32 else 0) + n) :: u8"
  shows "unat w mod 16 = n" "\<not> bit w 4" "bit w 6 \<longleftrightarrow> b" "bit w 5 \<longleftrightarrow> c"
proof -
  let ?q = "(if a then 8 else 0) + (if b then 4 else 0) + (if c then 2 else 0) :: nat"
  have "unat w = (if a then 128 else 0) + (if b then 64 else 0) + (if c then 32 else 0) + n"
    unfolding w_def unat_of_nat using assms(1) by simp
  then have w: "unat w = 16 * ?q + n"
    by simp
  show "unat w mod 16 = n"
    unfolding w mod_mult_self4 using assms(1) by (rule mod_less)
  have "unat w div 16 = ?q"
    unfolding w using assms(1) by (simp only: div_mult_self4 zero_neq_numeral not_False_eq_True div_less add_0_right)
  moreover note bit_odd [of w 4] bit_odd [of w 5] bit_odd [of w 6]
  moreover have "unat w div 64 = unat w div 16 div 4" "unat w div 32 = unat w div 16 div 2"
    by (simp_all flip: div_mult2_eq)
  ultimately show "\<not> bit w 4" "bit w 6 \<longleftrightarrow> b" "bit w 5 \<longleftrightarrow> c"
    by simp_all
qed

definition label_at :: "nat \<Rightarrow> u8 list list \<Rightarrow> nat \<Rightarrow> pad_handler \<Rightarrow> bool" where
  "label_at cs ts j s \<longleftrightarrow>
     ph_SegmentNo s = int j \<and> ph_DynamicLabelTextUnConverted s = concat (take j ts) \<and> ph_CharSet s = int cs"

lemma label_start_group:
  assumes "label_ok cs ts" "j < length ts" "j = 0 \<or> label_at cs ts j s"
    and g: "label_group toggle cs ts j = p0 # p1 # ts ! j"
  defines "n \<equiv> length (ts ! j)"
  shows "\<exists>s1. label_at cs ts j (s1\<lparr>ph_SegmentNo := int j\<rparr>) \<and> ph_SegmentNo s1 = int j + 1 \<and> labels_shown s1 = labels_shown s \<and>
    label_start qt (p0 # p1 # c) s =
      (let s2 = append_label (take n c) (s1\<lparr>ph_MoreXPad := length c < n\<rparr>);
           s3 = (if Suc j = length ts then (if length c < n then s2\<lparr>ph_IsLastSegment := True\<rparr> else (show_label qt s2)\<lparr>ph_SegmentNo := - 1\<rparr>)
                 else s2\<lparr>ph_IsLastSegment := False\<rparr>)
       in s3\<lparr>ph_RemainDataLength := int (n - length c)\<rparr>)"
proof -
  have n: "0 < n" "n - 1 < 16" "cs < 16" "j < 8"
    using assms(1,2) by (auto simp: label_ok_def list_all_length n_def)
  have p: "p0 = of_nat ((if toggle then 128 else 0) + (if j = 0 then 64 else 0) + (if Suc j = length ts then 32 else 0) + (n - 1))"
      "p1 = of_nat (16 * (if j = 0 then cs else j))"
    using g by (simp_all add: label_group_def n_def)
  note p0 = prefix_bits [OF n(2), of toggle "j = 0" "Suc j = length ts", folded p(1)]
  have p1: "unat p1 div 16 = (if j = 0 then cs else j)"
    unfolding p(2) unat_of_nat using n by simp
  let ?pre = "push_bit 8 (ucast p0) OR ucast p1 :: u16"
  note f = prefix_fields [of p0 p1]
  have seg: "int (unat (drop_bit 4 ?pre AND 7)) + 1 = (if j = 0 then int (cs mod 8) + 1 else int j + 1)"
    and set: "int (unat (drop_bit 4 ?pre AND 0xf)) = (if j = 0 then int cs else int j)"
    and len: "unat (drop_bit 8 ?pre AND 0xf) = n - 1"
    using n(4) unfolding f p1 p0(1) by simp_all
  define s1 where "s1 = (if j = 0 then clear_label (s\<lparr>ph_SegmentNo := 1, ph_CharSet := int cs\<rparr>) else s\<lparr>ph_SegmentNo := int j + 1\<rparr>)"
  have "label_at cs ts j (s1\<lparr>ph_SegmentNo := int j\<rparr>)" "ph_SegmentNo s1 = int j + 1" "labels_shown s1 = labels_shown s"
    using assms(3) by (auto simp: s1_def label_at_def label_fields)
  moreover have "label_start qt (p0 # p1 # c) s =
      (let s2 = append_label (take n c) (s1\<lparr>ph_MoreXPad := length c < n\<rparr>);
           s3 = (if Suc j = length ts then (if length c < n then s2\<lparr>ph_IsLastSegment := True\<rparr> else (show_label qt s2)\<lparr>ph_SegmentNo := - 1\<rparr>)
                 else s2\<lparr>ph_IsLastSegment := False\<rparr>)
       in s3\<lparr>ph_RemainDataLength := int (n - length c)\<rparr>)"
    using assms(3) n(1) p0
    unfolding label_start_def Let_def nth_Cons_0 One_nat_def nth_Cons_Suc f(2-4) seg set len s1_def label_at_def
    by (auto simp: of_nat_diff)
  ultimately show ?thesis
    by blast
qed

lemma group_received:
  fixes qt :: qt_codec
  assumes "label_ok cs ts" "j < length ts" "j = 0 \<or> label_at cs ts j s" "label_pieces (label_group toggle cs ts j) xs"
  defines "s' \<equiv> fold (\<lambda>(t, d). dynamic_label qt d t) xs s"
  shows "Suc j < length ts \<Longrightarrow> label_at cs ts (Suc j) s'"
    and "labels_shown s' = labels_shown s @ (if Suc j = length ts then [label_signal qt (concat ts) (int cs)] else [])"
proof -
  obtain p0 p1 where g: "label_group toggle cs ts j = p0 # p1 # ts ! j"
    by (simp add: label_group_def)
  obtain c0 ds rest where xs: "xs = (2, c0) # map (Pair 3) ds" "2 \<le> length c0" "c0 @ concat ds = (p0 # p1 # ts ! j) @ rest"
    using assms(4) unfolding label_pieces_def g by blast
  then obtain c where c: "c0 = p0 # p1 # c" "c @ concat ds = ts ! j @ rest"
    by (cases c0; cases "tl c0") auto
  let ?n = "length (ts ! j)"
  obtain s1 where s1: "label_at cs ts j (s1\<lparr>ph_SegmentNo := int j\<rparr>)" "ph_SegmentNo s1 = int j + 1" "labels_shown s1 = labels_shown s"
    and start: "label_start qt (p0 # p1 # c) s =
      (let s2 = append_label (take ?n c) (s1\<lparr>ph_MoreXPad := length c < ?n\<rparr>);
           s3 = (if Suc j = length ts then (if length c < ?n then s2\<lparr>ph_IsLastSegment := True\<rparr> else (show_label qt s2)\<lparr>ph_SegmentNo := - 1\<rparr>)
                 else s2\<lparr>ph_IsLastSegment := False\<rparr>)
       in s3\<lparr>ph_RemainDataLength := int (?n - length c)\<rparr>)"
    using label_start_group [OF assms(1-3) g] by blast
  have "fold (\<lambda>(t, d). dynamic_label qt d t) (map (Pair 3) ds) x = label_pieces_3 qt ds x" for x
    unfolding label_pieces_3_def by (induction ds arbitrary: x) simp_all
  then have s': "s' = label_pieces_3 qt ds (label_start qt (p0 # p1 # c) s)"
    by (simp add: s'_def xs(1) c(1) dynamic_label_def)
  have joined: "concat (take j ts) @ ts ! j = concat (take (Suc j) ts)" "Suc j = length ts \<Longrightarrow> concat (take (Suc j) ts) = concat ts"
    using assms(2) by (simp_all add: take_Suc_conv_app_nth)
  have "(Suc j < length ts \<longrightarrow> label_at cs ts (Suc j) s') \<and>
      labels_shown s' = labels_shown s @ (if Suc j = length ts then [label_signal qt (concat ts) (int cs)] else [])"
  proof (cases "length c < ?n")
    case True
    then have r: "take ?n c = c" "ts ! j = c @ drop (length c) (ts ! j)" "concat ds = drop (length c) (ts ! j) @ rest" "drop (length c) (ts ! j) \<noteq> []"
      using c(2) append_take_drop_id [of "length c" "ts ! j"] by (auto simp: append_eq_append_conv_if simp del: append_take_drop_id)
    have "concat (take j ts) @ c @ drop (length c) (ts ! j) = concat (take (Suc j) ts)"
      using joined(1) r(2) by simp
    then show ?thesis
      using pieces_3_text [of "label_start qt (p0 # p1 # c) s" "drop (length c) (ts ! j)" ds rest qt] True r(1,3,4) s1 joined
      unfolding s' start by (auto simp: Let_def label_fields label_at_def)
  next
    case False
    then have r: "take ?n c = ts ! j"
      using c(2) by (auto simp: append_eq_append_conv_if split: if_splits)
    have "label_pieces_3 qt ds (label_start qt (p0 # p1 # c) s) = label_start qt (p0 # p1 # c) s"
      using False by (intro pieces_3_ignored) (simp add: start Let_def label_fields)
    then show ?thesis
      using False r s1 joined unfolding s' start by (auto simp: Let_def label_fields label_at_def)
  qed
  then show "Suc j < length ts \<Longrightarrow> label_at cs ts (Suc j) s'"
      "labels_shown s' = labels_shown s @ (if Suc j = length ts then [label_signal qt (concat ts) (int cs)] else [])"
    by simp_all
qed

lemma groups_received:
  assumes "label_ok cs ts" "list_all2 label_pieces (map (label_group toggle cs ts) [j..<length ts]) gs" "j < length ts"
    and "j = 0 \<or> label_at cs ts j s"
  shows "labels_shown (fold (\<lambda>(t, d). dynamic_label qt d t) (concat gs) s) = labels_shown s @ [label_signal qt (concat ts) (int cs)]"
  using assms(2-4)
proof (induction "length ts - j" arbitrary: j gs s)
  case (Suc n)
  then obtain g gs' where gs: "gs = g # gs'" "label_pieces (label_group toggle cs ts j) g"
      "list_all2 label_pieces (map (label_group toggle cs ts) [Suc j..<length ts]) gs'"
    by (auto simp: upt_conv_Cons list_all2_Cons1)
  note r = group_received [OF assms(1) Suc.prems(2,3) gs(2), of qt]
  show ?case
  proof (cases "Suc j = length ts")
    case True
    then show ?thesis
      using r(2) gs by simp
  next
    case False
    then have l: "Suc j < length ts"
      using Suc.prems(2) by simp
    have "n = length ts - Suc j"
      using Suc.hyps(2) by simp
    from Suc.hyps(1) [OF this gs(3) l disjI2 [OF r(1) [OF l]]] show ?thesis
      using r(2) False by (simp add: gs(1))
  qed
qed simp

subsection \<open>Any calls keep the invariant\<close>

lemma short_frame: "msc_part (handle_short_PAD qt b l ci s) = msc_part s"
proof -
  have "msc_part (take_short n b i s) = msc_part s" "msc_part (s\<lparr>ph_ShortPadData := ds\<rparr>) = msc_part s"
      "msc_part (s\<lparr>ph_StillToGo := a\<rparr>) = msc_part s" "msc_part (s\<lparr>ph_SegmentNumber := a\<rparr>) = msc_part s"
      "msc_part (s\<lparr>ph_FirstSegment := x\<rparr>) = msc_part s" "msc_part (s\<lparr>ph_LastSegment := x\<rparr>) = msc_part s" for n b i s ds a x
    by (simp_all add: take_short_def Let_def msc_part_def)
  then show ?thesis
    by (simp add: handle_short_PAD_def Let_def label_frame update_frame)
qed

lemma handle_contents_inv: "pad_inv s \<Longrightarrow> pad_inv (handle_contents qt mem b base cis s)"
  by (induction cis arbitrary: base s) (simp_all add: Let_def pad_inv_content)

lemma variable_inv:
  assumes "pad_inv s"
  shows "pad_inv (handle_variable_PAD qt mem b l ci s)"
proof -
  have "pad_inv (dynamic_label qt d 3 s)" "pad_inv (add_journaline_element d s)" "pad_inv (add_MSC_element mem d s)" for d
    using assms dynamic_label_frame(1) [of qt d 3 s] journaline_frame(3) [of d s]
    by (auto simp: pad_inv_def msc_part_def add_MSC_element_def Let_def build_frame)
  moreover have "pad_inv (handle_contents qt mem b base cis (s\<lparr>ph_XPadLength := n\<rparr>))" for base cis n
    by (rule handle_contents_inv) (use assms in \<open>simp add: pad_inv_def\<close>)
  ultimately show ?thesis
    using assms by (simp add: handle_variable_PAD_def Let_def split: prod.split)
qed

lemma pad_inv_run: "pad_inv s \<Longrightarrow> pad_inv (pad_run qt calls s)"
proof (induction calls arbitrary: s)
  case (Cons c calls)
  obtain mem b l l1 l0 where c: "c = (mem, b, l, l1, l0)"
    by (cases c)
  have "pad_inv (handle_short_PAD qt b l ci s)" for ci
    using Cons.prems short_frame [of qt b l ci s] by (simp add: pad_inv_def msc_part_def)
  then have "pad_inv (pad_process_PAD qt mem b l l1 l0 s)"
    using Cons.prems variable_inv by (simp add: pad_process_PAD_def Let_def)
  then show ?case
    using Cons.IH by (simp add: pad_run_def c)
qed (simp add: pad_run_def)

lemma PadHandler_inv: "pad_inv (pad_run qt calls PadHandler)"
  by (rule pad_inv_run) (simp add: pad_inv_def PadHandler_def)

lemma labels_cong:
  "label_part s = label_part s' \<Longrightarrow>
   label_part (fold (\<lambda>(t, d). dynamic_label qt d t) xs s) = label_part (fold (\<lambda>(t, d). dynamic_label qt d t) xs s')"
proof (induction xs arbitrary: s s')
  case (Cons x xs)
  from Cons.IH [OF dynamic_label_cong [OF Cons.prems]] show ?case
    by (cases x) simp
qed simp

lemma label_contents:
  "label_part (apply_contents qt (filter (\<lambda>(m, t, d). t \<in> {2, 3}) c) s) =
   label_part (fold (\<lambda>(t, d). dynamic_label qt d t) (filter (\<lambda>(t, d). t \<in> {2, 3}) (map snd c)) s)"
proof (induction c arbitrary: s)
  case (Cons x c)
  obtain m t d where x: "x = (m, t, d)"
    by (cases x)
  show ?case
  proof (cases "t \<in> {2, 3}")
    case True
    then have "label_part (handle_content qt m t d s) = label_part (dynamic_label qt d t s)"
      by (auto simp: handle_content_def Let_def pad_frame)
    from labels_cong [OF this] show ?thesis
      using Cons.IH True by (simp add: x apply_contents_def)
  next
    case False
    then show ?thesis
      using Cons.IH by (simp add: x)
  qed
qed (simp add: apply_contents_def)

text \<open>
  C13: a dynamic label is shown as it was sent: whatever the PAD handler has received before, when the
  fields that arrive contain, among contents of other applications, the data groups of the one to eight
  segments of a label in order, each cut in any way into a starting and continuing pieces (also in
  fields without contents indicators), then exactly one label is shown, and it is the texts of the
  segments put together, converted once from the character set of the first segment.
\<close>

theorem pad_label_shown:
  assumes "label_ok cs ts" and "list_all2 xpad_carried calls (CIs subs # xs)" "xpads_ok 0 (CIs subs # xs)"
    and "filter (\<lambda>(t, d). t \<in> {2, 3})
        (map snd (contents (ph_LastAppType (pad_run qt before PadHandler)) (zip calls (CIs subs # xs)))) = concat gs"
    and "list_all2 label_pieces (map (label_group toggle cs ts) [0..<length ts]) gs"
  shows "labels_shown (pad_run qt (before @ calls) PadHandler) =
    labels_shown (pad_run qt before PadHandler) @
    [signal_show_label (to_QString_using_charset qt (map unat (concat ts)) (int cs) (Some (length (concat ts))))]"
proof -
  let ?s = "pad_run qt before PadHandler" and ?xs = "CIs subs # xs"
  let ?c = "contents (ph_LastAppType ?s) (zip calls ?xs)"
  have "label_part (pad_run qt calls ?s) = label_part (apply_contents qt (filter (\<lambda>(m, t, d). t \<in> {2, 3}) ?c) ?s)"
    using assms(2,3) PadHandler_inv by (intro label_app.run_own) auto
  also have "\<dots> = label_part (fold (\<lambda>(t, d). dynamic_label qt d t) (concat gs) ?s)"
    unfolding label_contents assms(4) ..
  finally have "labels_shown (pad_run qt calls ?s) = labels_shown (fold (\<lambda>(t, d). dynamic_label qt d t) (concat gs) ?s)"
    by (simp add: label_part_def)
  also have "\<dots> = labels_shown ?s @ [label_signal qt (concat ts) (int cs)]"
    using assms(1,5) by (intro groups_received) (auto simp: label_ok_def)
  finally show ?thesis
    by (simp add: pad_run_def label_signal_def)
qed

definition bytes_call :: "u8 \<Rightarrow> u8 list \<Rightarrow> pad_call" where
  "bytes_call l0 xs = ((\<lambda>_. 0), (\<lambda>i. if 0 \<le> i \<and> nat i < length xs then rev xs ! nat i else 0), int (length xs) - 1, 0x20, l0)"

lemma bytes_call_carries:
  "xpad_carried (bytes_call 2 (xpad_bytes (CIs subs))) (CIs subs)" "xpad_carried (bytes_call 0 d) (NoCI d)"
proof -
  have "rev xs ! nat (int (length xs) - 1 - int k) = xs ! k" if "k < length xs" for k and xs :: "u8 list"
  proof -
    have "nat (int (length xs) - 1 - int k) = length xs - Suc k"
      by simp
    then show ?thesis
      using that by (simp add: rev_nth)
  qed
  then show "xpad_carried (bytes_call 2 (xpad_bytes (CIs subs))) (CIs subs)" "xpad_carried (bytes_call 0 d) (NoCI d)"
    by (auto simp: xpad_carried_def bytes_call_def simp del: xpad_bytes.simps(1))
qed

text \<open>A label of two segments in the character set 0, the second in a field beside data of another application.\<close>

definition label_fields_sent :: "xpad list" where
  "label_fields_sent = [CIs [(2, [65, 0, 65, 66])], CIs [(7, [1, 2, 3, 4]), (2, [32, 16, 67, 0])]]"

lemma pad_label_shown_witness:
  "labels_shown (pad_run \<lparr>fromUtf16 = \<lambda>b n. [], fromUtf8 = \<lambda>b n. []\<rparr> (map (bytes_call 2 \<circ> xpad_bytes) label_fields_sent) PadHandler) =
   [signal_show_label [65, 66, 67]]"
proof -
  let ?qt = "\<lparr>fromUtf16 = \<lambda>b n. [], fromUtf8 = \<lambda>b n. []\<rparr>" and ?ts = "[[65, 66], [67]] :: u8 list list"
  let ?gs = "[[(2, [65, 0, 65, 66])], [(2, [32, 16, 67, 0])]] :: (nat \<times> u8 list) list list"
  have types: "get_appl_type 2 = 2" "get_appl_type 7 = 7" "get_length 2 = 4" "get_length 7 = 4"
    by (simp_all add: get_appl_type_def get_length_def cLengthTable_def)
  have "label_pieces (label_group False 0 ?ts 0) [(2, [65, 0, 65, 66])]"
    unfolding label_pieces_def by (intro exI [of _ "[65, 0, 65, 66]"] exI [of _ "[]"] exI [of _ "[]"]) (simp add: label_group_def)
  moreover have "label_pieces (label_group False 0 ?ts 1) [(2, [32, 16, 67, 0])]"
    unfolding label_pieces_def by (intro exI [of _ "[32, 16, 67, 0]"] exI [of _ "[]"] exI [of _ "[0]"]) (simp add: label_group_def)
  ultimately have gs: "list_all2 label_pieces (map (label_group False 0 ?ts) [0..<length ?ts]) ?gs"
    by (simp add: upt_conv_Cons)
  have ok: "label_ok 0 ?ts" "xpads_ok 0 label_fields_sent"
    by (simp_all add: label_ok_def label_fields_sent_def indicator_ok_def types)
  have carry: "list_all2 xpad_carried (map (bytes_call 2 \<circ> xpad_bytes) label_fields_sent) label_fields_sent"
    using bytes_call_carries(1) by (simp add: label_fields_sent_def del: xpad_bytes.simps)
  have "ph_LastAppType (pad_run ?qt [] PadHandler) = 0" "labels_shown (pad_run ?qt [] PadHandler) = []"
    by (simp_all add: pad_run_def PadHandler_def labels_shown_def)
  note th = pad_label_shown [OF ok(1) carry [unfolded label_fields_sent_def] ok(2) [unfolded label_fields_sent_def] _ gs, of ?qt "[]"]
  have "map ((!) ebuLatinToUcs2) [65, 66, 67] = [65, 66, 67]"
    by (simp add: ebuLatinToUcs2_def)
  then show ?thesis
    using th by (simp add: label_fields_sent_def types pad_run_def PadHandler_def labels_shown_def to_QString_using_charset_def
        UnicodeUcs2_def UnicodeUtf8_def upt_conv_Cons bytes_call_def)
qed

section \<open>Multimedia objects\<close>

text \<open>The sender: a check sum behind the data, the data group of a header or of a body segment, and its pieces.\<close>

definition append_crc :: "u8 list \<Rightarrow> u8 list" where
  "append_crc xs = (let c = calc_crc ((!) xs) (length xs) in xs @ [ucast (drop_bit 8 c), ucast c])"

definition mot_group :: "bool \<Rightarrow> bool \<Rightarrow> nat \<Rightarrow> nat \<Rightarrow> u8 list \<Rightarrow> u8 list" where
  "mot_group header final segno tid payload = append_crc
     ([if header then 0x73 else 0x74, 0, of_nat ((if final then 128 else 0) + segno div 256), of_nat segno, 0x12,
       of_nat (tid div 256), of_nat tid, of_nat (length payload div 256), of_nat (length payload)] @ payload)"

fun event_group :: "u8 list \<Rightarrow> u8 list list \<Rightarrow> nat \<Rightarrow> mot_event \<Rightarrow> u8 list" where
  "event_group hdr segs tid Header = mot_group True False 0 tid hdr"
| "event_group hdr segs tid (Segment i) = mot_group False (Suc i = length segs) i tid (segs ! i)"

text \<open>The length indicator (type 1), the first piece (type 12) and the others (type 13); what follows the group is ignored.\<close>

definition group_pieces :: "u8 list \<Rightarrow> (nat \<times> u8 list) list \<Rightarrow> bool" where
  "group_pieces g xs \<longleftrightarrow>
     (\<exists>c cs rest. xs = (1, append_crc [of_nat (length g div 256), of_nat (length g)]) # (12, c) # map (Pair 13) cs \<and>
        c \<noteq> [] \<and> c @ concat cs = g @ rest)"

text \<open>
  Length indicators also announce the groups of other applications, in the same member. Such foreign ones
  may come before the one of the group, but not between it and the last piece of the group.
\<close>

definition indicators :: "(nat \<times> u8 list) list \<Rightarrow> bool" where
  "indicators fs \<longleftrightarrow> list_all (\<lambda>(t, d). t = 1) fs"

definition announced_pieces :: "u8 list \<Rightarrow> (nat \<times> u8 list) list \<Rightarrow> bool" where
  "announced_pieces g xs \<longleftrightarrow> (\<exists>fs ys. xs = fs @ ys \<and> indicators fs \<and> group_pieces g ys)"

lemma announcedI: "indicators fs \<Longrightarrow> group_pieces g ys \<Longrightarrow> announced_pieces g (fs @ ys)"
  unfolding announced_pieces_def by blast

text \<open>A header whose name does not depend on what follows it in the memory.\<close>

definition header_complete :: "u8 list \<Rightarrow> bool" where
  "header_complete hdr \<longleftrightarrow> 7 \<le> length hdr \<and> (\<forall>mem nm. header_name (ptr mem hdr) nm = header_name (ptr (\<lambda>_. 0) hdr) nm)"

lemma length_append_crc [simp]: "length (append_crc xs) = length xs + 2"
  by (simp add: append_crc_def Let_def)

lemma append_crc_checks:
  assumes "\<And>i. i < length xs + 2 \<Longrightarrow> p i = append_crc xs ! i"
  shows "check_crc_bytes p (length xs)"
proof -
  let ?c = "calc_crc ((!) xs) (length xs)"
  have "p i = xs ! i" if "i < length xs" for i
    using assms [of i] that by (simp add: append_crc_def Let_def nth_append)
  then have "calc_crc p (length xs) = ?c"
    unfolding calc_crc_def by (intro arg_cong [where f = "\<lambda>x. NOT x"] foldl_cong) auto
  moreover have "p (length xs) = ucast (drop_bit 8 ?c)" "p (length xs + 1) = ucast ?c"
    using assms [of "length xs"] assms [of "length xs + 1"] by (simp_all add: append_crc_def Let_def nth_append)
  moreover have "push_bit 8 (ucast (ucast (drop_bit 8 c) :: u8)) OR ucast (ucast c :: u8) = c" for c :: u16
    by (rule bit_word_eqI) (auto simp: bit_simps)
  ultimately show ?thesis
    by (simp add: check_crc_bytes_def Let_def)
qed

lemma ptr_append: "ptr mem (a @ b) (length a + i) = ptr mem b i" "ptr mem (a @ b) i = ptr (ptr mem b) a i"
  by (auto simp: ptr_def nth_append)

lemma ptr_nth: "i < length xs \<Longrightarrow> ptr mem xs i = xs ! i"
  by (simp add: ptr_def)

lemma header_core_cong:
  assumes "\<And>i. i < 7 \<Longrightarrow> h i = h' i"
  shows "header_core h = header_core h'"
  unfolding header_core_def extract_bits_from_byte_stream_def Let_def using assms by (simp add: upt_conv_Cons)

lemma set_header_cong:
  assumes "header_core h = header_core h'" "\<And>nm. header_name h nm = header_name h' nm"
  shows "set_header h tid s = set_header h' tid s"
  using assms unfolding set_header_def header_name_def Let_def by simp

text \<open>A data group is read as it was written.\<close>

lemma two_bytes: "n < 65536 \<Longrightarrow> unat (of_nat (n div 256) :: u8) * 256 + unat (of_nat n :: u8) = n"
  by (simp add: unat_of_nat)

lemma flagged_byte:
  fixes f :: bool
  assumes "q < 128"
  defines "w \<equiv> of_nat ((if f then 128 else 0) + q) :: u8"
  shows "bit w 7 \<longleftrightarrow> f" "unat (w AND 0x7f) = q"
proof -
  have w: "unat w = (if f then 128 else 0) + q"
    unfolding w_def unat_of_nat using assms(1) by simp
  show "bit w 7 \<longleftrightarrow> f"
    unfolding bit_odd w using assms(1) by (cases f) (simp_all add: div_add_self1)
  have "unat (w AND 0x7f) = unat w mod 2 ^ 7"
    using unat_and_mask [of w 7] by (simp add: mask_eq_exp_minus_1)
  then show "unat (w AND 0x7f) = q"
    unfolding w using assms(1) by simp
qed

lemma build_sent:
  fixes header final :: bool
  assumes "segno < 8192" "tid < 65536" "length payload < 8192"
  defines "g \<equiv> mot_group header final segno tid payload"
  assumes "ph_DataGroupLength s = int (length g)"
  shows "build_MSC_segment mem (g @ rest) s = s\<lparr>ph_MotObject :=
    (if header then set_header (\<lambda>i. ptr mem (g @ rest) (9 + i)) (int tid) (ph_MotObject s)
     else add_body_segment payload (int segno) final (int tid) (ph_MotObject s))\<rparr>"
proof -
  let ?body = "[if header then 0x73 else 0x74, 0, of_nat ((if final then 128 else 0) + segno div 256), of_nat segno, 0x12,
       of_nat (tid div 256), of_nat tid, of_nat (length payload div 256), of_nat (length payload)] @ payload :: u8 list"
  let ?d = "ptr mem (g @ rest)"
  have g: "g = append_crc ?body"
    by (simp add: g_def mot_group_def)
  then obtain c where c: "g = ?body @ c" "length c = 2"
    by (simp add: append_crc_def Let_def)
  have "check_crc_bytes ?d (length ?body)"
    using g by (intro append_crc_checks) (simp add: ptr_nth nth_append)
  moreover have "length ?body = 9 + length payload"
    by simp
  ultimately have crc: "check_crc_bytes ?d (9 + length payload)"
    by (simp only:)
  have d: "?d 0 = (if header then 0x73 else 0x74)" "?d 2 = of_nat ((if final then 128 else 0) + segno div 256)" "?d 3 = of_nat segno"
    "?d 4 = 0x12" "?d 5 = of_nat (tid div 256)" "?d 6 = of_nat tid" "?d 7 = of_nat (length payload div 256)" "?d 8 = of_nat (length payload)"
    unfolding c(1) by (simp_all add: ptr_def)
  have payload: "map (\<lambda>i. ?d (9 + i)) [0..<length payload] = payload"
    unfolding c(1) by (intro nth_equalityI) (simp_all add: ptr_def nth_append)
  have n: "min (int (length (g @ rest))) (ph_DataGroupLength s) = int (length ?body + 2)"
    using assms(5) c by simp
  have seg: "bit (?d 2) 7 \<longleftrightarrow> final" "unat (?d 2 AND 0x7f) * 256 + unat (?d 3) = segno"
    using flagged_byte [of "segno div 256" final] two_bytes [of segno] assms(1) unfolding d by (simp_all add: unat_of_nat)
  have len: "unat (?d 7 AND 0x1f) * 256 + unat (?d 8) = length payload"
  proof -
    have "unat (?d 7 AND 0x1f) = unat (?d 7) mod 2 ^ 5"
      using unat_and_mask [of "?d 7" 5] by (simp add: mask_eq_exp_minus_1)
    then show ?thesis
      using two_bytes [of "length payload"] assms(3) by (simp add: d unat_of_nat)
  qed
  have "unat (?d 5) * 256 + unat (?d 6) = tid"
    using two_bytes [OF assms(2)] by (simp add: d)
  then show ?thesis
    using crc seg len payload n by (simp add: build_MSC_segment_def Let_def d nat_add_distrib)
qed

text \<open>A group whose bytes make the object do \<open>f\<close>, whatever follows them.\<close>

definition builds :: "u8 list \<Rightarrow> (mot_object \<Rightarrow> mot_object) \<Rightarrow> bool" where
  "builds g f \<longleftrightarrow> 2 \<le> length g \<and> length g < 2 ^ 14 \<and>
     (\<forall>mem rest s. ph_DataGroupLength s = int (length g) \<longrightarrow>
        build_MSC_segment mem (g @ rest) s = s\<lparr>ph_MotObject := f (ph_MotObject s)\<rparr>)"

lemma event_builds:
  assumes "header_complete hdr" "length hdr < 8192" "list_all (\<lambda>t. length t < 8192) segs" "length segs \<le> 8192" "tid < 65536"
    and "case e of Header \<Rightarrow> True | Segment i \<Rightarrow> i < length segs"
  shows "builds (event_group hdr segs tid e) (mot_feed (ptr (\<lambda>_. 0) hdr) segs (int tid) e)"
proof (cases e)
  case Header
  let ?g = "mot_group True False 0 tid hdr"
  have l: "length ?g = length hdr + 11"
    by (simp add: mot_group_def)
  have "set_header (\<lambda>i. ptr mem (?g @ rest) (9 + i)) (int tid) x = set_header (ptr (\<lambda>_. 0) hdr) (int tid) x" for mem rest x
  proof -
    have "take (length hdr) (drop 9 ?g) = hdr"
      by (simp add: mot_group_def append_crc_def Let_def)
    then have "?g = take 9 ?g @ hdr @ drop (length hdr) (drop 9 ?g)"
      by (metis append_take_drop_id)
    moreover have "length (take 9 ?g) = 9"
      using l by simp
    ultimately obtain a c where "?g = a @ hdr @ c" "length a = 9"
      by blast
    then have eq: "(\<lambda>i. ptr mem (?g @ rest) (9 + i)) = ptr (ptr mem (c @ rest)) hdr"
      using ptr_append(1) [of mem a "hdr @ c @ rest"] ptr_append(2) [of mem hdr "c @ rest"] by (intro ext) simp
    show ?thesis
      unfolding eq by (intro set_header_cong header_core_cong) (use assms(1) in \<open>auto simp: header_complete_def ptr_def\<close>)
  qed
  then show ?thesis
    using assms(2,5) l Header build_sent [of 0 tid hdr _ True False] unfolding builds_def by simp
next
  case (Segment i)
  then have "length (segs ! i) < 8192" "i < 8192"
    using assms by (auto simp: list_all_length)
  moreover have "length (event_group hdr segs tid e) = length (segs ! i) + 11"
    by (simp add: Segment mot_group_def)
  ultimately show ?thesis
    using assms(5) Segment build_sent [of i tid "segs ! i" _ False "Suc i = length segs"] unfolding builds_def by simp
qed

definition msc_ready :: "pad_handler \<Rightarrow> bool" where
  "msc_ready s \<longleftrightarrow> ph_MscDataGroupBuffer s = []"

lemma pieces_13_ignored:
  assumes "list_all (\<lambda>(m, t, d). t = 13) xs" "msc_ready s"
  shows "ph_MotObject (apply_contents qt xs s) = ph_MotObject s \<and> msc_ready (apply_contents qt xs s)"
  using assms unfolding apply_contents_def
  by (induction xs arbitrary: s) (auto simp: handle_content_def Let_def add_MSC_element_def msc_ready_def)

lemma pieces_13_built:
  assumes "builds g f" "ph_DataGroupLength s = int (length g)" "ph_MscDataGroupBuffer s \<noteq> []" "length (ph_MscDataGroupBuffer s) < length g"
    and "list_all (\<lambda>(m, t, d). t = 13) xs" "ph_MscDataGroupBuffer s @ concat (map (snd \<circ> snd) xs) = g @ rest"
  shows "ph_MotObject (apply_contents qt xs s) = f (ph_MotObject s) \<and> msc_ready (apply_contents qt xs s)"
  using assms(2-6)
proof (induction xs arbitrary: s)
  case Nil
  then have "length (ph_MscDataGroupBuffer s) = length g + length rest"
    by (simp flip: length_append)
  then show ?case
    using Nil.prems(3) by simp
next
  case (Cons x xs)
  obtain m d where x: "x = (m, 13, d)"
    using Cons.prems(4) by (cases x) auto
  let ?b = "ph_MscDataGroupBuffer s @ d" and ?s = "handle_content qt m 13 d s"
  have g: "length g < 2 ^ 14" "\<And>rest s. ph_DataGroupLength s = int (length g) \<Longrightarrow>
      build_MSC_segment m (g @ rest) s = s\<lparr>ph_MotObject := f (ph_MotObject s)\<rparr>"
    using assms(1) by (simp_all add: builds_def)
  have run: "apply_contents qt (x # xs) s = apply_contents qt xs ?s"
    by (simp add: apply_contents_def x)
  show ?case
  proof (cases "length ?b < length g")
    case True
    have "?s = s\<lparr>ph_MscDataGroupBuffer := ?b, ph_LastAppType := 13\<rparr>"
      using True Cons.prems(1,2) g(1) by (simp add: handle_content_def Let_def add_MSC_element_def)
    then show ?thesis
      using Cons.IH [of ?s] Cons.prems True unfolding run by (simp add: x)
  next
    case False
    then have "take (length g) ?b = g"
      using arg_cong [OF Cons.prems(5), of "take (length g)"] by (simp add: x)
    then obtain r where r: "?b = g @ r"
      by (metis append_take_drop_id)
    have "?s = s\<lparr>ph_MscDataGroupBuffer := [], ph_MotObject := f (ph_MotObject s), ph_LastAppType := 13\<rparr>"
      using False Cons.prems(1,2) g(1) g(2) [of "s\<lparr>ph_MscDataGroupBuffer := ?b\<rparr>" r] r
      by (simp add: handle_content_def Let_def add_MSC_element_def)
    then show ?thesis
      using pieces_13_ignored [of xs ?s qt] Cons.prems(4) unfolding run by (simp add: msc_ready_def)
  qed
qed

lemma group_built:
  assumes "builds g f" "group_pieces g (map snd xs)"
  shows "ph_MotObject (apply_contents qt xs s) = f (ph_MotObject s) \<and> msc_ready (apply_contents qt xs s)"
proof -
  let ?len = "append_crc [of_nat (length g div 256), of_nat (length g)]"
  obtain c cs rest where ps: "map snd xs = (1, ?len) # (12, c) # map (Pair 13) cs" and c: "c \<noteq> []" "c @ concat cs = g @ rest"
    using assms(2) unfolding group_pieces_def by (elim exE conjE) (rule that)
  then obtain m1 m2 ys where xs: "xs = (m1, 1, ?len) # (m2, 12, c) # ys" and ys: "map snd ys = map (Pair 13) cs"
    by (auto simp: map_eq_Cons_conv)
  have "map (snd \<circ> snd) ys = map snd (map snd ys)"
    by simp
  also have "\<dots> = cs"
    unfolding ys by (simp add: comp_def)
  finally have cat: "concat (map (snd \<circ> snd) ys) = concat cs"
    by simp
  have "list_all (\<lambda>p. fst p = 13) (map snd ys)"
    unfolding ys by (simp add: list_all_iff)
  then have t: "list_all (\<lambda>(m, t, d). t = 13) ys"
    by (simp add: list_all_iff case_prod_beta)
  have g: "2 \<le> length g" "length g < 2 ^ 14" "\<And>mem rest s. ph_DataGroupLength s = int (length g) \<Longrightarrow>
      build_MSC_segment mem (g @ rest) s = s\<lparr>ph_MotObject := f (ph_MotObject s)\<rparr>"
    using assms(1) by (simp_all add: builds_def)
  define s1 where "s1 = s\<lparr>ph_DataGroupLength := int (length g), ph_LastAppType := 1\<rparr>"
  have "check_crc_bytes ((!) ?len) 2"
    using append_crc_checks [of "[of_nat (length g div 256), of_nat (length g)]" "(!) ?len"] by (simp add: numeral_2_eq_2)
  moreover have "unat (?len ! 0 AND 0x3f) * 256 + unat (?len ! 1) = length g"
  proof -
    have "unat (?len ! 0 AND 0x3f) = unat (?len ! 0) mod 2 ^ 6"
      using unat_and_mask [of "?len ! 0" 6] by (simp add: mask_eq_exp_minus_1)
    then show ?thesis
      using two_bytes [of "length g"] g(2) by (simp add: append_crc_def Let_def unat_of_nat)
  qed
  ultimately have "handle_content qt m1 1 ?len s = s1"
    by (simp add: handle_content_def s1_def)
  then have run: "apply_contents qt xs s = apply_contents qt ys (handle_content qt m2 12 c s1)"
    by (simp add: apply_contents_def xs)
  show ?thesis
  proof (cases "length c < length g")
    case True
    then have "ph_DataGroupLength (handle_content qt m2 12 c s1) = int (length g)"
        "ph_MscDataGroupBuffer (handle_content qt m2 12 c s1) = c" "ph_MotObject (handle_content qt m2 12 c s1) = ph_MotObject s"
      using g(2) by (simp_all add: handle_content_def new_MSC_element_def s1_def emit_pad_def Let_def)
    then show ?thesis
      using pieces_13_built [OF assms(1), of "handle_content qt m2 12 c s1" ys rest qt] True t c cat unfolding run by simp
  next
    case False
    then have "take (length g) c = g"
      using arg_cong [OF c(2), of "take (length g)"] by simp
    then obtain r where "c = g @ r"
      by (metis append_take_drop_id)
    then have "ph_MotObject (handle_content qt m2 12 c s1) = f (ph_MotObject s)" "msc_ready (handle_content qt m2 12 c s1)"
      using g(2) g(3) [of "s1\<lparr>ph_MscDataGroupBuffer := []\<rparr>" m2 r] False
      by (simp_all add: handle_content_def new_MSC_element_def s1_def emit_pad_def Let_def msc_ready_def)
    then show ?thesis
      using pieces_13_ignored [OF t, of "handle_content qt m2 12 c s1" qt] unfolding run by simp
  qed
qed

lemma indicators_ignored:
  "indicators (map snd xs) \<Longrightarrow> ph_MotObject (apply_contents qt xs s) = ph_MotObject s"
  unfolding apply_contents_def indicators_def
  by (induction xs arbitrary: s) (auto simp: handle_content_def)

lemma announced_built:
  assumes "builds g f" "announced_pieces g (map snd xs)"
  shows "ph_MotObject (apply_contents qt xs s) = f (ph_MotObject s)"
proof -
  obtain fs ys where xs: "xs = fs @ ys" "indicators (map snd fs)" "group_pieces g (map snd ys)"
    using assms(2) by (auto simp: announced_pieces_def map_eq_append_conv)
  then show ?thesis
    using group_built [OF assms(1) xs(3), of qt "apply_contents qt fs s"] indicators_ignored [OF xs(2), of qt s]
    by (simp add: apply_contents_def)
qed

lemma events_built:
  assumes "list_all2 (\<lambda>e xs. builds (gr e) (op e) \<and> announced_pieces (gr e) (map snd xs)) es xss"
  shows "ph_MotObject (apply_contents qt (concat xss) s) = fold op es (ph_MotObject s)"
  using assms
proof (induction es xss arbitrary: s rule: list_all2_induct)
  case (Cons e es xs xss)
  then show ?case
    using announced_built [of "gr e" "op e" xs qt s] by (simp add: apply_contents_def)
qed (simp add: apply_contents_def)

lemma concat_map_split: "map f ys = concat gs \<Longrightarrow> \<exists>yss. concat yss = ys \<and> map (map f) yss = gs"
proof (induction gs arbitrary: ys)
  case (Cons g gs)
  then obtain ys1 ys2 where ys: "ys = ys1 @ ys2" "map f ys1 = g" "map f ys2 = concat gs"
    by (auto simp: map_eq_append_conv)
  with Cons.IH [of ys2] obtain yss where "concat yss = ys2" "map (map f) yss = gs"
    by blast
  with ys show ?case
    by (intro exI [of _ "ys1 # yss"]) simp
qed simp

text \<open>
  C14: a multimedia object sent in the X-PAD is delivered: when the fields that arrive contain, among
  contents of other applications, data groups with the header or with body segments of one object, in
  any order and repeatedly, each announced by its length and cut into pieces in any way, then the object
  is delivered exactly when the header and all segments have arrived, as the segments put together. The
  length indicators of other applications (Journaline) may come before, between and behind these groups, but not
  between the length indicator of a group and its last piece: the handler keeps one announced length for all applications.
  The contents of the types 12 and 13 are those of the object.
\<close>

theorem pad_mot_received:
  assumes "segs \<noteq> []" "length segs \<le> 8192" "list_all (\<lambda>t. length t < 8192) segs"
    and "header_complete hdr" "length hdr < 8192" "tid < 65536"
    and "list_all (\<lambda>e. case e of Header \<Rightarrow> True | Segment i \<Rightarrow> i < length segs) es"
    and "list_all2 xpad_carried calls (CIs subs # xs)" "xpads_ok 0 (CIs subs # xs)"
    and "filter (\<lambda>(t, d). t \<in> {1, 12, 13}) (map snd (contents 0 (zip calls (CIs subs # xs)))) = concat gs @ fs"
    and "list_all2 announced_pieces (map (event_group hdr segs tid) es) gs" and "indicators fs"
  shows "set (objects_of (ph_MotObject (pad_run qt calls PadHandler))) =
    (if Header \<in> set es \<and> (\<forall>i<length segs. Segment i \<in> set es)
     then {signal_new_mot_object (concat segs) (object_name (ptr (\<lambda>_. 0) hdr) (int tid))
             (get_content_type (header_core (ptr (\<lambda>_. 0) hdr))) False}
     else {})"
proof -
  let ?h = "ptr (\<lambda>_. 0) hdr" and ?c = "contents 0 (zip calls (CIs subs # xs))"
  let ?mine = "filter (\<lambda>(m, t, d). t \<in> {1, 12, 13}) ?c"
  have "map snd ?mine = concat gs @ fs"
    unfolding assms(10) [symmetric] filter_map by (intro arg_cong [where f = "map snd"] filter_cong) auto
  then obtain own rest where mine: "?mine = own @ rest" "map snd own = concat gs" "map snd rest = fs"
    by (auto simp: map_eq_append_conv)
  then obtain xss where xss: "concat xss = own" "map (map snd) xss = gs"
    using concat_map_split by blast
  have "list_all2 (\<lambda>e xs. builds (event_group hdr segs tid e) (mot_feed ?h segs (int tid) e) \<and>
      announced_pieces (event_group hdr segs tid e) (map snd xs)) es xss"
    using assms(7,11) event_builds [OF assms(4,5,3,2,6)]
    by (auto simp: xss(2) [symmetric] list_all2_conv_all_nth list_all_length)
  then have built: "ph_MotObject (apply_contents qt ?mine PadHandler) = fold (mot_feed ?h segs (int tid)) es (ph_MotObject PadHandler)"
    using events_built [where qt = qt and s = PadHandler and es = es and xss = xss] indicators_ignored [of rest qt] assms(12)
    unfolding mine(1) by (simp add: xss(1) mine(3) apply_contents_def)
  have "ph_LastAppType PadHandler = 0"
    by (simp add: PadHandler_def)
  then have "msc_part (pad_run qt calls PadHandler) = msc_part (apply_contents qt ?mine PadHandler)"
    using mot_app.run_own [OF assms(8,9), of PadHandler qt] PadHandler_inv [of qt "[]"] by (simp add: pad_run_def)
  then have "ph_MotObject (pad_run qt calls PadHandler) = fold (mot_feed ?h segs (int tid)) es (ph_MotObject PadHandler)"
    using built by (simp add: msc_part_def)
  also have "ph_MotObject PadHandler = new_MotObject False True"
    by (simp add: PadHandler_def)
  finally show ?thesis
    using objects_received [OF assms(1,2,7), of "int tid" ?h False True] by simp
qed

text \<open>
  An image of one segment: its header in three subfields, its body in the third field, and between them and
  behind them the length indicators of another application, with a group of that application.
\<close>

definition image_header :: "u8 list" where
  "image_header = [0, 0, 0, 48, 3, 132, 1]"

definition image_fields :: "xpad list" where
  "image_fields =
     (let g1 = event_group image_header [[1, 2]] 7 Header; g2 = event_group image_header [[1, 2]] 7 (Segment 0)
      in [CIs [(1, append_crc [0, 18]), (108, take 12 g1), (77, drop 12 g1 @ [0, 0])],
          CIs [(1, append_crc [0, 4]), (8, [1, 2, 3, 4])],
          CIs [(1, append_crc [0, 13]), (140, g2 @ [0, 0, 0]), (1, append_crc [0, 9])]])"

lemma image_header_core:
  "header_core (ptr mem image_header) = \<lparr>hc_initialized = True, hc_bodySize = 3, hc_headerSize = 7, hc_contentType = 2, hc_contentSubType = 1\<rparr>"
proof -
  have "header_core (ptr mem image_header) = header_core (\<lambda>i. [0, 0, 0, 48, 3, 132, 1] ! i)"
    by (rule header_core_cong) (simp add: ptr_def image_header_def)
  also have "\<dots> = \<lparr>hc_initialized = True, hc_bodySize = 3, hc_headerSize = 7, hc_contentType = 2, hc_contentSubType = 1\<rparr>"
    by code_simp
  finally show ?thesis .
qed

lemma pad_mot_received_witness:
  "set (objects_of (ph_MotObject (pad_run \<lparr>fromUtf16 = \<lambda>b n. [], fromUtf8 = \<lambda>b n. []\<rparr>
      (map (bytes_call 2 \<circ> xpad_bytes) image_fields) PadHandler))) =
   {signal_new_mot_object [1, 2] [116, 114, 105, 100, 95, 55] 513 False}"
proof -
  let ?qt = "\<lparr>fromUtf16 = \<lambda>b n. [], fromUtf8 = \<lambda>b n. []\<rparr>" and ?segs = "[[1, 2]] :: u8 list list" and ?es = "[Header, Segment 0]"
    and ?fs = "[(1, append_crc [0, 9])] :: (nat \<times> u8 list) list"
  let ?g1 = "event_group image_header ?segs 7 Header" and ?g2 = "event_group image_header ?segs 7 (Segment 0)"
  let ?gs = "[[(1, append_crc [0, 18]), (12, take 12 ?g1), (13, drop 12 ?g1 @ [0, 0])], 
      [(1, append_crc [0, 4]), (1, append_crc [0, 13]), (12, ?g2 @ [0, 0, 0])]] :: (nat \<times> u8 list) list list"
  have l: "length ?g1 = 18" "length ?g2 = 13"
    by (simp_all add: mot_group_def image_header_def)
  have types: "get_appl_type 1 = 1" "get_appl_type 108 = 12" "get_appl_type 77 = 13" "get_appl_type 140 = 12" "get_appl_type 8 = 8"
    "get_length 1 = 4" "get_length 8 = 4" "get_length 108 = 12" "get_length 77 = 8" "get_length 140 = 16"
    by (simp_all add: get_appl_type_def get_length_def cLengthTable_def)
  have name: "header_name (ptr mem image_header) nm = nm" for mem nm
    by (simp add: header_name_def image_header_core header_extensions.simps [of _ 7 7])
  obtain subs xs where f: "image_fields = CIs subs # xs"
    by (simp add: image_fields_def Let_def)
  have hc: "header_complete image_header"
    by (simp add: header_complete_def name) (simp add: image_header_def)
  have p1: "group_pieces ?g1 (?gs ! 0)"
    unfolding group_pieces_def l
    by (intro exI [of _ "take 12 ?g1"] exI [of _ "[drop 12 ?g1 @ [0, 0]]"] exI [of _ "[0, 0]"]) (use l in auto)
  have p2: "group_pieces ?g2 (drop 1 (?gs ! 1))"
    unfolding group_pieces_def l
    by (intro exI [of _ "?g2 @ [0, 0, 0]"] exI [of _ "[]"] exI [of _ "[0, 0, 0]"]) (use l in auto)
  have "announced_pieces ?g1 ([] @ ?gs ! 0)" "announced_pieces ?g2 ([(1, append_crc [0, 4])] @ drop 1 (?gs ! 1))"
    by (rule announcedI [OF _ p1], simp add: indicators_def) (rule announcedI [OF _ p2], simp add: indicators_def)
  then have gs: "list_all2 announced_pieces (map (event_group image_header ?segs 7) ?es) ?gs"
    by (simp del: event_group.simps)
  have fs: "indicators ?fs" by (simp add: indicators_def)
  have carry: "list_all2 xpad_carried (map (bytes_call 2 \<circ> xpad_bytes) image_fields) (CIs subs # xs)"
    unfolding f [symmetric] using bytes_call_carries(1) by (simp add: image_fields_def Let_def del: xpad_bytes.simps)
  have ok: "xpads_ok 0 (CIs subs # xs)"
    unfolding f [symmetric] using l by (simp add: image_fields_def Let_def indicator_ok_def types del: event_group.simps)
  have own: "filter (\<lambda>(t, d). t \<in> {1, 12, 13})
      (map snd (contents 0 (zip (map (bytes_call 2 \<circ> xpad_bytes) image_fields) (CIs subs # xs)))) = concat ?gs @ ?fs"
    unfolding f [symmetric] by (simp add: image_fields_def Let_def types del: event_group.simps)
  have "set (objects_of (ph_MotObject (pad_run ?qt (map (bytes_call 2 \<circ> xpad_bytes) image_fields) PadHandler))) =
    {signal_new_mot_object (concat ?segs) (object_name (ptr (\<lambda>_. 0) image_header) (int 7))
             (get_content_type (header_core (ptr (\<lambda>_. 0) image_header))) False}"
    using pad_mot_received [OF _ _ _ hc _ _ _ carry ok own gs fs, of ?qt] by (simp add: image_header_def)
  then show ?thesis
    by (simp add: object_name_def name image_header_core decimal.simps [of 7] get_content_type_def MOTCTBaseTypeMask_def MOTCTSubTypeMask_def)
qed

end
