(* ===== verification/Spec2Isabelle.thy ===== *)
theory Spec2Isabelle
  imports Ring_Buffer_Threads Msc_Handler Fic_Decoder Freq_Interleaver Reception Mot_Handler Pad_Properties
begin

text \<open>
  A verification library for DABstar, a receiver for digital radio (DAB and DAB+, ETSI EN 300 401,
  TS 102 563, EN 301 234).

  \<^bold>\<open>The program and its parts.\<close>  A device delivers samples; the OFDM demodulator turns them into soft
  bits, 75 symbols per frame.  The first three symbols are the fast information channel: \<^verbatim>\<open>FicDecoder\<close>
  de-punctures and decodes them into FIBs, and \<^verbatim>\<open>FibDecoder\<close> collects from the FIBs the configuration of
  the multiplex (sub-channels, services, labels, announcements, time).  The other symbols are the main
  service channel: \<^verbatim>\<open>MscHandler\<close> collects four CIFs per frame and hands every running \<^verbatim>\<open>Backend\<close> its
  capacity units; a backend de-interleaves over 16 CIFs, de-punctures, runs the Viterbi decoder, undoes
  the energy dispersal and gives the frame to an audio or data processor.  \<^verbatim>\<open>Mp4Processor\<close> assembles DAB+
  superframes (fire code, Reed-Solomon code, access units, LATM frames) and passes the programme
  associated data to \<^verbatim>\<open>PadHandler\<close>, which shows labels and collects multimedia objects (\<^verbatim>\<open>MotObject\<close>);
  \<^verbatim>\<open>DataProcessor\<close> reassembles data groups from packets.  Ring buffers connect the threads.

  \<^bold>\<open>Theories and sources\<close> (paths below \<^verbatim>\<open>src/src/\<close>).
  \<^item> \<open>Prelude\<close>: names for the integer types of \<^verbatim>\<open>common/glob_data_types.h\<close>, generic lemmas on words, masks,
    block copies and searches, and the collections of simplification rules.
  \<^item> \<open>Dab_Constants\<close>: \<^verbatim>\<open>common/dab_constants.h\<close>, \<^verbatim>\<open>common/glob_defs.h\<close>, \<^verbatim>\<open>base/main/dab_channel_desc.h\<close>.
  \<^item> \<open>Ring_Buffer\<close>, \<open>Ring_Buffer_Threads\<close>: \<^verbatim>\<open>common/ringbuffer.h\<close>, sequentially and as two threads that
    interleave between reserving, copying and publishing.
  \<^item> \<open>Bit_Extractors\<close>, \<open>Crc\<close>, \<open>Firecode\<close>, \<open>Galois_Field\<close>, \<open>Reed_Solomon\<close>, \<open>Key_Equation\<close>, \<open>Rs_Correction\<close>: \<^verbatim>\<open>base/main/bit_extractors.h\<close>,
    \<^verbatim>\<open>base/backend/crc.cpp\<close>, \<^verbatim>\<open>firecode_checker.cpp\<close>, \<^verbatim>\<open>galois.cpp\<close>, \<^verbatim>\<open>reed_solomon.cpp\<close>.
  \<^item> \<open>Viterbi\<close>, \<open>Viterbi_Erasures\<close>: \<^verbatim>\<open>base/support/viterbi_spiral\<close> (the generic decoder and the error count).
  \<^item> \<open>Protection\<close>, \<open>Punctured_Codes\<close>: \<^verbatim>\<open>base/protection\<close>, and the code of every protection profile.
  \<^item> \<open>Backend\<close>, \<open>Msc_Handler\<close>: \<^verbatim>\<open>base/backend/backend*.cpp\<close>, \<^verbatim>\<open>msc_handler.cpp\<close>.
  \<^item> \<open>Fib_Config\<close>, \<open>Fib_State\<close>, \<open>Fib_Fig0\<close>, \<open>Fib_Fig0_Si\<close>, \<open>Fib_Decoder\<close>, \<open>Charsets\<close>: \<^verbatim>\<open>base/decoder/fib_*.cpp\<close>,
    \<^verbatim>\<open>base/backend/charsets.cpp\<close>; \<open>Fib_Invariant\<close> and \<open>Fib_Properties\<close> hold the reachable states and what is true in
    them, \<open>Small_Ensemble\<close> evaluates the decoder on the FIBs of small ensembles.
  \<^item> \<open>Fic_Decoder\<close>, \<open>Freq_Interleaver\<close>: \<^verbatim>\<open>base/decoder/fic_decoder.cpp\<close>, \<^verbatim>\<open>base/ofdm/freq_interleaver.cpp\<close>.
  \<^item> \<open>Data_Processor\<close>, \<open>Bit_Writer\<close>, \<open>Mp4_Processor\<close>: \<^verbatim>\<open>base/backend/data/data_processor.cpp\<close>,
    \<^verbatim>\<open>base/backend/audio/bit_writer.cpp\<close>, \<^verbatim>\<open>mp4processor.cpp\<close>.
  \<^item> \<open>Mot_Object\<close>, \<open>Pad_Handler\<close>, \<open>Pad_Properties\<close>, \<open>Mot_Handler\<close>: \<^verbatim>\<open>base/backend/data/mot/*.cpp\<close>, \<^verbatim>\<open>base/backend/data/pad_handler.cpp\<close>.
  \<^item> \<open>Reception\<close>: the composition, from the configuration of a reachable FIB decoder to what the audio and
    data processors receive.

  Every class is a record with its data members, every method a function from the state to the new
  state; signals and calls of code outside the model are appended to a list in the state.  Integers keep
  their width where the code depends on it (words, or explicit reduction); where only values that fit can
  occur they are numbers.  Accesses outside a vector are either the value \<open>None\<close> or read from a memory that
  is an argument, and the theorems then hold for every memory.

  \<^bold>\<open>What the lemmas show.\<close>  Codes: the table-driven CRC is the serial one and detects bursts; the fire code
  that reports a correction returns a code word that differs by one of its error patterns; the Reed-Solomon
  decoder corrects up to five wrong bytes of a code word (the Berlekamp-Massey iteration finds the
  shortest recurrence of the syndromes, its roots are the places of the errors and the formula of Forney
  gives their values); the Viterbi decoder returns a message of
  minimal distance among all start states, where a start state other than zero counts 1000, hence of minimal distance among the messages
  from state zero when one of them is close enough, and, with the punctured codes, recovers what was sent whenever the soft bits have the
  right sign and are strong enough; the error count counts.  Data paths: ring buffers are queues, also under all
  interleavings of one writer and one reader; a backend delivers exactly the frames of its sub-channel;
  data groups, superframes, access units, labels and objects arrive as they were sent; where the access
  units of a superframe lie is stated by the bit layout of its header.  The table of multimedia objects is a queue
  of the last fifteen.  FIB decoder: it
  returns for every FIB and every memory behind it, its tables stay well-formed, sub-channels never
  overlap, and complete data is really complete.  Composition: a service the FIB decoder describes with a known bit rate can
  be started and its frames arrive; a packet service may be joined at any continuity index, and the data groups arrive
  from the first index 0 on.

  The interfaces between the parts are locales (queues, bit readers, the field, applications sharing the
  X-PAD, \<dots>), each interpreted on the definitions of the model.

  \<^bold>\<open>Bounds and fuel.\<close>  The loop over the entries of a FIG has fuel 256, because its length is a byte; the
  loop over the FIGs of a FIB decreases its rest.  The clock is read once per FIB.  The operations of the FIB decoder
  are atomic; three of them take no lock in the source, and a stop of a timer is queued there.  Counts of repetitions and
  the order numbers of multimedia objects are unbounded, where the source has 32 bits.  A FIB is followed in
  memory by what the decoder has left there.  Members the code does not initialise are arguments of the
  constructor.  Recovery theorems take soft bits of strength 56 at least: then one kept
  bit outweighs the cost that erased bits add to the metrics of the decoder.  A superframe has at most 170 columns, since the frame size is kept in 16 bits.  The AAC
  decoder is a function of the history of events.  The search for the inverse of the primitive element
  has as fuel the number of candidates that can differ.

  \<^bold>\<open>Not modelled.\<close>  Sample processing (OFDM synchronisation and demodulation, TII, scopes, resampling,
  MP2 synthesis) is floating point; the AAC decoders, FFT and device drivers are external libraries; the
  SIMD variants of the Viterbi decoder are alternatives of the generic one; user interface, data bases,
  network servers and file output are glue around Qt; the Journaline and EPG decoders are vendored or only
  print.  The handlers of IP, TDC and Journaline data groups are left out; they pass the groups on to other programs.
\<close>

end
